(* ===== verification/Prelude.thy ===== *)
theory Prelude
  imports Main "HOL-Library.Word" "HOL-Library.Monad_Syntax"
begin

text \<open>
  Shared vocabulary of the development: the fixed-width integer types of the C sources
  (\<open>u8\<close> to \<open>u64\<close>), guarded array access (a read or write outside the array
  is the value \<open>None\<close>, where C has undefined behaviour), the word lemmas that move
  arithmetic without wrap-around to natural numbers, and the collections of simplification
  rules the component theories extend.
\<close>

type_synonym u8 = "8 word"
type_synonym u16 = "16 word"
type_synonym u32 = "32 word"
type_synonym u64 = "64 word"

named_theorems aget_simps \<open>rules for guarded array reads and writes\<close>

section \<open>Guarded array access\<close>

definition aget :: "'a list \<Rightarrow> nat \<Rightarrow> 'a option" where
  "aget xs i = (if i < length xs then Some (xs ! i) else None)"

definition aset :: "'a list \<Rightarrow> nat \<Rightarrow> 'a \<Rightarrow> 'a list option" where
  "aset xs i x = (if i < length xs then Some (xs[i := x]) else None)"

lemma aget_Some [aget_simps]: "i < length xs \<Longrightarrow> aget xs i = Some (xs ! i)"
  by (simp add: aget_def)

lemma aset_Some [aget_simps]: "i < length xs \<Longrightarrow> aset xs i x = Some (xs[i := x])"
  by (simp add: aset_def)

lemma aget_eq_Some [simp]: "aget xs i = Some x \<longleftrightarrow> i < length xs \<and> xs ! i = x"
  by (auto simp: aget_def)

lemma aset_eq_Some [simp]: "aset xs i x = Some ys \<longleftrightarrow> i < length xs \<and> ys = xs[i := x]"
  by (auto simp: aset_def)

lemma aget_eq_None [simp]: "aget xs i = None \<longleftrightarrow> length xs \<le> i"
  by (auto simp: aget_def)

lemma aset_eq_None [simp]: "aset xs i x = None \<longleftrightarrow> length xs \<le> i"
  by (auto simp: aset_def)

section \<open>Words without wrap-around\<close>

lemma unat_add_nowrap:
  fixes a b :: "'a::len word"
  assumes "unat a + unat b < 2 ^ LENGTH('a)"
  shows "unat (a + b) = unat a + unat b"
  using assms by (simp add: unat_word_ariths)

lemma unat_sub_nowrap:
  fixes a b :: "'a::len word"
  assumes "unat b \<le> unat a"
  shows "unat (a - b) = unat a - unat b"
  using assms by (simp add: unat_sub word_le_nat_alt)

lemma unat_eq_iff: "(a = b) = (unat a = unat b)"
  by (auto simp: word_unat_eq_iff)

lemma of_nat_less_word_iff:
  fixes w :: "'a::len word"
  assumes "n < 2 ^ LENGTH('a)"
  shows "(of_nat n < w) = (n < unat w)"
  using assms by (simp add: word_less_nat_alt take_bit_nat_eq_self unat_of_nat)

lemma unat_Suc_less:
  fixes i :: "'a::len word"
  assumes "i < w"
  shows "unat (i + 1) = Suc (unat i)"
proof -
  have "unat i < unat w" using assms by (simp add: word_less_nat_alt)
  then have "unat i + 1 < 2 ^ LENGTH('a)"
    using unsigned_less [of w, where 'a = nat] by linarith
  then show ?thesis by (simp add: unat_word_ariths)
qed

lemma unat_of_nat_small:
  "n < 2 ^ LENGTH('a::len) \<Longrightarrow> unat (of_nat n :: 'a word) = n"
  by (simp add: take_bit_nat_eq_self unat_of_nat)

end
