(* ===== verification/Lmb.thy ===== *)
theory Lmb
  imports Prelude
begin

unbundle bit_operations_syntax

text \<open>
  Logical memory blocks, U-Boot \<^verbatim>\<open>lib/lmb.c\<close> and \<^verbatim>\<open>include/lmb.h\<close>:
  two tables of address ranges, the memory the board has and the parts of it that are in use,
  and the allocator the image loader takes its load addresses from. Addresses, sizes and
  the table counters are 64-bit words (a 64-bit target with \<^verbatim>\<open>CONFIG_PHYS_64BIT\<close>); a table
  is the whole C array, the stale entries past \<open>cnt\<close> included. An access outside the
  array is \<open>None\<close>. The \<open>long\<close> results are integers.
\<close>

section \<open>Data\<close>

definition MAX_LMB_REGIONS :: nat where
  "MAX_LMB_REGIONS = 8"

record lmb_property =
  lp_base :: u64
  lp_size :: u64

record lmb_region =
  cnt :: u64
  rsize :: u64
  region :: "lmb_property list"

record lmb =
  memory :: lmb_region
  reserved :: lmb_region

section \<open>Operations\<close>

definition lmb_addrs_overlap :: "u64 \<Rightarrow> u64 \<Rightarrow> u64 \<Rightarrow> u64 \<Rightarrow> bool" where
  "lmb_addrs_overlap base1 size1 base2 size2 \<longleftrightarrow>
     base1 < base2 + size2 \<and> base2 < base1 + size1"

definition lmb_addrs_adjacent :: "u64 \<Rightarrow> u64 \<Rightarrow> u64 \<Rightarrow> u64 \<Rightarrow> int" where
  "lmb_addrs_adjacent base1 size1 base2 size2 =
     (if base2 = base1 + size1 then 1
      else if base1 = base2 + size2 then -1
      else 0)"

definition lmb_regions_adjacent :: "lmb_region \<Rightarrow> nat \<Rightarrow> nat \<Rightarrow> int option" where
  "lmb_regions_adjacent rgn r1 r2 = do {
     p1 \<leftarrow> aget (region rgn) r1;
     p2 \<leftarrow> aget (region rgn) r2;
     Some (lmb_addrs_adjacent (lp_base p1) (lp_size p1) (lp_base p2) (lp_size p2))
   }"

text \<open>
  The loop bound \<open>rgn->cnt - 1\<close> is unsigned: with an empty table it is the largest
  word, and the loop leaves the array.
\<close>

function lmb_remove_loop :: "u64 \<Rightarrow> lmb_region \<Rightarrow> lmb_region option" where
  "lmb_remove_loop i rgn =
     (if i < cnt rgn - 1
      then do {
        p \<leftarrow> aget (region rgn) (unat (i + 1));
        reg \<leftarrow> aset (region rgn) (unat i) p;
        lmb_remove_loop (i + 1) (rgn\<lparr>region := reg\<rparr>)
      }
      else Some rgn)"
  by pat_completeness auto
termination
proof (relation "measure (\<lambda>(i, rgn). unat (cnt rgn - 1) - unat i)", goal_cases)
  case 1
  then show ?case by simp
next
  case (2 i rgn p reg)
  then have "unat (i + 1) = Suc (unat i)"
    by (blast intro: unat_Suc_less)
  moreover have "unat i < unat (cnt rgn - 1)"
    using 2 by (simp add: word_less_nat_alt)
  ultimately show ?case by simp
qed

declare lmb_remove_loop.simps [simp del]

definition lmb_remove_region :: "lmb_region \<Rightarrow> nat \<Rightarrow> lmb_region option" where
  "lmb_remove_region rgn r = do {
     rgn' \<leftarrow> lmb_remove_loop (of_nat r) rgn;
     Some (rgn'\<lparr>cnt := cnt rgn' - 1\<rparr>)
   }"

definition lmb_coalesce_regions :: "lmb_region \<Rightarrow> nat \<Rightarrow> nat \<Rightarrow> lmb_region option" where
  "lmb_coalesce_regions rgn r1 r2 = do {
     p1 \<leftarrow> aget (region rgn) r1;
     p2 \<leftarrow> aget (region rgn) r2;
     reg \<leftarrow> aset (region rgn) r1 (p1\<lparr>lp_size := lp_size p1 + lp_size p2\<rparr>);
     lmb_remove_region (rgn\<lparr>region := reg\<rparr>) r2
   }"

text \<open>\<open>lmb_init\<close> writes entry 0 and the two counters of each table and nothing else.\<close>

definition lmb_init_region :: "lmb_region \<Rightarrow> lmb_region option" where
  "lmb_init_region rgn = do {
     reg \<leftarrow> aset (region rgn) 0 \<lparr>lp_base = 0, lp_size = 0\<rparr>;
     Some (rgn\<lparr>region := reg, cnt := 1, rsize := 0\<rparr>)
   }"

definition lmb_init :: "lmb \<Rightarrow> lmb option" where
  "lmb_init l = do {
     m \<leftarrow> lmb_init_region (memory l);
     r \<leftarrow> lmb_init_region (reserved l);
     Some (l\<lparr>memory := m, reserved := r\<rparr>)
   }"

text \<open>
  The first loop of \<open>lmb_add_region\<close>: it returns the index it stopped at, the table and
  how many entries were merged, or \<open>None\<close> inside for the early return of a range that
  is already there.
\<close>

function lmb_add_coalesce ::
  "nat \<Rightarrow> lmb_region \<Rightarrow> u64 \<Rightarrow> u64 \<Rightarrow> (nat \<times> lmb_region \<times> nat) option option" where
  "lmb_add_coalesce i rgn base sz =
     (if i < unat (cnt rgn)
      then do {
        p \<leftarrow> aget (region rgn) i;
        if lp_base p = base \<and> lp_size p = sz then Some None
        else let adjacent = lmb_addrs_adjacent base sz (lp_base p) (lp_size p) in
          if adjacent > 0 then do {
            reg \<leftarrow> aset (region rgn) i
                     \<lparr>lp_base = lp_base p - sz, lp_size = lp_size p + sz\<rparr>;
            Some (Some (i, rgn\<lparr>region := reg\<rparr>, 1))
          }
          else if adjacent < 0 then do {
            reg \<leftarrow> aset (region rgn) i (p\<lparr>lp_size := lp_size p + sz\<rparr>);
            Some (Some (i, rgn\<lparr>region := reg\<rparr>, 1))
          }
          else lmb_add_coalesce (Suc i) rgn base sz
      }
      else Some (Some (i, rgn, 0)))"
  by pat_completeness auto
termination
  by (relation "measure (\<lambda>(i, rgn, _). unat (cnt rgn) - i)") auto

declare lmb_add_coalesce.simps [simp del]

text \<open>
  The insertion loop: its argument is \<open>i + 1\<close> of the C loop
  \<^verbatim>\<open>for (i = rgn->cnt-1; i >= 0; i--)\<close>, so 0 is the exit.
\<close>

fun lmb_insert_loop :: "nat \<Rightarrow> lmb_property list \<Rightarrow> u64 \<Rightarrow> u64 \<Rightarrow> lmb_property list option" where
  "lmb_insert_loop 0 reg base sz = Some reg"
| "lmb_insert_loop (Suc i) reg base sz = do {
     p \<leftarrow> aget reg i;
     if base < lp_base p then do {
       reg' \<leftarrow> aset reg (Suc i) p;
       lmb_insert_loop i reg' base sz
     }
     else aset reg (Suc i) \<lparr>lp_base = base, lp_size = sz\<rparr>
   }"

text \<open>The second step: the entry the loop stopped at is joined with the next one.\<close>

definition lmb_add_join :: "lmb_region \<Rightarrow> nat \<Rightarrow> nat \<Rightarrow> (lmb_region \<times> nat) option" where
  "lmb_add_join rgn i coalesced =
     (if of_nat i < cnt rgn - 1 then do {
        adj \<leftarrow> lmb_regions_adjacent rgn i (i + 1);
        if adj \<noteq> 0 then do {
          rgn' \<leftarrow> lmb_coalesce_regions rgn i (i + 1);
          Some (rgn', coalesced + 1)
        }
        else Some (rgn, coalesced)
      }
      else Some (rgn, coalesced))"

text \<open>The last step: the range is added to the sorted table.\<close>

definition lmb_add_sorted :: "lmb_region \<Rightarrow> u64 \<Rightarrow> u64 \<Rightarrow> lmb_region option" where
  "lmb_add_sorted rgn base sz = do {
     reg \<leftarrow> lmb_insert_loop (unat (cnt rgn)) (region rgn) base sz;
     q0 \<leftarrow> aget reg 0;
     reg \<leftarrow> (if base < lp_base q0
               then aset reg 0 \<lparr>lp_base = base, lp_size = sz\<rparr>
               else Some reg);
     Some (rgn\<lparr>region := reg, cnt := cnt rgn + 1\<rparr>)
   }"

definition lmb_add_region :: "lmb_region \<Rightarrow> u64 \<Rightarrow> u64 \<Rightarrow> (int \<times> lmb_region) option" where
  "lmb_add_region rgn base sz = do {
     p0 \<leftarrow> aget (region rgn) 0;
     if cnt rgn = 1 \<and> lp_size p0 = 0 then do {
       reg \<leftarrow> aset (region rgn) 0 \<lparr>lp_base = base, lp_size = sz\<rparr>;
       Some (0, rgn\<lparr>region := reg\<rparr>)
     }
     else do {
       r \<leftarrow> lmb_add_coalesce 0 rgn base sz;
       case r of
         None \<Rightarrow> Some (0, rgn)
       | Some (i, rgn, coalesced) \<Rightarrow> do {
           (rgn, coalesced) \<leftarrow> lmb_add_join rgn i coalesced;
           if coalesced \<noteq> 0 then Some (int coalesced, rgn)
           else if cnt rgn \<ge> of_nat MAX_LMB_REGIONS then Some (-1, rgn)
           else do {
             rgn \<leftarrow> lmb_add_sorted rgn base sz;
             Some (0, rgn)
           }
         }
     }
   }"

definition lmb_add :: "lmb \<Rightarrow> u64 \<Rightarrow> u64 \<Rightarrow> (int \<times> lmb) option" where
  "lmb_add l base sz = do {
     (r, rgn) \<leftarrow> lmb_add_region (memory l) base sz;
     Some (r, l\<lparr>memory := rgn\<rparr>)
   }"

definition lmb_reserve :: "lmb \<Rightarrow> u64 \<Rightarrow> u64 \<Rightarrow> (int \<times> lmb) option" where
  "lmb_reserve l base sz = do {
     (r, rgn) \<leftarrow> lmb_add_region (reserved l) base sz;
     Some (r, l\<lparr>reserved := rgn\<rparr>)
   }"

text \<open>The search loop of \<open>lmb_free\<close>: the index it stops at, \<open>cnt\<close> when nothing fits.\<close>

function lmb_free_find :: "nat \<Rightarrow> lmb_region \<Rightarrow> u64 \<Rightarrow> u64 \<Rightarrow> nat option" where
  "lmb_free_find i rgn base end =
     (if i < unat (cnt rgn)
      then do {
        p \<leftarrow> aget (region rgn) i;
        if lp_base p \<le> base \<and> end \<le> lp_base p + lp_size p then Some i
        else lmb_free_find (Suc i) rgn base end
      }
      else Some i)"
  by pat_completeness auto
termination
  by (relation "measure (\<lambda>(i, rgn, _). unat (cnt rgn) - i)") auto

declare lmb_free_find.simps [simp del]

definition lmb_free :: "lmb \<Rightarrow> u64 \<Rightarrow> u64 \<Rightarrow> (int \<times> lmb) option" where
  "lmb_free l base sz = do {
     let rgn = reserved l;
     let end = base + sz;
     i \<leftarrow> lmb_free_find 0 rgn base end;
     if i = unat (cnt rgn) then Some (-1, l)
     else do {
       p \<leftarrow> aget (region rgn) i;
       let rgnbegin = lp_base p;
       let rgnend = rgnbegin + lp_size p;
       if rgnbegin = base \<and> rgnend = end then do {
         rgn' \<leftarrow> lmb_remove_region rgn i;
         Some (0, l\<lparr>reserved := rgn'\<rparr>)
       }
       else if rgnbegin = base then do {
         reg \<leftarrow> aset (region rgn) i \<lparr>lp_base = end, lp_size = lp_size p - sz\<rparr>;
         Some (0, l\<lparr>reserved := rgn\<lparr>region := reg\<rparr>\<rparr>)
       }
       else if rgnend = end then do {
         reg \<leftarrow> aset (region rgn) i (p\<lparr>lp_size := lp_size p - sz\<rparr>);
         Some (0, l\<lparr>reserved := rgn\<lparr>region := reg\<rparr>\<rparr>)
       }
       else do {
         reg \<leftarrow> aset (region rgn) i (p\<lparr>lp_size := base - lp_base p\<rparr>);
         (r, rgn') \<leftarrow> lmb_add_region (rgn\<lparr>region := reg\<rparr>) end (rgnend - end);
         Some (r, l\<lparr>reserved := rgn'\<rparr>)
       }
     }
   }"

function lmb_overlaps_loop :: "nat \<Rightarrow> lmb_region \<Rightarrow> u64 \<Rightarrow> u64 \<Rightarrow> nat option" where
  "lmb_overlaps_loop i rgn base sz =
     (if i < unat (cnt rgn)
      then do {
        p \<leftarrow> aget (region rgn) i;
        if lmb_addrs_overlap base sz (lp_base p) (lp_size p) then Some i
        else lmb_overlaps_loop (Suc i) rgn base sz
      }
      else Some i)"
  by pat_completeness auto
termination
  by (relation "measure (\<lambda>(i, rgn, _). unat (cnt rgn) - i)") auto

declare lmb_overlaps_loop.simps [simp del]

definition lmb_overlaps_region :: "lmb_region \<Rightarrow> u64 \<Rightarrow> u64 \<Rightarrow> int option" where
  "lmb_overlaps_region rgn base sz = do {
     i \<leftarrow> lmb_overlaps_loop 0 rgn base sz;
     Some (if i < unat (cnt rgn) then int i else -1)
   }"

definition lmb_align_down :: "u64 \<Rightarrow> u64 \<Rightarrow> u64" where
  "lmb_align_down addr sz = addr AND NOT (sz - 1)"

definition lmb_align_up :: "u64 \<Rightarrow> u64 \<Rightarrow> u64" where
  "lmb_align_up addr sz = (addr + (sz - 1)) AND NOT (sz - 1)"

lemma lmb_align_down_le: "lmb_align_down a al \<le> a"
  by (simp add: lmb_align_down_def word_and_le2)

lemma lmb_overlaps_loop_Some:
  "lmb_overlaps_loop i rgn base sz = Some j \<Longrightarrow>
     i \<le> j \<and> (j < unat (cnt rgn) \<longrightarrow> j < length (region rgn) \<and>
       lmb_addrs_overlap base sz (lp_base (region rgn ! j)) (lp_size (region rgn ! j)))"
proof (induction i rgn base sz rule: lmb_overlaps_loop.induct)
  case (1 i rgn base sz)
  then show ?case
    by (auto simp: lmb_overlaps_loop.simps [of i rgn base sz]
        split: if_splits Option.bind_splits)
qed

text \<open>
  Each round of the search moves strictly down: the next candidate ends where a reserved
  range that overlaps the present one begins. This holds with wrap-around too.
\<close>

lemma lmb_alloc_descends:
  assumes "lmb_addrs_overlap base sz rb rs" and "sz \<le> rb"
  shows "lmb_align_down (rb - sz) al < base"
proof -
  have "rb < base + sz" using assms(1) by (simp add: lmb_addrs_overlap_def)
  then have "unat rb < unat (base + sz)" by (simp add: word_less_nat_alt)
  also have "\<dots> \<le> unat base + unat sz"
    by (simp add: unat_word_ariths)
  finally have "unat (rb - sz) < unat base"
    using assms(2) by (simp add: unat_sub_nowrap word_le_nat_alt) 
  then have "rb - sz < base" by (simp add: word_less_nat_alt)
  then show ?thesis using lmb_align_down_le by (rule le_less_trans [rotated])
qed

text \<open>
  The inner loop of \<open>__lmb_alloc_base\<close>: \<open>Some None\<close> when it is left without a
  result, so that the next memory range is tried.
\<close>

function lmb_alloc_while ::
  "lmb \<Rightarrow> u64 \<Rightarrow> u64 \<Rightarrow> u64 \<Rightarrow> u64 \<Rightarrow> (u64 \<times> lmb) option option" where
  "lmb_alloc_while l lmbbase sz align base =
     (if base \<noteq> 0 \<and> lmbbase \<le> base
      then do {
        j \<leftarrow> lmb_overlaps_region (reserved l) base sz;
        if j < 0 then do {
          (r, rgn) \<leftarrow> lmb_add_region (reserved l) base (lmb_align_up sz align);
          Some (Some (if r < 0 then 0 else base, l\<lparr>reserved := rgn\<rparr>))
        }
        else do {
          p \<leftarrow> aget (region (reserved l)) (nat j);
          if lp_base p < sz then Some None
          else lmb_alloc_while l lmbbase sz align (lmb_align_down (lp_base p - sz) align)
        }
      }
      else Some None)"
  by pat_completeness auto
termination
proof (relation "measure (\<lambda>(_, _, _, _, base). unat base)", goal_cases)
  case 1
  then show ?case by simp
next
  case (2 l lmbbase sz align base j p)
  then have "lmb_addrs_overlap base sz (lp_base p) (lp_size p)"
    by (auto simp: lmb_overlaps_region_def split: Option.bind_splits if_splits
        dest!: lmb_overlaps_loop_Some)
  then have "lmb_align_down (lp_base p - sz) align < base"
    using 2 by (intro lmb_alloc_descends) (auto simp: not_less)
  then show ?case by (simp add: word_less_nat_alt)
qed

declare lmb_alloc_while.simps [simp del]

definition LMB_ALLOC_ANYWHERE :: u64 where
  "LMB_ALLOC_ANYWHERE = 0"

text \<open>The outer loop, from the last memory range down; the argument is \<open>i + 1\<close>.\<close>

fun lmb_alloc_outer :: "nat \<Rightarrow> lmb \<Rightarrow> u64 \<Rightarrow> u64 \<Rightarrow> u64 \<Rightarrow> (u64 \<times> lmb) option" where
  "lmb_alloc_outer 0 l sz align max_addr = Some (0, l)"
| "lmb_alloc_outer (Suc i) l sz align max_addr = do {
     p \<leftarrow> aget (region (memory l)) i;
     let lmbbase = lp_base p;
     let lmbsize = lp_size p;
     if lmbsize < sz then lmb_alloc_outer i l sz align max_addr
     else if max_addr \<noteq> LMB_ALLOC_ANYWHERE \<and> \<not> lmbbase < max_addr
     then lmb_alloc_outer i l sz align max_addr
     else do {
       let base =
         (if max_addr = LMB_ALLOC_ANYWHERE then lmb_align_down (lmbbase + lmbsize - sz) align
          else let top = (if lmbbase + lmbsize < lmbbase then -1 else lmbbase + lmbsize)
               in lmb_align_down (min top max_addr - sz) align);
       r \<leftarrow> lmb_alloc_while l lmbbase sz align base;
       case r of
         None \<Rightarrow> lmb_alloc_outer i l sz align max_addr
       | Some res \<Rightarrow> Some res
     }
   }"

definition lmb_alloc_base_nocheck ::
  "lmb \<Rightarrow> u64 \<Rightarrow> u64 \<Rightarrow> u64 \<Rightarrow> (u64 \<times> lmb) option" where
  "lmb_alloc_base_nocheck l sz align max_addr =
     lmb_alloc_outer (unat (cnt (memory l))) l sz align max_addr"

text \<open>\<open>lmb_alloc_base\<close> adds the console message of a failed allocation.\<close>

definition lmb_alloc_base :: "lmb \<Rightarrow> u64 \<Rightarrow> u64 \<Rightarrow> u64 \<Rightarrow> (u64 \<times> lmb \<times> bool) option" where
  "lmb_alloc_base l sz align max_addr = do {
     (alloc, l') \<leftarrow> lmb_alloc_base_nocheck l sz align max_addr;
     Some (alloc, l', alloc = 0)
   }"

definition lmb_alloc :: "lmb \<Rightarrow> u64 \<Rightarrow> u64 \<Rightarrow> (u64 \<times> lmb \<times> bool) option" where
  "lmb_alloc l sz align = lmb_alloc_base l sz align LMB_ALLOC_ANYWHERE"

function lmb_is_reserved_loop :: "nat \<Rightarrow> lmb_region \<Rightarrow> u64 \<Rightarrow> bool option" where
  "lmb_is_reserved_loop i rgn addr =
     (if i < unat (cnt rgn)
      then do {
        p \<leftarrow> aget (region rgn) i;
        let upper = lp_base p + lp_size p - 1;
        if lp_base p \<le> addr \<and> addr \<le> upper then Some True
        else lmb_is_reserved_loop (Suc i) rgn addr
      }
      else Some False)"
  by pat_completeness auto
termination
  by (relation "measure (\<lambda>(i, rgn, _). unat (cnt rgn) - i)") auto

declare lmb_is_reserved_loop.simps [simp del]

definition lmb_is_reserved :: "lmb \<Rightarrow> u64 \<Rightarrow> bool option" where
  "lmb_is_reserved l addr = lmb_is_reserved_loop 0 (reserved l) addr"


section \<open>What a table means\<close>

definition lend :: "lmb_property \<Rightarrow> nat" where
  "lend p = unat (lp_base p) + unat (lp_size p)"

definition addrs :: "lmb_property \<Rightarrow> nat set" where
  "addrs p = {unat (lp_base p) ..< lend p}"

definition prop_ok :: "lmb_property \<Rightarrow> bool" where
  "prop_ok p \<longleftrightarrow> 0 < unat (lp_size p) \<and> lend p < 2 ^ 64"

definition ranges :: "lmb_region \<Rightarrow> lmb_property list" where
  "ranges rgn = take (unat (cnt rgn)) (region rgn)"

definition covered :: "lmb_region \<Rightarrow> nat set" where
  "covered rgn = (\<Union>p \<in> set (ranges rgn). addrs p)"

abbreviation before :: "lmb_property \<Rightarrow> lmb_property \<Rightarrow> bool" where
  "before a b \<equiv> lend a < unat (lp_base b)"

text \<open>The dummy entry of a fresh table, and the invariant of a used one.\<close>

definition lmb_fresh :: "lmb_region \<Rightarrow> bool" where
  "lmb_fresh rgn \<longleftrightarrow>
     length (region rgn) = MAX_LMB_REGIONS + 1 \<and> cnt rgn = 1 \<and>
     lp_base (region rgn ! 0) = 0 \<and> lp_size (region rgn ! 0) = 0"

definition lmb_used :: "lmb_region \<Rightarrow> bool" where
  "lmb_used rgn \<longleftrightarrow>
     length (region rgn) = MAX_LMB_REGIONS + 1 \<and>
     1 \<le> unat (cnt rgn) \<and> unat (cnt rgn) \<le> MAX_LMB_REGIONS \<and>
     (\<forall>p \<in> set (ranges rgn). prop_ok p) \<and> sorted_wrt before (ranges rgn)"

definition lmb_wf :: "lmb_region \<Rightarrow> bool" where
  "lmb_wf rgn \<longleftrightarrow> lmb_fresh rgn \<or> lmb_used rgn"

lemma unat_lend: "lend p < 2 ^ 64 \<Longrightarrow> unat (lp_base p + lp_size p) = lend p"
  by (simp add: lend_def unat_add_nowrap)

lemma length_ranges [simp]: "lmb_used rgn \<Longrightarrow> length (ranges rgn) = unat (cnt rgn)"
  by (simp add: lmb_used_def ranges_def)

lemma nth_ranges: "i < unat (cnt rgn) \<Longrightarrow> ranges rgn ! i = region rgn ! i"
  by (simp add: ranges_def)

lemma adjacent_iff:
  assumes "prop_ok p" and "prop_ok q"
  shows "lmb_addrs_adjacent (lp_base p) (lp_size p) (lp_base q) (lp_size q) =
    (if unat (lp_base q) = lend p then 1 else if unat (lp_base p) = lend q then -1 else 0)"
  using assms unat_lend [of p] unat_lend [of q]
  by (simp add: lmb_addrs_adjacent_def prop_ok_def unat_eq_iff)

lemma overlap_iff:
  assumes "lend p < 2 ^ 64" and "lend q < 2 ^ 64" and "0 < unat (lp_size p)" and "0 < unat (lp_size q)"
  shows "lmb_addrs_overlap (lp_base p) (lp_size p) (lp_base q) (lp_size q) \<longleftrightarrow>
    addrs p \<inter> addrs q \<noteq> {}"
proof -
  have "lmb_addrs_overlap (lp_base p) (lp_size p) (lp_base q) (lp_size q) \<longleftrightarrow>
      unat (lp_base p) < lend q \<and> unat (lp_base q) < lend p"
    using assms by (simp add: lmb_addrs_overlap_def word_less_nat_alt unat_lend)
  also have "\<dots> \<longleftrightarrow> max (unat (lp_base p)) (unat (lp_base q)) < min (lend p) (lend q)"
    using assms(3,4) by (auto simp: lend_def)
  also have "\<dots> \<longleftrightarrow> addrs p \<inter> addrs q \<noteq> {}"
    by (auto simp: addrs_def)
  finally show ?thesis .
qed

subsection \<open>Removing an entry\<close>

lemma remove_shift:
  assumes "i < n" and "Suc n \<le> length xs"
  shows "take (Suc i) (xs[i := xs ! Suc i]) @ drop (Suc (Suc i)) (take (Suc n) (xs[i := xs ! Suc i])) @
    drop n (xs[i := xs ! Suc i]) = take i xs @ drop (Suc i) (take (Suc n) xs) @ drop n xs"
proof -
  let ?ys = "xs[i := xs ! Suc i]"
  have "take (Suc i) ?ys = take i xs @ [xs ! Suc i]"
    using assms by (simp add: take_Suc_conv_app_nth del: take_update_swap)
  moreover have "drop (Suc (Suc i)) (take (Suc n) ?ys) = drop (Suc (Suc i)) (take (Suc n) xs)"
    by (simp add: take_update_swap)
  moreover have "drop (Suc i) (take (Suc n) xs) = xs ! Suc i # drop (Suc (Suc i)) (take (Suc n) xs)"
    using assms Cons_nth_drop_Suc [of "Suc i" "take (Suc n) xs"] by simp
  moreover have "drop n ?ys = drop n xs"
    using assms(1) by simp
  ultimately show ?thesis by simp
qed

lemma lmb_remove_loop_spec:
  assumes "unat i \<le> n" and "unat (cnt rgn) = Suc n" and "Suc n \<le> length (region rgn)"
  shows "lmb_remove_loop i rgn = Some (rgn\<lparr>region :=
    take (unat i) (region rgn) @ drop (Suc (unat i)) (take (Suc n) (region rgn)) @
    drop n (region rgn)\<rparr>)"
  using assms
proof (induction i rgn rule: lmb_remove_loop.induct)
  case (1 i rgn)
  let ?reg = "region rgn"
  have n: "unat (cnt rgn - 1) = n"
    using "1.prems"(2) by (simp add: unat_sub_nowrap)
  show ?case
  proof (cases "unat i < n")
    case False
    then have "unat i = n" using "1.prems"(1) by simp
    moreover have "\<not> i < cnt rgn - 1"
      using False n by (simp add: word_less_nat_alt)
    ultimately show ?thesis
      by (simp add: lmb_remove_loop.simps [of i rgn])
  next
    case True
    then have lt: "i < cnt rgn - 1" using n by (simp add: word_less_nat_alt)
    have i1: "unat (i + 1) = Suc (unat i)" using lt by (rule unat_Suc_less)
    let ?rgn = "rgn\<lparr>region := ?reg[unat i := ?reg ! Suc (unat i)]\<rparr>"
    have "lmb_remove_loop (i + 1) ?rgn = Some (?rgn\<lparr>region :=
      take (Suc (unat i)) (region ?rgn) @ drop (Suc (Suc (unat i))) (take (Suc n) (region ?rgn)) @
      drop n (region ?rgn)\<rparr>)"
      using "1.IH" [OF lt, of "?reg ! Suc (unat i)" "region ?rgn"] "1.prems" True i1
      by (simp add: aget_simps)
    moreover have "take (Suc (unat i)) (region ?rgn) @
      drop (Suc (Suc (unat i))) (take (Suc n) (region ?rgn)) @ drop n (region ?rgn) =
      take (unat i) ?reg @ drop (Suc (unat i)) (take (Suc n) ?reg) @ drop n ?reg"
      using remove_shift [OF True "1.prems"(3)] by simp
    ultimately show ?thesis
      using lt True "1.prems" i1 by (simp add: lmb_remove_loop.simps [of i rgn] aget_simps)
  qed
qed

lemma lmb_remove_region_spec:
  assumes "r < unat (cnt rgn)" and "unat (cnt rgn) \<le> length (region rgn)"
  shows "\<exists>rgn'. lmb_remove_region rgn r = Some rgn' \<and> unat (cnt rgn') = unat (cnt rgn) - 1 \<and>
    length (region rgn') = length (region rgn) \<and>
    ranges rgn' = take r (ranges rgn) @ drop (Suc r) (ranges rgn)"
proof -
  obtain n where n: "unat (cnt rgn) = Suc n" using assms(1) by (cases "unat (cnt rgn)") auto
  have r: "unat (of_nat r :: u64) = r"
    using assms(1) unsigned_less [of "cnt rgn", where 'a = nat]
    by (intro unat_of_nat_small) simp
  have c: "unat (cnt rgn - 1) = n" using n by (simp add: unat_sub_nowrap)
  have "r \<le> n" using assms(1) n by simp
  then show ?thesis
    using lmb_remove_loop_spec [of "of_nat r" n rgn] assms n r c
    by (cases "r = n") (auto simp: lmb_remove_region_def ranges_def min_def take_drop)
qed


subsection \<open>Adding an entry\<close>

definition untouched :: "u64 \<Rightarrow> u64 \<Rightarrow> lmb_property \<Rightarrow> bool" where
  "untouched b s p \<longleftrightarrow> lmb_addrs_adjacent b s (lp_base p) (lp_size p) = 0 \<and>
     \<not> (lp_base p = b \<and> lp_size p = s)"

definition merged :: "u64 \<Rightarrow> u64 \<Rightarrow> lmb_property \<Rightarrow> lmb_property" where
  "merged b s p =
     (if lmb_addrs_adjacent b s (lp_base p) (lp_size p) > 0
      then \<lparr>lp_base = lp_base p - s, lp_size = lp_size p + s\<rparr>
      else p\<lparr>lp_size := lp_size p + s\<rparr>)"

lemma lmb_add_coalesce_find:
  assumes "unat (cnt rgn) \<le> length (region rgn)" and "i \<le> unat (cnt rgn)"
  shows "lmb_add_coalesce i rgn b s =
    (case find (\<lambda>k. \<not> untouched b s (region rgn ! k)) [i ..< unat (cnt rgn)] of
       None \<Rightarrow> Some (Some (unat (cnt rgn), rgn, 0))
     | Some k \<Rightarrow>
         if lp_base (region rgn ! k) = b \<and> lp_size (region rgn ! k) = s then Some None
         else Some (Some (k, rgn\<lparr>region := (region rgn)[k := merged b s (region rgn ! k)]\<rparr>, 1)))"
  using assms
proof (induction i rgn b s rule: lmb_add_coalesce.induct)
  case (1 i rgn b s)
  show ?case
  proof (cases "i < unat (cnt rgn)")
    case False
    then show ?thesis
      using "1.prems" by (simp add: lmb_add_coalesce.simps [of "unat (cnt rgn)" rgn b s])
  next
    case True
    show ?thesis
    proof (cases "untouched b s (region rgn ! i)")
      case False
      then show ?thesis
        using True "1.prems"
        by (auto simp: lmb_add_coalesce.simps [of i rgn b s] aget_simps upt_conv_Cons
            untouched_def merged_def Let_def)
    next
      case ut: True
      have "lmb_add_coalesce i rgn b s = lmb_add_coalesce (Suc i) rgn b s"
        using True ut "1.prems"
        by (auto simp: lmb_add_coalesce.simps [of i rgn b s] aget_simps untouched_def)
      then show ?thesis
        using "1.IH" [OF True, of "region rgn ! i" 0] True ut "1.prems"
        by (auto simp: aget_simps upt_conv_Cons untouched_def)
    qed
  qed
qed

lemma lmb_insert_loop_spec:
  assumes "n < length reg"
  shows "\<exists>k reg'. k \<le> n \<and> lmb_insert_loop n reg b s = Some reg' \<and>
    (\<forall>i. k \<le> i \<and> i < n \<longrightarrow> b < lp_base (reg ! i)) \<and>
    (if 0 < k then lp_base (reg ! (k - 1)) \<le> b \<and>
       reg' = take k reg @ \<lparr>lp_base = b, lp_size = s\<rparr> # drop k (take n reg) @ drop (Suc n) reg
     else reg' = (if n = 0 then reg else reg ! 0 # take n reg @ drop (Suc n) reg))"
  using assms
proof (induction n arbitrary: reg)
  case 0
  then show ?case by auto
next
  case (Suc n)
  let ?p = "reg ! n"
  show ?case
  proof (cases "b < lp_base ?p")
    case False
    then have "lmb_insert_loop (Suc n) reg b s = Some (reg[Suc n := \<lparr>lp_base = b, lp_size = s\<rparr>])"
      using Suc.prems by (simp add: aget_simps)
    then show ?thesis
      using False Suc.prems
      by (intro exI [of _ "Suc n"]) (auto simp: upd_conv_take_nth_drop)
  next
    case True
    let ?reg = "reg[Suc n := ?p]"
    have same: "i \<le> n \<Longrightarrow> ?reg ! i = reg ! i" for i by simp
    have tk: "k \<le> Suc n \<Longrightarrow> take k ?reg = take k reg" for k by simp
    have dr: "drop (Suc n) ?reg = ?p # drop (Suc (Suc n)) reg"
      using Suc.prems by (simp add: upd_conv_take_nth_drop)
    have "n < length ?reg" using Suc.prems by simp
    from Suc.IH [OF this] obtain k reg' where k: "k \<le> n"
      and ev: "lmb_insert_loop n ?reg b s = Some reg'"
      and above: "\<forall>i. k \<le> i \<and> i < n \<longrightarrow> b < lp_base (?reg ! i)"
      and res: "if 0 < k then lp_base (?reg ! (k - 1)) \<le> b \<and>
         reg' = take k ?reg @ \<lparr>lp_base = b, lp_size = s\<rparr> # drop k (take n ?reg) @ drop (Suc n) ?reg
       else reg' = (if n = 0 then ?reg else ?reg ! 0 # take n ?reg @ drop (Suc n) ?reg)"
      by blast
    have res: "if 0 < k then lp_base (reg ! (k - 1)) \<le> b \<and>
         reg' = take k reg @ \<lparr>lp_base = b, lp_size = s\<rparr> # drop k (take n reg) @ ?p # drop (Suc (Suc n)) reg
       else reg' = (if n = 0 then ?reg else reg ! 0 # take n reg @ ?p # drop (Suc (Suc n)) reg)"
      using res k same [of "k - 1"] tk [of k] tk [of n] unfolding dr by (simp split: if_splits)
    have above: "\<forall>i. k \<le> i \<and> i < n \<longrightarrow> b < lp_base (reg ! i)"
      using above by simp
    have "lmb_insert_loop (Suc n) reg b s = Some reg'"
      using True ev Suc.prems by (simp add: aget_simps)
    moreover have "\<forall>i. k \<le> i \<and> i < Suc n \<longrightarrow> b < lp_base (reg ! i)"
      using above True less_Suc_eq by auto
    moreover have "take (Suc n) reg = take n reg @ [?p]"
      using Suc.prems by (simp add: take_Suc_conv_app_nth)
    moreover have "n = 0 \<Longrightarrow> ?reg = reg ! 0 # reg ! 0 # drop (Suc (Suc 0)) reg"
      using Suc.prems by (cases reg) (auto simp: upd_conv_take_nth_drop take_Suc_conv_app_nth)
    ultimately show ?thesis
      using k res Suc.prems by (intro exI [of _ k] exI [of _ reg']) (auto split: if_splits)
  qed
qed


lemma before_of_disjoint:
  assumes "prop_ok p" "prop_ok q" "addrs p \<inter> addrs q = {}"
    and "untouched (lp_base q) (lp_size q) p"
  shows "unat (lp_base p) \<le> unat (lp_base q) \<Longrightarrow> before p q"
    and "unat (lp_base q) \<le> unat (lp_base p) \<Longrightarrow> before q p"
proof -
  have touch: "unat (lp_base p) \<noteq> lend q" "unat (lp_base q) \<noteq> lend p"
    using assms(1,2,4) by (auto simp: untouched_def adjacent_iff split: if_splits)
  have "unat (lp_base q) \<notin> addrs p" "unat (lp_base p) \<notin> addrs q"
    using assms(1-3) by (auto simp: prop_ok_def addrs_def lend_def)
  then show "unat (lp_base p) \<le> unat (lp_base q) \<Longrightarrow> before p q"
    and "unat (lp_base q) \<le> unat (lp_base p) \<Longrightarrow> before q p"
    using touch by (auto simp: addrs_def)
qed

lemma sorted_insert_at:
  assumes "sorted_wrt before ps" and "k \<le> length ps"
    and "\<And>p. p \<in> set ps \<Longrightarrow> prop_ok p \<and> addrs p \<inter> addrs q = {} \<and> untouched (lp_base q) (lp_size q) p"
    and "prop_ok q"
    and "0 < k \<Longrightarrow> unat (lp_base (ps ! (k - 1))) \<le> unat (lp_base q)"
    and "\<And>i. k \<le> i \<Longrightarrow> i < length ps \<Longrightarrow> unat (lp_base q) < unat (lp_base (ps ! i))"
  shows "sorted_wrt before (take k ps @ q # drop k ps)"
proof -
  have "before p q" if p: "p \<in> set (take k ps)" for p
  proof -
    obtain i where i: "i < k" "p = ps ! i" "i < length ps"
      using p by (auto simp: in_set_conv_nth)
    have "unat (lp_base p) \<le> unat (lp_base (ps ! (k - 1)))"
    proof (cases "i = k - 1")
      case False
      then have "before p (ps ! (k - 1))"
        using assms(1,2) i by (simp add: sorted_wrt_iff_nth_less)
      then show ?thesis by (simp add: lend_def)
    qed (use i in simp)
    then show ?thesis
      using assms(3) [of p] assms(4,5) i before_of_disjoint(1) [of p q]
      by (auto intro: order_trans)
  qed
  moreover have "before q p" if "p \<in> set (drop k ps)" for p
  proof -
    obtain i where i: "k \<le> i" "p = ps ! i" "i < length ps"
      using \<open>p \<in> set (drop k ps)\<close> assms(2)
      by (metis in_set_conv_nth length_drop nth_drop le_add1 less_diff_conv add.commute)
    then show ?thesis
      using assms(3) [of p] assms(4) assms(6) [of i] before_of_disjoint(2) [of p q] by auto
  qed
  ultimately show ?thesis
    using assms(1,2) by (subst (asm) append_take_drop_id [of k ps, symmetric])
      (auto simp: sorted_wrt_append simp del: append_take_drop_id dest: in_set_takeD in_set_dropD)
qed

lemma merged_spec:
  assumes "prop_ok p" "prop_ok q" "addrs p \<inter> addrs q = {}"
    and "lmb_addrs_adjacent (lp_base q) (lp_size q) (lp_base p) (lp_size p) \<noteq> 0"
  defines "m \<equiv> merged (lp_base q) (lp_size q) p"
  shows "prop_ok m \<and> addrs m = addrs p \<union> addrs q \<and>
    (lend m = lend p \<and> lp_base m = lp_base q \<and> lend q = unat (lp_base p) \<or>
     lend m = lend q \<and> lp_base m = lp_base p \<and> lend p = unat (lp_base q))"
proof (cases "unat (lp_base p) = lend q")
  case True
  then have m: "m = \<lparr>lp_base = lp_base p - lp_size q, lp_size = lp_size p + lp_size q\<rparr>"
    using assms(1,2) by (simp add: m_def merged_def adjacent_iff)
  have "lp_base p = lp_base q + lp_size q"
    using True assms(2) by (simp add: unat_eq_iff unat_lend prop_ok_def)
  moreover have "unat (lp_size p + lp_size q) = unat (lp_size p) + unat (lp_size q)"
    using True assms(1) by (intro unat_add_nowrap) (simp add: prop_ok_def lend_def)
  ultimately show ?thesis
    using True assms(1,2) m by (auto simp: prop_ok_def addrs_def lend_def)
next
  case False
  then have touch: "unat (lp_base q) = lend p"
    using assms(1,2,4) by (auto simp: adjacent_iff split: if_splits)
  have m: "m = p\<lparr>lp_size := lp_size p + lp_size q\<rparr>"
    using False touch assms(1,2) by (simp add: m_def merged_def adjacent_iff)
  have "unat (lp_size p + lp_size q) = unat (lp_size p) + unat (lp_size q)"
    using touch assms(2) by (intro unat_add_nowrap) (simp add: prop_ok_def lend_def)
  then show ?thesis
    using touch assms(1,2) m by (auto simp: prop_ok_def addrs_def lend_def)
qed


lemma sorted_merge_at:
  assumes "sorted_wrt before (xs @ p # ys)"
    and ok: "\<And>r. r \<in> set (xs @ p # ys) \<Longrightarrow> prop_ok r \<and> addrs r \<inter> addrs q = {}"
    and ut: "\<And>x. x \<in> set xs \<Longrightarrow> untouched (lp_base q) (lp_size q) x"
    and "prop_ok q"
    and adj: "lmb_addrs_adjacent (lp_base q) (lp_size q) (lp_base p) (lp_size p) \<noteq> 0"
  defines "m \<equiv> merged (lp_base q) (lp_size q) p"
  shows "(\<forall>x \<in> set xs. before x m) \<and> (\<forall>y \<in> set ys. lend m \<le> unat (lp_base y))"
proof -
  have spec: "prop_ok m \<and> addrs m = addrs p \<union> addrs q \<and>
    (lend m = lend p \<and> lp_base m = lp_base q \<and> lend q = unat (lp_base p) \<or>
     lend m = lend q \<and> lp_base m = lp_base p \<and> lend p = unat (lp_base q))"
    unfolding m_def using assms(4) ok adj by (intro merged_spec) auto
  have "before x m" if x: "x \<in> set xs" for x
  proof -
    have xp: "before x p" using assms(1) x by (simp add: sorted_wrt_append)
    have "unat (lp_base x) \<le> unat (lp_base q)" if "lend q = unat (lp_base p)"
    proof (rule ccontr)
      assume "\<not> ?thesis"
      then have "before q x" using before_of_disjoint(2) [of x q] ok [of x] ut [OF x] x assms(4) by simp
      then show False using that xp by (simp add: lend_def)
    qed
    then show ?thesis
      using spec xp before_of_disjoint(1) [of x q] ok [of x] ut [OF x] x assms(4) by auto
  qed
  moreover have "lend m \<le> unat (lp_base y)" if y: "y \<in> set ys" for y
  proof -
    have py: "before p y" using assms(1) y by (simp add: sorted_wrt_append)
    have "unat (lp_base y) \<notin> addrs q" using ok [of y] y by (auto simp: prop_ok_def addrs_def lend_def)
    then show ?thesis using spec py by (auto simp: addrs_def)
  qed
  ultimately show ?thesis by blast
qed

definition joined :: "lmb_property \<Rightarrow> lmb_property \<Rightarrow> lmb_property" where
  "joined a b = a\<lparr>lp_size := lp_size a + lp_size b\<rparr>"

lemma joined_spec:
  assumes "prop_ok a" "prop_ok b" "unat (lp_base b) = lend a"
  shows "prop_ok (joined a b) \<and> addrs (joined a b) = addrs a \<union> addrs b \<and>
    lend (joined a b) = lend b \<and> lp_base (joined a b) = lp_base a"
proof -
  have "unat (lp_size a + lp_size b) = unat (lp_size a) + unat (lp_size b)"
    using assms by (intro unat_add_nowrap) (simp add: prop_ok_def lend_def)
  then show ?thesis
    using assms by (auto simp: joined_def prop_ok_def addrs_def lend_def)
qed

lemma lmb_coalesce_regions_spec:
  assumes "Suc k < unat (cnt rgn)" and "unat (cnt rgn) \<le> length (region rgn)"
  shows "\<exists>rgn'. lmb_coalesce_regions rgn k (Suc k) = Some rgn' \<and>
    unat (cnt rgn') = unat (cnt rgn) - 1 \<and> length (region rgn') = length (region rgn) \<and>
    ranges rgn' = take k (ranges rgn) @ joined (ranges rgn ! k) (ranges rgn ! Suc k) #
      drop (Suc (Suc k)) (ranges rgn)"
proof -
  let ?j = "joined (region rgn ! k) (region rgn ! Suc k)"
  let ?rgn = "rgn\<lparr>region := (region rgn)[k := ?j]\<rparr>"
  have "Suc k < unat (cnt ?rgn)" "unat (cnt ?rgn) \<le> length (region ?rgn)"
    using assms by auto
  from lmb_remove_region_spec [OF this] obtain rgn' where
    rm: "lmb_remove_region ?rgn (Suc k) = Some rgn'" "unat (cnt rgn') = unat (cnt ?rgn) - 1"
    "length (region rgn') = length (region ?rgn)"
    "ranges rgn' = take (Suc k) (ranges ?rgn) @ drop (Suc (Suc k)) (ranges ?rgn)"
    by blast
  have "ranges ?rgn = (ranges rgn)[k := ?j]"
    by (simp add: ranges_def take_update_swap)
  moreover have "k < length (ranges rgn)" using assms by (simp add: ranges_def)
  ultimately have "ranges rgn' = take k (ranges rgn) @ ?j # drop (Suc (Suc k)) (ranges rgn)"
    using rm(4) by (simp add: take_Suc_conv_app_nth del: take_update_swap)
  then show ?thesis
    using rm assms
    by (auto simp: lmb_coalesce_regions_def aget_simps joined_def nth_ranges)
qed


lemma lmb_used_regI:
  assumes "length (region rgn) = MAX_LMB_REGIONS + 1" and "1 \<le> unat (cnt rgn)"
    and "unat (cnt rgn) \<le> MAX_LMB_REGIONS"
    and "\<forall>p \<in> set (ranges rgn). prop_ok p" and "sorted_wrt before (ranges rgn)"
  shows "lmb_used rgn"
  using assms by (simp add: lmb_used_def)

lemma MAX_word [simp]: "(of_nat MAX_LMB_REGIONS :: u64) = 8" "MAX_LMB_REGIONS = 8"
  by (simp_all add: MAX_LMB_REGIONS_def)

lemma last_index_iff:
  fixes c :: u64
  assumes "1 \<le> unat c" and "k < unat c"
  shows "of_nat k < c - 1 \<longleftrightarrow> Suc k < unat c"
proof -
  have "unat (c - 1) = unat c - 1" using assms(1) by (simp add: unat_sub_nowrap)
  moreover have "unat (of_nat k :: u64) = k"
    using assms(2) unsigned_less [of c, where 'a = nat] by (intro unat_of_nat_small) simp
  ultimately show ?thesis by (auto simp: word_less_nat_alt)
qed

lemma lmb_add_region_merge:
  assumes used: "lmb_used rgn" and q: "prop_ok q"
    and disj: "addrs q \<inter> covered rgn = {}"
    and k: "k < unat (cnt rgn)"
    and ut: "\<And>j. j < k \<Longrightarrow> untouched (lp_base q) (lp_size q) (ranges rgn ! j)"
    and adj: "lmb_addrs_adjacent (lp_base q) (lp_size q)
      (lp_base (ranges rgn ! k)) (lp_size (ranges rgn ! k)) \<noteq> 0"
  defines "m \<equiv> merged (lp_base q) (lp_size q) (ranges rgn ! k)"
  defines "rgn1 \<equiv> rgn\<lparr>region := (region rgn)[k := m]\<rparr>"
  shows "\<exists>c rgn2. lmb_add_join rgn1 k 1 = Some (rgn2, c) \<and> 0 < c \<and> lmb_used rgn2 \<and>
    covered rgn2 = covered rgn \<union> addrs q"
proof -
  define xs where "xs = take k (ranges rgn)"
  define p where "p = ranges rgn ! k"
  define ys where "ys = drop (Suc k) (ranges rgn)"
  have len: "length (ranges rgn) = unat (cnt rgn)" using used by simp
  have ps: "ranges rgn = xs @ p # ys"
    using k len by (simp add: xs_def p_def ys_def id_take_nth_drop [symmetric])
  have wf: "sorted_wrt before (xs @ p # ys)" "\<And>r. r \<in> set (xs @ p # ys) \<Longrightarrow> prop_ok r \<and> addrs r \<inter> addrs q = {}"
    using used disj by (auto simp: lmb_used_def covered_def ps [symmetric])
  have utx: "untouched (lp_base q) (lp_size q) x" if x: "x \<in> set xs" for x
    using x ut k len by (auto simp: xs_def in_set_conv_nth)
  have lenx: "length xs = k" using k len by (simp add: xs_def)
  have msp: "prop_ok m" "addrs m = addrs p \<union> addrs q"
    using merged_spec [of p q] wf(2) [of p] q adj by (auto simp: m_def p_def)
  have srt: "\<forall>x \<in> set xs. before x m" "\<forall>y \<in> set ys. lend m \<le> unat (lp_base y)"
    using sorted_merge_at [OF wf(1,2) utx q] adj by (auto simp: m_def p_def)
  have r1: "ranges rgn1 = xs @ m # ys"
    using k len ps lenx
    by (simp add: rgn1_def ranges_def take_update_swap list_update_append)
  have u1: "length (region rgn1) = MAX_LMB_REGIONS + 1" "1 \<le> unat (cnt rgn1)"
    "unat (cnt rgn1) \<le> MAX_LMB_REGIONS" "cnt rgn1 = cnt rgn"
    using used by (auto simp: lmb_used_def rgn1_def)
  have cov: "covered rgn = (\<Union>r \<in> set (xs @ ys). addrs r) \<union> addrs p"
    by (auto simp: covered_def ps)
  have plain: "lmb_used rgn1 \<and> covered rgn1 = covered rgn \<union> addrs q"
    if "\<forall>y \<in> set ys. before m y"
  proof
    show "lmb_used rgn1"
      using that u1 wf msp srt by (intro lmb_used_regI) (auto simp: r1 sorted_wrt_append)
    show "covered rgn1 = covered rgn \<union> addrs q"
      using msp(2) cov by (auto simp: covered_def r1)
  qed
  show ?thesis
  proof (cases ys)
    case Nil
    then have "\<not> of_nat k < cnt rgn1 - 1"
      using last_index_iff [OF u1(2), of k] k len ps lenx u1(4) by auto
    then show ?thesis using plain Nil by (auto simp: lmb_add_join_def)
  next
    case (Cons y zs)
    have k1: "Suc k < unat (cnt rgn1)" using len ps lenx Cons u1(4) by auto
    then have lt: "of_nat k < cnt rgn1 - 1" using last_index_iff [OF u1(2), of k] by simp
    have nth: "region rgn1 ! k = m" "region rgn1 ! Suc k = y"
      using nth_ranges [of k rgn1] nth_ranges [of "Suc k" rgn1] r1 Cons lenx k1
      by (auto simp: nth_append)
    have oky: "prop_ok y" using wf(2) Cons by simp
    have zs: "before m z" if "z \<in> set zs" for z
      using srt(2) wf(1) Cons that by (auto simp: sorted_wrt_append lend_def)
    have ra: "lmb_regions_adjacent rgn1 k (k + 1) =
        Some (if unat (lp_base y) = lend m then 1 else 0)"
      using k1 u1 nth msp oky srt(2) Cons
      by (auto simp: lmb_regions_adjacent_def aget_simps adjacent_iff lend_def prop_ok_def)
    show ?thesis
    proof (cases "unat (lp_base y) = lend m")
      case False
      then have "\<forall>y \<in> set ys. before m y" using srt(2) Cons zs by (auto simp: le_less)
      then show ?thesis using plain ra lt False by (simp add: lmb_add_join_def)
    next
      case True
      obtain rgn2 where c2: "lmb_coalesce_regions rgn1 k (Suc k) = Some rgn2"
        "unat (cnt rgn2) = unat (cnt rgn1) - 1" "length (region rgn2) = length (region rgn1)"
        "ranges rgn2 = xs @ joined m y # zs"
        using lmb_coalesce_regions_spec [OF k1] u1 r1 Cons lenx by (auto simp: nth_append)
      have j: "prop_ok (joined m y)" "addrs (joined m y) = addrs m \<union> addrs y"
        "lend (joined m y) = lend y" "lp_base (joined m y) = lp_base m"
        using joined_spec [OF msp(1) oky True] by auto
      have "lmb_used rgn2"
        using c2 u1 k1 wf msp srt j Cons
        by (intro lmb_used_regI) (auto simp: sorted_wrt_append)
      moreover have "covered rgn2 = covered rgn \<union> addrs q"
        using j(2) msp(2) cov Cons by (auto simp: covered_def c2(4))
      ultimately show ?thesis using ra lt True c2(1) by (simp add: lmb_add_join_def)
    qed
  qed
qed


lemma lmb_add_region_insert:
  assumes used: "lmb_used rgn" and q: "prop_ok q"
    and disj: "addrs q \<inter> covered rgn = {}"
    and ut: "\<And>p. p \<in> set (ranges rgn) \<Longrightarrow> untouched (lp_base q) (lp_size q) p"
    and room: "unat (cnt rgn) < MAX_LMB_REGIONS"
  shows "\<exists>rgn'. lmb_add_sorted rgn (lp_base q) (lp_size q) = Some rgn' \<and> lmb_used rgn' \<and>
    covered rgn' = covered rgn \<union> addrs q"
proof -
  let ?n = "unat (cnt rgn)" and ?reg = "region rgn"
  have len: "length ?reg = 9" "1 \<le> ?n" "?n < length ?reg"
    using used room by (auto simp: lmb_used_def)
  have qq: "\<lparr>lp_base = lp_base q, lp_size = lp_size q\<rparr> = q" by simp
  obtain k reg1 where k: "k \<le> ?n"
    and ev: "lmb_insert_loop ?n ?reg (lp_base q) (lp_size q) = Some reg1"
    and above: "\<forall>i. k \<le> i \<and> i < ?n \<longrightarrow> lp_base q < lp_base (?reg ! i)"
    and res: "if 0 < k then lp_base (?reg ! (k - 1)) \<le> lp_base q \<and>
         reg1 = take k ?reg @ \<lparr>lp_base = lp_base q, lp_size = lp_size q\<rparr> # drop k (take ?n ?reg) @ drop (Suc ?n) ?reg
       else reg1 = (if ?n = 0 then ?reg else ?reg ! 0 # take ?n ?reg @ drop (Suc ?n) ?reg)"
    using lmb_insert_loop_spec [OF len(3), of "lp_base q" "lp_size q"] by blast
  define reg2 where "reg2 = take k ?reg @ q # drop k (take ?n ?reg) @ drop (Suc ?n) ?reg"
  let ?rgn = "rgn\<lparr>region := reg2, cnt := cnt rgn + 1\<rparr>"
  have eval: "lmb_add_sorted rgn (lp_base q) (lp_size q) = Some ?rgn"
  proof (cases "0 < k")
    case True
    have "ranges rgn ! 0 = ?reg ! 0" using len by (simp add: ranges_def)
    moreover have "lp_base (?reg ! 0) \<le> lp_base q"
    proof (cases "k = 1")
      case False
      then have "before (ranges rgn ! 0) (ranges rgn ! (k - 1))"
        using used True k by (simp add: lmb_used_def sorted_wrt_iff_nth_less length_ranges [OF used])
      then have "lp_base (?reg ! 0) \<le> lp_base (?reg ! (k - 1))"
        using True k by (simp add: nth_ranges lend_def word_le_nat_alt)
      then show ?thesis using res True by (auto intro: order_trans)
    qed (use res in simp)
    ultimately show ?thesis
      using True res len k ev by (auto simp: lmb_add_sorted_def aget_simps reg2_def nth_append hd_conv_nth [symmetric])
  next
    case False
    then show ?thesis
      using res len above ev by (auto simp: lmb_add_sorted_def aget_simps reg2_def)
  qed
  have cnt1: "unat (cnt rgn + 1) = Suc ?n"
    using room by (simp add: unat_add_nowrap)
  have r2: "ranges ?rgn = take k (ranges rgn) @ q # drop k (ranges rgn)"
    using k len cnt1 by (simp add: ranges_def reg2_def min_def Suc_diff_le)
  have "sorted_wrt before (ranges ?rgn)"
    unfolding r2
  proof (rule sorted_insert_at)
    show "0 < k \<Longrightarrow> unat (lp_base (ranges rgn ! (k - 1))) \<le> unat (lp_base q)"
      using res k by (simp add: nth_ranges word_le_nat_alt)
    show "\<And>i. k \<le> i \<Longrightarrow> i < length (ranges rgn) \<Longrightarrow> unat (lp_base q) < unat (lp_base (ranges rgn ! i))"
      using above used by (simp add: nth_ranges word_less_nat_alt)
  qed (use used q k ut disj in \<open>auto simp: lmb_used_def covered_def length_ranges [OF used]\<close>)
  moreover have sets: "set (ranges ?rgn) = insert q (set (ranges rgn))"
    unfolding r2 by (metis Un_insert_right append_take_drop_id list.simps(15) set_append)
  moreover have "length reg2 = 9" using k len by (simp add: reg2_def)
  ultimately have "lmb_used ?rgn"
    using used q room cnt1 by (intro lmb_used_regI) (auto simp: lmb_used_def)
  moreover have "covered ?rgn = covered rgn \<union> addrs q"
    using sets by (auto simp: covered_def)
  ultimately show ?thesis using eval by blast
qed

lemma covered_fresh: "lmb_fresh rgn \<Longrightarrow> covered rgn = {}"
  by (auto simp: lmb_fresh_def covered_def ranges_def addrs_def lend_def take_Suc_conv_app_nth)

lemma find_upt_Some:
  "find P [0 ..< n] = Some k \<longleftrightarrow> k < n \<and> P k \<and> (\<forall>j < k. \<not> P j)"
  by (auto simp: find_Some_iff)

lemma lmb_add_region_used:
  assumes used: "lmb_used rgn" and q: "prop_ok q"
    and disj: "addrs q \<inter> covered rgn = {} \<or> q \<in> set (ranges rgn)"
  shows "\<exists>r rgn'. lmb_add_region rgn (lp_base q) (lp_size q) = Some (r, rgn') \<and> lmb_used rgn' \<and>
    (if r < 0 then r = -1 \<and> rgn' = rgn \<and> cnt rgn = 8
     else covered rgn' = covered rgn \<union> addrs q)"
proof -
  let ?b = "lp_base q" and ?s = "lp_size q" and ?n = "unat (cnt rgn)"
  let ?P = "\<lambda>k. \<not> untouched ?b ?s (region rgn ! k)"
  have len: "length (region rgn) = 9" "1 \<le> ?n" "?n \<le> 8" "?n \<le> length (region rgn)"
    using used by (auto simp: lmb_used_def)
  have mem: "k < ?n \<Longrightarrow> region rgn ! k \<in> set (ranges rgn)" for k
    using nth_mem [of k "ranges rgn"] length_ranges [OF used] by (simp add: nth_ranges)
  have "0 < unat (lp_size (region rgn ! 0))"
    using mem [of 0] used len by (auto simp: lmb_used_def prop_ok_def)
  then have nfresh: "lp_size (region rgn ! 0) \<noteq> 0" by auto
  note eval = lmb_add_region_def lmb_add_coalesce_find [OF len(4)] aget_simps nfresh len
  consider (none) "find ?P [0 ..< ?n] = None"
    | (same) k where "find ?P [0 ..< ?n] = Some k" "region rgn ! k = q"
    | (adj) k where "find ?P [0 ..< ?n] = Some k" "region rgn ! k \<noteq> q"
    by (cases "find ?P [0 ..< ?n]") auto
  then show ?thesis
  proof cases
    case none
    then have ut: "untouched ?b ?s p" if "p \<in> set (ranges rgn)" for p
      using that length_ranges [OF used] by (auto simp: find_None_iff in_set_conv_nth nth_ranges)
    then have "q \<notin> set (ranges rgn)" by (auto simp: untouched_def)
    then have dj: "addrs q \<inter> covered rgn = {}" using disj by simp
    have nlt: "lmb_add_join rgn ?n 0 = Some (rgn, 0)"
      using len by (auto simp: lmb_add_join_def word_less_nat_alt unat_sub_nowrap)
    show ?thesis
    proof (cases "?n < MAX_LMB_REGIONS")
      case True
      then show ?thesis
        using lmb_add_region_insert [OF used q dj ut True] none nlt
        by (auto simp: eval word_le_nat_alt)
    next
      case False
      then have "cnt rgn = 8" using len by (simp add: unat_eq_iff)
      then show ?thesis using none nlt used by (auto simp: eval)
    qed
  next
    case same
    then have "q \<in> set (ranges rgn)" using mem by (auto simp: find_upt_Some)
    then show ?thesis using same used by (auto simp: eval covered_def)
  next
    case (adj k)
    then have k: "k < ?n" "?P k" "\<forall>j < k. \<not> ?P j" by (auto simp: find_upt_Some)
    have ne: "\<not> (lp_base (region rgn ! k) = ?b \<and> lp_size (region rgn ! k) = ?s)"
      using adj(2) by auto
    have a: "lmb_addrs_adjacent ?b ?s (lp_base (region rgn ! k)) (lp_size (region rgn ! k)) \<noteq> 0"
      using k(2) ne by (auto simp: untouched_def)
    have "q \<notin> set (ranges rgn)"
    proof
      assume "q \<in> set (ranges rgn)"
      then obtain j where j: "j < ?n" "region rgn ! j = q"
        using length_ranges [OF used] by (auto simp: in_set_conv_nth nth_ranges)
      then have "k < j" using k adj(2) by (metis linorder_neqE_nat untouched_def)
      then have "before (region rgn ! k) q"
        using used j k(1) sorted_wrt_nth_less [of before "ranges rgn" k j]
        by (simp add: lmb_used_def nth_ranges ranges_def)
      moreover have "prop_ok (region rgn ! k)"
        using mem [OF k(1)] used by (simp add: lmb_used_def)
      ultimately show False
        using a q by (auto simp: adjacent_iff lend_def split: if_splits)
    qed
    then have dj: "addrs q \<inter> covered rgn = {}" using disj by simp
    obtain c rgn2 where "lmb_add_join (rgn\<lparr>region := (region rgn)[k := merged ?b ?s (region rgn ! k)]\<rparr>) k 1 =
        Some (rgn2, c)" "0 < c" "lmb_used rgn2" "covered rgn2 = covered rgn \<union> addrs q"
      using lmb_add_region_merge [OF used q dj k(1)] k a by (auto simp: nth_ranges)
    then show ?thesis
      using adj(1) ne by (intro exI [of _ "int c"]) (auto simp: eval)
  qed
qed


lemma addrs_make: "addrs \<lparr>lp_base = b, lp_size = s\<rparr> = {unat b ..< unat b + unat s}"
  by (simp add: addrs_def lend_def)

lemma prop_ok_make:
  "prop_ok \<lparr>lp_base = b, lp_size = s\<rparr> \<longleftrightarrow> 0 < unat s \<and> unat b + unat s < 2 ^ 64"
  by (simp add: prop_ok_def lend_def)

lemma lmb_add_region_spec:
  assumes "lmb_wf rgn" and "0 < unat sz" and "unat base + unat sz < 2 ^ 64"
    and "{unat base ..< unat base + unat sz} \<inter> covered rgn = {} \<or>
      \<lparr>lp_base = base, lp_size = sz\<rparr> \<in> set (ranges rgn)"
  shows "\<exists>r rgn'. lmb_add_region rgn base sz = Some (r, rgn') \<and> lmb_wf rgn' \<and>
    (if r < 0 then r = -1 \<and> rgn' = rgn \<and> cnt rgn = 8
     else lmb_used rgn' \<and> covered rgn' = covered rgn \<union> {unat base ..< unat base + unat sz})"
proof (cases "lmb_used rgn")
  case True
  then show ?thesis
    using lmb_add_region_used [OF True, of "\<lparr>lp_base = base, lp_size = sz\<rparr>"] assms
    by (fastforce simp: lmb_wf_def addrs_make prop_ok_make)
next
  case False
  then have fresh: "lmb_fresh rgn" using assms(1) by (simp add: lmb_wf_def)
  let ?q = "\<lparr>lp_base = base, lp_size = sz\<rparr>"
  let ?rgn = "rgn\<lparr>region := (region rgn)[0 := ?q]\<rparr>"
  have eval: "lmb_add_region rgn base sz = Some (0, ?rgn)"
    using fresh by (simp add: lmb_add_region_def lmb_fresh_def aget_simps)
  have r: "ranges ?rgn = [?q]"
    using fresh by (simp add: ranges_def lmb_fresh_def take_Suc_conv_app_nth)
  have "lmb_used ?rgn"
    using fresh assms(2,3) by (intro lmb_used_regI) (auto simp: r prop_ok_make lmb_fresh_def)
  moreover have "covered ?rgn = covered rgn \<union> {unat base ..< unat base + unat sz}"
    using covered_fresh [OF fresh] by (simp add: covered_def r addrs_make)
  ultimately show ?thesis using eval by (simp add: lmb_wf_def)
qed


subsection \<open>Freeing a range\<close>

lemma lmb_free_find_find:
  assumes "unat (cnt rgn) \<le> length (region rgn)" and "i \<le> unat (cnt rgn)"
  shows "lmb_free_find i rgn base e =
    Some (case find (\<lambda>k. lp_base (region rgn ! k) \<le> base \<and>
        e \<le> lp_base (region rgn ! k) + lp_size (region rgn ! k)) [i ..< unat (cnt rgn)] of
       None \<Rightarrow> unat (cnt rgn) | Some k \<Rightarrow> k)"
  using assms
proof (induction i rgn base e rule: lmb_free_find.induct)
  case (1 i rgn base e)
  show ?case
  proof (cases "i < unat (cnt rgn)")
    case False
    then show ?thesis
      using "1.prems" by (simp add: lmb_free_find.simps [of "unat (cnt rgn)" rgn base e])
  next
    case True
    then show ?thesis
      using "1.IH" [OF True, of "region rgn ! i"] "1.prems"
      by (auto simp: lmb_free_find.simps [of i rgn base e] aget_simps upt_conv_Cons)
  qed
qed

lemma entry_disjoint:
  assumes "sorted_wrt before (xs @ p # ys)" and "\<forall>r \<in> set (xs @ p # ys). prop_ok r"
    and "r \<in> set (xs @ ys)"
  shows "addrs r \<inter> addrs p = {}"
  using assms by (fastforce simp: sorted_wrt_append addrs_def lend_def prop_ok_def)

lemma lmb_used_split:
  assumes "lmb_used rgn" and "k < unat (cnt rgn)"
  obtains xs ys where "ranges rgn = xs @ region rgn ! k # ys" and "length xs = k"
    and "xs = take k (ranges rgn)" and "ys = drop (Suc k) (ranges rgn)"
  using id_take_nth_drop [of k "ranges rgn"] length_ranges [OF assms(1)] assms(2)
  by (auto simp: nth_ranges min_def)

lemma lmb_replace_entry:
  assumes used: "lmb_used rgn" and k: "k < unat (cnt rgn)" and ok: "prop_ok p"
    and lo: "unat (lp_base (region rgn ! k)) \<le> unat (lp_base p)"
    and hi: "lend p \<le> lend (region rgn ! k)"
  shows "lmb_used (rgn\<lparr>region := (region rgn)[k := p]\<rparr>) \<and>
    covered (rgn\<lparr>region := (region rgn)[k := p]\<rparr>) =
      covered rgn - (addrs (region rgn ! k) - addrs p)"
proof -
  let ?old = "region rgn ! k" and ?rgn = "rgn\<lparr>region := (region rgn)[k := p]\<rparr>"
  obtain xs ys where ps: "ranges rgn = xs @ ?old # ys" "length xs = k"
    using lmb_used_split [OF used k] .
  have r: "ranges ?rgn = xs @ p # ys"
    using ps by (simp add: ranges_def take_update_swap list_update_append)
  have w: "sorted_wrt before (xs @ ?old # ys)" "\<forall>r \<in> set (xs @ ?old # ys). prop_ok r"
    using used by (auto simp: lmb_used_def ps(1) [symmetric])
  have "sorted_wrt before (xs @ p # ys)"
    using w(1) lo hi by (auto simp: sorted_wrt_append)
  then have "lmb_used ?rgn"
    using used w(2) ok by (intro lmb_used_regI) (auto simp: lmb_used_def r)
  moreover have "addrs p \<subseteq> addrs ?old" using lo hi by (auto simp: addrs_def)
  ultimately show ?thesis
    using entry_disjoint [OF w] by (auto simp: covered_def r ps)
qed

lemma lmb_remove_entry:
  assumes used: "lmb_used rgn" and k: "k < unat (cnt rgn)"
  shows "\<exists>rgn'. lmb_remove_region rgn k = Some rgn' \<and>
    (unat (cnt rgn) = 1 \<and> cnt rgn' = 0 \<or> lmb_used rgn') \<and>
    covered rgn' = covered rgn - addrs (region rgn ! k)"
proof -
  obtain xs ys where ps: "ranges rgn = xs @ region rgn ! k # ys" "length xs = k"
    "xs = take k (ranges rgn)" "ys = drop (Suc k) (ranges rgn)"
    using lmb_used_split [OF used k] .
  have w: "sorted_wrt before (xs @ region rgn ! k # ys)" "\<forall>r \<in> set (xs @ region rgn ! k # ys). prop_ok r"
    using used by (auto simp: lmb_used_def ps(1) [symmetric])
  obtain rgn' where r: "lmb_remove_region rgn k = Some rgn'"
    "unat (cnt rgn') = unat (cnt rgn) - 1" "length (region rgn') = length (region rgn)"
    "ranges rgn' = xs @ ys"
    using lmb_remove_region_spec [OF k] used ps(3,4) by (auto simp: lmb_used_def)
  have "lmb_used rgn'" if "unat (cnt rgn) \<noteq> 1"
    using used w r that
    by (intro lmb_used_regI) (auto simp: lmb_used_def sorted_wrt_append)
  moreover have "cnt rgn' = 0" if "unat (cnt rgn) = 1"
    using r(2) that by (simp add: unat_eq_iff)
  moreover have "covered rgn' = covered rgn - addrs (region rgn ! k)"
    using entry_disjoint [OF w] by (auto simp: covered_def r(4) ps(1))
  ultimately show ?thesis using r(1) by auto
qed

lemma lmb_free_spec:
  assumes "lmb_used (reserved l)" and "0 < unat sz" and "unat base + unat sz < 2 ^ 64"
  shows "\<exists>r l'. lmb_free l base sz = Some (r, l') \<and> memory l' = memory l \<and>
    (let F = {unat base ..< unat base + unat sz} in
     if \<forall>p \<in> set (ranges (reserved l)). \<not> F \<subseteq> addrs p then r = -1 \<and> l' = l
     else if r < 0 then
       r = -1 \<and> cnt (reserved l) = 8 \<and> lmb_used (reserved l') \<and>
       (\<exists>p \<in> set (ranges (reserved l)). F \<subseteq> addrs p \<and> unat base + unat sz < lend p \<and>
          covered (reserved l') = covered (reserved l) - {unat base ..< lend p})
     else covered (reserved l') = covered (reserved l) - F \<and>
       (cnt (reserved l') = 0 \<or> lmb_used (reserved l')))"
proof -
  let ?rgn = "reserved l" and ?e = "base + sz"
  let ?n = "unat (cnt ?rgn)" and ?F = "{unat base ..< unat base + unat sz}"
  let ?P = "\<lambda>k. lp_base (region ?rgn ! k) \<le> base \<and> ?e \<le> lp_base (region ?rgn ! k) + lp_size (region ?rgn ! k)"
  have len: "?n \<le> length (region ?rgn)" using assms(1) by (auto simp: lmb_used_def)
  have e: "unat ?e = unat base + unat sz" using assms(3) by (intro unat_add_nowrap) simp
  have mem: "k < ?n \<Longrightarrow> region ?rgn ! k \<in> set (ranges ?rgn)" for k
    using nth_mem [of k "ranges ?rgn"] length_ranges [OF assms(1)] by (simp add: nth_ranges)
  have ok: "k < ?n \<Longrightarrow> prop_ok (region ?rgn ! k)" for k
    using mem assms(1) by (auto simp: lmb_used_def)
  have P: "?P k \<longleftrightarrow> ?F \<subseteq> addrs (region ?rgn ! k)" if "k < ?n" for k
    using assms(2) ok [OF that] e
    by (auto simp: word_le_nat_alt unat_lend prop_ok_def addrs_def atLeastLessThan_subset_iff)
  show ?thesis
  proof (cases "find ?P [0 ..< ?n]")
    case None
    then have "\<not> ?P k" if "k < ?n" for k using that by (simp add: find_None_iff)
    then have "\<forall>k < ?n. \<not> ?F \<subseteq> addrs (region ?rgn ! k)" using P by simp
    then have "\<forall>p \<in> set (ranges ?rgn). \<not> ?F \<subseteq> addrs p"
      using length_ranges [OF assms(1)] by (auto simp: in_set_conv_nth nth_ranges)
    then show ?thesis using None len by (simp add: lmb_free_def lmb_free_find_find)
  next
    case (Some k)
    then have k: "k < ?n" and Pk: "?P k" by (auto simp: find_upt_Some)
    define p where "p = region ?rgn ! k"
    have okp: "prop_ok p" and pin: "p \<in> set (ranges ?rgn)" and sub: "?F \<subseteq> addrs p"
      using ok [OF k] mem [OF k] P [OF k] Pk by (auto simp: p_def)
    have bounds: "unat (lp_base p) \<le> unat base" "unat base + unat sz \<le> lend p"
      using sub assms(2) by (auto simp: addrs_def atLeastLessThan_subset_iff)
    have ex: "\<not> (\<forall>p \<in> set (ranges ?rgn). \<not> ?F \<subseteq> addrs p)" using pin sub by blast
    have rgnend: "lp_base p + lp_size p = ?e \<longleftrightarrow> lend p = unat base + unat sz"
      using okp e by (simp add: unat_eq_iff unat_lend prop_ok_def)
    have ff: "lmb_free_find 0 ?rgn base ?e = Some k" using Some len by (simp add: lmb_free_find_find)
    note eval = lmb_free_def ff k less_imp_neq [OF k] aget_simps less_le_trans [OF k len] p_def [symmetric] rgnend
    consider (all) "lp_base p = base" "lend p = unat base + unat sz"
      | (front) "lp_base p = base" "lend p \<noteq> unat base + unat sz"
      | (rear) "lp_base p \<noteq> base" "lend p = unat base + unat sz"
      | (middle) "lp_base p \<noteq> base" "lend p \<noteq> unat base + unat sz"
      by blast
    then show ?thesis
    proof cases
      case all
      then have "addrs p = ?F" "lp_size p = sz" by (auto simp: addrs_def lend_def unat_eq_iff)
      then show ?thesis
        using lmb_remove_entry [OF assms(1) k] all ex by (auto simp: eval Let_def)
    next
      case front
      let ?p = "\<lparr>lp_base = ?e, lp_size = lp_size p - sz\<rparr>"
      have "unat (lp_size p - sz) = unat (lp_size p) - unat sz"
        using bounds front by (intro unat_sub_nowrap) (simp add: lend_def)
      then have "prop_ok ?p" "lend ?p = lend p" "addrs p - addrs ?p = ?F" "lp_size p \<noteq> sz"
        using front bounds okp e assms(2) by (auto simp: prop_ok_def addrs_def lend_def)
      then show ?thesis
        using lmb_replace_entry [OF assms(1) k, of ?p] front ex e by (auto simp: eval Let_def)
    next
      case rear
      let ?p = "p\<lparr>lp_size := lp_size p - sz\<rparr>"
      have "unat (lp_size p - sz) = unat (lp_size p) - unat sz"
        using bounds rear by (intro unat_sub_nowrap) (simp add: lend_def)
      moreover have "unat (lp_base p) < unat base"
        using rear(1) bounds by (simp add: unat_eq_iff)
      ultimately have "prop_ok ?p" "lend ?p \<le> lend p" "addrs p - addrs ?p = ?F"
        using rear bounds okp e assms(2) by (auto simp: prop_ok_def addrs_def lend_def)
      then show ?thesis
        using lmb_replace_entry [OF assms(1) k, of ?p] rear ex e by (auto simp: eval Let_def)
    next
      case middle
      let ?p = "p\<lparr>lp_size := base - lp_base p\<rparr>"
      let ?q = "\<lparr>lp_base = ?e, lp_size = lp_base p + lp_size p - ?e\<rparr>"
      have lt: "unat (lp_base p) < unat base" "unat base + unat sz < lend p"
        using middle bounds by (auto simp: unat_eq_iff)
      have s1: "unat (base - lp_base p) = unat base - unat (lp_base p)"
        using lt by (intro unat_sub_nowrap) simp
      have s2: "unat (lp_base p + lp_size p - ?e) = lend p - (unat base + unat sz)"
        using lt okp e by (subst unat_sub_nowrap) (auto simp: unat_lend prop_ok_def)
      have p1: "prop_ok ?p" "lend ?p \<le> lend p" "addrs p - addrs ?p = {unat base ..< lend p}"
        using s1 lt okp by (auto simp: prop_ok_def addrs_def lend_def)
      have q1: "prop_ok ?q" "addrs ?q = {unat base + unat sz ..< lend p}"
        using s2 lt okp e by (auto simp: prop_ok_def addrs_def lend_def)
      let ?rgn1 = "?rgn\<lparr>region := (region ?rgn)[k := ?p]\<rparr>"
      have u1: "lmb_used ?rgn1" "covered ?rgn1 = covered ?rgn - {unat base ..< lend p}"
        using lmb_replace_entry [OF assms(1) k, of ?p] p1 by (auto simp: p_def [symmetric])
      have pc: "addrs p \<subseteq> covered ?rgn" using pin by (auto simp: covered_def)
      have "addrs ?q \<inter> covered ?rgn1 = {}" using q1(2) u1(2) lt by auto
      then obtain r rgn' where add: "lmb_add_region ?rgn1 ?e (lp_base p + lp_size p - ?e) = Some (r, rgn')"
        "lmb_used rgn'" "if r < 0 then r = -1 \<and> rgn' = ?rgn1 \<and> cnt ?rgn1 = 8
         else covered rgn' = covered ?rgn1 \<union> addrs ?q"
        using lmb_add_region_used [OF u1(1) q1(1)] by auto
      have rest: "covered ?rgn - {unat base ..< lend p} \<union> {unat base + unat sz ..< lend p} = covered ?rgn - ?F"
        using pc lt bounds by (auto simp: addrs_def)
      have "lmb_free l base sz = Some (r, l\<lparr>reserved := rgn'\<rparr>)"
        using add(1) middle by (simp add: eval)
      then show ?thesis
        using add(2,3) u1 ex pin sub lt rest q1(2) by (auto simp: Let_def)
    qed
  qed
qed


subsection \<open>Searching and allocating\<close>

lemma lmb_overlaps_loop_find:
  assumes "unat (cnt rgn) \<le> length (region rgn)" and "i \<le> unat (cnt rgn)"
  shows "lmb_overlaps_loop i rgn base sz =
    Some (case find (\<lambda>k. lmb_addrs_overlap base sz (lp_base (region rgn ! k)) (lp_size (region rgn ! k)))
        [i ..< unat (cnt rgn)] of
       None \<Rightarrow> unat (cnt rgn) | Some k \<Rightarrow> k)"
  using assms
proof (induction i rgn base sz rule: lmb_overlaps_loop.induct)
  case (1 i rgn base sz)
  show ?case
  proof (cases "i < unat (cnt rgn)")
    case False
    then show ?thesis
      using "1.prems" by (simp add: lmb_overlaps_loop.simps [of "unat (cnt rgn)" rgn base sz])
  next
    case True
    then show ?thesis
      using "1.IH" [OF True, of "region rgn ! i"] "1.prems"
      by (auto simp: lmb_overlaps_loop.simps [of i rgn base sz] aget_simps upt_conv_Cons)
  qed
qed

definition lmb_safe :: "lmb_region \<Rightarrow> bool" where
  "lmb_safe rgn \<longleftrightarrow>
     length (region rgn) = MAX_LMB_REGIONS + 1 \<and>
     1 \<le> unat (cnt rgn) \<and> unat (cnt rgn) \<le> MAX_LMB_REGIONS"

lemma lmb_wf_safe: "lmb_wf rgn \<Longrightarrow> lmb_safe rgn"
  by (auto simp: lmb_wf_def lmb_fresh_def lmb_used_def lmb_safe_def)

lemma lmb_overlaps_region_spec:
  assumes "lmb_safe rgn"
  shows "\<exists>j. lmb_overlaps_region rgn base sz = Some j \<and>
    (if j < 0 then \<forall>p \<in> set (ranges rgn). \<not> lmb_addrs_overlap base sz (lp_base p) (lp_size p)
     else nat j < length (region rgn))"
proof -
  have "unat (cnt rgn) \<le> length (region rgn)" using assms by (simp add: lmb_safe_def)
  then show ?thesis
    by (auto simp: lmb_overlaps_region_def lmb_overlaps_loop_find find_None_iff find_upt_Some
        ranges_def in_set_conv_nth split: option.splits)
qed

lemma no_overlap_disjoint:
  assumes "lmb_wf rgn" and "0 < unat sz" and "unat base + unat sz < 2 ^ 64"
    and "\<forall>p \<in> set (ranges rgn). \<not> lmb_addrs_overlap base sz (lp_base p) (lp_size p)"
  shows "{unat base ..< unat base + unat sz} \<inter> covered rgn = {}"
proof (cases "lmb_used rgn")
  case True
  have "addrs \<lparr>lp_base = base, lp_size = sz\<rparr> \<inter> addrs p = {}" if "p \<in> set (ranges rgn)" for p
    using overlap_iff [of "\<lparr>lp_base = base, lp_size = sz\<rparr>" p] assms(2-4) that True
    by (auto simp: lend_def lmb_used_def prop_ok_def)
  then show ?thesis by (auto simp: covered_def addrs_make)
next
  case False
  then show ?thesis using assms(1) covered_fresh by (auto simp: lmb_wf_def)
qed

lemma lmb_add_join_safe:
  assumes "lmb_safe rgn" and "k < unat (cnt rgn)"
  shows "\<exists>c' rgn'. lmb_add_join rgn k c = Some (rgn', c') \<and> lmb_safe rgn' \<and> c \<le> c'"
proof (cases "Suc k < unat (cnt rgn)")
  case True
  obtain rgn' where "lmb_coalesce_regions rgn k (Suc k) = Some rgn'"
    "unat (cnt rgn') = unat (cnt rgn) - 1" "length (region rgn') = length (region rgn)"
    using lmb_coalesce_regions_spec [OF True] assms by (auto simp: lmb_safe_def)
  then show ?thesis
    using True assms last_index_iff [of "cnt rgn" k]
    by (auto simp: lmb_add_join_def lmb_regions_adjacent_def aget_simps lmb_safe_def)
next
  case False
  then show ?thesis
    using assms last_index_iff [of "cnt rgn" k] by (auto simp: lmb_add_join_def lmb_safe_def)
qed

lemma lmb_add_sorted_safe:
  assumes "lmb_safe rgn" and "unat (cnt rgn) < 8"
  shows "\<exists>rgn'. lmb_add_sorted rgn base sz = Some rgn' \<and> lmb_safe rgn'"
proof -
  let ?n = "unat (cnt rgn)"
  have nl: "?n < length (region rgn)" "length (region rgn) = 9"
    using assms by (auto simp: lmb_safe_def)
  obtain k reg' where r: "k \<le> ?n" "lmb_insert_loop ?n (region rgn) base sz = Some reg'"
    "if 0 < k then lp_base (region rgn ! (k - 1)) \<le> base \<and>
       reg' = take k (region rgn) @ \<lparr>lp_base = base, lp_size = sz\<rparr> # drop k (take ?n (region rgn)) @ drop (Suc ?n) (region rgn)
     else reg' = (if ?n = 0 then region rgn else region rgn ! 0 # take ?n (region rgn) @ drop (Suc ?n) (region rgn))"
    using lmb_insert_loop_spec [OF nl(1), of base sz] by blast
  then have "length reg' = 9" using nl by (auto split: if_splits)
  moreover have "unat (cnt rgn + 1) = Suc ?n" using assms(2) by (simp add: unat_add_nowrap)
  ultimately show ?thesis
    using r(2) assms by (auto simp: lmb_add_sorted_def aget_simps lmb_safe_def)
qed

lemma lmb_add_region_total:
  assumes "lmb_safe rgn"
  shows "\<exists>r rgn'. lmb_add_region rgn base sz = Some (r, rgn') \<and> lmb_safe rgn' \<and> -1 \<le> r \<and>
    (r = -1 \<longrightarrow> rgn' = rgn)"
proof -
  let ?n = "unat (cnt rgn)"
  have len: "length (region rgn) = 9" "1 \<le> ?n" "?n \<le> 8" "?n \<le> length (region rgn)"
    using assms by (auto simp: lmb_safe_def)
  note join = lmb_add_join_safe
  have out: "lmb_add_join rgn ?n 0 = Some (rgn, 0)"
    using len by (auto simp: lmb_add_join_def word_less_nat_alt unat_sub_nowrap)
  note ins = lmb_add_sorted_safe [OF assms]
  show ?thesis
  proof (cases "cnt rgn = 1 \<and> lp_size (region rgn ! 0) = 0")
    case True
    then show ?thesis using len by (auto simp: lmb_add_region_def aget_simps lmb_safe_def)
  next
    case False
    then have nf: "cnt rgn = 1 \<Longrightarrow> lp_size (region rgn ! 0) \<noteq> 0" by simp
    note eval = lmb_add_region_def lmb_add_coalesce_find [OF len(4)] aget_simps len
    show ?thesis
    proof (cases "find (\<lambda>k. \<not> untouched base sz (region rgn ! k)) [0 ..< ?n]")
      case None
      then show ?thesis
        using nf out ins [of base sz] assms
        by (cases "?n < 8") (fastforce simp: eval word_le_nat_alt)+
    next
      case (Some k)
      let ?rgn = "rgn\<lparr>region := (region rgn)[k := merged base sz (region rgn ! k)]\<rparr>"
      have k: "k < ?n" using Some by (simp add: find_upt_Some)
      obtain c' rgn' where j: "lmb_add_join ?rgn k 1 = Some (rgn', c')" "lmb_safe rgn'" "1 \<le> c'"
        using join [of ?rgn k 1] assms k by (auto simp: lmb_safe_def)
      then have c: "c' \<noteq> 0" "-1 \<le> int c'" "int c' \<noteq> -1" by auto
      show ?thesis
        using nf Some j(1,2) c assms by (auto simp: eval)
    qed
  qed
qed


lemma lmb_alloc_while_spec:
  assumes "lmb_wf (reserved l)" and "0 < unat sz" and "unat base + unat sz < 2 ^ 64"
    and "base AND (align - 1) = 0"
  shows "\<exists>r. lmb_alloc_while l lmbbase sz align base = Some r \<and>
    (case r of
       None \<Rightarrow> True
     | Some (a, l') \<Rightarrow> memory l' = memory l \<and> (if a = 0 then l' = l
         else lmbbase \<le> a \<and> unat a \<le> unat base \<and> a AND (align - 1) = 0 \<and>
           {unat a ..< unat a + unat sz} \<inter> covered (reserved l) = {} \<and>
           (\<exists>c \<ge> 0. lmb_add_region (reserved l) a (lmb_align_up sz align) = Some (c, reserved l'))))"
  using assms
proof (induction l lmbbase sz align base rule: lmb_alloc_while.induct)
  case (1 l lmbbase sz align base)
  have safe: "lmb_safe (reserved l)" using "1.prems"(1) by (rule lmb_wf_safe)
  show ?case
  proof (cases "base \<noteq> 0 \<and> lmbbase \<le> base")
    case False
    then show ?thesis by (auto simp: lmb_alloc_while.simps [of l lmbbase sz align base])
  next
    case True
    obtain j where j: "lmb_overlaps_region (reserved l) base sz = Some j"
      "if j < 0 then \<forall>p \<in> set (ranges (reserved l)). \<not> lmb_addrs_overlap base sz (lp_base p) (lp_size p)
       else nat j < length (region (reserved l))"
      using lmb_overlaps_region_spec [OF safe] by blast
    note unf = lmb_alloc_while.simps [of l lmbbase sz align base] True j(1)
    show ?thesis
    proof (cases "j < 0")
      case neg: True
      obtain c rgn' where add: "lmb_add_region (reserved l) base (lmb_align_up sz align) = Some (c, rgn')"
        "-1 \<le> c" "c = -1 \<Longrightarrow> rgn' = reserved l"
        using lmb_add_region_total [OF safe] by blast
      have "{unat base ..< unat base + unat sz} \<inter> covered (reserved l) = {}"
        using no_overlap_disjoint [OF "1.prems"(1-3)] j(2) neg by simp
      then show ?thesis
        using True neg add "1.prems"(4) by (cases "c = -1") (auto simp: unf)
    next
      case False
      define p where "p = region (reserved l) ! nat j"
      have p: "aget (region (reserved l)) (nat j) = Some p"
        using j(2) False by (simp add: p_def aget_simps)
      show ?thesis
      proof (cases "lp_base p < sz")
        case lt: True
        then show ?thesis using j(2) False True by (simp add: unf aget_simps p_def)
      next
        case ge: False
        let ?base = "lmb_align_down (lp_base p - sz) align"
        have "lmb_addrs_overlap base sz (lp_base p) (lp_size p)"
          using j(1) False unfolding lmb_overlaps_region_def p_def
          by (auto split: Option.bind_splits if_splits dest!: lmb_overlaps_loop_Some)
        then have below: "?base < base" using ge by (intro lmb_alloc_descends) auto
        have "?base AND (align - 1) = 0"
          by (simp add: lmb_align_down_def and.assoc)
        moreover have "unat ?base + unat sz < 2 ^ 64"
          using below "1.prems"(3) by (simp add: word_less_nat_alt)
        moreover have "lmb_alloc_while l lmbbase sz align base = lmb_alloc_while l lmbbase sz align ?base"
          using True j(2) False ge by (simp add: unf aget_simps p_def)
        ultimately show ?thesis
          using "1.IH" [OF True j(1) False p ge] "1.prems"(1,2) below
          by (fastforce simp: word_less_nat_alt split: option.splits if_splits)
      qed
    qed
  qed
qed


lemma and_align_down [simp]: "lmb_align_down a al AND (al - 1) = 0"
  by (simp add: lmb_align_down_def and.assoc)

lemma lmb_alloc_start:
  fixes align :: u64
  assumes "prop_ok p" and "0 < unat sz" and "sz \<le> lp_size p"
    and "max_addr = LMB_ALLOC_ANYWHERE \<or> sz \<le> max_addr"
    and "max_addr = LMB_ALLOC_ANYWHERE \<or> lp_base p < max_addr"
  defines "base \<equiv> (if max_addr = LMB_ALLOC_ANYWHERE
      then lmb_align_down (lp_base p + lp_size p - sz) align
      else let top = (if lp_base p + lp_size p < lp_base p then -1 else lp_base p + lp_size p)
           in lmb_align_down (min top max_addr - sz) align)"
  shows "unat base + unat sz \<le> lend p \<and>
    (max_addr \<noteq> LMB_ALLOC_ANYWHERE \<longrightarrow> unat base + unat sz \<le> unat max_addr) \<and>
    base AND (align - 1) = 0"
proof -
  have e: "unat (lp_base p + lp_size p) = lend p"
    using assms(1) by (intro unat_lend) (simp add: prop_ok_def)
  have nowrap: "\<not> lp_base p + lp_size p < lp_base p"
    using e by (simp add: word_less_nat_alt lend_def)
  have down: "unat (lmb_align_down a align) \<le> unat a" for a
    using lmb_align_down_le [of a align] by (simp add: word_le_nat_alt)
  have sz: "unat sz \<le> unat (lp_size p)" using assms(3) by (simp add: word_le_nat_alt)
  have any: "unat (lp_base p + lp_size p - sz) + unat sz = lend p"
    using e sz by (subst unat_sub_nowrap) (auto simp: lend_def)
  have lim: "unat (min (lp_base p + lp_size p) max_addr - sz) + unat sz = min (lend p) (unat max_addr)"
    if "sz \<le> max_addr"
    using e sz that by (subst unat_sub_nowrap) (auto simp: lend_def min_def word_le_nat_alt)
  show ?thesis
  proof (cases "max_addr = LMB_ALLOC_ANYWHERE")
    case True
    then show ?thesis using down [of "lp_base p + lp_size p - sz"] any by (simp add: base_def)
  next
    case False
    then show ?thesis
      using down [of "min (lp_base p + lp_size p) max_addr - sz"] lim assms(4) nowrap
      by (simp add: base_def) linarith
  qed
qed

definition lmb_memory_ok :: "lmb \<Rightarrow> bool" where
  "lmb_memory_ok l \<longleftrightarrow> unat (cnt (memory l)) \<le> length (region (memory l)) \<and>
     (\<forall>p \<in> set (ranges (memory l)). prop_ok p)"

text \<open>What a returned address promises.\<close>

definition lmb_alloc_post :: "lmb \<Rightarrow> u64 \<Rightarrow> u64 \<Rightarrow> u64 \<Rightarrow> u64 \<Rightarrow> lmb \<Rightarrow> bool" where
  "lmb_alloc_post l sz align max_addr a l' \<longleftrightarrow>
     a AND (align - 1) = 0 \<and>
     (\<exists>p \<in> set (ranges (memory l)). {unat a ..< unat a + unat sz} \<subseteq> addrs p) \<and>
     {unat a ..< unat a + unat sz} \<inter> covered (reserved l) = {} \<and>
     (max_addr \<noteq> LMB_ALLOC_ANYWHERE \<longrightarrow> unat a + unat sz \<le> unat max_addr) \<and>
     (lmb_align_up sz align = sz \<longrightarrow> lmb_used (reserved l') \<and>
        covered (reserved l') = covered (reserved l) \<union> {unat a ..< unat a + unat sz})"

lemma lmb_alloc_outer_spec:
  assumes "lmb_wf (reserved l)" and "lmb_memory_ok l" and "0 < unat sz"
    and "max_addr = LMB_ALLOC_ANYWHERE \<or> sz \<le> max_addr" and "i \<le> unat (cnt (memory l))"
  shows "\<exists>a l'. lmb_alloc_outer i l sz align max_addr = Some (a, l') \<and> memory l' = memory l \<and>
    (if a = 0 then l' = l else lmb_alloc_post l sz align max_addr a l')"
  using assms(5)
proof (induction i)
  case 0
  then show ?case by simp
next
  case (Suc i)
  define p where "p = region (memory l) ! i"
  have i: "i < length (region (memory l))" using Suc.prems assms(2) by (simp add: lmb_memory_ok_def)
  have pin: "p \<in> set (ranges (memory l))"
    using Suc.prems i by (auto simp: p_def ranges_def in_set_conv_nth intro!: exI [of _ i])
  have ok: "prop_ok p" using pin assms(2) by (simp add: lmb_memory_ok_def)
  note IH = Suc.IH [OF Suc_leD [OF Suc.prems]]
  define base where "base = (if max_addr = LMB_ALLOC_ANYWHERE
      then lmb_align_down (lp_base p + lp_size p - sz) align
      else let top = (if lp_base p + lp_size p < lp_base p then -1 else lp_base p + lp_size p)
           in lmb_align_down (min top max_addr - sz) align)"
  have step: "lmb_alloc_outer (Suc i) l sz align max_addr =
    (if lp_size p < sz \<or> max_addr \<noteq> LMB_ALLOC_ANYWHERE \<and> \<not> lp_base p < max_addr
     then lmb_alloc_outer i l sz align max_addr
     else do {
       r \<leftarrow> lmb_alloc_while l (lp_base p) sz align base;
       case r of None \<Rightarrow> lmb_alloc_outer i l sz align max_addr | Some res \<Rightarrow> Some res })"
    using i by (simp add: aget_simps p_def [symmetric] base_def [symmetric] Let_def)
  show ?case
  proof (cases "lp_size p < sz \<or> max_addr \<noteq> LMB_ALLOC_ANYWHERE \<and> \<not> lp_base p < max_addr")
    case True
    then show ?thesis using IH step by simp
  next
    case False
    then have st: "unat base + unat sz \<le> lend p"
      "max_addr \<noteq> LMB_ALLOC_ANYWHERE \<longrightarrow> unat base + unat sz \<le> unat max_addr"
      "base AND (align - 1) = 0"
      using lmb_alloc_start [OF ok assms(3) _ assms(4), of align] unfolding base_def by auto
    then have "unat base + unat sz < 2 ^ 64" using ok by (simp add: prop_ok_def)
    then obtain r where r: "lmb_alloc_while l (lp_base p) sz align base = Some r"
      and *: "case r of None \<Rightarrow> True
       | Some (a, l') \<Rightarrow> memory l' = memory l \<and> (if a = 0 then l' = l
         else lp_base p \<le> a \<and> unat a \<le> unat base \<and> a AND (align - 1) = 0 \<and>
           {unat a ..< unat a + unat sz} \<inter> covered (reserved l) = {} \<and>
           (\<exists>c \<ge> 0. lmb_add_region (reserved l) a (lmb_align_up sz align) = Some (c, reserved l')))"
      using lmb_alloc_while_spec [OF assms(1,3) _ st(3)] by blast
    show ?thesis
    proof (cases r)
      case None
      then show ?thesis using IH step r False by simp
    next
      case (Some t)
      obtain a l' where t: "t = (a, l')" by (cases t)
      have "lmb_alloc_post l sz align max_addr a l'" if "a \<noteq> 0"
      proof -
        have a: "lp_base p \<le> a" "unat a \<le> unat base" "a AND (align - 1) = 0"
          "{unat a ..< unat a + unat sz} \<inter> covered (reserved l) = {}"
          using * Some t that by auto
        have "{unat a ..< unat a + unat sz} \<subseteq> addrs p"
          using a(1,2) st(1) by (auto simp: addrs_def word_le_nat_alt)
        moreover have "lmb_used (reserved l') \<and>
            covered (reserved l') = covered (reserved l) \<union> {unat a ..< unat a + unat sz}"
          if "lmb_align_up sz align = sz"
          using lmb_add_region_spec [OF assms(1,3), of a] * Some t \<open>a \<noteq> 0\<close> that a(2,4) st(1) ok
          by (auto simp: prop_ok_def split: if_splits)
        ultimately show ?thesis
          using a st(2) pin by (auto simp: lmb_alloc_post_def)
      qed
      then show ?thesis using * Some t r step False by auto
    qed
  qed
qed

lemma lmb_alloc_base_spec:
  assumes "lmb_wf (reserved l)" and "lmb_memory_ok l" and "0 < unat sz"
    and "max_addr = LMB_ALLOC_ANYWHERE \<or> sz \<le> max_addr"
  shows "\<exists>a l'. lmb_alloc_base_nocheck l sz align max_addr = Some (a, l') \<and> memory l' = memory l \<and>
    (if a = 0 then l' = l else lmb_alloc_post l sz align max_addr a l')"
  unfolding lmb_alloc_base_nocheck_def by (rule lmb_alloc_outer_spec [OF assms]) simp

lemma lmb_is_reserved_loop_ex:
  assumes "unat (cnt rgn) \<le> length (region rgn)"
  shows "lmb_is_reserved_loop i rgn addr =
    Some (\<exists>k. i \<le> k \<and> k < unat (cnt rgn) \<and> lp_base (region rgn ! k) \<le> addr \<and>
      addr \<le> lp_base (region rgn ! k) + lp_size (region rgn ! k) - 1)"
  using assms
proof (induction i rgn addr rule: lmb_is_reserved_loop.induct)
  case (1 i rgn addr)
  show ?case
  proof (cases "i < unat (cnt rgn)")
    case False
    then show ?thesis by (auto simp: lmb_is_reserved_loop.simps [of i rgn addr])
  next
    case True
    have split: "(\<exists>k. i \<le> k \<and> P k) \<longleftrightarrow> P i \<or> (\<exists>k. Suc i \<le> k \<and> P k)" for P
      by (metis Suc_leD Suc_leI le_neq_implies_less order_refl)
    show ?thesis
      using "1.IH" [OF True, of "region rgn ! i"] True "1.prems"
      by (subst split) (auto simp: lmb_is_reserved_loop.simps [of i rgn addr] aget_simps)
  qed
qed

lemma lmb_is_reserved_spec:
  assumes "lmb_used (reserved l)"
  shows "lmb_is_reserved l addr = Some (unat addr \<in> covered (reserved l))"
proof -
  let ?rgn = "reserved l"
  have len: "unat (cnt ?rgn) \<le> length (region ?rgn)" using assms by (auto simp: lmb_used_def)
  have upper: "addr \<le> lp_base p + lp_size p - 1 \<longleftrightarrow> unat addr < lend p" if "prop_ok p" for p
  proof -
    have "unat (lp_base p + lp_size p) = lend p" using that by (simp add: unat_lend prop_ok_def)
    moreover have "0 < lend p" using that by (simp add: prop_ok_def lend_def)
    ultimately have "unat (lp_base p + lp_size p - 1) = lend p - 1"
      by (subst unat_sub_nowrap) auto
    then show ?thesis using \<open>0 < lend p\<close> by (auto simp: word_le_nat_alt)
  qed
  have "(\<exists>k < unat (cnt ?rgn). lp_base (region ?rgn ! k) \<le> addr \<and>
      addr \<le> lp_base (region ?rgn ! k) + lp_size (region ?rgn ! k) - 1) \<longleftrightarrow>
    (\<exists>p \<in> set (ranges ?rgn). lp_base p \<le> addr \<and> addr \<le> lp_base p + lp_size p - 1)"
    by (metis in_set_conv_nth length_ranges [OF assms] nth_ranges)
  also have "\<dots> \<longleftrightarrow> unat addr \<in> covered ?rgn"
    using assms upper by (auto simp: lmb_used_def covered_def addrs_def word_le_nat_alt)
  finally show ?thesis
    using len by (simp add: lmb_is_reserved_def lmb_is_reserved_loop_ex)
qed


subsection \<open>The table as an interface\<close>

text \<open>
  What the boot code relies on when it enters a list of ranges: every insertion of a range
  disjoint from the table either covers it or is refused with the table unchanged.
\<close>

locale range_table =
  fixes add :: "'t \<Rightarrow> u64 \<Rightarrow> u64 \<Rightarrow> (int \<times> 't) option"
    and cov :: "'t \<Rightarrow> nat set"
    and wf :: "'t \<Rightarrow> bool"
  assumes add_law:
    "wf t \<Longrightarrow> 0 < unat s \<Longrightarrow> unat b + unat s < 2 ^ 64 \<Longrightarrow>
     {unat b ..< unat b + unat s} \<inter> cov t = {} \<Longrightarrow>
     \<exists>r t'. add t b s = Some (r, t') \<and> wf t' \<and>
       (if r < 0 then t' = t else cov t' = cov t \<union> {unat b ..< unat b + unat s})"
begin

fun add_all :: "'t \<Rightarrow> (u64 \<times> u64) list \<Rightarrow> (int list \<times> 't) option" where
  "add_all t [] = Some ([], t)"
| "add_all t ((b, s) # xs) = do {
     (r, t) \<leftarrow> add t b s;
     (rs, t) \<leftarrow> add_all t xs;
     Some (r # rs, t)
   }"

fun apart :: "nat set \<Rightarrow> (u64 \<times> u64) list \<Rightarrow> bool" where
  "apart C [] = True"
| "apart C ((b, s) # xs) =
     (0 < unat s \<and> unat b + unat s < 2 ^ 64 \<and> {unat b ..< unat b + unat s} \<inter> C = {} \<and>
      apart (C \<union> {unat b ..< unat b + unat s}) xs)"

lemma apart_mono: "apart C xs \<Longrightarrow> D \<subseteq> C \<Longrightarrow> apart D xs"
proof (induction xs arbitrary: C D)
  case Nil
  then show ?case by simp
next
  case (Cons x xs)
  obtain b s where x: "x = (b, s)" by (cases x)
  have "D \<union> {unat b ..< unat b + unat s} \<subseteq> C \<union> {unat b ..< unat b + unat s}"
    using Cons.prems(2) by auto
  then show ?case
    using Cons.prems Cons.IH [of "C \<union> {unat b ..< unat b + unat s}"] by (auto simp: x)
qed

lemma add_all_covers:
  assumes "wf t" and "apart (cov t) xs"
  shows "\<exists>rs t'. add_all t xs = Some (rs, t') \<and> wf t' \<and> cov t \<subseteq> cov t' \<and>
    cov t' \<subseteq> cov t \<union> (\<Union>(b, s) \<in> set xs. {unat b ..< unat b + unat s}) \<and>
    ((\<forall>r \<in> set rs. 0 \<le> r) \<longrightarrow>
      cov t' = cov t \<union> (\<Union>(b, s) \<in> set xs. {unat b ..< unat b + unat s}))"
  using assms
proof (induction xs arbitrary: t)
  case Nil
  then show ?case by simp
next
  case (Cons x xs)
  obtain b s where x: "x = (b, s)" by (cases x)
  have pre: "0 < unat s" "unat b + unat s < 2 ^ 64" "{unat b ..< unat b + unat s} \<inter> cov t = {}"
    "apart (cov t \<union> {unat b ..< unat b + unat s}) xs"
    using Cons.prems(2) by (auto simp: x)
  obtain r t1 where a: "add t b s = Some (r, t1)" "wf t1"
    "if r < 0 then t1 = t else cov t1 = cov t \<union> {unat b ..< unat b + unat s}"
    using add_law [OF Cons.prems(1) pre(1-3)] by blast
  have "apart (cov t1) xs" using a(3) pre(4) by (auto intro: apart_mono split: if_splits)
  from Cons.IH [OF a(2) this] obtain rs t2 where "add_all t1 xs = Some (rs, t2)" "wf t2" "cov t1 \<subseteq> cov t2"
    "cov t2 \<subseteq> cov t1 \<union> (\<Union>(b, s) \<in> set xs. {unat b ..< unat b + unat s})"
    "(\<forall>r \<in> set rs. 0 \<le> r) \<longrightarrow> cov t2 = cov t1 \<union> (\<Union>(b, s) \<in> set xs. {unat b ..< unat b + unat s})"
    by blast
  then show ?case using a by (auto simp: x split: if_splits)
qed

end

interpretation lmbt: range_table lmb_add_region covered lmb_wf
proof
  fix t :: lmb_region and b s :: u64
  assume "lmb_wf t" "0 < unat s" "unat b + unat s < 2 ^ 64" "{unat b ..< unat b + unat s} \<inter> covered t = {}"
  then show "\<exists>r t'. lmb_add_region t b s = Some (r, t') \<and> lmb_wf t' \<and>
      (if r < 0 then t' = t else covered t' = covered t \<union> {unat b ..< unat b + unat s})"
    using lmb_add_region_spec [of t s b] by (auto split: if_splits) 
qed


section \<open>Properties\<close>

definition lmb_region_example :: lmb_region where
  "lmb_region_example = \<lparr>cnt = 1, rsize = 0,
     region = \<lparr>lp_base = 0x1000, lp_size = 0x100\<rparr> # replicate 8 \<lparr>lp_base = 0, lp_size = 0\<rparr>\<rparr>"

definition lmb_example :: lmb where
  "lmb_example = \<lparr>
     memory = \<lparr>cnt = 1, rsize = 0,
       region = \<lparr>lp_base = 0x1000, lp_size = 0x8000\<rparr> # replicate 8 \<lparr>lp_base = 0, lp_size = 0\<rparr>\<rparr>,
     reserved = lmb_region_example\<rparr>"

lemma lmb_region_example_ranges: "ranges lmb_region_example = [\<lparr>lp_base = 0x1000, lp_size = 0x100\<rparr>]"
  by (simp add: lmb_region_example_def ranges_def)

lemma lmb_region_example_used: "lmb_used lmb_region_example"
  by (rule lmb_used_regI)
    (simp_all add: lmb_region_example_ranges prop_ok_make, simp_all add: lmb_region_example_def)

lemma lmb_region_example_covered: "covered lmb_region_example = {0x1000 ..< 0x1100}"
  by (simp add: covered_def lmb_region_example_ranges addrs_make)

text \<open>
  C11. Adding a range (\<open>lmb_add_region\<close>, the body of \<open>lmb_add\<close> and
  \<open>lmb_reserve\<close>): for a table that is fresh or sorted with gaps, and a non-empty range
  that does not wrap and is either disjoint from the table or already one of its entries,
  the routine reads and writes inside the array only, the result is again sorted with
  gaps, and it covers exactly the old addresses and the new range; the only failure is
  -1 on a full table, which is then unchanged.
\<close>

theorem lmb_add_region_correct:
  assumes "lmb_wf rgn" and "0 < unat sz" and "unat base + unat sz < 2 ^ 64"
    and "{unat base ..< unat base + unat sz} \<inter> covered rgn = {} \<or>
      \<lparr>lp_base = base, lp_size = sz\<rparr> \<in> set (ranges rgn)"
  shows "\<exists>r rgn'. lmb_add_region rgn base sz = Some (r, rgn') \<and> lmb_wf rgn' \<and>
    (if r < 0 then r = -1 \<and> rgn' = rgn \<and> cnt rgn = 8
     else lmb_used rgn' \<and> covered rgn' = covered rgn \<union> {unat base ..< unat base + unat sz})"
  using assms by (rule lmb_add_region_spec)

theorem lmb_add_region_correct_witness:
  "lmb_wf lmb_region_example \<and>
   (\<exists>r rgn'. lmb_add_region lmb_region_example 0x1100 0x40 = Some (r, rgn') \<and> lmb_wf rgn' \<and>
     (if r < 0 then r = -1 \<and> rgn' = lmb_region_example \<and> cnt lmb_region_example = 8
      else lmb_used rgn' \<and> covered rgn' = covered lmb_region_example \<union> {0x1100 ..< 0x1140}))"
proof -
  have wf: "lmb_wf lmb_region_example" using lmb_region_example_used by (simp add: lmb_wf_def)
  then show ?thesis
    using lmb_add_region_correct [OF wf, of "0x40" "0x1100"]
    by (simp add: lmb_region_example_covered cong: if_cong)
qed

text \<open>
  C29. Freeing a range (\<open>lmb_free\<close>): a range inside one reserved entry is given back and
  nothing else is, and the table stays well-formed unless its last entry went; a range in no entry is
  refused with -1 and the state kept. The split of an entry of a full table also returns
  -1, and then everything from the start of the range to the end of the entry is lost.
\<close>

theorem lmb_free_correct:
  assumes "lmb_used (reserved l)" and "0 < unat sz" and "unat base + unat sz < 2 ^ 64"
  shows "\<exists>r l'. lmb_free l base sz = Some (r, l') \<and> memory l' = memory l \<and>
    (let F = {unat base ..< unat base + unat sz} in
     if \<forall>p \<in> set (ranges (reserved l)). \<not> F \<subseteq> addrs p then r = -1 \<and> l' = l
     else if r < 0 then
       r = -1 \<and> cnt (reserved l) = 8 \<and> lmb_used (reserved l') \<and>
       (\<exists>p \<in> set (ranges (reserved l)). F \<subseteq> addrs p \<and> unat base + unat sz < lend p \<and>
          covered (reserved l') = covered (reserved l) - {unat base ..< lend p})
     else covered (reserved l') = covered (reserved l) - F \<and>
       (cnt (reserved l') = 0 \<or> lmb_used (reserved l')))"
  using assms by (rule lmb_free_spec)

theorem lmb_free_correct_witness:
  "\<exists>r l'. lmb_free lmb_example 0x1040 0x40 = Some (r, l') \<and> memory l' = memory lmb_example \<and>
    (if r < 0 then cnt (reserved lmb_example) = 8
     else covered (reserved l') = {0x1000 ..< 0x1100} - {0x1040 ..< 0x1080})"
proof -
  have "\<not> (\<forall>p \<in> set (ranges (reserved lmb_example)). \<not> {0x1040 ..< 0x1080} \<subseteq> addrs p)"
    by (auto simp: lmb_example_def lmb_region_example_def ranges_def addrs_def lend_def)
  then show ?thesis
    using lmb_free_correct [of lmb_example "0x40" "0x1040"] lmb_region_example_used
      lmb_region_example_covered
    by (auto simp: lmb_example_def Let_def split: if_splits)
qed

text \<open>
  Memory safety of the insertion: on any table with between one and eight entries, with
  any base and size (also one that wraps around or overlaps), \<open>lmb_add_region\<close> stays
  inside the array, the table keeps between one and eight entries, and -1 is only
  returned with the table untouched.
\<close>

theorem lmb_add_region_safe:
  assumes "lmb_safe rgn"
  shows "\<exists>r rgn'. lmb_add_region rgn base sz = Some (r, rgn') \<and> lmb_safe rgn' \<and> -1 \<le> r \<and>
    (r = -1 \<longrightarrow> rgn' = rgn)"
  using assms by (rule lmb_add_region_total)

theorem lmb_add_region_safe_witness:
  "lmb_safe lmb_region_example \<and>
   (\<exists>r rgn'. lmb_add_region lmb_region_example (-1) 0x1010 = Some (r, rgn') \<and> lmb_safe rgn' \<and>
     -1 \<le> r \<and> (r = -1 \<longrightarrow> rgn' = lmb_region_example))"
proof -
  have safe: "lmb_safe lmb_region_example"
    using lmb_region_example_used by (auto intro: lmb_wf_safe simp: lmb_wf_def)
  then show ?thesis using lmb_add_region_safe [OF safe, of "-1" "0x1010"] by simp
qed

text \<open>
  C12. Allocation (\<open>__lmb_alloc_base\<close>): for well-formed tables, a positive size and a limit
  that is absent or not below the size, the search ends and stays inside the arrays. A
  non-zero result is aligned, lies with its whole size inside one memory range and below the
  limit and touches nothing that was reserved; when the size is a multiple of the alignment
  the block is then reserved exactly. The result 0 leaves the state as it was.
\<close>

theorem lmb_alloc_base_correct:
  assumes "lmb_wf (reserved l)" and "lmb_memory_ok l" and "0 < unat sz"
    and "max_addr = LMB_ALLOC_ANYWHERE \<or> sz \<le> max_addr"
  shows "\<exists>a l'. lmb_alloc_base_nocheck l sz align max_addr = Some (a, l') \<and> memory l' = memory l \<and>
    (if a = 0 then l' = l else lmb_alloc_post l sz align max_addr a l')"
  using assms by (rule lmb_alloc_base_spec)

theorem lmb_alloc_base_correct_witness:
  "\<exists>a l'. lmb_alloc_base_nocheck lmb_example 0x1000 0x1000 0x4000 = Some (a, l') \<and>
    memory l' = memory lmb_example \<and>
    (if a = 0 then l' = lmb_example else lmb_alloc_post lmb_example 0x1000 0x1000 0x4000 a l')"
proof -
  have "lmb_wf (reserved lmb_example)"
    using lmb_region_example_used by (simp add: lmb_wf_def lmb_example_def)
  moreover have "lmb_memory_ok lmb_example"
    by (simp add: lmb_memory_ok_def lmb_example_def ranges_def prop_ok_def lend_def)
  ultimately show ?thesis
    using lmb_alloc_base_correct [of lmb_example "0x1000" "0x4000" "0x1000"] by simp
qed

text \<open>
  \<open>lmb_is_reserved\<close> decides membership in the reserved ranges of a used table.
\<close>

theorem lmb_is_reserved_correct:
  assumes "lmb_used (reserved l)"
  shows "lmb_is_reserved l addr = Some (unat addr \<in> covered (reserved l))"
  using assms by (rule lmb_is_reserved_spec)

theorem lmb_is_reserved_correct_witness:
  "lmb_is_reserved lmb_example 0x10FF = Some True \<and> lmb_is_reserved lmb_example 0x1100 = Some False"
  using lmb_is_reserved_correct [of lmb_example "0x10FF"] lmb_is_reserved_correct [of lmb_example "0x1100"]
    lmb_region_example_used lmb_region_example_covered
  by (simp add: lmb_example_def)

text \<open>
  A defect of the fresh table: after \<open>lmb_init\<close> nothing is reserved, and yet
  \<open>lmb_is_reserved\<close> answers 1 for every address, since the upper bound of the dummy
  entry is \<open>0 + 0 - 1\<close>.
\<close>

theorem lmb_init_is_reserved_everywhere:
  assumes "length (region (memory l)) = MAX_LMB_REGIONS + 1"
    and "length (region (reserved l)) = MAX_LMB_REGIONS + 1"
  shows "\<exists>l'. lmb_init l = Some l' \<and> lmb_fresh (memory l') \<and> lmb_fresh (reserved l') \<and>
    covered (reserved l') = {} \<and> lmb_is_reserved l' addr = Some True"
proof -
  let ?f = "\<lambda>rgn. rgn\<lparr>region := (region rgn)[0 := \<lparr>lp_base = 0, lp_size = 0\<rparr>], cnt := 1, rsize := 0\<rparr>"
  let ?l = "l\<lparr>memory := ?f (memory l), reserved := ?f (reserved l)\<rparr>"
  have "lmb_init l = Some ?l"
    using assms by (simp add: lmb_init_def lmb_init_region_def aget_simps)
  moreover have fr: "lmb_fresh (memory ?l)" "lmb_fresh (reserved ?l)"
    using assms by (simp_all add: lmb_fresh_def)
  moreover have "lmb_is_reserved ?l addr = Some True"
    using assms
    by (simp add: lmb_is_reserved_def lmb_is_reserved_loop.simps [of 0] aget_simps)
  ultimately show ?thesis using covered_fresh [OF fr(2)] by blast
qed

theorem lmb_init_is_reserved_everywhere_witness:
  "\<exists>l'. lmb_init lmb_example = Some l' \<and> lmb_fresh (memory l') \<and> lmb_fresh (reserved l') \<and>
    covered (reserved l') = {} \<and> lmb_is_reserved l' 0x2000 = Some True"
  using lmb_init_is_reserved_everywhere [of lmb_example "0x2000"]
  by (simp add: lmb_example_def lmb_region_example_def)

text \<open>
  A defect of the empty table: once \<open>lmb_free\<close> has taken the only entry,
  \<open>lmb_reserve\<close> of a range at or above it reports success and resurrects the freed
  entry instead of storing the new range, since the insertion loop does not run and the
  counter is incremented over the stale entry.
\<close>

theorem lmb_reserve_after_last_free:
  assumes "length (region (reserved l)) = MAX_LMB_REGIONS + 1" and "cnt (reserved l) = 1"
    and "prop_ok p" and "0 < unat (lp_base p)" and "region (reserved l) ! 0 = p"
    and "region (reserved l) ! 1 = \<lparr>lp_base = 0, lp_size = 0\<rparr>" and "lp_base p \<le> b"
  shows "\<exists>l1 l2. lmb_free l (lp_base p) (lp_size p) = Some (0, l1) \<and> covered (reserved l1) = {} \<and>
    lmb_reserve l1 b s = Some (0, l2) \<and> covered (reserved l2) = addrs p"
proof -
  let ?rgn = "reserved l"
  have p1: "lp_base p + lp_size p \<noteq> 0" "lp_base p \<noteq> 0"
    using assms(3,4) unat_lend [of p] by (auto simp: prop_ok_def lend_def unat_eq_iff)
  have ff: "lmb_free_find 0 ?rgn (lp_base p) (lp_base p + lp_size p) = Some 0"
    using assms by (simp add: lmb_free_find.simps [of 0] aget_simps)
  have rm: "lmb_remove_region ?rgn 0 = Some (?rgn\<lparr>cnt := 0\<rparr>)"
    using assms(2) by (simp add: lmb_remove_region_def lmb_remove_loop.simps [of 0])
  let ?l1 = "l\<lparr>reserved := ?rgn\<lparr>cnt := 0\<rparr>\<rparr>"
  let ?l2 = "l\<lparr>reserved := ?rgn\<rparr>"
  have free: "lmb_free l (lp_base p) (lp_size p) = Some (0, ?l1)"
    using assms ff rm by (simp add: lmb_free_def aget_simps)
  have "lmb_regions_adjacent (?rgn\<lparr>cnt := 0\<rparr>) 0 1 = Some 0"
    using assms p1 by (simp add: lmb_regions_adjacent_def aget_simps lmb_addrs_adjacent_def)
  moreover have "?rgn\<lparr>cnt := 1\<rparr> = ?rgn" using assms(2) by simp
  ultimately have "lmb_add_region (?rgn\<lparr>cnt := 0\<rparr>) b s = Some (0, ?rgn)"
    using assms
    by (simp add: lmb_add_region_def lmb_add_coalesce.simps [of 0] aget_simps lmb_add_join_def
        lmb_add_sorted_def)
  then have "lmb_reserve ?l1 b s = Some (0, ?l2)" by (simp add: lmb_reserve_def)
  moreover have "covered (reserved ?l2) = addrs p"
    using assms(1,2,5) by (simp add: covered_def ranges_def take_Suc_conv_app_nth)
  moreover have "covered (reserved ?l1) = {}" by (simp add: covered_def ranges_def)
  ultimately show ?thesis using free by blast
qed

theorem lmb_reserve_after_last_free_witness:
  "\<exists>l1 l2. lmb_free lmb_example 0x1000 0x100 = Some (0, l1) \<and> covered (reserved l1) = {} \<and>
    lmb_reserve l1 0x2000 0x40 = Some (0, l2) \<and> covered (reserved l2) = {0x1000 ..< 0x1100}"
  using lmb_reserve_after_last_free
    [of lmb_example "\<lparr>lp_base = 0x1000, lp_size = 0x100\<rparr>" "0x2000" "0x40"]
  by (simp add: lmb_example_def lmb_region_example_def prop_ok_make addrs_make)

text \<open>
  Two further defects on concrete inputs. With a limit below the size the subtraction wraps
  and the block is placed at the top of the address space, outside all memory. And the size
  that is checked for overlaps is smaller than the aligned one that is reserved, so the new
  entry runs into its neighbour.
\<close>

lemma lmb_alloc_base_small_limit:
  "map_option fst (lmb_alloc_base_nocheck (lmb_example\<lparr>memory := \<lparr>cnt = 1, rsize = 0,
     region = \<lparr>lp_base = 0, lp_size = 0x8000\<rparr> # replicate 8 \<lparr>lp_base = 0, lp_size = 0\<rparr>\<rparr>\<rparr>)
     0x2000 0x1000 0x1000) = Some 0xFFFFFFFFFFFFF000"
  by code_simp

lemma lmb_alloc_padding_overlap:
  "map_option (\<lambda>(a, l). (a, ranges (reserved l)))
     (lmb_alloc_base_nocheck (lmb_example\<lparr>reserved := lmb_region_example\<lparr>region :=
        \<lparr>lp_base = 0x3005, lp_size = 0x100\<rparr> # replicate 8 \<lparr>lp_base = 0, lp_size = 0\<rparr>\<rparr>\<rparr>) 5 0x10 0x3005) =
   Some (0x3000, [\<lparr>lp_base = 0x3000, lp_size = 0x10\<rparr>, \<lparr>lp_base = 0x3005, lp_size = 0x100\<rparr>])"
  by code_simp

end
