(* ===== verification/Cstring.thy ===== *)
theory Cstring
  imports Prelude
begin

unbundle bit_operations_syntax

text \<open>
  The C string and memory library of U-Boot, \<^verbatim>\<open>lib/string.c\<close>, with the character
  classes of \<^verbatim>\<open>lib/ctype.c\<close> and \<^verbatim>\<open>include/linux/ctype.h\<close>.
  Memory is a list of bytes, a pointer an index into it (so an address is aligned when its index is), and
  an access outside the list is \<open>None\<close>; a returned null pointer is an inner
  \<open>None\<close>. A \<open>char\<close> is unsigned, as on the ARM targets, an \<open>unsigned long\<close>
  has eight bytes, lowest first. The architecture overrides of \<open>memcpy\<close> and
  \<open>memset\<close> are off.
\<close>

type_synonym mem = "u8 list"

section \<open>Character classes\<close>

definition ctU :: u8 where "ctU = 0x01"
definition ctL :: u8 where "ctL = 0x02"
definition ctD :: u8 where "ctD = 0x04"
definition ctC :: u8 where "ctC = 0x08"
definition ctP :: u8 where "ctP = 0x10"
definition ctS :: u8 where "ctS = 0x20"
definition ctX :: u8 where "ctX = 0x40"
definition ctSP :: u8 where "ctSP = 0x80"

definition ctype :: "u8 list" where
  "ctype =
     replicate 8 ctC @
     [ctC, ctC OR ctS, ctC OR ctS, ctC OR ctS, ctC OR ctS, ctC OR ctS, ctC, ctC] @
     replicate 16 ctC @
     [ctS OR ctSP] @ replicate 7 ctP @
     replicate 8 ctP @
     replicate 8 ctD @
     [ctD, ctD] @ replicate 6 ctP @
     [ctP] @ replicate 6 (ctU OR ctX) @ [ctU] @
     replicate 16 ctU @
     [ctU, ctU, ctU] @ replicate 5 ctP @
     [ctP] @ replicate 6 (ctL OR ctX) @ [ctL] @
     replicate 16 ctL @
     [ctL, ctL, ctL] @ replicate 4 ctP @ [ctC] @
     replicate 32 0 @
     [ctS OR ctSP] @ replicate 15 ctP @
     replicate 16 ctP @
     replicate 16 ctU @
     replicate 7 ctU @ [ctP] @ replicate 7 ctU @ [ctL] @
     replicate 16 ctL @
     replicate 7 ctL @ [ctP] @ replicate 8 ctL"

definition ismask :: "u8 \<Rightarrow> u8" where
  "ismask c = ctype ! unat c"

definition isdigit :: "u8 \<Rightarrow> bool" where "isdigit c \<longleftrightarrow> ismask c AND ctD \<noteq> 0"
definition islower :: "u8 \<Rightarrow> bool" where "islower c \<longleftrightarrow> ismask c AND ctL \<noteq> 0"
definition isupper :: "u8 \<Rightarrow> bool" where "isupper c \<longleftrightarrow> ismask c AND ctU \<noteq> 0"
definition isspace :: "u8 \<Rightarrow> bool" where "isspace c \<longleftrightarrow> ismask c AND ctS \<noteq> 0"
definition isxdigit :: "u8 \<Rightarrow> bool" where "isxdigit c \<longleftrightarrow> ismask c AND (ctD OR ctX) \<noteq> 0"

definition isblank :: "u8 \<Rightarrow> bool" where "isblank c \<longleftrightarrow> c = 0x20 \<or> c = 0x09"

definition tolower :: "u8 \<Rightarrow> u8" where
  "tolower c = (if isupper c then c - (0x41 - 0x61) else c)"

definition toupper :: "u8 \<Rightarrow> u8" where
  "toupper c = (if islower c then c - (0x61 - 0x41) else c)"

section \<open>Comparing\<close>

text \<open>
  The do-while loop of \<open>strncasecmp\<close>, entered with a positive count; it returns the last
  values of \<open>c1\<close> and \<open>c2\<close>.
\<close>

fun strncasecmp_loop :: "mem \<Rightarrow> nat \<Rightarrow> nat \<Rightarrow> nat \<Rightarrow> (u8 \<times> u8) option" where
  "strncasecmp_loop m s1 s2 0 = Some (0, 0)"
| "strncasecmp_loop m s1 s2 (Suc len) = do {
     c1 \<leftarrow> aget m s1;
     c2 \<leftarrow> aget m s2;
     if c1 = 0 \<or> c2 = 0 then Some (c1, c2)
     else if c1 = c2 then
       (if len = 0 then Some (c1, c2) else strncasecmp_loop m (Suc s1) (Suc s2) len)
     else if tolower c1 \<noteq> tolower c2 then Some (tolower c1, tolower c2)
     else if len = 0 then Some (tolower c1, tolower c2)
     else strncasecmp_loop m (Suc s1) (Suc s2) len
   }"

definition strncasecmp :: "mem \<Rightarrow> nat \<Rightarrow> nat \<Rightarrow> nat \<Rightarrow> int option" where
  "strncasecmp m s1 s2 len = do {
     (c1, c2) \<leftarrow> strncasecmp_loop m s1 s2 len;
     Some (uint c1 - uint c2)
   }"

definition strcasecmp :: "mem \<Rightarrow> nat \<Rightarrow> nat \<Rightarrow> int option" where
  "strcasecmp m s1 s2 = strncasecmp m s1 s2 (2 ^ 32 - 1)"

text \<open>\<open>__res\<close> is a \<open>signed char\<close>: the difference is cut to eight bits.\<close>

function strcmp :: "mem \<Rightarrow> nat \<Rightarrow> nat \<Rightarrow> int option" where
  "strcmp m cs ct = do {
     a \<leftarrow> aget m cs;
     b \<leftarrow> aget m ct;
     let res = sint (a - b);
     if res \<noteq> 0 \<or> a = 0 then Some res else strcmp m (Suc cs) (Suc ct)
   }"
  by pat_completeness auto
termination
  by (relation "measure (\<lambda>(m, cs, ct). length m - cs)") auto

declare strcmp.simps [simp del]

fun strncmp :: "mem \<Rightarrow> nat \<Rightarrow> nat \<Rightarrow> nat \<Rightarrow> int option" where
  "strncmp m cs ct 0 = Some 0"
| "strncmp m cs ct (Suc count) = do {
     a \<leftarrow> aget m cs;
     b \<leftarrow> aget m ct;
     let res = sint (a - b);
     if res \<noteq> 0 \<or> a = 0 then Some res else strncmp m (Suc cs) (Suc ct) count
   }"

fun memcmp :: "mem \<Rightarrow> nat \<Rightarrow> nat \<Rightarrow> nat \<Rightarrow> int option" where
  "memcmp m su1 su2 0 = Some 0"
| "memcmp m su1 su2 (Suc count) = do {
     a \<leftarrow> aget m su1;
     b \<leftarrow> aget m su2;
     let res = uint a - uint b;
     if res \<noteq> 0 then Some res else memcmp m (Suc su1) (Suc su2) count
   }"

section \<open>Scanning\<close>

function strlen_from :: "mem \<Rightarrow> nat \<Rightarrow> nat option" where
  "strlen_from m sc = do {
     c \<leftarrow> aget m sc;
     if c \<noteq> 0 then strlen_from m (Suc sc) else Some sc
   }"
  by pat_completeness auto
termination
  by (relation "measure (\<lambda>(m, sc). length m - sc)") auto

declare strlen_from.simps [simp del]

definition strlen :: "mem \<Rightarrow> nat \<Rightarrow> nat option" where
  "strlen m s = do { sc \<leftarrow> strlen_from m s; Some (sc - s) }"

fun strnlen_from :: "mem \<Rightarrow> nat \<Rightarrow> nat \<Rightarrow> nat option" where
  "strnlen_from m sc 0 = Some sc"
| "strnlen_from m sc (Suc count) = do {
     c \<leftarrow> aget m sc;
     if c \<noteq> 0 then strnlen_from m (Suc sc) count else Some sc
   }"

definition strnlen :: "mem \<Rightarrow> nat \<Rightarrow> nat \<Rightarrow> nat option" where
  "strnlen m s count = do { sc \<leftarrow> strnlen_from m s count; Some (sc - s) }"

function strchr :: "mem \<Rightarrow> nat \<Rightarrow> u8 \<Rightarrow> nat option option" where
  "strchr m s c = do {
     x \<leftarrow> aget m s;
     if x \<noteq> c then (if x = 0 then Some None else strchr m (Suc s) c)
     else Some (Some s)
   }"
  by pat_completeness auto
termination
  by (relation "measure (\<lambda>(m, s, c). length m - s)") auto

declare strchr.simps [simp del]

function strchrnul :: "mem \<Rightarrow> nat \<Rightarrow> u8 \<Rightarrow> nat option" where
  "strchrnul m s c = do {
     x \<leftarrow> aget m s;
     if x \<noteq> c then (if x = 0 then Some s else strchrnul m (Suc s) c)
     else Some s
   }"
  by pat_completeness auto
termination
  by (relation "measure (\<lambda>(m, s, c). length m - s)") auto

declare strchrnul.simps [simp del]

text \<open>The do-while loop of \<open>strrchr\<close>, \<open>k\<close> steps above the start \<open>s\<close>.\<close>

fun strrchr_loop :: "mem \<Rightarrow> nat \<Rightarrow> u8 \<Rightarrow> nat \<Rightarrow> nat option option" where
  "strrchr_loop m s c k = do {
     x \<leftarrow> aget m (s + k);
     if x = c then Some (Some (s + k))
     else case k of 0 \<Rightarrow> Some None | Suc k' \<Rightarrow> strrchr_loop m s c k'
   }"

declare strrchr_loop.simps [simp del]

definition strrchr :: "mem \<Rightarrow> nat \<Rightarrow> u8 \<Rightarrow> nat option option" where
  "strrchr m s c = do { n \<leftarrow> strlen m s; strrchr_loop m s c n }"

text \<open>
  The inner loop that \<open>strcspn\<close>, \<open>strspn\<close> and \<open>strpbrk\<close> share: the position in
  the set string where the character is found, or of its terminator.
\<close>

function strset_find :: "mem \<Rightarrow> u8 \<Rightarrow> nat \<Rightarrow> nat option" where
  "strset_find m c r = do {
     x \<leftarrow> aget m r;
     if x = 0 then Some r
     else if c = x then Some r
     else strset_find m c (Suc r)
   }"
  by pat_completeness auto
termination
  by (relation "measure (\<lambda>(m, c, r). length m - r)") auto

declare strset_find.simps [simp del]

definition strset_hit :: "mem \<Rightarrow> u8 \<Rightarrow> nat \<Rightarrow> bool option" where
  "strset_hit m c r = do { q \<leftarrow> strset_find m c r; x \<leftarrow> aget m q; Some (x \<noteq> 0) }"

function strcspn_loop :: "mem \<Rightarrow> nat \<Rightarrow> nat \<Rightarrow> nat \<Rightarrow> nat option" where
  "strcspn_loop m p reject count = do {
     c \<leftarrow> aget m p;
     if c = 0 then Some count
     else do {
       hit \<leftarrow> strset_hit m c reject;
       if hit then Some count else strcspn_loop m (Suc p) reject (Suc count)
     }
   }"
  by pat_completeness auto
termination
  by (relation "measure (\<lambda>(m, p, r, n). length m - p)") auto

declare strcspn_loop.simps [simp del]

definition strcspn :: "mem \<Rightarrow> nat \<Rightarrow> nat \<Rightarrow> nat option" where
  "strcspn m s reject = strcspn_loop m s reject 0"

function strspn_loop :: "mem \<Rightarrow> nat \<Rightarrow> nat \<Rightarrow> nat \<Rightarrow> nat option" where
  "strspn_loop m p accept count = do {
     c \<leftarrow> aget m p;
     if c = 0 then Some count
     else do {
       hit \<leftarrow> strset_hit m c accept;
       if \<not> hit then Some count else strspn_loop m (Suc p) accept (Suc count)
     }
   }"
  by pat_completeness auto
termination
  by (relation "measure (\<lambda>(m, p, r, n). length m - p)") auto

declare strspn_loop.simps [simp del]

definition strspn :: "mem \<Rightarrow> nat \<Rightarrow> nat \<Rightarrow> nat option" where
  "strspn m s accept = strspn_loop m s accept 0"

function strpbrk :: "mem \<Rightarrow> nat \<Rightarrow> nat \<Rightarrow> nat option option" where
  "strpbrk m sc1 ct = do {
     c \<leftarrow> aget m sc1;
     if c = 0 then Some None
     else do {
       hit \<leftarrow> strset_hit m c ct;
       if hit then Some (Some sc1) else strpbrk m (Suc sc1) ct
     }
   }"
  by pat_completeness auto
termination
  by (relation "measure (\<lambda>(m, p, ct). length m - p)") auto

declare strpbrk.simps [simp del]

fun memscan :: "mem \<Rightarrow> nat \<Rightarrow> int \<Rightarrow> nat \<Rightarrow> nat option" where
  "memscan m p c 0 = Some p"
| "memscan m p c (Suc sz) = do {
     x \<leftarrow> aget m p;
     if uint x = c then Some p else memscan m (Suc p) c sz
   }"

fun memchr :: "mem \<Rightarrow> nat \<Rightarrow> u8 \<Rightarrow> nat \<Rightarrow> nat option option" where
  "memchr m p c 0 = Some None"
| "memchr m p c (Suc n) = do {
     x \<leftarrow> aget m p;
     if c = x then Some (Some p) else memchr m (Suc p) c n
   }"

text \<open>The loop of \<open>strstr\<close> while \<open>l1 >= l2\<close>; its argument is \<open>l1 - l2\<close>.\<close>

fun strstr_loop :: "mem \<Rightarrow> nat \<Rightarrow> nat \<Rightarrow> nat \<Rightarrow> nat \<Rightarrow> nat option option" where
  "strstr_loop m s1 s2 l2 k = do {
     r \<leftarrow> memcmp m s1 s2 l2;
     if r = 0 then Some (Some s1)
     else case k of 0 \<Rightarrow> Some None | Suc k' \<Rightarrow> strstr_loop m (Suc s1) s2 l2 k'
   }"

declare strstr_loop.simps [simp del]

definition strstr :: "mem \<Rightarrow> nat \<Rightarrow> nat \<Rightarrow> nat option option" where
  "strstr m s1 s2 = do {
     l2 \<leftarrow> strlen m s2;
     if l2 = 0 then Some (Some s1)
     else do {
       l1 \<leftarrow> strlen m s1;
       if l1 \<ge> l2 then strstr_loop m s1 s2 l2 (l1 - l2) else Some None
     }
   }"


section \<open>Copying and filling\<close>

text \<open>Eight bytes as an \<open>unsigned long\<close>, lowest byte first.\<close>

definition le_word :: "u8 list \<Rightarrow> u64" where
  "le_word bs = foldr (\<lambda>b w. push_bit 8 w OR ucast b) bs 0"

definition le_bytes :: "u64 \<Rightarrow> u8 list" where
  "le_bytes w = map (\<lambda>i. ucast (drop_bit (8 * i) w)) [0 ..< 8]"

definition load64 :: "mem \<Rightarrow> nat \<Rightarrow> u64 option" where
  "load64 m p = (if p + 8 \<le> length m then Some (le_word (take 8 (drop p m))) else None)"

definition store64 :: "mem \<Rightarrow> nat \<Rightarrow> u64 \<Rightarrow> mem option" where
  "store64 m p w =
     (if p + 8 \<le> length m then Some (take p m @ le_bytes w @ drop (p + 8) m) else None)"

fun memset_bytes :: "mem \<Rightarrow> nat \<Rightarrow> u8 \<Rightarrow> nat \<Rightarrow> mem option" where
  "memset_bytes m p c 0 = Some m"
| "memset_bytes m p c (Suc count) = do {
     m' \<leftarrow> aset m p c;
     memset_bytes m' (Suc p) c count
   }"

fun memset_words :: "mem \<Rightarrow> nat \<Rightarrow> u64 \<Rightarrow> nat \<Rightarrow> (mem \<times> nat \<times> nat) option" where
  "memset_words m sl cl count =
     (if 8 \<le> count
      then do { m' \<leftarrow> store64 m sl cl; memset_words m' (sl + 8) cl (count - 8) }
      else Some (m, sl, count))"

declare memset_words.simps [simp del]

definition memset_fill :: "u8 \<Rightarrow> u64" where
  "memset_fill c = ((\<lambda>cl. push_bit 8 cl OR ucast c) ^^ 8) 0"

definition memset :: "mem \<Rightarrow> nat \<Rightarrow> u8 \<Rightarrow> nat \<Rightarrow> mem option" where
  "memset m s c count =
     (if s mod 8 = 0
      then do {
        (m', sl, n) \<leftarrow> memset_words m s (memset_fill c) count;
        memset_bytes m' sl c n
      }
      else memset_bytes m s c count)"

fun memcpy_bytes :: "mem \<Rightarrow> nat \<Rightarrow> nat \<Rightarrow> nat \<Rightarrow> mem option" where
  "memcpy_bytes m d8 s8 0 = Some m"
| "memcpy_bytes m d8 s8 (Suc count) = do {
     c \<leftarrow> aget m s8;
     m' \<leftarrow> aset m d8 c;
     memcpy_bytes m' (Suc d8) (Suc s8) count
   }"

fun memcpy_words :: "mem \<Rightarrow> nat \<Rightarrow> nat \<Rightarrow> nat \<Rightarrow> (mem \<times> nat \<times> nat \<times> nat) option" where
  "memcpy_words m dl sl count =
     (if 8 \<le> count
      then do {
        w \<leftarrow> load64 m sl;
        m' \<leftarrow> store64 m dl w;
        memcpy_words m' (dl + 8) (sl + 8) (count - 8)
      }
      else Some (m, dl, sl, count))"

declare memcpy_words.simps [simp del]

definition memcpy :: "mem \<Rightarrow> nat \<Rightarrow> nat \<Rightarrow> nat \<Rightarrow> mem option" where
  "memcpy m dest src count =
     (if src = dest then Some m
      else if dest mod 8 = 0 \<and> src mod 8 = 0
      then do {
        (m', d8, s8, n) \<leftarrow> memcpy_words m dest src count;
        memcpy_bytes m' d8 s8 n
      }
      else memcpy_bytes m dest src count)"

fun memmove_down :: "mem \<Rightarrow> nat \<Rightarrow> nat \<Rightarrow> nat \<Rightarrow> mem option" where
  "memmove_down m dest src 0 = Some m"
| "memmove_down m dest src (Suc count) = do {
     c \<leftarrow> aget m (src + count);
     m' \<leftarrow> aset m (dest + count) c;
     memmove_down m' dest src count
   }"

definition memmove :: "mem \<Rightarrow> nat \<Rightarrow> nat \<Rightarrow> nat \<Rightarrow> mem option" where
  "memmove m dest src count =
     (if dest \<le> src then memcpy m dest src count else memmove_down m dest src count)"

function strcpy :: "mem \<Rightarrow> nat \<Rightarrow> nat \<Rightarrow> mem option" where
  "strcpy m dest src = do {
     c \<leftarrow> aget m src;
     m' \<leftarrow> aset m dest c;
     if c \<noteq> 0 then strcpy m' (Suc dest) (Suc src) else Some m'
   }"
  by pat_completeness auto
termination
  by (relation "measure (\<lambda>(m, d, s). length m - s)") auto

declare strcpy.simps [simp del]

fun strncpy :: "mem \<Rightarrow> nat \<Rightarrow> nat \<Rightarrow> nat \<Rightarrow> mem option" where
  "strncpy m dest src 0 = Some m"
| "strncpy m dest src (Suc count) = do {
     c \<leftarrow> aget m src;
     m' \<leftarrow> aset m dest c;
     if c \<noteq> 0 then strncpy m' (Suc dest) (Suc src) count else Some m'
   }"

definition strlcpy :: "mem \<Rightarrow> nat \<Rightarrow> nat \<Rightarrow> nat \<Rightarrow> (nat \<times> mem) option" where
  "strlcpy m dest src sz = do {
     ret \<leftarrow> strlen m src;
     if sz \<noteq> 0 then do {
       let len = (if ret \<ge> sz then sz - 1 else ret);
       m' \<leftarrow> memcpy m dest src len;
       m'' \<leftarrow> aset m' (dest + len) 0;
       Some (ret, m'')
     }
     else Some (ret, m)
   }"

text \<open>The first loop of \<open>strcat\<close> and \<open>strncat\<close> is that of \<open>strlen\<close>.\<close>

definition strcat :: "mem \<Rightarrow> nat \<Rightarrow> nat \<Rightarrow> mem option" where
  "strcat m dest src = do { d \<leftarrow> strlen_from m dest; strcpy m d src }"

fun strncat_loop :: "mem \<Rightarrow> nat \<Rightarrow> nat \<Rightarrow> nat \<Rightarrow> mem option" where
  "strncat_loop m dest src 0 = Some m"
| "strncat_loop m dest src (Suc count) = do {
     c \<leftarrow> aget m src;
     m' \<leftarrow> aset m dest c;
     if c \<noteq> 0 then
       (if count = 0 then aset m' (Suc dest) 0
        else strncat_loop m' (Suc dest) (Suc src) count)
     else Some m'
   }"

definition strncat :: "mem \<Rightarrow> nat \<Rightarrow> nat \<Rightarrow> nat \<Rightarrow> mem option" where
  "strncat m dest src count =
     (if count \<noteq> 0 then do { d \<leftarrow> strlen_from m dest; strncat_loop m d src count }
      else Some m)"

text \<open>
  \<open>strdup\<close> takes its block from \<open>malloc\<close>, which belongs to another component and
  is a parameter: the address for a size, or a null pointer.
\<close>

definition strdup :: "(nat \<Rightarrow> nat option) \<Rightarrow> mem \<Rightarrow> nat option \<Rightarrow> (nat option \<times> mem) option" where
  "strdup malloc m s =
     (case s of
        None \<Rightarrow> Some (None, m)
      | Some s \<Rightarrow> do {
          n \<leftarrow> strlen m s;
          case malloc (n + 1) of
            None \<Rightarrow> Some (None, m)
          | Some new \<Rightarrow> do { m' \<leftarrow> strcpy m new s; Some (Some new, m') }
        })"

section \<open>Tokens\<close>

text \<open>
  \<open>strtok\<close> keeps its position in the variable \<open>___strtok\<close>, here the last
  argument and result.
\<close>

definition strtok ::
  "mem \<Rightarrow> nat option \<Rightarrow> nat \<Rightarrow> nat option \<Rightarrow> (nat option \<times> mem \<times> nat option) option" where
  "strtok m s ct saved =
     (case (case s of Some p \<Rightarrow> Some p | None \<Rightarrow> saved) of
        None \<Rightarrow> Some (None, m, saved)
      | Some sbegin \<Rightarrow> do {
          n \<leftarrow> strspn m sbegin ct;
          let sbegin = sbegin + n;
          c \<leftarrow> aget m sbegin;
          if c = 0 then Some (None, m, None)
          else do {
            send \<leftarrow> strpbrk m sbegin ct;
            case send of
              None \<Rightarrow> Some (Some sbegin, m, None)
            | Some e \<Rightarrow> do {
                x \<leftarrow> aget m e;
                if x \<noteq> 0 then do {
                  m' \<leftarrow> aset m e 0;
                  Some (Some sbegin, m', Some (Suc e))
                }
                else Some (Some sbegin, m, Some e)
              }
          }
        })"

definition strsep ::
  "mem \<Rightarrow> nat option \<Rightarrow> nat \<Rightarrow> (nat option \<times> mem \<times> nat option) option" where
  "strsep m s ct =
     (case s of
        None \<Rightarrow> Some (None, m, None)
      | Some sbegin \<Rightarrow> do {
          e \<leftarrow> strpbrk m sbegin ct;
          case e of
            None \<Rightarrow> Some (Some sbegin, m, None)
          | Some e \<Rightarrow> do { m' \<leftarrow> aset m e 0; Some (Some sbegin, m', Some (Suc e)) }
        })"

function strswab_loop :: "mem \<Rightarrow> nat \<Rightarrow> mem option" where
  "strswab_loop m p = do {
     x \<leftarrow> aget m p;
     if x = 0 then Some m
     else do {
       y \<leftarrow> aget m (p + 1);
       if y = 0 then Some m
       else do {
         m1 \<leftarrow> aset m p y;
         m2 \<leftarrow> aset m1 (p + 1) x;
         strswab_loop m2 (p + 2)
       }
     }
   }"
  by pat_completeness auto
termination
  by (relation "measure (\<lambda>(m, p). length m - p)") auto

declare strswab_loop.simps [simp del]

definition strswab :: "mem \<Rightarrow> nat option \<Rightarrow> (nat option \<times> mem) option" where
  "strswab m s =
     (case s of
        None \<Rightarrow> Some (None, m)
      | Some p \<Rightarrow> do {
          x \<leftarrow> aget m p;
          if x = 0 then Some (None, m)
          else do { m' \<leftarrow> strswab_loop m p; Some (Some p, m') }
        })"

section \<open>Searching for a different byte\<close>

fun check_bytes8 :: "mem \<Rightarrow> nat \<Rightarrow> u8 \<Rightarrow> nat \<Rightarrow> nat option option" where
  "check_bytes8 m start v 0 = Some None"
| "check_bytes8 m start v (Suc n) = do {
     x \<leftarrow> aget m start;
     if x \<noteq> v then Some (Some start) else check_bytes8 m (Suc start) v n
   }"

text \<open>The word loop: \<open>Inl\<close> is an early return, \<open>Inr\<close> the position after it.\<close>

fun memchr_inv_words :: "mem \<Rightarrow> nat \<Rightarrow> u8 \<Rightarrow> u64 \<Rightarrow> nat \<Rightarrow> (nat option + nat) option" where
  "memchr_inv_words m start v v64 0 = Some (Inr start)"
| "memchr_inv_words m start v v64 (Suc k) = do {
     w \<leftarrow> load64 m start;
     if w \<noteq> v64 then do { r \<leftarrow> check_bytes8 m start v 8; Some (Inl r) }
     else memchr_inv_words m (start + 8) v v64 k
   }"

definition value64 :: "u8 \<Rightarrow> u64" where
  "value64 v =
     (let x = ucast v; x = x OR push_bit 8 x; x = x OR push_bit 16 x in x OR push_bit 32 x)"

definition memchr_inv :: "mem \<Rightarrow> nat \<Rightarrow> u8 \<Rightarrow> nat \<Rightarrow> nat option option" where
  "memchr_inv m start v bytes =
     (if bytes \<le> 16 then check_bytes8 m start v bytes
      else do {
        let prefix = (if start mod 8 = 0 then 0 else 8 - start mod 8);
        r \<leftarrow> check_bytes8 m start v prefix;
        case r of
          Some q \<Rightarrow> Some (Some q)
        | None \<Rightarrow> do {
            let start = start + prefix;
            let bytes = bytes - prefix;
            t \<leftarrow> memchr_inv_words m start v (value64 v) (bytes div 8 mod 2 ^ 32);
            case t of
              Inl r \<Rightarrow> Some r
            | Inr q \<Rightarrow> check_bytes8 m q v (bytes mod 8)
          }
      })"

section \<open>Words and bytes\<close>

lemma le_word_Nil [simp]: "le_word [] = 0"
  by (simp add: le_word_def)

lemma le_word_Cons [simp]: "le_word (b # bs) = push_bit 8 (le_word bs) OR ucast b"
  by (simp add: le_word_def)

lemma low_byte:
  fixes w :: u64 and b :: u8
  shows "ucast (push_bit 8 w OR ucast b) = b"
  by (rule bit_word_eqI) (simp add: bit_simps)

lemma next_byte:
  fixes w :: u64 and b :: u8
  assumes "i < 7"
  shows "(ucast (drop_bit (8 * Suc i) (push_bit 8 w OR ucast b)) :: u8) = ucast (drop_bit (8 * i) w)"
proof (rule bit_word_eqI)
  fix n assume "n < LENGTH(8)"
  then have n: "n < 8" by simp
  have "bit (push_bit 8 w) (8 * Suc i + n) = bit w (8 * i + n)"
    using assms n by (simp add: bit_push_bit_iff possible_bit_word)
  moreover have "\<not> bit (ucast b :: u64) (8 * Suc i + n)"
    by (auto simp: bit_simps dest: bit_imp_le_length)
  ultimately show "bit (ucast (drop_bit (8 * Suc i) (push_bit 8 w OR ucast b)) :: u8) n =
      bit (ucast (drop_bit (8 * i) w) :: u8) n"
    using n by (auto simp: bit_unsigned_iff bit_drop_bit_eq bit_or_iff)
qed

lemma le_word_byte:
  "i < length bs \<Longrightarrow> length bs \<le> 8 \<Longrightarrow> ucast (drop_bit (8 * i) (le_word bs)) = bs ! i"
proof (induction bs arbitrary: i)
  case Nil
  then show ?case by simp
next
  case (Cons b bs)
  show ?case
  proof (cases i)
    case 0
    then show ?thesis by (simp add: low_byte)
  next
    case (Suc j)
    then have "j < 7" using Cons.prems by simp
    then have "ucast (drop_bit (8 * Suc j) (le_word (b # bs))) = (ucast (drop_bit (8 * j) (le_word bs)) :: u8)"
      using next_byte [of j "le_word bs" b] by (simp only: le_word_Cons)
    then show ?thesis using Cons Suc by simp
  qed
qed

lemma le_word_round: "length bs = 8 \<Longrightarrow> le_bytes (le_word bs) = bs"
  by (rule nth_equalityI) (simp_all add: le_bytes_def le_word_byte)

lemma le_word_inject:
  "length bs = 8 \<Longrightarrow> length cs = 8 \<Longrightarrow> le_word bs = le_word cs \<longleftrightarrow> bs = cs"
  by (metis le_word_round)

lemma length_le_bytes [simp]: "length (le_bytes w) = 8"
  by (simp add: le_bytes_def)

lemma replicate_8: "replicate 8 x = [x, x, x, x, x, x, x, x]"
  by (simp add: numeral_eq_Suc)

lemma value64_word: "value64 v = le_word (replicate 8 v)"
  by (simp add: value64_def Let_def replicate_8 push_bit_or ac_simps)

lemma memset_fill_word: "memset_fill c = le_word (replicate 8 c)"
proof -
  have "((\<lambda>cl. push_bit 8 cl OR ucast c) ^^ n) 0 = le_word (replicate n c)" for n
    by (induction n) simp_all
  then show ?thesis unfolding memset_fill_def .
qed

section \<open>Copying\<close>

definition blit :: "'a list \<Rightarrow> nat \<Rightarrow> nat \<Rightarrow> nat \<Rightarrow> 'a list" where
  "blit m d s n = take d m @ take n (drop s m) @ drop (d + n) m"

lemma length_blit [simp]:
  "d + n \<le> length m \<Longrightarrow> s + n \<le> length m \<Longrightarrow> length (blit m d s n) = length m"
  by (simp add: blit_def)

lemma blit_0 [simp]: "blit m d s 0 = m"
  by (simp add: blit_def)

lemma nth_blit:
  assumes "d + n \<le> length m" "s + n \<le> length m" "i < length m"
  shows "blit m d s n ! i = (if d \<le> i \<and> i < d + n then m ! (s + (i - d)) else m ! i)"
proof -
  have "length (take d m) = d" "length (take n (drop s m)) = n" using assms by auto
  then show ?thesis using assms by (auto simp: blit_def nth_append)
qed

lemma blit_blit:
  assumes "d \<le> s \<or> s + (j + k) \<le> d" and "d + (j + k) \<le> length m" and "s + (j + k) \<le> length m"
  shows "blit (blit m d s j) (d + j) (s + j) k = blit m d s (j + k)"
proof (rule nth_equalityI)
  show "length (blit (blit m d s j) (d + j) (s + j) k) = length (blit m d s (j + k))"
    using assms by simp
next
  fix i assume "i < length (blit (blit m d s j) (d + j) (s + j) k)"
  then have i: "i < length m" using assms by simp
  show "blit (blit m d s j) (d + j) (s + j) k ! i = blit m d s (j + k) ! i"
  proof (cases "d + j \<le> i \<and> i < d + j + k")
    case True
    then have "blit (blit m d s j) (d + j) (s + j) k ! i = blit m d s j ! (s + j + (i - (d + j)))"
      using assms i by (subst nth_blit) auto
    also have "\<dots> = m ! (s + (i - d))"
      using True assms i by (subst nth_blit) (auto simp: algebra_simps)
    finally show ?thesis using True assms i by (simp add: nth_blit)
  next
    case False
    then show ?thesis using assms i by (auto simp: nth_blit)
  qed
qed

lemma update_blit: "s < length m \<Longrightarrow> d < length m \<Longrightarrow> m[d := m ! s] = blit m d s 1"
  by (simp add: blit_def upd_conv_take_nth_drop Cons_nth_drop_Suc [symmetric])

lemma memcpy_bytes_blit:
  assumes "d \<le> s \<or> s + n \<le> d" and "d + n \<le> length m" and "s + n \<le> length m"
  shows "memcpy_bytes m d s n = Some (blit m d s n)"
  using assms
proof (induction m d s n rule: memcpy_bytes.induct)
  case (1 m d s)
  then show ?case by simp
next
  case (2 m d s n)
  let ?m = "blit m d s 1"
  have "m[d := m ! s] = ?m" using "2.prems" by (intro update_blit) auto
  moreover have "memcpy_bytes ?m (Suc d) (Suc s) n = Some (blit ?m (Suc d) (Suc s) n)"
    using "2.IH" [of "m ! s" ?m] "2.prems" calculation by (auto simp: aget_simps)
  moreover have "blit ?m (Suc d) (Suc s) n = blit m d s (Suc n)"
    using blit_blit [of d s 1 n m] "2.prems" by simp
  ultimately show ?case using "2.prems" by (simp add: aget_simps)
qed

lemma memcpy_words_blit:
  assumes "d \<le> s \<or> s + n \<le> d" and "d + n \<le> length m" and "s + n \<le> length m"
  shows "memcpy_words m d s n = Some (blit m d s (8 * (n div 8)), d + 8 * (n div 8), s + 8 * (n div 8), n mod 8)"
  using assms
proof (induction m d s n rule: memcpy_words.induct)
  case (1 m d s n)
  show ?case
  proof (cases "8 \<le> n")
    case False
    then show ?thesis by (simp add: memcpy_words.simps [of m d s n])
  next
    case True
    let ?m = "blit m d s 8" and ?k = "8 * ((n - 8) div 8)"
    have ld: "load64 m s = Some (le_word (take 8 (drop s m)))"
      using True "1.prems" by (simp add: load64_def)
    have st: "store64 m d (le_word (take 8 (drop s m))) = Some ?m"
      using True "1.prems" by (simp add: store64_def le_word_round blit_def)
    have "memcpy_words ?m (d + 8) (s + 8) (n - 8) =
        Some (blit ?m (d + 8) (s + 8) ?k, d + 8 + ?k, s + 8 + ?k, (n - 8) mod 8)"
      using "1.IH" [OF True ld st] True "1.prems" by auto
    moreover have "blit ?m (d + 8) (s + 8) ?k = blit m d s (8 + ?k)"
      using True "1.prems" by (intro blit_blit) auto
    moreover have "8 + ?k = 8 * (n div 8)" "(n - 8) mod 8 = n mod 8"
      using True by (auto simp: le_mod_geq le_div_geq)
    ultimately show ?thesis
      using True ld st by (simp add: memcpy_words.simps [of m d s n] add.assoc)
  qed
qed

lemma memcpy_blit:
  assumes "d \<le> s \<or> s + n \<le> d" and "d + n \<le> length m" and "s + n \<le> length m"
  shows "memcpy m d s n = Some (blit m d s n)"
proof (cases "s = d")
  case True
  moreover have "blit m d d n = m"
    using assms(2) by (simp add: blit_def flip: append_assoc) (simp add: add.commute take_add [symmetric])
  ultimately show ?thesis by (simp add: memcpy_def)
next
  case False
  let ?k = "8 * (n div 8)"
  have n: "?k + n mod 8 = n" by simp
  have "memcpy_bytes (blit m d s ?k) (d + ?k) (s + ?k) (n mod 8) =
      Some (blit (blit m d s ?k) (d + ?k) (s + ?k) (n mod 8))"
    using assms n by (intro memcpy_bytes_blit) (auto simp del: mult_div_mod_eq)
  also have "\<dots> = Some (blit m d s n)"
    using assms n by (subst blit_blit) auto
  finally show ?thesis
    using False memcpy_words_blit [OF assms] memcpy_bytes_blit [OF assms] by (simp add: memcpy_def)
qed

lemma memmove_down_blit:
  assumes "s \<le> d" and "d + n \<le> length m" and "s + n \<le> length m"
  shows "memmove_down m d s n = Some (blit m d s n)"
  using assms
proof (induction m d s n rule: memmove_down.induct)
  case (1 m d s)
  then show ?case by simp
next
  case (2 m d s n)
  let ?m = "m[d + n := m ! (s + n)]"
  have "memmove_down ?m d s n = Some (blit ?m d s n)"
    using "2.IH" [of "m ! (s + n)" ?m] "2.prems" by (simp add: aget_simps)
  moreover have "blit ?m d s n = blit m d s (Suc n)"
    using "2.prems"
    by (intro nth_equalityI) (auto simp: nth_blit nth_list_update le_less_Suc_eq)
  ultimately show ?case using "2.prems" by (simp add: aget_simps)
qed

lemma memmove_blit:
  assumes "d + n \<le> length m" and "s + n \<le> length m"
  shows "memmove m d s n = Some (blit m d s n)"
  using assms memcpy_blit [of d s n m] memmove_down_blit [of s d n m] by (auto simp: memmove_def)


lemma memset_bytes_spec:
  "s + n \<le> length m \<Longrightarrow> memset_bytes m s c n = Some (take s m @ replicate n c @ drop (s + n) m)"
proof (induction n arbitrary: m s)
  case 0
  then show ?case by simp
next
  case (Suc n)
  then show ?case
    by (simp add: aget_simps take_Suc_conv_app_nth del: take_update_swap)
qed

lemma memset_words_spec:
  assumes "s + n \<le> length m"
  shows "memset_words m s (memset_fill c) n =
    Some (take s m @ replicate (8 * (n div 8)) c @ drop (s + 8 * (n div 8)) m, s + 8 * (n div 8), n mod 8)"
  using assms
proof (induction m s "memset_fill c" n rule: memset_words.induct)
  case (1 m s n)
  show ?case
  proof (cases "8 \<le> n")
    case False
    then show ?thesis by (simp add: memset_words.simps [of m s _ n])
  next
    case True
    let ?m = "take s m @ replicate 8 c @ drop (s + 8) m" and ?k = "8 * ((n - 8) div 8)"
    have st: "store64 m s (memset_fill c) = Some ?m"
      using True "1.prems" by (simp add: store64_def memset_fill_word le_word_round)
    have k: "8 + ?k = 8 * (n div 8)" "(n - 8) mod 8 = n mod 8"
      using True by (auto simp: le_mod_geq le_div_geq)
    have "memset_words ?m (s + 8) (memset_fill c) (n - 8) =
       Some (take (s + 8) ?m @ replicate ?k c @ drop (s + 8 + ?k) ?m, s + 8 + ?k, (n - 8) mod 8)"
      using "1.hyps" [OF True st] True "1.prems" by simp
    moreover have "take (s + 8) ?m @ replicate ?k c @ drop (s + 8 + ?k) ?m =
        take s m @ replicate (8 + ?k) c @ drop (s + (8 + ?k)) m"
      using "1.prems" True by (simp add: replicate_add ac_simps)
    ultimately show ?thesis
      using True st k by (simp add: memset_words.simps [of m s _ n] add.assoc)
  qed
qed

lemma memset_spec:
  assumes "s + n \<le> length m"
  shows "memset m s c n = Some (take s m @ replicate n c @ drop (s + n) m)"
proof (cases "s mod 8 = 0")
  case False
  then show ?thesis using memset_bytes_spec [OF assms] by (auto simp: memset_def)
next
  case True
  let ?k = "8 * (n div 8)"
  let ?m = "take s m @ replicate ?k c @ drop (s + ?k) m"
  have n: "?k + n mod 8 = n" by simp
  then have le: "s + ?k + n mod 8 \<le> length m" using assms by linarith
  have "memset_bytes ?m (s + ?k) c (n mod 8) =
      Some (take (s + ?k) ?m @ replicate (n mod 8) c @ drop (s + ?k + n mod 8) ?m)"
    using le by (intro memset_bytes_spec) simp
  also have "take (s + ?k) ?m @ replicate (n mod 8) c @ drop (s + ?k + n mod 8) ?m =
      take s m @ (replicate ?k c @ replicate (n mod 8) c) @ drop (s + (?k + n mod 8)) m"
    using le by (simp add: ac_simps del: mult_div_mod_eq mod_mult_div_eq
        div_mult_mod_eq mod_div_mult_eq)
  also have "replicate ?k c @ replicate (n mod 8) c = replicate n c"
    by (simp flip: replicate_add)
  finally show ?thesis
    using True memset_words_spec [OF assms] by (simp add: memset_def)
qed

section \<open>Strings\<close>

text \<open>The bytes \<open>xs\<close> stand at \<open>p\<close>, followed by the first zero byte.\<close>

fun cstr :: "mem \<Rightarrow> nat \<Rightarrow> u8 list \<Rightarrow> bool" where
  "cstr m p [] \<longleftrightarrow> p < length m \<and> m ! p = 0"
| "cstr m p (x # xs) \<longleftrightarrow> p < length m \<and> m ! p = x \<and> x \<noteq> 0 \<and> cstr m (Suc p) xs"

lemma cstr_bound: "cstr m p xs \<Longrightarrow> p + length xs < length m"
proof (induction xs arbitrary: p)
  case (Cons x xs)
  then show ?case using Cons.IH [of "Suc p"] by simp
qed simp

lemma cstr_nth: "cstr m p xs \<Longrightarrow> i < length xs \<Longrightarrow> m ! (p + i) = xs ! i"
proof (induction xs arbitrary: p i)
  case (Cons x xs)
  then show ?case using Cons.IH [of "Suc p" "i - 1"] by (cases i) auto
qed simp

lemma cstr_end: "cstr m p xs \<Longrightarrow> m ! (p + length xs) = 0"
proof (induction xs arbitrary: p)
  case (Cons x xs)
  then show ?case using Cons.IH [of "Suc p"] by simp
qed simp

lemma cstr_nonzero: "cstr m p xs \<Longrightarrow> 0 \<notin> set xs"
  by (induction xs arbitrary: p) auto

lemma cstr_iff:
  "cstr m p xs \<longleftrightarrow> p + length xs < length m \<and> 0 \<notin> set xs \<and>
     (\<forall>i < length xs. m ! (p + i) = xs ! i) \<and> m ! (p + length xs) = 0"
proof
  assume "cstr m p xs"
  then show "p + length xs < length m \<and> 0 \<notin> set xs \<and>
     (\<forall>i < length xs. m ! (p + i) = xs ! i) \<and> m ! (p + length xs) = 0"
    by (auto dest: cstr_bound cstr_nth cstr_end cstr_nonzero)
next
  show "p + length xs < length m \<and> 0 \<notin> set xs \<and>
     (\<forall>i < length xs. m ! (p + i) = xs ! i) \<and> m ! (p + length xs) = 0 \<Longrightarrow> cstr m p xs"
  proof (induction xs arbitrary: p)
    case Nil
    then show ?case by simp
  next
    case (Cons x xs)
    have "m ! p = x" using Cons.prems by (metis add_0_right length_greater_0_conv list.distinct(1) nth_Cons_0)
    moreover have "\<forall>i < length xs. m ! (Suc p + i) = xs ! i"
      using Cons.prems by (metis Suc_mono add_Suc_shift length_Cons nth_Cons_Suc)
    ultimately show ?case using Cons by auto
  qed
qed

lemma cstr_drop: "cstr m p xs \<Longrightarrow> k \<le> length xs \<Longrightarrow> cstr m (p + k) (drop k xs)"
  by (auto simp: cstr_iff add.assoc dest: in_set_dropD)

lemma cstr_unique: "cstr m p xs \<Longrightarrow> cstr m p ys \<Longrightarrow> xs = ys"
proof (induction xs arbitrary: p ys)
  case Nil
  then show ?case by (cases ys) auto
next
  case (Cons x xs)
  then show ?case by (cases ys) auto
qed

lemma strlen_from_spec: "cstr m p xs \<Longrightarrow> strlen_from m p = Some (p + length xs)"
  by (induction xs arbitrary: p) (auto simp: strlen_from.simps aget_simps)

lemma strlen_spec: "cstr m p xs \<Longrightarrow> strlen m p = Some (length xs)"
  by (simp add: strlen_def strlen_from_spec)

lemma strlcpy_spec:
  assumes "cstr m src xs" and "0 < sz" and "dest + sz \<le> length m"
    and "dest + sz \<le> src \<or> src + length xs < dest"
  defines "n \<equiv> min (sz - 1) (length xs)"
  shows "strlcpy m dest src sz =
    Some (length xs, take dest m @ take n xs @ 0 # drop (dest + n + 1) m)"
proof -
  have b: "src + length xs < length m" using assms(1) by (rule cstr_bound)
  have n: "(if length xs \<ge> sz then sz - 1 else length xs) = n" "n < sz" "n \<le> length xs"
    using assms(2) by (auto simp: n_def)
  have cp: "memcpy m dest src n = Some (blit m dest src n)"
    using assms(3,4) b n by (intro memcpy_blit) auto
  have tk: "take n (drop src m) = take n xs"
    using cstr_nth [OF assms(1)] b n(3) by (intro nth_equalityI) auto
  have "strlcpy m dest src sz = Some (length xs, (blit m dest src n)[dest + n := 0])"
    using assms(2,3) b n cp by (simp add: strlcpy_def strlen_spec [OF assms(1)] Let_def aget_simps)
  also have "(blit m dest src n)[dest + n := 0] = take dest m @ take n xs @ 0 # drop (dest + n + 1) m"
    using assms(3) b n tk
    by (simp add: blit_def list_update_append min_def Cons_nth_drop_Suc [of "dest + n", symmetric])
  finally show ?thesis .
qed

lemma sint_diff_eq_0: "sint (a - b :: u8) = 0 \<longleftrightarrow> a = b"
  by (simp add: signed_eq_0_iff)

lemma strcmp_spec:
  assumes "cstr m p xs" and "cstr m q ys"
  shows "\<exists>r. strcmp m p q = Some r \<and> (r = 0 \<longleftrightarrow> xs = ys)"
  using assms
proof (induction xs arbitrary: p q ys)
  case Nil
  then show ?case
    by (cases ys) (auto simp: strcmp.simps [of m p q] aget_simps Let_def sint_diff_eq_0
        simp del: diff_0)
next
  case (Cons x xs)
  show ?case
  proof (cases ys)
    case Nil
    then show ?thesis using Cons.prems
      by (auto simp: strcmp.simps [of m p q] aget_simps Let_def signed_eq_0_iff)
  next
    case (Cons y zs)
    then show ?thesis
      using Cons.prems Cons.IH [of "Suc p" "Suc q" zs]
      by (auto simp: strcmp.simps [of m p q] aget_simps Let_def sint_diff_eq_0)
  qed
qed


section \<open>Searching\<close>

lemma check_bytes8_find:
  "p + n \<le> length m \<Longrightarrow> check_bytes8 m p v n = Some (find (\<lambda>i. m ! i \<noteq> v) [p ..< p + n])"
proof (induction n arbitrary: p)
  case (Suc n)
  then have "[p ..< p + Suc n] = p # [Suc p ..< Suc p + n]" by (simp add: upt_conv_Cons)
  then show ?case using Suc.prems Suc.IH [of "Suc p"] by (simp add: aget_simps)
qed simp

lemma load64_value:
  assumes "p + 8 \<le> length m"
  shows "\<exists>w. load64 m p = Some w \<and> (w = value64 v \<longleftrightarrow> (\<forall>i \<in> {p ..< p + 8}. m ! i = v))"
proof -
  let ?bs = "take 8 (drop p m)"
  have "le_word ?bs = value64 v \<longleftrightarrow> ?bs = replicate 8 v"
    using assms by (simp add: value64_word le_word_inject)
  also have "\<dots> \<longleftrightarrow> (\<forall>i < 8. m ! (p + i) = v)"
    using assms by (auto simp: list_eq_iff_nth_eq)
  also have "\<dots> \<longleftrightarrow> (\<forall>i \<in> {p ..< p + 8}. m ! i = v)"
    by (auto simp: le_iff_add)
  finally show ?thesis using assms by (simp add: load64_def)
qed

lemma find_upt_append:
  assumes "a \<le> b" "b \<le> c"
  shows "find P [a ..< c] = (case find P [a ..< b] of None \<Rightarrow> find P [b ..< c] | Some i \<Rightarrow> Some i)"
proof -
  have "[a ..< c] = [a ..< b] @ [b ..< c]" using assms by (metis le_add_diff_inverse upt_add_eq_append)
  moreover have "find P (xs @ ys) = (case find P xs of None \<Rightarrow> find P ys | Some i \<Rightarrow> Some i)" for xs ys
    by (induction xs) auto
  ultimately show ?thesis by simp
qed

lemma find_upt_None: "find P [a ..< b] = None \<longleftrightarrow> (\<forall>i \<in> {a ..< b}. \<not> P i)"
  by (auto simp: find_None_iff)

lemma memchr_inv_words_find:
  assumes "p + 8 * k \<le> length m"
  shows "memchr_inv_words m p v (value64 v) k =
    Some (case find (\<lambda>i. m ! i \<noteq> v) [p ..< p + 8 * k] of
            None \<Rightarrow> Inr (p + 8 * k) | Some i \<Rightarrow> Inl (Some i))"
  using assms
proof (induction k arbitrary: p)
  case 0
  then show ?case by simp
next
  case (Suc k)
  obtain w where w: "load64 m p = Some w" "w = value64 v \<longleftrightarrow> (\<forall>i \<in> {p ..< p + 8}. m ! i = v)"
    using load64_value [of p m v] Suc.prems by auto
  have sp: "find P [p ..< p + 8 * Suc k] =
      (case find P [p ..< p + 8] of None \<Rightarrow> find P [p + 8 ..< p + 8 * Suc k] | Some i \<Rightarrow> Some i)" for P
    by (rule find_upt_append) auto
  show ?case
  proof (cases "w = value64 v")
    case True
    then have "find (\<lambda>i. m ! i \<noteq> v) [p ..< p + 8] = None"
      using w(2) by (simp add: find_upt_None)
    then show ?thesis
      using True w(1) Suc.IH [of "p + 8"] Suc.prems sp [of "\<lambda>i. m ! i \<noteq> v"]
      by (simp add: add.assoc cong: option.case_cong)
  next
    case False
    then obtain i where "find (\<lambda>i. m ! i \<noteq> v) [p ..< p + 8] = Some i"
      using w(2) find_upt_None [of "\<lambda>i. m ! i \<noteq> v" p "p + 8"] by (metis option.exhaust)
    then show ?thesis
      using False w(1) Suc.prems check_bytes8_find [of p 8 m v] sp [of "\<lambda>i. m ! i \<noteq> v"] by simp
  qed
qed

lemma memchr_inv_find:
  assumes "start + n \<le> length m" and "n < 2 ^ 35"
  shows "memchr_inv m start v n = Some (find (\<lambda>i. m ! i \<noteq> v) [start ..< start + n])"
proof (cases "n \<le> 16")
  case True
  then show ?thesis using assms by (simp add: memchr_inv_def check_bytes8_find)
next
  case False
  define pre where "pre = (if start mod 8 = 0 then 0 else 8 - start mod 8)"
  define n1 where "n1 = n - pre"
  define a where "a = start + pre"
  define b where "b = a + 8 * (n1 div 8)"
  let ?P = "\<lambda>i. m ! i \<noteq> v"
  have pre: "pre \<le> n" using False by (auto simp: pre_def)
  have le: "start \<le> a" "a \<le> b" "b + n1 mod 8 = start + n" "b \<le> start + n"
    using pre by (auto simp: a_def b_def n1_def)
  have small: "n1 div 8 mod 2 ^ 32 = n1 div 8"
  proof -
    have "n1 div 8 < 2 ^ 32" using assms(2) by (auto simp: n1_def less_mult_imp_div_less)
    then show ?thesis by (rule mod_less)
  qed
  have 1: "check_bytes8 m start v pre = Some (find ?P [start ..< a])"
    unfolding a_def using assms pre by (intro check_bytes8_find) auto
  have 2: "memchr_inv_words m a v (value64 v) (n1 div 8) =
      Some (case find ?P [a ..< b] of None \<Rightarrow> Inr b | Some i \<Rightarrow> Inl (Some i))"
    using memchr_inv_words_find [of a "n1 div 8" m v] assms le by (simp add: b_def cong: option.case_cong)
  have 3: "check_bytes8 m b v (n1 mod 8) = Some (find ?P [b ..< start + n])"
    using check_bytes8_find [of b "n1 mod 8" m v] assms le by simp
  have 4: "find ?P [start ..< start + n] =
      (case find ?P [start ..< a] of None \<Rightarrow>
         (case find ?P [a ..< b] of None \<Rightarrow> find ?P [b ..< start + n] | Some i \<Rightarrow> Some i)
       | Some i \<Rightarrow> Some i)"
    using le find_upt_append [of start a "start + n" ?P] find_upt_append [of a b "start + n" ?P]
    by (simp cong: option.case_cong)
  have "memchr_inv m start v n = do {
      r \<leftarrow> check_bytes8 m start v pre;
      case r of Some q \<Rightarrow> Some (Some q)
      | None \<Rightarrow> do {
          t \<leftarrow> memchr_inv_words m a v (value64 v) (n1 div 8);
          case t of Inl r \<Rightarrow> Some r | Inr q \<Rightarrow> check_bytes8 m q v (n1 mod 8) } }"
    using False by (simp add: memchr_inv_def Let_def small [simplified] flip: pre_def n1_def a_def)
  also have "\<dots> = Some (find ?P [start ..< start + n])"
    by (simp add: 1 2 3 4 split: option.splits)
  finally show ?thesis .
qed

lemma memcmp_spec:
  "p + n \<le> length m \<Longrightarrow> q + n \<le> length m \<Longrightarrow>
   \<exists>r. memcmp m p q n = Some r \<and> (r = 0 \<longleftrightarrow> take n (drop p m) = take n (drop q m))"
proof (induction n arbitrary: p q)
  case (Suc n)
  have d: "drop p m = m ! p # drop (Suc p) m" "drop q m = m ! q # drop (Suc q) m"
    using Suc.prems by (simp_all add: Cons_nth_drop_Suc)
  show ?case
    using Suc.prems Suc.IH [of "Suc p" "Suc q"] by (auto simp: aget_simps Let_def d word_uint_eq_iff)
qed simp

text \<open>The first occurrence of \<open>ys\<close> in \<open>xs\<close>.\<close>

definition occurs_at :: "'a list \<Rightarrow> 'a list \<Rightarrow> nat \<Rightarrow> bool" where
  "occurs_at xs ys i \<longleftrightarrow> i + length ys \<le> length xs \<and> take (length ys) (drop i xs) = ys"

lemma strstr_loop_find:
  assumes "cstr m s1 xs" "cstr m s2 ys" "length xs = i + k + length ys"
  shows "strstr_loop m (s1 + i) s2 (length ys) k =
    Some (map_option (\<lambda>j. s1 + j) (find (occurs_at xs ys) [i ..< i + k + 1]))"
  using assms(3)
proof (induction k arbitrary: i)
  have sub: "take (length ys) (drop (s1 + i) m) = take (length ys) (drop i xs)"
      if "i + length ys \<le> length xs" for i
    using that cstr_nth [OF assms(1)] cstr_bound [OF assms(1)]
    by (intro nth_equalityI) (auto simp: add.assoc)
  have pat: "take (length ys) (drop s2 m) = ys"
    using cstr_nth [OF assms(2)] cstr_bound [OF assms(2)] by (intro nth_equalityI) auto
  have cmp: "\<exists>r. memcmp m (s1 + i) s2 (length ys) = Some r \<and> (r = 0 \<longleftrightarrow> occurs_at xs ys i)"
      if "i + length ys \<le> length xs" for i
    using memcmp_spec [of "s1 + i" "length ys" m s2] cstr_bound [OF assms(1)] cstr_bound [OF assms(2)] that
    by (simp add: occurs_at_def sub pat)
  {
    case 0
    then show ?case using cmp [of i] by (auto simp: strstr_loop.simps)
  next
    case (Suc k)
    have "[i ..< i + Suc k + 1] = i # [Suc i ..< Suc i + k + 1]" by (simp add: upt_conv_Cons)
    then show ?case
      using cmp [of i] Suc.prems Suc.IH [of "Suc i"]
      by (auto simp: strstr_loop.simps [of m "s1 + i"])
  }
qed

lemma strstr_find:
  assumes "cstr m s1 xs" "cstr m s2 ys"
  shows "strstr m s1 s2 =
    Some (map_option (\<lambda>j. s1 + j) (find (occurs_at xs ys) [0 ..< length xs + 1]))"
proof -
  have l: "strlen m s1 = Some (length xs)" "strlen m s2 = Some (length ys)"
    using assms by (simp_all add: strlen_spec)
  have far: "find (occurs_at xs ys) [length xs + 1 - length ys ..< length xs + 1] = None" if "ys \<noteq> []"
    using that by (auto simp: find_None_iff occurs_at_def)
  consider "ys = []" | "ys \<noteq> []" "length ys \<le> length xs" | "ys \<noteq> []" "length xs < length ys"
    by linarith
  then show ?thesis
  proof cases
    case 1
    then show ?thesis using l by (simp add: strstr_def occurs_at_def upt_conv_Cons del: upt_Suc)
  next
    case 2
    let ?k = "length xs - length ys"
    have "find (occurs_at xs ys) [0 ..< length xs + 1] = find (occurs_at xs ys) [0 ..< ?k + 1]"
      using 2 far find_upt_append [of 0 "?k + 1" "length xs + 1" "occurs_at xs ys"]
      by (simp add: Suc_diff_le split: option.splits del: upt_Suc)
    then show ?thesis
      using 2 l strstr_loop_find [OF assms, of 0 ?k] by (simp add: strstr_def del: upt_Suc)
  next
    case 3
    then have "find (occurs_at xs ys) [0 ..< length xs + 1] = None"
      using far by simp
    then show ?thesis using 3 l by (simp add: strstr_def del: upt_Suc)
  qed
qed


section \<open>Tokens\<close>

lemma strset_hit_spec:
  "cstr m r ds \<Longrightarrow> c \<noteq> 0 \<Longrightarrow> strset_hit m c r = Some (c \<in> set ds)"
proof (induction ds arbitrary: r)
  case Nil
  then show ?case by (simp add: strset_hit_def strset_find.simps aget_simps)
next
  case (Cons d ds)
  then show ?case
    using Cons.IH [of "Suc r"] by (auto simp: strset_hit_def strset_find.simps [of m c r] aget_simps)
qed

lemma strcspn_loop_spec:
  "cstr m p xs \<Longrightarrow> cstr m r ds \<Longrightarrow>
   strcspn_loop m p r k = Some (k + length (takeWhile (\<lambda>c. c \<notin> set ds) xs))"
proof (induction xs arbitrary: p k)
  case Nil
  then show ?case by (simp add: strcspn_loop.simps aget_simps)
next
  case (Cons x xs)
  then show ?case
    using Cons.IH [of "Suc p" "Suc k"] by (simp add: strcspn_loop.simps [of m p] aget_simps strset_hit_spec)
qed

lemma strspn_loop_spec:
  "cstr m p xs \<Longrightarrow> cstr m r ds \<Longrightarrow>
   strspn_loop m p r k = Some (k + length (takeWhile (\<lambda>c. c \<in> set ds) xs))"
proof (induction xs arbitrary: p k)
  case Nil
  then show ?case by (simp add: strspn_loop.simps aget_simps)
next
  case (Cons x xs)
  then show ?case
    using Cons.IH [of "Suc p" "Suc k"] by (simp add: strspn_loop.simps [of m p] aget_simps strset_hit_spec)
qed

lemma strpbrk_spec:
  "cstr m p xs \<Longrightarrow> cstr m r ds \<Longrightarrow>
   strpbrk m p r = Some (if set xs \<inter> set ds = {} then None
                         else Some (p + length (takeWhile (\<lambda>c. c \<notin> set ds) xs)))"
proof (induction xs arbitrary: p)
  case Nil
  then show ?case by (simp add: strpbrk.simps aget_simps)
next
  case (Cons x xs)
  then show ?case
    using Cons.IH [of "Suc p"] by (simp add: strpbrk.simps [of m p] aget_simps strset_hit_spec)
qed

text \<open>Writing a zero into a string cuts it there.\<close>

lemma cstr_cut:
  assumes "cstr m p xs" "k \<le> length xs"
  shows "cstr (m[p + k := 0]) p (take k xs)"
  using assms by (auto simp: cstr_iff dest: in_set_takeD)

lemma cstr_after_cut:
  assumes "cstr m p xs" "k < length xs"
  shows "cstr (m[p + k := 0]) (Suc (p + k)) (drop (Suc k) xs)"
  using assms cstr_drop [OF assms(1), of "Suc k"] by (auto simp: cstr_iff nth_list_update)

lemma strsep_spec:
  assumes "cstr m p xs" "cstr m ct ds"
  defines "tok \<equiv> takeWhile (\<lambda>c. c \<notin> set ds) xs"
  shows "\<exists>m' s'. strsep m (Some p) ct = Some (Some p, m', s') \<and> length m' = length m \<and>
    cstr m' p tok \<and>
    (case s' of
       None \<Rightarrow> tok = xs \<and> m' = m
     | Some q \<Rightarrow> q = p + length tok + 1 \<and> m' = m[p + length tok := 0] \<and>
         xs = tok @ xs ! length tok # drop (Suc (length tok)) xs \<and>
         xs ! length tok \<in> set ds \<and> cstr m' q (drop (Suc (length tok)) xs))"
proof (cases "set xs \<inter> set ds = {}")
  case True
  then have "tok = xs" by (auto simp: tok_def takeWhile_eq_all_conv)
  then show ?thesis
    using assms(1) True by (simp add: strsep_def strpbrk_spec [OF assms(1,2)])
next
  case False
  then obtain c where c: "c \<in> set xs" "c \<in> set ds" by auto
  then have "tok \<noteq> xs" by (auto simp: tok_def takeWhile_eq_all_conv)
  moreover have tk: "tok = take (length tok) xs" unfolding tok_def by (rule takeWhile_eq_take)
  ultimately have lt: "length tok < length xs" by (metis leI take_all)
  have hit: "xs ! length tok \<in> set ds"
    using lt nth_length_takeWhile [of "\<lambda>c. c \<notin> set ds" xs] by (simp add: tok_def)
  have sep: "strsep m (Some p) ct =
      Some (Some p, m[p + length tok := 0], Some (Suc (p + length tok)))"
    using False lt cstr_bound [OF assms(1)]
    by (simp add: strsep_def strpbrk_spec [OF assms(1,2)] aget_simps flip: tok_def)
  have "cstr (m[p + length tok := 0]) p tok"
    using cstr_cut [OF assms(1), of "length tok"] lt unfolding tk [symmetric] by simp
  moreover have "xs = tok @ xs ! length tok # drop (Suc (length tok)) xs"
    using lt tk id_take_nth_drop [of "length tok" xs] by simp
  ultimately show ?thesis
    using sep hit cstr_after_cut [OF assms(1) lt] by simp
qed

section \<open>Correctness\<close>

lemma memmove_frame:
  assumes "d + n \<le> length m" and "s + n \<le> length m"
  shows "\<exists>m'. memmove m d s n = Some m' \<and> length m' = length m \<and>
    (\<forall>i. i < length m \<longrightarrow> m' ! i = (if d \<le> i \<and> i < d + n then m ! (s + (i - d)) else m ! i))"
  using assms by (simp add: memmove_blit nth_blit)

lemma strlcpy_frame:
  assumes "cstr m src xs" and "0 < sz" and "dest + sz \<le> length m"
    and "dest + sz \<le> src \<or> src + length xs < dest"
  shows "\<exists>m'. strlcpy m dest src sz = Some (length xs, m') \<and> length m' = length m \<and>
    cstr m' dest (take (sz - 1) xs) \<and>
    (\<forall>i. i < dest \<or> dest + sz \<le> i \<longrightarrow> i < length m \<longrightarrow> m' ! i = m ! i)"
proof -
  let ?n = "min (sz - 1) (length xs)"
  let ?m = "take dest m @ take ?n xs @ 0 # drop (dest + ?n + 1) m"
  have cp: "strlcpy m dest src sz = Some (length xs, ?m)" by (rule strlcpy_spec [OF assms])
  have len: "length ?m = length m" using assms(2,3) by (auto simp: min_def)
  have "cstr ?m dest (take ?n xs)"
    using assms(2,3) cstr_nonzero [OF assms(1)]
    by (auto simp: cstr_iff nth_append min_def dest: in_set_takeD)
  then have st: "cstr ?m dest (take (sz - 1) xs)" by (simp add: min_def split: if_splits)
  have "?m ! i = m ! i" if "i < dest \<or> dest + sz \<le> i" "i < length m" for i
    using that assms(2,3) by (auto simp: nth_append nth_Cons' min_def)
  then show ?thesis using cp len st by blast
qed

text \<open>
  C27. \<open>memmove\<close> copies correctly whatever the overlap of the two areas: after the call
  every byte of the target area is the byte the source area had before it, the rest of
  memory is unchanged, and no access leaves the memory. This covers the word-wise and the
  byte-wise path of \<open>memcpy\<close>, to which it delegates when the target lies below.
\<close>

theorem memmove_correct:
  assumes "d + n \<le> length m" and "s + n \<le> length m"
  shows "\<exists>m'. memmove m d s n = Some m' \<and> length m' = length m \<and>
    (\<forall>i. i < length m \<longrightarrow> m' ! i = (if d \<le> i \<and> i < d + n then m ! (s + (i - d)) else m ! i))"
  using assms by (rule memmove_frame)

theorem memmove_correct_witness:
  "\<exists>m'. memmove [1, 2, 3, 4, 5] 1 0 3 = Some m' \<and> m' ! 3 = (3 :: u8)"
  using memmove_correct [of 1 3 "[1, 2, 3, 4, 5]" 0] by auto

text \<open>
  \<open>memset\<close> fills exactly the area it is given, through the word loop for an aligned
  start and the byte loop for the rest.
\<close>

theorem memset_correct:
  assumes "s + n \<le> length m"
  shows "memset m s c n = Some (take s m @ replicate n c @ drop (s + n) m)"
  using assms by (rule memset_spec)

theorem memset_correct_witness:
  "memset [1, 2, 3, 4, 5, 6, 7, 8, 9, 10] 0 7 9 = Some [7, 7, 7, 7, 7, 7, 7, 7, 7, 10]"
  using memset_correct [of 0 9 "[1, 2, 3, 4, 5, 6, 7, 8, 9, 10]" 7] by (simp add: numeral_eq_Suc)

text \<open>
  C30. \<open>memchr_inv\<close>, with its unaligned prefix, its loop over eight-byte words and its
  tail, returns the address of the first byte that differs from the value, as the bytewise
  search does, for every size the 32-bit word count can express.
\<close>

theorem memchr_inv_correct:
  assumes "start + n \<le> length m" and "n < 2 ^ 35"
  shows "memchr_inv m start v n = Some (find (\<lambda>i. m ! i \<noteq> v) [start ..< start + n])"
  using assms by (rule memchr_inv_find)

theorem memchr_inv_correct_witness:
  "memchr_inv (replicate 19 5 @ [6]) 1 5 19 = Some (Some 19)"
proof -
  have "find (\<lambda>i. (replicate 19 5 @ [6 :: u8]) ! i \<noteq> 5) [1 ..< 1 + 19] = Some 19"
    by code_simp
  then show ?thesis using memchr_inv_correct [of 1 19 "replicate 19 5 @ [6]" 5] by simp
qed

text \<open>
  C31. \<open>strlcpy\<close> returns the length of the source string and leaves in the target the
  string cut to \<open>size - 1\<close> bytes, always terminated, with no byte outside the
  \<open>size\<close> bytes of the target written.
\<close>

theorem strlcpy_correct:
  assumes "cstr m src xs" and "0 < sz" and "dest + sz \<le> length m"
    and "dest + sz \<le> src \<or> src + length xs < dest"
  shows "\<exists>m'. strlcpy m dest src sz = Some (length xs, m') \<and> length m' = length m \<and>
    cstr m' dest (take (sz - 1) xs) \<and>
    (\<forall>i. i < dest \<or> dest + sz \<le> i \<longrightarrow> i < length m \<longrightarrow> m' ! i = m ! i)"
  using assms by (rule strlcpy_frame)

theorem strlcpy_correct_witness:
  "\<exists>m'. strlcpy [9, 9, 9, 9, 65, 66, 67, 68, 0] 0 4 3 = Some (4, m') \<and> cstr m' 0 [65, 66] \<and> m' ! 3 = 9"
proof -
  let ?m = "[9, 9, 9, 9, 65, 66, 67, 68, 0] :: u8 list"
  have "cstr ?m 4 [65, 66, 67, 68]" by code_simp
  then obtain m' where m': "strlcpy ?m 0 4 3 = Some (4, m')" "cstr m' 0 (take (3 - 1) [65, 66, 67, 68])"
      "\<forall>i. i < 0 \<or> 0 + 3 \<le> i \<longrightarrow> i < length ?m \<longrightarrow> m' ! i = ?m ! i"
    using strlcpy_correct [of ?m 4 "[65, 66, 67, 68]" 3 0] by auto
  have "m' ! 3 = 9" using m'(3) [rule_format, of 3] by simp
  then show ?thesis using m'(1,2) by simp
qed

text \<open>
  \<open>strstr\<close> returns the address of the first occurrence of the second string in the
  first, and a null pointer exactly when there is none.
\<close>

theorem strstr_correct:
  assumes "cstr m s1 xs" and "cstr m s2 ys"
  shows "strstr m s1 s2 =
    Some (map_option (\<lambda>j. s1 + j) (find (occurs_at xs ys) [0 ..< length xs + 1]))"
  using assms by (rule strstr_find)

theorem strstr_correct_witness: "strstr [97, 98, 99, 98, 99, 0, 98, 99, 0] 0 6 = Some (Some 1)"
  using strstr_correct [of "[97, 98, 99, 98, 99, 0, 98, 99, 0]" 0 "[97, 98, 99, 98, 99]" 6 "[98, 99]"]
  by (simp add: occurs_at_def upt_rec)

text \<open>
  \<open>strsep\<close> cuts the string at the first delimiter: the token it returns is the part
  before it, the position it stores is the string behind it, one byte of memory changes, and
  with no delimiter left the token is the whole string and the stored position is null.
\<close>

theorem strsep_correct:
  assumes "cstr m p xs" and "cstr m ct ds"
  shows "\<exists>m' s'. strsep m (Some p) ct = Some (Some p, m', s') \<and> length m' = length m \<and>
    cstr m' p (takeWhile (\<lambda>c. c \<notin> set ds) xs) \<and>
    (case s' of
       None \<Rightarrow> takeWhile (\<lambda>c. c \<notin> set ds) xs = xs \<and> m' = m
     | Some q \<Rightarrow> (let n = length (takeWhile (\<lambda>c. c \<notin> set ds) xs) in
         q = p + n + 1 \<and> m' = m[p + n := 0] \<and>
         xs = takeWhile (\<lambda>c. c \<notin> set ds) xs @ xs ! n # drop (Suc n) xs \<and>
         xs ! n \<in> set ds \<and> cstr m' q (drop (Suc n) xs)))"
  unfolding Let_def using assms by (rule strsep_spec)

theorem strsep_correct_witness:
  "\<exists>m' s'. strsep [97, 44, 98, 0, 44, 0] (Some 0) 4 = Some (Some 0, m', s') \<and> cstr m' 0 [97]"
  using strsep_correct [of "[97, 44, 98, 0, 44, 0]" 0 "[97, 44, 98]" 4 "[44]"] by auto

end
