(* ===== verification/Strto.thy ===== *)
theory Strto
  imports Cstring
begin

unbundle bit_operations_syntax

text \<open>
  Number parsing, \<^verbatim>\<open>lib/strto.c\<close> of U-Boot, on the memory model of \<open>Cstring\<close>:
  each parser returns the value and the end pointer, \<open>None\<close> when a read leaves the
  memory. \<open>unsigned long\<close> and \<open>unsigned long long\<close> have 64 bits.
\<close>

section \<open>Operations\<close>

definition EINVAL :: int where "EINVAL = 22"

definition parse_integer_fixup_radix :: "mem \<Rightarrow> nat \<Rightarrow> u32 \<Rightarrow> (nat \<times> u32) option" where
  "parse_integer_fixup_radix m s base = do {
     base \<leftarrow> (if base = 0 then do {
       c0 \<leftarrow> aget m s;
       if c0 = 0x30 then do {
         c1 \<leftarrow> aget m (s + 1);
         if tolower c1 = 0x78 then do {
           c2 \<leftarrow> aget m (s + 2);
           Some (if isxdigit c2 then 16 else 8)
         }
         else Some 8
       }
       else Some 10
     }
     else Some base);
     if base = 16 then do {
       c0 \<leftarrow> aget m s;
       if c0 = 0x30 then do {
         c1 \<leftarrow> aget m (s + 1);
         Some (if tolower c1 = 0x78 then s + 2 else s, base)
       }
       else Some (s, base)
     }
     else Some (s, base)
   }"

text \<open>The value the loops of \<open>simple_strtoul\<close> and \<open>simple_strtoull\<close> give a character.\<close>

definition digit_value :: "u8 \<Rightarrow> u64" where
  "digit_value c =
     (if isdigit c then ucast c - 0x30
      else ucast (if islower c then toupper c else c) - 0x41 + 10)"

function strtoul_loop :: "mem \<Rightarrow> nat \<Rightarrow> u32 \<Rightarrow> u64 \<Rightarrow> (u64 \<times> nat) option" where
  "strtoul_loop m cp base result = do {
     c \<leftarrow> aget m cp;
     if isxdigit c \<and> digit_value c < ucast base
     then strtoul_loop m (Suc cp) base (result * ucast base + digit_value c)
     else Some (result, cp)
   }"
  by pat_completeness auto
termination
  by (relation "measure (\<lambda>(m, cp, b, r). length m - cp)") auto

declare strtoul_loop.simps [simp del]

definition simple_strtoul :: "mem \<Rightarrow> nat \<Rightarrow> u32 \<Rightarrow> (u64 \<times> nat) option" where
  "simple_strtoul m cp base = do {
     (cp, base) \<leftarrow> parse_integer_fixup_radix m cp base;
     strtoul_loop m cp base 0
   }"

definition simple_strtoull :: "mem \<Rightarrow> nat \<Rightarrow> u32 \<Rightarrow> (u64 \<times> nat) option" where
  "simple_strtoull m cp base = do {
     (cp, base) \<leftarrow> parse_integer_fixup_radix m cp base;
     strtoul_loop m cp base 0
   }"

text \<open>The return code and the value stored through \<open>res\<close>.\<close>

definition strict_strtoul :: "mem \<Rightarrow> nat \<Rightarrow> u32 \<Rightarrow> (int \<times> u64) option" where
  "strict_strtoul m cp base = do {
     len \<leftarrow> strlen m cp;
     if len = 0 then Some (- EINVAL, 0)
     else do {
       (val, tail) \<leftarrow> simple_strtoul m cp base;
       if tail = cp then Some (- EINVAL, 0)
       else do {
         c \<leftarrow> aget m tail;
         if c = 0 \<or> len = (tail - cp) + 1 \<and> c = 0x0A then Some (0, val)
         else Some (- EINVAL, 0)
       }
     }
   }"

definition simple_strtol :: "mem \<Rightarrow> nat \<Rightarrow> u32 \<Rightarrow> (int \<times> nat) option" where
  "simple_strtol m cp base = do {
     c \<leftarrow> aget m cp;
     if c = 0x2D then do { (v, e) \<leftarrow> simple_strtoul m (cp + 1) base; Some (sint (- v), e) }
     else do { (v, e) \<leftarrow> simple_strtoul m cp base; Some (sint v, e) }
   }"

text \<open>The suffix switch of \<open>ustrtoul\<close> and \<open>ustrtoull\<close>, with its fall-through cases.\<close>

definition ustrtoul_suffix :: "mem \<Rightarrow> u64 \<Rightarrow> nat \<Rightarrow> (u64 \<times> nat) option" where
  "ustrtoul_suffix m result endp = do {
     c \<leftarrow> aget m endp;
     if c = 0x47 \<or> c = 0x4D \<or> c = 0x4B \<or> c = 0x6B then do {
       let result = (if c = 0x47 then result * 1024 else result);
       let result = (if c = 0x47 \<or> c = 0x4D then result * 1024 else result);
       let result = result * 1024;
       c1 \<leftarrow> aget m (endp + 1);
       if c1 = 0x69 then do {
         c2 \<leftarrow> aget m (endp + 2);
         Some (result, if c2 = 0x42 then endp + 3 else endp + 2)
       }
       else Some (result, endp)
     }
     else Some (result, endp)
   }"

definition ustrtoul :: "mem \<Rightarrow> nat \<Rightarrow> u32 \<Rightarrow> (u64 \<times> nat) option" where
  "ustrtoul m cp base = do {
     (result, endp) \<leftarrow> simple_strtoul m cp base;
     ustrtoul_suffix m result endp
   }"

definition ustrtoull :: "mem \<Rightarrow> nat \<Rightarrow> u32 \<Rightarrow> (u64 \<times> nat) option" where
  "ustrtoull m cp base = do {
     (result, endp) \<leftarrow> simple_strtoull m cp base;
     ustrtoul_suffix m result endp
   }"

text \<open>The backward loop of \<open>trailing_strtoln\<close>, at distance \<open>k\<close> above \<open>str\<close>.\<close>

fun trailing_loop :: "mem \<Rightarrow> nat \<Rightarrow> nat \<Rightarrow> int option" where
  "trailing_loop m str 0 = Some (- 1)"
| "trailing_loop m str (Suc k) = do {
     c \<leftarrow> aget m (str + Suc k);
     if \<not> isdigit c then do {
       (v, e) \<leftarrow> simple_strtoul m (str + Suc k + 1) 10;
       Some (sint v)
     }
     else trailing_loop m str k
   }"

definition trailing_strtoln :: "mem \<Rightarrow> nat \<Rightarrow> nat option \<Rightarrow> int option" where
  "trailing_strtoln m str endp = do {
     e \<leftarrow> (case endp of Some e \<Rightarrow> Some e | None \<Rightarrow> do { n \<leftarrow> strlen m str; Some (str + n) });
     if e = 0 then None
     else do {
       c \<leftarrow> aget m (e - 1);
       if isdigit c then trailing_loop m str (e - 1 - str) else Some (- 1)
     }
   }"

definition trailing_strtol :: "mem \<Rightarrow> nat \<Rightarrow> int option" where
  "trailing_strtol m str = trailing_strtoln m str None"

section \<open>Digits\<close>





text \<open>A character the parser accepts for a base.\<close>

definition digit_ok :: "u32 \<Rightarrow> u8 \<Rightarrow> bool" where
  "digit_ok base c \<longleftrightarrow> isxdigit c \<and> digit_value c < ucast base"

lemma zero_not_digit: "\<not> digit_ok base 0"
proof -
  have "\<not> isxdigit 0" by code_simp
  then show ?thesis by (simp add: digit_ok_def)
qed



lemma strtoul_loop_spec:
  "cstr m p xs \<Longrightarrow>
   strtoul_loop m p base r =
     Some (foldl (\<lambda>r c. r * ucast base + digit_value c) r (takeWhile (digit_ok base) xs),
           p + length (takeWhile (digit_ok base) xs))"
proof (induction xs arbitrary: p r)
  case Nil
  then show ?case using zero_not_digit [of base] by (auto simp: strtoul_loop.simps aget_simps digit_ok_def)
next
  case (Cons x xs)
  then show ?case
    using Cons.IH [of "Suc p"] by (auto simp: strtoul_loop.simps [of m p] aget_simps digit_ok_def)
qed




text \<open>No radix prefix: the base is given and the string does not begin with \<open>0x\<close>.\<close>

definition no_prefix :: "u8 list \<Rightarrow> bool" where
  "no_prefix xs = (case xs of c # d # ys \<Rightarrow> \<not> (c = 0x30 \<and> tolower d = 0x78) | _ \<Rightarrow> True)"

lemma tolower_0: "tolower 0 = 0"
  by code_simp

lemma fixup_no_prefix:
  assumes "cstr m p xs" "base \<noteq> 0" "no_prefix xs"
  shows "parse_integer_fixup_radix m p base = Some (p, base)"
proof (cases xs)
  case Nil
  then show ?thesis using assms by (simp add: parse_integer_fixup_radix_def aget_simps)
next
  case (Cons c ys)
  then show ?thesis using assms
    by (cases ys) (simp_all add: parse_integer_fixup_radix_def aget_simps no_prefix_def tolower_0)
qed

lemma simple_strtoul_spec:
  assumes "cstr m p xs" "base \<noteq> 0" "no_prefix xs"
  defines "ds \<equiv> takeWhile (digit_ok base) xs"
  shows "simple_strtoul m p base =
    Some (foldl (\<lambda>r c. r * ucast base + digit_value c) 0 ds, p + length ds)"
  using fixup_no_prefix [OF assms(1-3)] strtoul_loop_spec [OF assms(1)]
  by (simp add: simple_strtoul_def ds_def)

lemma strict_strtoul_spec:
  assumes "cstr m p xs" "base \<noteq> 0" "no_prefix xs"
  defines "ds \<equiv> takeWhile (digit_ok base) xs"
  shows "strict_strtoul m p base =
    Some (if ds \<noteq> [] \<and> (xs = ds \<or> xs = ds @ [0x0A])
          then (0, foldl (\<lambda>r c. r * ucast base + digit_value c) 0 ds)
          else (- EINVAL, 0))"
proof (cases "ds = []")
  case True
  then show ?thesis
    using simple_strtoul_spec [OF assms(1-3)] strlen_spec [OF assms(1)]
    by (simp add: strict_strtoul_def flip: ds_def)
next
  case False
  define rest where "rest = dropWhile (digit_ok base) xs"
  have xs: "xs = ds @ rest" by (simp add: ds_def rest_def)
  have len: "strlen m p = Some (length ds + length rest)" using strlen_spec [OF assms(1)] xs by simp
  have "cstr m (p + length ds) rest" using cstr_drop [OF assms(1), of "length ds"] xs by simp
  then obtain c where c: "aget m (p + length ds) = Some c" "c = 0 \<longleftrightarrow> rest = []"
      "rest \<noteq> [] \<Longrightarrow> c = hd rest"
    by (cases rest) auto
  have "length rest = 1 \<and> c = 0x0A \<longleftrightarrow> rest = [0x0A]"
    using c by (cases rest) auto
  then have ok: "c = 0 \<or> length ds + length rest = length ds + 1 \<and> c = 0x0A \<longleftrightarrow> xs = ds \<or> xs = ds @ [0x0A]"
    using c(2) xs by auto
  let ?v = "foldl (\<lambda>r c. r * ucast base + digit_value c) 0 ds"
  have sv: "simple_strtoul m p base = Some (?v, p + length ds)"
    using simple_strtoul_spec [OF assms(1-3)] by (simp add: ds_def)
  have "strict_strtoul m p base =
      Some (if c = 0 \<or> length ds + length rest = length ds + 1 \<and> c = 0x0A then (0, ?v) else (- EINVAL, 0))"
    using False c(1) len sv by (simp add: strict_strtoul_def aget_simps)
  then show ?thesis unfolding ok using False by simp
qed



lemma trailing_loop_all:
  "str + k < length m \<Longrightarrow> (\<forall>i. 0 < i \<and> i \<le> k \<longrightarrow> isdigit (m ! (str + i))) \<Longrightarrow>
   trailing_loop m str k = Some (- 1)"
  by (induction k) (auto simp: aget_simps)

lemma trailing_loop_stop:
  "str + k < length m \<Longrightarrow> 0 < j \<Longrightarrow> j \<le> k \<Longrightarrow> \<not> isdigit (m ! (str + j)) \<Longrightarrow>
   (\<forall>i. j < i \<and> i \<le> k \<longrightarrow> isdigit (m ! (str + i))) \<Longrightarrow>
   trailing_loop m str k = map_option (\<lambda>(v, e). sint v) (simple_strtoul m (str + j + 1) 10)"
proof (induction k)
  case 0
  then show ?case by simp
next
  case (Suc k)
  show ?case
  proof (cases "j = Suc k")
    case True
    then show ?thesis
      using Suc.prems by (cases "simple_strtoul m (str + j + 1) 10") (auto simp: aget_simps)
  next
    case False
    then have "isdigit (m ! (str + Suc k))" using Suc.prems by (metis le_neq_implies_less order_refl)
    then show ?thesis using False Suc by (simp add: aget_simps)
  qed
qed

lemma digit_10: "isdigit c \<longleftrightarrow> digit_ok 10 c"
proof -
  have all: "\<forall>n \<in> set [0 ..< 256]. isdigit (of_nat n) \<longleftrightarrow> digit_ok 10 (of_nat n)" by code_simp
  have "unat c < 256" using unsigned_less [of c, where 'a = nat] by simp
  then show ?thesis using all [rule_format, of "unat c"] by simp
qed

lemma cstr_append:
  "cstr m p (xs @ ys) \<Longrightarrow> cstr m (p + length xs) ys"
  using cstr_drop [of m p "xs @ ys" "length xs"] by simp

lemma digits10_no_prefix: "\<forall>d \<in> set ds. isdigit d \<Longrightarrow> no_prefix ds"
proof -
  have x: "\<forall>n \<in> set [0 ..< 256]. isdigit (of_nat n) \<longrightarrow> tolower (of_nat n) \<noteq> 0x78" by code_simp
  have "unat c < 256" for c :: u8 using unsigned_less [of c, where 'a = nat] by simp
  then have "isdigit c \<Longrightarrow> tolower c \<noteq> 0x78" for c
    using x [rule_format, of "unat c"] by simp
  then show "\<forall>d \<in> set ds. isdigit d \<Longrightarrow> no_prefix ds"
    by (auto simp: no_prefix_def split: list.splits)
qed

lemma trailing_strtol_spec:
  assumes "cstr m p (pre @ c # ds)" "ds \<noteq> []" "\<forall>d \<in> set ds. isdigit d" "\<not> isdigit c"
  shows "trailing_strtol m p =
    Some (if pre = [] then - 1 else sint (foldl (\<lambda>r c. r * 10 + digit_value c) 0 ds))"
proof -
  let ?n = "length pre" and ?k = "length pre + length ds"
  have b: "p + ?k + 1 < length m" using cstr_bound [OF assms(1)] by simp
  have len: "strlen m p = Some (?k + 1)" using strlen_spec [OF assms(1)] by simp
  have nth: "m ! (p + i) = (pre @ c # ds) ! i" if "i \<le> ?k" for i
    using cstr_nth [OF assms(1), of i] that by simp
  have dig: "isdigit (m ! (p + i))" if "?n < i" "i \<le> ?k" for i
    using that nth [of i] assms(3) by (auto simp: nth_append nth_Cons')
  have stop: "m ! (p + ?n) = c" using nth [of ?n] by simp
  have last: "isdigit (m ! (p + ?k))" using dig [of ?k] assms(2) by simp
  have start: "trailing_strtol m p = trailing_loop m p ?k"
    using b len last by (simp add: trailing_strtol_def trailing_strtoln_def aget_simps)
  show ?thesis
  proof (cases "pre = []")
    case True
    then show ?thesis using start b dig by (simp add: trailing_loop_all)
  next
    case False
    have all: "takeWhile (digit_ok 10) ds = ds"
      using assms(3) by (simp add: takeWhile_eq_all_conv digit_10)
    have "cstr m (p + ?n + 1) ds" using cstr_append [of m p "pre @ [c]" ds] assms(1) by simp
    then have "simple_strtoul m (p + ?n + 1) 10 =
        Some (foldl (\<lambda>r c. r * 10 + digit_value c) 0 ds, p + ?n + 1 + length ds)"
      using simple_strtoul_spec [of m "p + ?n + 1" ds 10] digits10_no_prefix [OF assms(3)]
      unfolding all by simp
    then show ?thesis
      using False start b dig stop assms(4) trailing_loop_stop [of p ?k m ?n] by simp
  qed
qed

section \<open>Correctness\<close>



text \<open>
  On any terminated string without a radix prefix, \<open>strict_strtoul\<close> accepts
  exactly a non-empty run of digits of the base, alone or followed by one newline; it stores
  the value of the run, and on every other string it stores 0 and returns
  \<open>-EINVAL\<close>.
\<close>

theorem strict_strtoul_accepts:
  assumes "cstr m p xs" "base \<noteq> 0" "no_prefix xs"
  shows "strict_strtoul m p base =
    (let ds = takeWhile (digit_ok base) xs in
     Some (if ds \<noteq> [] \<and> (xs = ds \<or> xs = ds @ [0x0A])
           then (0, foldl (\<lambda>r c. r * ucast base + digit_value c) 0 ds)
           else (- EINVAL, 0)))"
  unfolding Let_def using assms by (rule strict_strtoul_spec)

theorem strict_strtoul_accepts_witness:
  "strict_strtoul [0x31, 0x32, 0x20, 0] 0 10 = Some (- EINVAL, 0)"
proof -
  have c: "cstr [0x31, 0x32, 0x20, 0] 0 [0x31, 0x32, 0x20]" by code_simp
  have p: "no_prefix [0x31, 0x32, 0x20]" by code_simp
  have t: "takeWhile (digit_ok 10) [0x31, 0x32, 0x20] = [0x31, 0x32]" by code_simp
  have z: "(10 :: u32) \<noteq> 0" by simp
  show ?thesis using strict_strtoul_accepts [OF c z p] t by simp
qed

text \<open>
  \<open>trailing_strtol\<close> returns the number at the end of a string whose text part has
  at least two characters; with a text part of one character the loop stops before it looks
  at that character, and the result is -1 although the string ends in a number.
\<close>

theorem trailing_strtol_correct:
  assumes "cstr m p (pre @ c # ds)" "ds \<noteq> []" "\<forall>d \<in> set ds. isdigit d" "\<not> isdigit c"
  shows "trailing_strtol m p =
    Some (if pre = [] then - 1 else sint (foldl (\<lambda>r c. r * 10 + digit_value c) 0 ds))"
  using assms by (rule trailing_strtol_spec)

theorem trailing_strtol_correct_witness: "trailing_strtol [0x61, 0x31, 0x32, 0] 0 = Some (- 1)"
proof -
  have c: "cstr [0x61, 0x31, 0x32, 0] 0 ([] @ 0x61 # [0x31, 0x32])" by code_simp
  have d: "\<forall>d \<in> set [0x31, 0x32]. isdigit d" by code_simp
  have n: "\<not> isdigit 0x61" by code_simp
  show ?thesis using trailing_strtol_correct [OF c _ d n] by simp
qed

end
