(* ===== verification/Psci.thy ===== *)
theory Psci
  imports Prelude
begin

unbundle bit_operations_syntax

text \<open>
  The state of the PSCI service of the trusted firmware and its common routines:
  \<^verbatim>\<open>lib/psci/psci_common.c\<close>, \<^verbatim>\<open>psci_private.h\<close> and
  \<^verbatim>\<open>include/lib/psci/psci.h\<close>. The whole service state is one record; an operation
  run by CPU \<open>me\<close> maps it to a result and a new state, and \<open>None\<close> is a failed
  assertion, a panic or an access outside an array. Calls that leave the service (locks,
  platform hooks, the secure payload dispatcher, wait-for-interrupt) are appended to the
  field \<open>trace\<close>, so that their order can be stated; cache maintenance is not modelled.
  What differs between platforms is the record \<open>plat\<close>, and what can differ from call to
  call (pending interrupts, system registers, return codes of hooks) the record
  \<open>env\<close>.
\<close>

section \<open>Constants and types\<close>

definition PSCI_CPU_PWR_LVL :: nat where "PSCI_CPU_PWR_LVL = 0"
definition PSCI_LOCAL_STATE_RUN :: u8 where "PSCI_LOCAL_STATE_RUN = 0"

definition PSCI_E_SUCCESS :: int where "PSCI_E_SUCCESS = 0"
definition PSCI_E_NOT_SUPPORTED :: int where "PSCI_E_NOT_SUPPORTED = -1"
definition PSCI_E_INVALID_PARAMS :: int where "PSCI_E_INVALID_PARAMS = -2"
definition PSCI_E_DENIED :: int where "PSCI_E_DENIED = -3"
definition PSCI_E_ALREADY_ON :: int where "PSCI_E_ALREADY_ON = -4"
definition PSCI_E_ON_PENDING :: int where "PSCI_E_ON_PENDING = -5"
definition PSCI_E_INTERN_FAIL :: int where "PSCI_E_INTERN_FAIL = -6"
definition PSCI_E_NOT_PRESENT :: int where "PSCI_E_NOT_PRESENT = -7"
definition PSCI_E_INVALID_ADDRESS :: int where "PSCI_E_INVALID_ADDRESS = -9"

definition PSCI_INVALID_MPIDR :: u64 where "PSCI_INVALID_MPIDR = -1"

named_theorems psci_const \<open>the numeric constants of the interface\<close>

declare PSCI_CPU_PWR_LVL_def [psci_const] PSCI_LOCAL_STATE_RUN_def [psci_const]
  PSCI_E_SUCCESS_def [psci_const] PSCI_E_NOT_SUPPORTED_def [psci_const]
  PSCI_E_INVALID_PARAMS_def [psci_const] PSCI_E_DENIED_def [psci_const]
  PSCI_E_ALREADY_ON_def [psci_const] PSCI_E_ON_PENDING_def [psci_const]
  PSCI_E_INTERN_FAIL_def [psci_const] PSCI_E_NOT_PRESENT_def [psci_const]
  PSCI_E_INVALID_ADDRESS_def [psci_const]

datatype aff_info_state = AFF_STATE_ON | AFF_STATE_OFF | AFF_STATE_ON_PENDING

datatype plat_local_state_type = STATE_TYPE_RUN | STATE_TYPE_RETN | STATE_TYPE_OFF

type_synonym plat_local_state = u8

text \<open>The array \<open>pwr_domain_state\<close>, one entry per power level.\<close>

type_synonym psci_power_state = "plat_local_state list"

record psci_cpu_data =
  aff_info_state :: aff_info_state
  target_pwrlvl :: nat
  local_state :: plat_local_state

record non_cpu_pd_node =
  cpu_start_idx :: u32
  ncpus :: u32
  parent_node :: u32
  node_state :: plat_local_state
  level :: u8
  lock_index :: u8

record cpu_pd_node =
  mpidr :: u64
  cpu_parent :: u32

record psci_stat =
  residency :: u64
  count :: u64

record entry_point_info =
  ep_attr :: u32
  pc :: u64
  spsr :: u32
  arg0 :: u64

text \<open>The hooks of a secure payload dispatcher that are set.\<close>

record spd_pm_ops =
  svc_on :: bool
  svc_off :: bool
  svc_suspend :: bool
  svc_on_finish :: bool
  svc_suspend_finish :: bool
  svc_migrate :: bool
  svc_migrate_info :: bool
  svc_system_off :: bool
  svc_system_reset :: bool

text \<open>
  Platform constants, build options and hooks; a boolean tells that a hook is set. A hook that may panic or crash is
  given as what it does: \<open>None\<close> when it does not get to its end.
\<close>

record plat =
  PLAT_MAX_PWR_LVL :: nat
  PLATFORM_CORE_COUNT :: nat
  PSCI_NUM_NON_CPU_PWR_DOMAINS :: nat
  PLAT_MAX_RET_STATE :: plat_local_state
  PLAT_MAX_OFF_STATE :: plat_local_state
  PLAT_MAX_PWR_LVL_STATES :: nat
  ENABLE_PSCI_STAT :: bool
  HW_ASSISTED_COHERENCY :: bool
  plat_core_pos_by_mpidr :: "u64 \<Rightarrow> int"
  topology_desc :: "u8 list"
  cpu_standby :: "(plat_local_state \<Rightarrow> unit option) option"
  has_pwr_domain_on :: bool
  pwr_domain_off :: bool
  pwr_domain_suspend_pwrdown_early :: bool
  pwr_domain_suspend :: bool
  pwr_domain_on_finish :: bool
  pwr_domain_suspend_finish :: bool
  pwr_domain_pwr_down_wfi :: "(psci_power_state \<Rightarrow> unit option) option"
  system_off :: "unit option option"
  system_reset :: bool
  validate_power_state :: "(u32 \<Rightarrow> psci_power_state \<Rightarrow> int \<times> psci_power_state) option"
  validate_ns_entrypoint :: "(u64 \<Rightarrow> int) option"
  get_sys_suspend_power_state :: "(psci_power_state \<Rightarrow> psci_power_state) option"
  get_pwr_lvl_state_idx :: "(plat_local_state \<Rightarrow> nat \<Rightarrow> int) option"
  translate_power_state_by_mpidr ::
    "(u64 \<Rightarrow> u32 \<Rightarrow> psci_power_state \<Rightarrow> int \<times> psci_power_state) option"
  has_get_node_hw_state :: bool
  has_mem_protect_chk :: bool
  has_read_mem_protect :: bool
  has_write_mem_protect :: bool
  has_system_reset2 :: bool

text \<open>What a call reads from outside: registers, and what hooks return this time.\<close>

record env =
  read_isr_el1 :: u64
  read_mpidr :: u64
  read_scr_el3 :: u64
  read_sctlr_el1 :: u64
  read_sctlr_el2 :: u64
  pwr_domain_on :: "u64 \<Rightarrow> int"
  svc_off_rc :: int
  svc_migrate_rc :: int
  svc_migrate_info_rc :: "int \<times> u64"
  get_node_hw_state :: "u64 \<Rightarrow> u32 \<Rightarrow> int"
  mem_protect_chk :: "u64 \<Rightarrow> u64 \<Rightarrow> int"
  read_mem_protect :: "int \<times> int"
  write_mem_protect :: "u32 \<Rightarrow> int"
  system_reset2 :: "bool \<Rightarrow> u32 \<Rightarrow> u64 \<Rightarrow> int"
  plat_psci_stat_get_residency :: "nat \<Rightarrow> psci_power_state \<Rightarrow> int \<Rightarrow> u64"

datatype psci_event =
    Lock_get nat | Lock_release nat
  | Spin_lock_cpu nat | Spin_unlock_cpu nat
  | Call_cpu_standby plat_local_state
  | Call_pwr_domain_on u64
  | Call_pwr_domain_off psci_power_state
  | Call_pwr_domain_suspend_pwrdown_early psci_power_state
  | Call_pwr_domain_suspend psci_power_state
  | Call_pwr_domain_on_finish psci_power_state
  | Call_pwr_domain_suspend_finish psci_power_state
  | Call_pwr_domain_pwr_down_wfi psci_power_state
  | Psci_power_down_wfi | Wfi
  | Call_system_off | Call_system_reset | Call_system_reset2 bool u32 u64
  | Call_write_mem_protect u32
  | Call_svc_on u64 | Call_svc_off | Call_svc_suspend nat | Call_svc_on_finish
  | Call_svc_suspend_finish nat | Call_svc_migrate u64 u64
  | Call_svc_system_off | Call_svc_system_reset
  | Stat_accounting_start | Stat_accounting_stop
  | Pwrdown_sequence nat | Pwrup_cache_maintenance | Psci_arch_setup | Write_cntfrq
  | Cm_init_context nat entry_point_info | Cm_prepare_el3_exit
  | Publish string | Console_flush

record psci =
  psci_req_local_pwr_states :: "plat_local_state list list"
  psci_non_cpu_pd_nodes :: "non_cpu_pd_node list"
  psci_cpu_pd_nodes :: "cpu_pd_node list"
  psci_svc_cpu_data :: "psci_cpu_data list"
  psci_spd_pm :: "spd_pm_ops option"
  psci_caps :: u32
  last_cpu_in_non_cpu_pd :: "int list"
  psci_cpu_stat :: "psci_stat list list"
  psci_non_cpu_stat :: "psci_stat list list"
  trace :: "psci_event list"

definition emit :: "psci_event \<Rightarrow> psci \<Rightarrow> psci" where
  "emit e s = s\<lparr>trace := trace s @ [e]\<rparr>"

text \<open>An assertion of a debug build: \<open>None\<close> when it fails.\<close>

definition assert :: "bool \<Rightarrow> unit option" where
  "assert b = (if b then Some () else None)"

lemma assert_simps [simp]: "assert True = Some ()" "assert False = None" "assert b = Some () \<longleftrightarrow> b"
  by (simp_all add: assert_def)

definition PSCI_INVALID_PWR_LVL :: "plat \<Rightarrow> nat" where
  "PSCI_INVALID_PWR_LVL P = PLAT_MAX_PWR_LVL P + 1"

definition is_local_state_run :: "plat_local_state \<Rightarrow> bool" where
  "is_local_state_run st \<longleftrightarrow> st = PSCI_LOCAL_STATE_RUN"

definition is_local_state_retn :: "plat \<Rightarrow> plat_local_state \<Rightarrow> bool" where
  "is_local_state_retn P st \<longleftrightarrow> st > PSCI_LOCAL_STATE_RUN \<and> st \<le> PLAT_MAX_RET_STATE P"

definition is_local_state_off :: "plat \<Rightarrow> plat_local_state \<Rightarrow> bool" where
  "is_local_state_off P st \<longleftrightarrow> st > PLAT_MAX_RET_STATE P \<and> st \<le> PLAT_MAX_OFF_STATE P"

definition find_local_state_type :: "plat \<Rightarrow> plat_local_state \<Rightarrow> plat_local_state_type" where
  "find_local_state_type P st =
     (if st \<noteq> 0 then (if st > PLAT_MAX_RET_STATE P then STATE_TYPE_OFF else STATE_TYPE_RETN)
      else STATE_TYPE_RUN)"

text \<open>The numbers of the enumeration, which the code compares.\<close>

fun state_depth :: "plat_local_state_type \<Rightarrow> nat" where
  "state_depth STATE_TYPE_RUN = 0"
| "state_depth STATE_TYPE_RETN = 1"
| "state_depth STATE_TYPE_OFF = 2"

section \<open>Per-CPU data\<close>

definition get_cpu_data :: "psci \<Rightarrow> nat \<Rightarrow> psci_cpu_data option" where
  "get_cpu_data s i = aget (psci_svc_cpu_data s) i"

definition upd_cpu_data :: "nat \<Rightarrow> (psci_cpu_data \<Rightarrow> psci_cpu_data) \<Rightarrow> psci \<Rightarrow> psci option" where
  "upd_cpu_data i f s = do {
     d \<leftarrow> aget (psci_svc_cpu_data s) i;
     Some (s\<lparr>psci_svc_cpu_data := (psci_svc_cpu_data s)[i := f d]\<rparr>)
   }"

definition psci_get_aff_info_state_by_idx :: "psci \<Rightarrow> nat \<Rightarrow> aff_info_state option" where
  "psci_get_aff_info_state_by_idx s i = map_option aff_info_state (get_cpu_data s i)"

definition psci_set_aff_info_state_by_idx :: "nat \<Rightarrow> aff_info_state \<Rightarrow> psci \<Rightarrow> psci option" where
  "psci_set_aff_info_state_by_idx i st = upd_cpu_data i (\<lambda>d. d\<lparr>aff_info_state := st\<rparr>)"

definition psci_get_suspend_pwrlvl :: "psci \<Rightarrow> nat \<Rightarrow> nat option" where
  "psci_get_suspend_pwrlvl s me = map_option target_pwrlvl (get_cpu_data s me)"

definition psci_set_suspend_pwrlvl :: "nat \<Rightarrow> nat \<Rightarrow> psci \<Rightarrow> psci option" where
  "psci_set_suspend_pwrlvl me lvl = upd_cpu_data me (\<lambda>d. d\<lparr>target_pwrlvl := lvl\<rparr>)"

definition psci_get_cpu_local_state_by_idx :: "psci \<Rightarrow> nat \<Rightarrow> plat_local_state option" where
  "psci_get_cpu_local_state_by_idx s i = map_option local_state (get_cpu_data s i)"

definition psci_set_cpu_local_state :: "nat \<Rightarrow> plat_local_state \<Rightarrow> psci \<Rightarrow> psci option" where
  "psci_set_cpu_local_state me st = upd_cpu_data me (\<lambda>d. d\<lparr>local_state := st\<rparr>)"

section \<open>Common routines\<close>

definition PSTATE_VALID_MASK :: u32 where "PSTATE_VALID_MASK = 0xFCFE0000"
definition PSTATE_TYPE_SHIFT :: nat where "PSTATE_TYPE_SHIFT = 16"
definition PSTATE_PWR_LVL_SHIFT :: nat where "PSTATE_PWR_LVL_SHIFT = 24"
definition PSTATE_ID_MASK :: u32 where "PSTATE_ID_MASK = 0xffff"
definition PSTATE_PWR_LVL_MASK :: u32 where "PSTATE_PWR_LVL_MASK = 0x3"
definition PSTATE_TYPE_MASK :: u32 where "PSTATE_TYPE_MASK = 0x1"
definition PSTATE_TYPE_STANDBY :: u32 where "PSTATE_TYPE_STANDBY = 0"
definition PSTATE_TYPE_POWERDOWN :: u32 where "PSTATE_TYPE_POWERDOWN = 1"

definition psci_get_pstate_pwrlvl :: "u32 \<Rightarrow> u32" where
  "psci_get_pstate_pwrlvl pstate = drop_bit PSTATE_PWR_LVL_SHIFT pstate AND PSTATE_PWR_LVL_MASK"

definition psci_get_pstate_id :: "u32 \<Rightarrow> u32" where
  "psci_get_pstate_id pstate = pstate AND PSTATE_ID_MASK"

definition psci_get_pstate_type :: "u32 \<Rightarrow> u32" where
  "psci_get_pstate_type pstate = drop_bit PSTATE_TYPE_SHIFT pstate AND PSTATE_TYPE_MASK"

definition psci_check_power_state :: "u32 \<Rightarrow> u32" where
  "psci_check_power_state pstate = pstate AND PSTATE_VALID_MASK"

definition psci_validate_power_state ::
  "plat \<Rightarrow> u32 \<Rightarrow> psci_power_state \<Rightarrow> (int \<times> psci_power_state) option" where
  "psci_validate_power_state P power_state st =
     (if psci_check_power_state power_state \<noteq> 0 then Some (PSCI_E_INVALID_PARAMS, st)
      else case validate_power_state P of
             None \<Rightarrow> None
           | Some hook \<Rightarrow> Some (hook power_state st))"

definition psci_query_sys_suspend_pwrstate ::
  "plat \<Rightarrow> psci_power_state \<Rightarrow> psci_power_state option" where
  "psci_query_sys_suspend_pwrstate P st =
     map_option (\<lambda>hook. hook st) (get_sys_suspend_power_state P)"

fun last_on_loop :: "psci \<Rightarrow> nat \<Rightarrow> nat \<Rightarrow> nat \<Rightarrow> bool option" where
  "last_on_loop s me i 0 = Some True"
| "last_on_loop s me i (Suc n) = do {
     a \<leftarrow> psci_get_aff_info_state_by_idx s i;
     if i = me then do {
       _ \<leftarrow> assert (a = AFF_STATE_ON);
       last_on_loop s me (Suc i) n
     }
     else if a \<noteq> AFF_STATE_OFF then Some False
     else last_on_loop s me (Suc i) n
   }"

definition psci_is_last_on_cpu :: "plat \<Rightarrow> nat \<Rightarrow> psci \<Rightarrow> bool option" where
  "psci_is_last_on_cpu P me s = last_on_loop s me 0 (PLATFORM_CORE_COUNT P)"

definition get_power_on_target_pwrlvl :: "plat \<Rightarrow> nat \<Rightarrow> psci \<Rightarrow> nat option" where
  "get_power_on_target_pwrlvl P me s = do {
     pwrlvl \<leftarrow> psci_get_suspend_pwrlvl s me;
     Some (if pwrlvl = PSCI_INVALID_PWR_LVL P then PLAT_MAX_PWR_LVL P else pwrlvl)
   }"

definition psci_set_req_local_pwr_state ::
  "nat \<Rightarrow> nat \<Rightarrow> plat_local_state \<Rightarrow> psci \<Rightarrow> psci option" where
  "psci_set_req_local_pwr_state pwrlvl cpu_idx st s = do {
     _ \<leftarrow> assert (pwrlvl > PSCI_CPU_PWR_LVL);
     row \<leftarrow> aget (psci_req_local_pwr_states s) (pwrlvl - 1);
     row' \<leftarrow> aset row cpu_idx st;
     Some (s\<lparr>psci_req_local_pwr_states := (psci_req_local_pwr_states s)[pwrlvl - 1 := row']\<rparr>)
   }"

definition psci_init_req_local_pwr_states :: "plat \<Rightarrow> psci \<Rightarrow> psci" where
  "psci_init_req_local_pwr_states P s =
     s\<lparr>psci_req_local_pwr_states :=
         replicate (PLAT_MAX_PWR_LVL P) (replicate (PLATFORM_CORE_COUNT P) (PLAT_MAX_OFF_STATE P))\<rparr>"

text \<open>The states from a CPU on, as the reference into the array is used: \<open>n\<close> of them.\<close>

definition psci_get_req_local_pwr_states ::
  "psci \<Rightarrow> nat \<Rightarrow> nat \<Rightarrow> nat \<Rightarrow> plat_local_state list option" where
  "psci_get_req_local_pwr_states s pwrlvl cpu_idx n = do {
     _ \<leftarrow> assert (pwrlvl > PSCI_CPU_PWR_LVL);
     row \<leftarrow> aget (psci_req_local_pwr_states s) (pwrlvl - 1);
     if cpu_idx + n \<le> length row then Some (take n (drop cpu_idx row)) else None
   }"

definition get_non_cpu_pd_node_local_state :: "psci \<Rightarrow> u32 \<Rightarrow> plat_local_state option" where
  "get_non_cpu_pd_node_local_state s parent_idx =
     map_option node_state (aget (psci_non_cpu_pd_nodes s) (unat parent_idx))"

definition set_non_cpu_pd_node_local_state :: "u32 \<Rightarrow> plat_local_state \<Rightarrow> psci \<Rightarrow> psci option" where
  "set_non_cpu_pd_node_local_state parent_idx st s = do {
     nd \<leftarrow> aget (psci_non_cpu_pd_nodes s) (unat parent_idx);
     Some (s\<lparr>psci_non_cpu_pd_nodes :=
       (psci_non_cpu_pd_nodes s)[unat parent_idx := nd\<lparr>node_state := st\<rparr>]\<rparr>)
   }"

definition pd_parent :: "psci \<Rightarrow> u32 \<Rightarrow> u32 option" where
  "pd_parent s parent_idx = map_option parent_node (aget (psci_non_cpu_pd_nodes s) (unat parent_idx))"

definition cpu_pd_parent :: "psci \<Rightarrow> nat \<Rightarrow> u32 option" where
  "cpu_pd_parent s cpu_idx = map_option cpu_parent (aget (psci_cpu_pd_nodes s) cpu_idx)"

text \<open>
  The loops over the levels carry the level and the number of iterations left; the first
  loop of \<open>psci_get_target_local_pwr_states\<close> copies node states, the second sets the
  levels above to RUN.
\<close>

fun get_target_loop :: "psci \<Rightarrow> u32 \<Rightarrow> nat \<Rightarrow> nat \<Rightarrow> psci_power_state \<Rightarrow> psci_power_state option" where
  "get_target_loop s parent_idx lvl 0 pd = Some pd"
| "get_target_loop s parent_idx lvl (Suc n) pd = do {
     st \<leftarrow> get_non_cpu_pd_node_local_state s parent_idx;
     pd' \<leftarrow> aset pd lvl st;
     p \<leftarrow> pd_parent s parent_idx;
     get_target_loop s p (Suc lvl) n pd'
   }"

fun set_run_loop :: "nat \<Rightarrow> nat \<Rightarrow> psci_power_state \<Rightarrow> psci_power_state option" where
  "set_run_loop lvl 0 pd = Some pd"
| "set_run_loop lvl (Suc n) pd = do {
     pd' \<leftarrow> aset pd lvl PSCI_LOCAL_STATE_RUN;
     set_run_loop (Suc lvl) n pd'
   }"

definition psci_get_target_local_pwr_states ::
  "plat \<Rightarrow> nat \<Rightarrow> nat \<Rightarrow> psci_power_state \<Rightarrow> psci \<Rightarrow> psci_power_state option" where
  "psci_get_target_local_pwr_states P me end_pwrlvl pd s = do {
     st \<leftarrow> psci_get_cpu_local_state_by_idx s me;
     pd \<leftarrow> aset pd PSCI_CPU_PWR_LVL st;
     parent_idx \<leftarrow> cpu_pd_parent s me;
     pd \<leftarrow> get_target_loop s parent_idx 1 end_pwrlvl pd;
     set_run_loop (end_pwrlvl + 1) (PLAT_MAX_PWR_LVL P - end_pwrlvl) pd
   }"

fun set_target_loop :: "u32 \<Rightarrow> nat \<Rightarrow> nat \<Rightarrow> psci_power_state \<Rightarrow> psci \<Rightarrow> psci option" where
  "set_target_loop parent_idx lvl 0 pd s = Some s"
| "set_target_loop parent_idx lvl (Suc n) pd s = do {
     st \<leftarrow> aget pd lvl;
     s' \<leftarrow> set_non_cpu_pd_node_local_state parent_idx st s;
     p \<leftarrow> pd_parent s' parent_idx;
     set_target_loop p (Suc lvl) n pd s'
   }"

definition psci_set_target_local_pwr_states ::
  "nat \<Rightarrow> nat \<Rightarrow> psci_power_state \<Rightarrow> psci \<Rightarrow> psci option" where
  "psci_set_target_local_pwr_states me end_pwrlvl pd s = do {
     st \<leftarrow> aget pd PSCI_CPU_PWR_LVL;
     s \<leftarrow> psci_set_cpu_local_state me st s;
     parent_idx \<leftarrow> cpu_pd_parent s me;
     set_target_loop parent_idx 1 end_pwrlvl pd s
   }"

fun parent_nodes_loop :: "psci \<Rightarrow> u32 \<Rightarrow> nat \<Rightarrow> u32 list option" where
  "parent_nodes_loop s parent 0 = Some []"
| "parent_nodes_loop s parent (Suc n) = do {
     p \<leftarrow> pd_parent s parent;
     ns \<leftarrow> parent_nodes_loop s p n;
     Some (parent # ns)
   }"

definition psci_get_parent_pwr_domain_nodes :: "psci \<Rightarrow> nat \<Rightarrow> nat \<Rightarrow> u32 list option" where
  "psci_get_parent_pwr_domain_nodes s cpu_idx end_lvl = do {
     parent \<leftarrow> cpu_pd_parent s cpu_idx;
     parent_nodes_loop s parent end_lvl
   }"

fun set_domains_run_loop :: "nat \<Rightarrow> u32 \<Rightarrow> nat \<Rightarrow> nat \<Rightarrow> psci \<Rightarrow> psci option" where
  "set_domains_run_loop cpu_idx parent_idx lvl 0 s = Some s"
| "set_domains_run_loop cpu_idx parent_idx lvl (Suc n) s = do {
     s \<leftarrow> set_non_cpu_pd_node_local_state parent_idx PSCI_LOCAL_STATE_RUN s;
     s \<leftarrow> psci_set_req_local_pwr_state lvl cpu_idx PSCI_LOCAL_STATE_RUN s;
     p \<leftarrow> pd_parent s parent_idx;
     set_domains_run_loop cpu_idx p (Suc lvl) n s
   }"

definition psci_set_pwr_domains_to_run :: "nat \<Rightarrow> nat \<Rightarrow> psci \<Rightarrow> psci option" where
  "psci_set_pwr_domains_to_run me end_pwrlvl s = do {
     parent_idx \<leftarrow> cpu_pd_parent s me;
     s \<leftarrow> set_domains_run_loop me parent_idx 1 end_pwrlvl s;
     s \<leftarrow> psci_set_aff_info_state_by_idx me AFF_STATE_ON s;
     psci_set_cpu_local_state me PSCI_LOCAL_STATE_RUN s
   }"

text \<open>
  The default coordination of \<^verbatim>\<open>plat/common/plat_psci_common.c\<close>: the shallowest of
  the requested states.
\<close>

definition plat_get_target_pwr_state :: "plat \<Rightarrow> plat_local_state list \<Rightarrow> plat_local_state option" where
  "plat_get_target_pwr_state P states = do {
     _ \<leftarrow> assert (states \<noteq> []);
     Some (foldl (\<lambda>target temp. if temp < target then temp else target) (PLAT_MAX_OFF_STATE P) states)
   }"

text \<open>
  The two loops of \<open>psci_do_state_coordination\<close>: the first negotiates level by level
  and stops at RUN, returning the level at which it stands; the second records the request
  for the levels above and sets them to RUN.
\<close>

fun coord_rest_loop :: "nat \<Rightarrow> nat \<Rightarrow> nat \<Rightarrow> psci_power_state \<Rightarrow> psci \<Rightarrow> (psci_power_state \<times> psci) option" where
  "coord_rest_loop cpu_idx lvl 0 st s = Some (st, s)"
| "coord_rest_loop cpu_idx lvl (Suc n) st s = do {
     r \<leftarrow> aget st lvl;
     s \<leftarrow> psci_set_req_local_pwr_state lvl cpu_idx r s;
     st \<leftarrow> aset st lvl PSCI_LOCAL_STATE_RUN;
     coord_rest_loop cpu_idx (Suc lvl) n st s
   }"

fun coord_loop ::
  "plat \<Rightarrow> nat \<Rightarrow> u32 \<Rightarrow> nat \<Rightarrow> nat \<Rightarrow> psci_power_state \<Rightarrow> psci \<Rightarrow> (psci_power_state \<times> psci) option" where
  "coord_loop P cpu_idx parent_idx lvl 0 st s = Some (st, s)"
| "coord_loop P cpu_idx parent_idx lvl (Suc n) st s = do {
     r \<leftarrow> aget st lvl;
     s \<leftarrow> psci_set_req_local_pwr_state lvl cpu_idx r s;
     nd \<leftarrow> aget (psci_non_cpu_pd_nodes s) (unat parent_idx);
     req_states \<leftarrow> psci_get_req_local_pwr_states s lvl (unat (cpu_start_idx nd)) (unat (ncpus nd));
     target_state \<leftarrow> plat_get_target_pwr_state P req_states;
     st \<leftarrow> aset st lvl target_state;
     if is_local_state_run target_state then coord_rest_loop cpu_idx (Suc lvl) n st s
     else coord_loop P cpu_idx (parent_node nd) (Suc lvl) n st s
   }"

definition psci_do_state_coordination ::
  "plat \<Rightarrow> nat \<Rightarrow> nat \<Rightarrow> psci_power_state \<Rightarrow> psci \<Rightarrow> (psci_power_state \<times> psci) option" where
  "psci_do_state_coordination P me end_pwrlvl st s = do {
     _ \<leftarrow> assert (end_pwrlvl \<le> PLAT_MAX_PWR_LVL P);
     parent_idx \<leftarrow> cpu_pd_parent s me;
     (st, s) \<leftarrow> coord_loop P me parent_idx 1 end_pwrlvl st s;
     s \<leftarrow> psci_set_target_local_pwr_states me end_pwrlvl st s;
     Some (st, s)
   }"

fun find_lvl_down :: "(plat_local_state \<Rightarrow> bool) \<Rightarrow> psci_power_state \<Rightarrow> nat \<Rightarrow> nat option option" where
  "find_lvl_down Q st i = do {
     x \<leftarrow> aget st i;
     if Q x then Some (Some i)
     else case i of 0 \<Rightarrow> Some None | Suc j \<Rightarrow> find_lvl_down Q st j
   }"

declare find_lvl_down.simps [simp del]

definition psci_find_max_off_lvl :: "plat \<Rightarrow> psci_power_state \<Rightarrow> nat option" where
  "psci_find_max_off_lvl P st = do {
     r \<leftarrow> find_lvl_down (is_local_state_off P) st (PLAT_MAX_PWR_LVL P);
     Some (case r of Some i \<Rightarrow> i | None \<Rightarrow> PSCI_INVALID_PWR_LVL P)
   }"

definition psci_find_target_suspend_lvl :: "plat \<Rightarrow> psci_power_state \<Rightarrow> nat option" where
  "psci_find_target_suspend_lvl P st = do {
     r \<leftarrow> find_lvl_down (\<lambda>x. \<not> is_local_state_run x) st (PLAT_MAX_PWR_LVL P);
     Some (case r of Some i \<Rightarrow> i | None \<Rightarrow> PSCI_INVALID_PWR_LVL P)
   }"

text \<open>The monotonicity loop of \<open>psci_validate_suspend_req\<close>, from level \<open>i\<close> down.\<close>

fun validate_depth_loop :: "plat \<Rightarrow> psci_power_state \<Rightarrow> nat \<Rightarrow> nat \<Rightarrow> bool option" where
  "validate_depth_loop P st i deepest = do {
     x \<leftarrow> aget st i;
     let req = state_depth (find_local_state_type P x);
     if req < deepest then Some False
     else case i of 0 \<Rightarrow> Some True | Suc j \<Rightarrow> validate_depth_loop P st j req
   }"

declare validate_depth_loop.simps [simp del]

definition psci_validate_suspend_req :: "plat \<Rightarrow> psci_power_state \<Rightarrow> bool \<Rightarrow> int option" where
  "psci_validate_suspend_req P st is_power_down_state = do {
     target_lvl \<leftarrow> psci_find_target_suspend_lvl P st;
     if target_lvl = PSCI_INVALID_PWR_LVL P then Some PSCI_E_INVALID_PARAMS
     else do {
       ok \<leftarrow> validate_depth_loop P st target_lvl (state_depth STATE_TYPE_RUN);
       if \<not> ok then Some PSCI_E_INVALID_PARAMS
       else do {
         max_off_lvl \<leftarrow> psci_find_max_off_lvl P st;
         let max_retn_lvl = (if target_lvl \<noteq> max_off_lvl then target_lvl else PSCI_INVALID_PWR_LVL P);
         Some (if \<not> is_power_down_state \<and>
                 (max_off_lvl \<noteq> PSCI_INVALID_PWR_LVL P \<or> max_retn_lvl = PSCI_INVALID_PWR_LVL P)
               then PSCI_E_INVALID_PARAMS else PSCI_E_SUCCESS)
       }
     }
   }"

fun acquire_loop :: "u32 \<Rightarrow> nat \<Rightarrow> psci \<Rightarrow> psci option" where
  "acquire_loop parent_idx 0 s = Some s"
| "acquire_loop parent_idx (Suc n) s = do {
     nd \<leftarrow> aget (psci_non_cpu_pd_nodes s) (unat parent_idx);
     acquire_loop (parent_node nd) n (emit (Lock_get (unat (lock_index nd))) s)
   }"

definition psci_acquire_pwr_domain_locks :: "nat \<Rightarrow> nat \<Rightarrow> psci \<Rightarrow> psci option" where
  "psci_acquire_pwr_domain_locks end_pwrlvl cpu_idx s = do {
     parent_idx \<leftarrow> cpu_pd_parent s cpu_idx;
     acquire_loop parent_idx end_pwrlvl s
   }"

text \<open>The release loop; \<open>level\<close> counts down to 1 and indexes the array of parents.\<close>

fun release_loop :: "u32 list \<Rightarrow> nat \<Rightarrow> psci \<Rightarrow> psci option" where
  "release_loop parent_nodes 0 s = Some s"
| "release_loop parent_nodes (Suc l) s = do {
     parent_idx \<leftarrow> aget parent_nodes l;
     nd \<leftarrow> aget (psci_non_cpu_pd_nodes s) (unat parent_idx);
     release_loop parent_nodes l (emit (Lock_release (unat (lock_index nd))) s)
   }"

definition psci_release_pwr_domain_locks :: "nat \<Rightarrow> nat \<Rightarrow> psci \<Rightarrow> psci option" where
  "psci_release_pwr_domain_locks end_pwrlvl cpu_idx s = do {
     parent_nodes \<leftarrow> psci_get_parent_pwr_domain_nodes s cpu_idx end_pwrlvl;
     release_loop parent_nodes end_pwrlvl s
   }"

definition psci_validate_mpidr :: "plat \<Rightarrow> u64 \<Rightarrow> int" where
  "psci_validate_mpidr P mp =
     (if plat_core_pos_by_mpidr P mp < 0 then PSCI_E_INVALID_PARAMS else PSCI_E_SUCCESS)"

section \<open>Entry points\<close>

definition SCR_HCE_BIT :: u64 where "SCR_HCE_BIT = push_bit 8 1"
definition SCR_RW_BIT :: u64 where "SCR_RW_BIT = push_bit 10 1"
definition SCTLR_EE_BIT :: u64 where "SCTLR_EE_BIT = push_bit 25 1"
definition NON_SECURE :: u32 where "NON_SECURE = 1"
definition EP_EE_BIG :: u32 where "EP_EE_BIG = 2"
definition EP_ST_DISABLE :: u32 where "EP_ST_DISABLE = 0"

definition SPSR_64 :: "u32 \<Rightarrow> u32 \<Rightarrow> u32 \<Rightarrow> u32" where
  "SPSR_64 el sp daif =
     push_bit 4 0 OR push_bit 2 (el AND 3) OR push_bit 0 (sp AND 1) OR push_bit 6 (daif AND 0xf)"

definition SPSR_MODE32 :: "u32 \<Rightarrow> u32 \<Rightarrow> u32 \<Rightarrow> u32 \<Rightarrow> u32" where
  "SPSR_MODE32 mode isa endian aif =
     push_bit 4 1 OR push_bit 0 (mode AND 0xf) OR push_bit 5 (isa AND 1) OR
     push_bit 9 (endian AND 1) OR push_bit 6 (aif AND 7)"

definition psci_get_ns_ep_info :: "env \<Rightarrow> u64 \<Rightarrow> u64 \<Rightarrow> int \<times> entry_point_info" where
  "psci_get_ns_ep_info E entrypoint context_id =
     (let ns_scr_el3 = read_scr_el3 E;
          hce = ns_scr_el3 AND SCR_HCE_BIT \<noteq> 0;
          sctlr = (if hce then read_sctlr_el2 E else read_sctlr_el1 E);
          big = sctlr AND SCTLR_EE_BIT \<noteq> 0;
          ee = (if big then 1 else 0);
          attr = (NON_SECURE OR EP_ST_DISABLE) OR (if big then EP_EE_BIG else 0);
          ep = \<lparr>ep_attr = attr, pc = entrypoint, spsr = 0, arg0 = context_id\<rparr>
      in if ns_scr_el3 AND SCR_RW_BIT \<noteq> 0
         then (if entrypoint AND 1 \<noteq> 0 then (PSCI_E_INVALID_ADDRESS, ep)
               else (PSCI_E_SUCCESS, ep\<lparr>spsr := SPSR_64 (if hce then 2 else 1) 1 0xf\<rparr>))
         else (PSCI_E_SUCCESS,
               ep\<lparr>spsr := SPSR_MODE32 (if hce then 0xa else 0x3) (ucast entrypoint AND 1) ee 7\<rparr>))"

definition psci_validate_entry_point :: "plat \<Rightarrow> env \<Rightarrow> u64 \<Rightarrow> u64 \<Rightarrow> int \<times> entry_point_info" where
  "psci_validate_entry_point P E entrypoint context_id =
     (let (rc, ep) = psci_get_ns_ep_info E entrypoint context_id in
      case validate_ns_entrypoint P of
        None \<Rightarrow> (rc, ep)
      | Some hook \<Rightarrow> if hook entrypoint \<noteq> PSCI_E_SUCCESS then (PSCI_E_INVALID_ADDRESS, ep) else (rc, ep))"

definition define_psci_cap :: "u32 \<Rightarrow> u32" where
  "define_psci_cap x = push_bit (unat (x AND 0x1f)) 1"

definition psci_register_spd_pm_hook :: "spd_pm_ops \<Rightarrow> psci \<Rightarrow> psci" where
  "psci_register_spd_pm_hook pm s =
     (let s = s\<lparr>psci_spd_pm := Some pm\<rparr>;
          s = (if svc_migrate pm then s\<lparr>psci_caps := psci_caps s OR define_psci_cap 0xc4000005\<rparr> else s)
      in if svc_migrate_info pm
         then s\<lparr>psci_caps := psci_caps s OR (define_psci_cap 0xc4000007 OR define_psci_cap 0x84000006)\<rparr>
         else s)"

text \<open>A hook of the dispatcher is called when one is registered and has it set.\<close>

definition spd_has :: "(spd_pm_ops \<Rightarrow> bool) \<Rightarrow> psci \<Rightarrow> bool" where
  "spd_has f s = (case psci_spd_pm s of None \<Rightarrow> False | Some pm \<Rightarrow> f pm)"

definition psci_spd_migrate_info :: "env \<Rightarrow> psci \<Rightarrow> (int \<times> u64) option" where
  "psci_spd_migrate_info E s =
     (if \<not> spd_has svc_migrate_info s then Some (PSCI_E_NOT_SUPPORTED, 0)
      else do {
        let (rc, mp) = svc_migrate_info_rc E;
        _ \<leftarrow> assert (rc = 0 \<or> rc = 1 \<or> rc = 2 \<or> rc = PSCI_E_NOT_SUPPORTED);
        Some (rc, mp)
      })"

definition psci_secondaries_brought_up :: "psci \<Rightarrow> bool option" where
  "psci_secondaries_brought_up s = do {
     let n_valid = length (filter (\<lambda>nd. mpidr nd \<noteq> PSCI_INVALID_MPIDR) (psci_cpu_pd_nodes s));
     _ \<leftarrow> assert (n_valid \<noteq> 0);
     Some (n_valid > 1)
   }"

end
