(* ===== verification/Psci_ops.thy ===== *)
theory Psci_ops
  imports Psci
begin

unbundle bit_operations_syntax

text \<open>
  The operations of the PSCI service: statistics (\<^verbatim>\<open>psci_stat.c\<close>), CPU_ON
  (\<^verbatim>\<open>psci_on.c\<close>), CPU_OFF (\<^verbatim>\<open>psci_off.c\<close>), CPU_SUSPEND
  (\<^verbatim>\<open>psci_suspend.c\<close>), the warm boot entry of \<^verbatim>\<open>psci_common.c\<close>, system off
  and reset, memory protection, setup (\<^verbatim>\<open>psci_setup.c\<close>) and the SMC handler with
  the front end calls of \<^verbatim>\<open>psci_main.c\<close>. An operation that ends in a power down
  does not return to its caller; its outcome then says where the CPU has gone. The build
  options are those of the record \<open>plat\<close>, with \<open>WARMBOOT_ENABLE_DCACHE_EARLY\<close>
  and the run-time instrumentation off.
\<close>

datatype 'a outcome =
    Returns 'a
  | In_standby nat
  | Cpu_down
  | System_down

section \<open>Statistics\<close>

definition get_stat_idx :: "plat \<Rightarrow> plat_local_state \<Rightarrow> nat \<Rightarrow> nat option" where
  "get_stat_idx P st pwr_lvl =
     (case get_pwr_lvl_state_idx P of
        None \<Rightarrow> do {
          _ \<leftarrow> assert (PLAT_MAX_PWR_LVL_STATES P = 2);
          if is_local_state_retn P st then Some 0
          else do { _ \<leftarrow> assert (is_local_state_off P st); Some 1 }
        }
      | Some hook \<Rightarrow> do {
          let idx = hook st pwr_lvl;
          _ \<leftarrow> assert (idx \<ge> 0 \<and> idx < int (PLAT_MAX_PWR_LVL_STATES P));
          Some (nat idx)
        })"

fun stats_down_loop :: "nat \<Rightarrow> u32 \<Rightarrow> nat \<Rightarrow> nat \<Rightarrow> psci_power_state \<Rightarrow> psci \<Rightarrow> psci option" where
  "stats_down_loop cpu_idx parent_idx lvl 0 st s = Some s"
| "stats_down_loop cpu_idx parent_idx lvl (Suc n) st s = do {
     x \<leftarrow> aget st lvl;
     if is_local_state_run x then Some s
     else do {
       l \<leftarrow> aset (last_cpu_in_non_cpu_pd s) (unat parent_idx) (int cpu_idx);
       p \<leftarrow> pd_parent s parent_idx;
       stats_down_loop cpu_idx p (Suc lvl) n st (s\<lparr>last_cpu_in_non_cpu_pd := l\<rparr>)
     }
   }"

definition psci_stats_update_pwr_down ::
  "plat \<Rightarrow> nat \<Rightarrow> nat \<Rightarrow> psci_power_state \<Rightarrow> psci \<Rightarrow> psci option" where
  "psci_stats_update_pwr_down P me end_pwrlvl st s = do {
     _ \<leftarrow> assert (end_pwrlvl \<le> PLAT_MAX_PWR_LVL P);
     parent_idx \<leftarrow> cpu_pd_parent s me;
     stats_down_loop me parent_idx 1 end_pwrlvl st s
   }"

text \<open>Adding one stay to an entry of a statistics array.\<close>

definition bump_stat :: "psci_stat list list \<Rightarrow> nat \<Rightarrow> nat \<Rightarrow> u64 \<Rightarrow> psci_stat list list option" where
  "bump_stat stats i j res = do {
     row \<leftarrow> aget stats i;
     x \<leftarrow> aget row j;
     row' \<leftarrow> aset row j (x\<lparr>residency := residency x + res, count := count x + 1\<rparr>);
     aset stats i row'
   }"

fun stats_up_loop ::
  "plat \<Rightarrow> env \<Rightarrow> u32 \<Rightarrow> nat \<Rightarrow> nat \<Rightarrow> psci_power_state \<Rightarrow> psci \<Rightarrow> psci option" where
  "stats_up_loop P E parent_idx lvl 0 st s = Some s"
| "stats_up_loop P E parent_idx lvl (Suc n) st s = do {
     x \<leftarrow> aget st lvl;
     if is_local_state_run x then Some s
     else do {
       last \<leftarrow> aget (last_cpu_in_non_cpu_pd s) (unat parent_idx);
       _ \<leftarrow> assert (last \<noteq> - 1);
       let res = plat_psci_stat_get_residency E lvl st last;
       l \<leftarrow> aset (last_cpu_in_non_cpu_pd s) (unat parent_idx) (- 1);
       stat_idx \<leftarrow> get_stat_idx P x lvl;
       stats \<leftarrow> bump_stat (psci_non_cpu_stat s) (unat parent_idx) stat_idx res;
       p \<leftarrow> pd_parent s parent_idx;
       stats_up_loop P E p (Suc lvl) n st
         (s\<lparr>last_cpu_in_non_cpu_pd := l, psci_non_cpu_stat := stats\<rparr>)
     }
   }"

definition psci_stats_update_pwr_up ::
  "plat \<Rightarrow> env \<Rightarrow> nat \<Rightarrow> nat \<Rightarrow> psci_power_state \<Rightarrow> psci \<Rightarrow> psci option" where
  "psci_stats_update_pwr_up P E me end_pwrlvl st s = do {
     _ \<leftarrow> assert (end_pwrlvl \<le> PLAT_MAX_PWR_LVL P);
     x \<leftarrow> aget st PSCI_CPU_PWR_LVL;
     stat_idx \<leftarrow> get_stat_idx P x PSCI_CPU_PWR_LVL;
     let res = plat_psci_stat_get_residency E PSCI_CPU_PWR_LVL st (int me);
     stats \<leftarrow> bump_stat (psci_cpu_stat s) me stat_idx res;
     let s = s\<lparr>psci_cpu_stat := stats\<rparr>;
     parent_idx \<leftarrow> cpu_pd_parent s me;
     last \<leftarrow> aget (last_cpu_in_non_cpu_pd s) (unat parent_idx);
     if last = - 1 then Some s
     else stats_up_loop P E parent_idx 1 end_pwrlvl st s
   }"

text \<open>The walk to the node at a level above the first.\<close>

fun walk_up :: "psci \<Rightarrow> u32 \<Rightarrow> nat \<Rightarrow> u32 option" where
  "walk_up s parent_idx 0 = Some parent_idx"
| "walk_up s parent_idx (Suc n) = do { p \<leftarrow> pd_parent s parent_idx; walk_up s p n }"

definition psci_get_stat :: "plat \<Rightarrow> u64 \<Rightarrow> u32 \<Rightarrow> psci \<Rightarrow> (int \<times> psci_stat option) option" where
  "psci_get_stat P target_cpu power_state s = do {
     let target_idx = plat_core_pos_by_mpidr P target_cpu;
     if target_idx = - 1 then Some (PSCI_E_INVALID_PARAMS, None)
     else do {
       let st0 = replicate (PLAT_MAX_PWR_LVL P + 1) PSCI_LOCAL_STATE_RUN;
       (rc, st) \<leftarrow> (case translate_power_state_by_mpidr P of
          None \<Rightarrow> psci_validate_power_state P power_state st0
        | Some hook \<Rightarrow> Some (hook target_cpu power_state st0));
       if rc \<noteq> PSCI_E_SUCCESS then Some (PSCI_E_INVALID_PARAMS, None)
       else do {
         pwrlvl \<leftarrow> psci_find_target_suspend_lvl P st;
         if pwrlvl = PSCI_INVALID_PWR_LVL P then None
         else do {
           x \<leftarrow> aget st pwrlvl;
           stat_idx \<leftarrow> get_stat_idx P x pwrlvl;
           row \<leftarrow> (if pwrlvl > PSCI_CPU_PWR_LVL then do {
             parent_idx \<leftarrow> cpu_pd_parent s (nat target_idx);
             p \<leftarrow> walk_up s parent_idx (pwrlvl - 1);
             aget (psci_non_cpu_stat s) (unat p)
           }
           else aget (psci_cpu_stat s) (nat target_idx));
           r \<leftarrow> aget row stat_idx;
           Some (PSCI_E_SUCCESS, Some r)
         }
       }
     }
   }"

definition psci_stat_residency :: "plat \<Rightarrow> u64 \<Rightarrow> u32 \<Rightarrow> psci \<Rightarrow> u64 option" where
  "psci_stat_residency P target_cpu power_state s = do {
     (rc, r) \<leftarrow> psci_get_stat P target_cpu power_state s;
     Some (if rc = PSCI_E_SUCCESS then (case r of Some x \<Rightarrow> residency x | None \<Rightarrow> 0) else 0)
   }"

definition psci_stat_count :: "plat \<Rightarrow> u64 \<Rightarrow> u32 \<Rightarrow> psci \<Rightarrow> u64 option" where
  "psci_stat_count P target_cpu power_state s = do {
     (rc, r) \<leftarrow> psci_get_stat P target_cpu power_state s;
     Some (if rc = PSCI_E_SUCCESS then (case r of Some x \<Rightarrow> count x | None \<Rightarrow> 0) else 0)
   }"

section \<open>CPU_ON\<close>

definition cpu_on_validate_state :: "aff_info_state \<Rightarrow> int" where
  "cpu_on_validate_state a =
     (if a = AFF_STATE_ON then PSCI_E_ALREADY_ON
      else if a = AFF_STATE_ON_PENDING then PSCI_E_ON_PENDING
      else PSCI_E_SUCCESS)"

definition psci_cpu_on_start ::
  "plat \<Rightarrow> env \<Rightarrow> u64 \<Rightarrow> entry_point_info \<Rightarrow> psci \<Rightarrow> (int \<times> psci) option" where
  "psci_cpu_on_start P E target_cpu ep s = do {
     let pos = plat_core_pos_by_mpidr P target_cpu;
     _ \<leftarrow> assert (pos \<ge> 0);
     let target_idx = nat pos;
     _ \<leftarrow> assert (has_pwr_domain_on P \<and> pwr_domain_on_finish P);
     let s = emit (Spin_lock_cpu target_idx) s;
     a \<leftarrow> psci_get_aff_info_state_by_idx s target_idx;
     let rc = cpu_on_validate_state a;
     if rc \<noteq> PSCI_E_SUCCESS then Some (rc, emit (Spin_unlock_cpu target_idx) s)
     else do {
       let s = (if spd_has svc_on s then emit (Call_svc_on target_cpu) s else s);
       s \<leftarrow> psci_set_aff_info_state_by_idx target_idx AFF_STATE_ON_PENDING s;
       target_aff_state \<leftarrow> psci_get_aff_info_state_by_idx s target_idx;
       s \<leftarrow> (if target_aff_state \<noteq> AFF_STATE_ON_PENDING then do {
         _ \<leftarrow> assert (target_aff_state = AFF_STATE_OFF);
         s \<leftarrow> psci_set_aff_info_state_by_idx target_idx AFF_STATE_ON_PENDING s;
         a \<leftarrow> psci_get_aff_info_state_by_idx s target_idx;
         _ \<leftarrow> assert (a = AFF_STATE_ON_PENDING);
         Some s
       }
       else Some s);
       let rc = pwr_domain_on E target_cpu;
       let s = emit (Call_pwr_domain_on target_cpu) s;
       _ \<leftarrow> assert (rc = PSCI_E_SUCCESS \<or> rc = PSCI_E_INTERN_FAIL);
       s \<leftarrow> (if rc = PSCI_E_SUCCESS then Some (emit (Cm_init_context target_idx ep) s)
             else psci_set_aff_info_state_by_idx target_idx AFF_STATE_OFF s);
       Some (rc, emit (Spin_unlock_cpu target_idx) s)
     }
   }"

definition MPIDR_AFFINITY_MASK :: u64 where "MPIDR_AFFINITY_MASK = 0xff00ffffff"

definition set_cpu_mpidr :: "env \<Rightarrow> nat \<Rightarrow> psci \<Rightarrow> psci option" where
  "set_cpu_mpidr E cpu_idx s = do {
     nd \<leftarrow> aget (psci_cpu_pd_nodes s) cpu_idx;
     Some (s\<lparr>psci_cpu_pd_nodes :=
       (psci_cpu_pd_nodes s)[cpu_idx := nd\<lparr>mpidr := read_mpidr E AND MPIDR_AFFINITY_MASK\<rparr>]\<rparr>)
   }"

definition psci_cpu_on_finish :: "plat \<Rightarrow> env \<Rightarrow> nat \<Rightarrow> psci_power_state \<Rightarrow> psci \<Rightarrow> psci option" where
  "psci_cpu_on_finish P E cpu_idx st s = do {
     let s = emit (Call_pwr_domain_on_finish st) s;
     let s = (if HW_ASSISTED_COHERENCY P then s else emit Pwrup_cache_maintenance s);
     let s = emit Psci_arch_setup s;
     let s = emit (Spin_lock_cpu cpu_idx) s;
     let s = emit (Spin_unlock_cpu cpu_idx) s;
     a \<leftarrow> psci_get_aff_info_state_by_idx s cpu_idx;
     _ \<leftarrow> assert (a = AFF_STATE_ON_PENDING);
     let s = (if spd_has svc_on_finish s then emit Call_svc_on_finish s else s);
     let s = emit (Publish ''psci_cpu_on_finish'') s;
     s \<leftarrow> set_cpu_mpidr E cpu_idx s;
     Some (emit Cm_prepare_el3_exit s)
   }"

section \<open>CPU_OFF\<close>

definition psci_set_power_off_state :: "plat \<Rightarrow> psci_power_state" where
  "psci_set_power_off_state P = replicate (PLAT_MAX_PWR_LVL P + 1) (PLAT_MAX_OFF_STATE P)"

definition psci_do_pwrdown_sequence :: "nat \<Rightarrow> psci \<Rightarrow> psci" where
  "psci_do_pwrdown_sequence power_level s = emit (Pwrdown_sequence power_level) s"

text \<open>The final wait of a power down: the platform's own, or the generic loop.\<close>

definition pwr_down_wfi :: "plat \<Rightarrow> psci_power_state \<Rightarrow> psci \<Rightarrow> psci option" where
  "pwr_down_wfi P st s =
     (case pwr_domain_pwr_down_wfi P of
        None \<Rightarrow> Some (emit Psci_power_down_wfi s)
      | Some hook \<Rightarrow> do { _ \<leftarrow> hook st; Some (emit (Call_pwr_domain_pwr_down_wfi st) s) })"

text \<open>The part of \<open>psci_do_cpu_off\<close> between coordination and the label \<open>exit\<close>.\<close>

definition cpu_off_commit :: "plat \<Rightarrow> nat \<Rightarrow> nat \<Rightarrow> psci_power_state \<Rightarrow> psci \<Rightarrow> (psci_power_state \<times> psci) option" where
  "cpu_off_commit P me end_pwrlvl st s = do {
     (st, s) \<leftarrow> psci_do_state_coordination P me end_pwrlvl st s;
     s \<leftarrow> (if ENABLE_PSCI_STAT P then psci_stats_update_pwr_down P me end_pwrlvl st s else Some s);
     max_off_lvl \<leftarrow> psci_find_max_off_lvl P st;
     let s = psci_do_pwrdown_sequence max_off_lvl s;
     let s = emit (Call_pwr_domain_off st) s;
     Some (st, if ENABLE_PSCI_STAT P then emit Stat_accounting_start s else s)
   }"

definition psci_do_cpu_off :: "plat \<Rightarrow> env \<Rightarrow> nat \<Rightarrow> nat \<Rightarrow> psci \<Rightarrow> (int outcome \<times> psci) option" where
  "psci_do_cpu_off P E me end_pwrlvl s = do {
     _ \<leftarrow> assert (pwr_domain_off P);
     let st = psci_set_power_off_state P;
     s \<leftarrow> psci_acquire_pwr_domain_locks end_pwrlvl me s;
     let rc = (if spd_has svc_off s then svc_off_rc E else PSCI_E_SUCCESS);
     let s = (if spd_has svc_off s then emit Call_svc_off s else s);
     if rc \<noteq> PSCI_E_SUCCESS then do {
       s \<leftarrow> psci_release_pwr_domain_locks end_pwrlvl me s;
       Some (Returns rc, s)
     }
     else do {
       (st, s) \<leftarrow> cpu_off_commit P me end_pwrlvl st s;
       s \<leftarrow> psci_release_pwr_domain_locks end_pwrlvl me s;
       s \<leftarrow> psci_set_aff_info_state_by_idx me AFF_STATE_OFF s;
       s \<leftarrow> pwr_down_wfi P st s;
       Some (Cpu_down, s)
     }
   }"

section \<open>CPU_SUSPEND\<close>

definition psci_suspend_to_standby_finisher ::
  "plat \<Rightarrow> env \<Rightarrow> nat \<Rightarrow> nat \<Rightarrow> psci \<Rightarrow> psci option" where
  "psci_suspend_to_standby_finisher P E cpu_idx end_pwrlvl s = do {
     s \<leftarrow> psci_acquire_pwr_domain_locks end_pwrlvl cpu_idx s;
     st \<leftarrow> psci_get_target_local_pwr_states P cpu_idx end_pwrlvl
             (replicate (PLAT_MAX_PWR_LVL P + 1) PSCI_LOCAL_STATE_RUN) s;
     s \<leftarrow> (if ENABLE_PSCI_STAT P
           then psci_stats_update_pwr_up P E cpu_idx end_pwrlvl st (emit Stat_accounting_stop s)
           else Some s);
     let s = emit (Call_pwr_domain_suspend_finish st) s;
     s \<leftarrow> psci_set_pwr_domains_to_run cpu_idx end_pwrlvl s;
     psci_release_pwr_domain_locks end_pwrlvl cpu_idx s
   }"

definition psci_suspend_to_pwrdown_start ::
  "plat \<Rightarrow> nat \<Rightarrow> nat \<Rightarrow> entry_point_info \<Rightarrow> psci_power_state \<Rightarrow> psci \<Rightarrow> psci option" where
  "psci_suspend_to_pwrdown_start P me end_pwrlvl ep st s = do {
     max_off_lvl \<leftarrow> psci_find_max_off_lvl P st;
     let s = emit (Publish ''psci_suspend_pwrdown_start'') s;
     s \<leftarrow> psci_set_suspend_pwrlvl me end_pwrlvl s;
     let s = (if spd_has svc_suspend s then emit (Call_svc_suspend max_off_lvl) s else s);
     let s = (if \<not> HW_ASSISTED_COHERENCY P \<and> pwr_domain_suspend_pwrdown_early P
              then emit (Call_pwr_domain_suspend_pwrdown_early st) s else s);
     let s = emit (Cm_init_context me ep) s;
     Some (psci_do_pwrdown_sequence max_off_lvl s)
   }"

text \<open>The part of \<open>psci_cpu_suspend_start\<close> between the interrupt check and \<open>exit\<close>.\<close>

definition cpu_suspend_commit ::
  "plat \<Rightarrow> nat \<Rightarrow> entry_point_info \<Rightarrow> nat \<Rightarrow> psci_power_state \<Rightarrow> bool \<Rightarrow> psci \<Rightarrow>
   (psci_power_state \<times> psci) option" where
  "cpu_suspend_commit P me ep end_pwrlvl st is_power_down_state s = do {
     (st, s) \<leftarrow> psci_do_state_coordination P me end_pwrlvl st s;
     s \<leftarrow> (if ENABLE_PSCI_STAT P then psci_stats_update_pwr_down P me end_pwrlvl st s else Some s);
     s \<leftarrow> (if is_power_down_state then psci_suspend_to_pwrdown_start P me end_pwrlvl ep st s else Some s);
     let s = emit (Call_pwr_domain_suspend st) s;
     Some (st, if ENABLE_PSCI_STAT P then emit Stat_accounting_start s else s)
   }"

text \<open>
  Up to the \<open>wfi\<close>. When it ends in standby the CPU waits with its context; the rest of
  the function is \<open>psci_suspend_to_standby_finisher\<close>, which runs when the CPU wakes and
  other CPUs may have run meanwhile.
\<close>

definition psci_cpu_suspend_start ::
  "plat \<Rightarrow> env \<Rightarrow> nat \<Rightarrow> entry_point_info \<Rightarrow> nat \<Rightarrow> psci_power_state \<Rightarrow> bool \<Rightarrow> psci \<Rightarrow>
   (unit outcome \<times> psci) option" where
  "psci_cpu_suspend_start P E me ep end_pwrlvl st is_power_down_state s = do {
     _ \<leftarrow> assert (pwr_domain_suspend P \<and> pwr_domain_suspend_finish P);
     s \<leftarrow> psci_acquire_pwr_domain_locks end_pwrlvl me s;
     if read_isr_el1 E \<noteq> 0 then do {
       s \<leftarrow> psci_release_pwr_domain_locks end_pwrlvl me s;
       Some (Returns (), s)
     }
     else do {
       (st, s) \<leftarrow> cpu_suspend_commit P me ep end_pwrlvl st is_power_down_state s;
       s \<leftarrow> psci_release_pwr_domain_locks end_pwrlvl me s;
       if is_power_down_state then do { s \<leftarrow> pwr_down_wfi P st s; Some (Cpu_down, s) }
       else Some (In_standby end_pwrlvl, emit Wfi s)
     }
   }"

definition psci_cpu_suspend_finish :: "plat \<Rightarrow> nat \<Rightarrow> psci_power_state \<Rightarrow> psci \<Rightarrow> psci option" where
  "psci_cpu_suspend_finish P cpu_idx st s = do {
     a \<leftarrow> psci_get_aff_info_state_by_idx s cpu_idx;
     x \<leftarrow> aget st PSCI_CPU_PWR_LVL;
     _ \<leftarrow> assert (a = AFF_STATE_ON \<and> is_local_state_off P x);
     let s = emit (Call_pwr_domain_suspend_finish st) s;
     let s = (if HW_ASSISTED_COHERENCY P then s else emit Pwrup_cache_maintenance s);
     let s = emit Write_cntfrq s;
     s \<leftarrow> (if spd_has svc_suspend_finish s then do {
       max_off_lvl \<leftarrow> psci_find_max_off_lvl P st;
       _ \<leftarrow> assert (max_off_lvl \<noteq> PSCI_INVALID_PWR_LVL P);
       Some (emit (Call_svc_suspend_finish max_off_lvl) s)
     }
     else Some s);
     s \<leftarrow> psci_set_suspend_pwrlvl cpu_idx (PSCI_INVALID_PWR_LVL P) s;
     let s = emit (Publish ''psci_suspend_pwrdown_finish'') s;
     Some (emit Cm_prepare_el3_exit s)
   }"

section \<open>Warm boot\<close>

definition psci_warmboot_entrypoint :: "plat \<Rightarrow> env \<Rightarrow> nat \<Rightarrow> psci \<Rightarrow> psci option" where
  "psci_warmboot_entrypoint P E me s = do {
     a \<leftarrow> psci_get_aff_info_state_by_idx s me;
     if a = AFF_STATE_OFF then None
     else do {
       end_pwrlvl \<leftarrow> get_power_on_target_pwrlvl P me s;
       s \<leftarrow> psci_acquire_pwr_domain_locks end_pwrlvl me s;
       st \<leftarrow> psci_get_target_local_pwr_states P me end_pwrlvl
               (replicate (PLAT_MAX_PWR_LVL P + 1) PSCI_LOCAL_STATE_RUN) s;
       let s = (if ENABLE_PSCI_STAT P then emit Stat_accounting_stop s else s);
       a \<leftarrow> psci_get_aff_info_state_by_idx s me;
       s \<leftarrow> (if a = AFF_STATE_ON_PENDING then psci_cpu_on_finish P E me st s
             else psci_cpu_suspend_finish P me st s);
       s \<leftarrow> psci_set_pwr_domains_to_run me end_pwrlvl s;
       s \<leftarrow> (if ENABLE_PSCI_STAT P then psci_stats_update_pwr_up P E me end_pwrlvl st s else Some s);
       psci_release_pwr_domain_locks end_pwrlvl me s
     }
   }"

section \<open>System off, reset and memory protection\<close>

definition psci_system_off :: "plat \<Rightarrow> psci \<Rightarrow> psci option" where
  "psci_system_off P s = do {
     hook \<leftarrow> system_off P;
     let s = (if spd_has svc_system_off s then emit Call_svc_system_off s else s);
     let s = emit Console_flush s;
     _ \<leftarrow> hook;
     Some (emit Call_system_off s)
   }"

definition psci_system_reset :: "plat \<Rightarrow> psci \<Rightarrow> psci option" where
  "psci_system_reset P s = do {
     _ \<leftarrow> assert (system_reset P);
     let s = (if spd_has svc_system_reset s then emit Call_svc_system_reset s else s);
     Some (emit Call_system_reset (emit Console_flush s))
   }"

definition psci_system_reset2 :: "plat \<Rightarrow> env \<Rightarrow> u32 \<Rightarrow> u64 \<Rightarrow> psci \<Rightarrow> (int \<times> psci) option" where
  "psci_system_reset2 P E reset_type cookie s = do {
     _ \<leftarrow> assert (has_system_reset2 P);
     let is_vendor = bit reset_type 31;
     if \<not> is_vendor \<and> reset_type \<noteq> 0 then Some (PSCI_E_INVALID_PARAMS, s)
     else do {
       let wmp = \<not> is_vendor \<and> has_write_mem_protect P;
       let s = (if wmp then emit (Call_write_mem_protect 0) s else s);
       if wmp \<and> write_mem_protect E 0 < 0 then Some (PSCI_E_NOT_SUPPORTED, s)
       else do {
         let s = (if spd_has svc_system_reset s then emit Call_svc_system_reset s else s);
         let s = emit (Call_system_reset2 is_vendor reset_type cookie) (emit Console_flush s);
         Some (system_reset2 E is_vendor reset_type cookie, s)
       }
     }
   }"

definition psci_mem_protect :: "plat \<Rightarrow> env \<Rightarrow> u32 \<Rightarrow> psci \<Rightarrow> (int \<times> psci) option" where
  "psci_mem_protect P E enable s = do {
     _ \<leftarrow> assert (has_read_mem_protect P \<and> has_write_mem_protect P);
     let (rc, val) = read_mem_protect E;
     if rc < 0 then Some (PSCI_E_NOT_SUPPORTED, s)
     else do {
       let s = emit (Call_write_mem_protect enable) s;
       if write_mem_protect E enable < 0 then Some (PSCI_E_NOT_SUPPORTED, s)
       else Some (if val \<noteq> 0 then 1 else 0, s)
     }
   }"

definition check_uptr_overflow :: "u64 \<Rightarrow> u64 \<Rightarrow> bool" where
  "check_uptr_overflow ptr inc \<longleftrightarrow> ptr > (-1) - inc"

definition psci_mem_chk_range :: "plat \<Rightarrow> env \<Rightarrow> u64 \<Rightarrow> u64 \<Rightarrow> int option" where
  "psci_mem_chk_range P E base len = do {
     _ \<leftarrow> assert (has_mem_protect_chk P);
     if len = 0 \<or> check_uptr_overflow base (len - 1) then Some PSCI_E_DENIED
     else Some (if mem_protect_chk E base len < 0 then PSCI_E_DENIED else PSCI_E_SUCCESS)
   }"

end
