(* ===== verification/Psci_main.thy ===== *)
theory Psci_main
  imports Psci_ops
begin

unbundle bit_operations_syntax

text \<open>
  Setup of the PSCI service (\<^verbatim>\<open>lib/psci/psci_setup.c\<close>) and its front end, the calls
  and the SMC handler of \<^verbatim>\<open>lib/psci/psci_main.c\<close>.
\<close>

section \<open>Setup\<close>

definition psci_init_pwr_domain_node :: "plat \<Rightarrow> nat \<Rightarrow> u32 \<Rightarrow> nat \<Rightarrow> psci \<Rightarrow> psci option" where
  "psci_init_pwr_domain_node P node_idx parent_idx lvl s =
     (if lvl > PSCI_CPU_PWR_LVL
      then do {
        nd \<leftarrow> aget (psci_non_cpu_pd_nodes s) node_idx;
        Some (s\<lparr>psci_non_cpu_pd_nodes := (psci_non_cpu_pd_nodes s)[node_idx :=
          nd\<lparr>level := of_nat lvl, lock_index := of_nat node_idx, parent_node := parent_idx,
             node_state := PLAT_MAX_OFF_STATE P\<rparr>]\<rparr>)
      }
      else do {
        nd \<leftarrow> aget (psci_cpu_pd_nodes s) node_idx;
        let s = s\<lparr>psci_cpu_pd_nodes := (psci_cpu_pd_nodes s)[node_idx :=
          nd\<lparr>cpu_parent := parent_idx, mpidr := PSCI_INVALID_MPIDR\<rparr>]\<rparr>;
        upd_cpu_data node_idx (\<lambda>d. d\<lparr>aff_info_state := AFF_STATE_OFF,
          target_pwrlvl := PSCI_INVALID_PWR_LVL P, local_state := PLAT_MAX_OFF_STATE P\<rparr>) s
      })"

text \<open>One CPU of \<open>psci_update_pwrlvl_limits\<close>: its ancestors from the highest index down.\<close>

fun limits_inner :: "nat \<Rightarrow> u32 list \<Rightarrow> nat \<Rightarrow> u32 list \<Rightarrow> psci \<Rightarrow> (u32 list \<times> psci) option" where
  "limits_inner cpu_idx temp_index 0 nodes_idx s = Some (nodes_idx, s)"
| "limits_inner cpu_idx temp_index (Suc j) nodes_idx s = do {
     t \<leftarrow> aget temp_index j;
     x \<leftarrow> aget nodes_idx j;
     nd \<leftarrow> aget (psci_non_cpu_pd_nodes s) (unat t);
     let nd = (if t \<noteq> x then nd\<lparr>cpu_start_idx := of_nat cpu_idx\<rparr> else nd);
     let nd = nd\<lparr>ncpus := ncpus nd + 1\<rparr>;
     limits_inner cpu_idx temp_index j (nodes_idx[j := t])
       (s\<lparr>psci_non_cpu_pd_nodes := (psci_non_cpu_pd_nodes s)[unat t := nd]\<rparr>)
   }"

fun limits_outer :: "plat \<Rightarrow> nat \<Rightarrow> nat \<Rightarrow> u32 list \<Rightarrow> psci \<Rightarrow> psci option" where
  "limits_outer P cpu_idx 0 nodes_idx s = Some s"
| "limits_outer P cpu_idx (Suc n) nodes_idx s = do {
     temp_index \<leftarrow> psci_get_parent_pwr_domain_nodes s cpu_idx (PLAT_MAX_PWR_LVL P);
     (nodes_idx, s) \<leftarrow> limits_inner cpu_idx temp_index (PLAT_MAX_PWR_LVL P) nodes_idx s;
     limits_outer P (Suc cpu_idx) n nodes_idx s
   }"

definition psci_update_pwrlvl_limits :: "plat \<Rightarrow> psci \<Rightarrow> psci option" where
  "psci_update_pwrlvl_limits P s =
     limits_outer P 0 (PLATFORM_CORE_COUNT P) (replicate (PLAT_MAX_PWR_LVL P) 0) s"

text \<open>The loops of \<open>populate_power_domain_tree\<close>, from the inside out.\<close>

fun populate_children :: "plat \<Rightarrow> nat \<Rightarrow> nat \<Rightarrow> u32 \<Rightarrow> nat \<Rightarrow> psci \<Rightarrow> psci option" where
  "populate_children P j 0 parent_idx lvl s = Some s"
| "populate_children P j (Suc n) parent_idx lvl s = do {
     s \<leftarrow> psci_init_pwr_domain_node P j parent_idx lvl s;
     populate_children P (Suc j) n parent_idx lvl s
   }"

text \<open>
  The nodes of one level: the number left, then \<open>j\<close>, \<open>node_index\<close>,
  \<open>parent_node_index\<close> and \<open>num_nodes_at_next_lvl\<close>.
\<close>

fun populate_level ::
  "plat \<Rightarrow> u8 list \<Rightarrow> nat \<Rightarrow> nat \<Rightarrow> nat \<Rightarrow> nat \<Rightarrow> nat \<Rightarrow> nat \<Rightarrow> psci \<Rightarrow>
   (nat \<times> nat \<times> nat \<times> nat \<times> psci) option" where
  "populate_level P topology lvl 0 j node_index parent_node_index next s =
     Some (j, node_index, parent_node_index, next, s)"
| "populate_level P topology lvl (Suc n) j node_index parent_node_index next s = do {
     _ \<leftarrow> assert (parent_node_index \<le> PSCI_NUM_NON_CPU_PWR_DOMAINS P);
     t \<leftarrow> aget topology parent_node_index;
     let num_children = unat t;
     s \<leftarrow> populate_children P node_index num_children (of_nat parent_node_index - 1) lvl s;
     let j = node_index + num_children;
     populate_level P topology lvl n j j (Suc parent_node_index) (next + num_children) s
   }"

fun populate_levels ::
  "plat \<Rightarrow> u8 list \<Rightarrow> nat \<Rightarrow> nat \<Rightarrow> nat \<Rightarrow> nat \<Rightarrow> nat \<Rightarrow> psci \<Rightarrow> (nat \<times> psci) option" where
  "populate_levels P topology lvl num_nodes j node_index parent_node_index s = do {
     (j, node_index, parent_node_index, next, s) \<leftarrow>
       populate_level P topology lvl num_nodes j node_index parent_node_index 0 s;
     case lvl of
       0 \<Rightarrow> Some (j, s)
     | Suc l \<Rightarrow> populate_levels P topology l next j (if l = PSCI_CPU_PWR_LVL then 0 else node_index)
                  parent_node_index s
   }"

declare populate_levels.simps [simp del]

definition populate_power_domain_tree :: "plat \<Rightarrow> u8 list \<Rightarrow> psci \<Rightarrow> psci option" where
  "populate_power_domain_tree P topology s = do {
     (j, s) \<leftarrow> populate_levels P topology (PLAT_MAX_PWR_LVL P) 1 0 0 0 s;
     _ \<leftarrow> assert (j = PLATFORM_CORE_COUNT P);
     Some s
   }"

section \<open>Function identifiers and capabilities\<close>

definition PSCI_VERSION :: u32 where "PSCI_VERSION = 0x84000000"
definition PSCI_CPU_SUSPEND_AARCH32 :: u32 where "PSCI_CPU_SUSPEND_AARCH32 = 0x84000001"
definition PSCI_CPU_SUSPEND_AARCH64 :: u32 where "PSCI_CPU_SUSPEND_AARCH64 = 0xc4000001"
definition PSCI_CPU_OFF :: u32 where "PSCI_CPU_OFF = 0x84000002"
definition PSCI_CPU_ON_AARCH32 :: u32 where "PSCI_CPU_ON_AARCH32 = 0x84000003"
definition PSCI_CPU_ON_AARCH64 :: u32 where "PSCI_CPU_ON_AARCH64 = 0xc4000003"
definition PSCI_AFFINITY_INFO_AARCH32 :: u32 where "PSCI_AFFINITY_INFO_AARCH32 = 0x84000004"
definition PSCI_AFFINITY_INFO_AARCH64 :: u32 where "PSCI_AFFINITY_INFO_AARCH64 = 0xc4000004"
definition PSCI_MIG_AARCH32 :: u32 where "PSCI_MIG_AARCH32 = 0x84000005"
definition PSCI_MIG_AARCH64 :: u32 where "PSCI_MIG_AARCH64 = 0xc4000005"
definition PSCI_MIG_INFO_TYPE :: u32 where "PSCI_MIG_INFO_TYPE = 0x84000006"
definition PSCI_MIG_INFO_UP_CPU_AARCH32 :: u32 where "PSCI_MIG_INFO_UP_CPU_AARCH32 = 0x84000007"
definition PSCI_MIG_INFO_UP_CPU_AARCH64 :: u32 where "PSCI_MIG_INFO_UP_CPU_AARCH64 = 0xc4000007"
definition PSCI_SYSTEM_OFF :: u32 where "PSCI_SYSTEM_OFF = 0x84000008"
definition PSCI_SYSTEM_RESET :: u32 where "PSCI_SYSTEM_RESET = 0x84000009"
definition PSCI_FEATURES :: u32 where "PSCI_FEATURES = 0x8400000A"
definition PSCI_NODE_HW_STATE_AARCH32 :: u32 where "PSCI_NODE_HW_STATE_AARCH32 = 0x8400000d"
definition PSCI_NODE_HW_STATE_AARCH64 :: u32 where "PSCI_NODE_HW_STATE_AARCH64 = 0xc400000d"
definition PSCI_SYSTEM_SUSPEND_AARCH32 :: u32 where "PSCI_SYSTEM_SUSPEND_AARCH32 = 0x8400000E"
definition PSCI_SYSTEM_SUSPEND_AARCH64 :: u32 where "PSCI_SYSTEM_SUSPEND_AARCH64 = 0xc400000E"
definition PSCI_STAT_RESIDENCY_AARCH32 :: u32 where "PSCI_STAT_RESIDENCY_AARCH32 = 0x84000010"
definition PSCI_STAT_RESIDENCY_AARCH64 :: u32 where "PSCI_STAT_RESIDENCY_AARCH64 = 0xc4000010"
definition PSCI_STAT_COUNT_AARCH32 :: u32 where "PSCI_STAT_COUNT_AARCH32 = 0x84000011"
definition PSCI_STAT_COUNT_AARCH64 :: u32 where "PSCI_STAT_COUNT_AARCH64 = 0xc4000011"
definition PSCI_SYSTEM_RESET2_AARCH32 :: u32 where "PSCI_SYSTEM_RESET2_AARCH32 = 0x84000012"
definition PSCI_SYSTEM_RESET2_AARCH64 :: u32 where "PSCI_SYSTEM_RESET2_AARCH64 = 0xc4000012"
definition PSCI_MEM_PROTECT :: u32 where "PSCI_MEM_PROTECT = 0x84000013"
definition PSCI_MEM_CHK_RANGE_AARCH32 :: u32 where "PSCI_MEM_CHK_RANGE_AARCH32 = 0x84000014"
definition PSCI_MEM_CHK_RANGE_AARCH64 :: u32 where "PSCI_MEM_CHK_RANGE_AARCH64 = 0xc4000014"

named_theorems psci_fid \<open>the function identifiers\<close>

declare PSCI_VERSION_def [psci_fid] PSCI_CPU_SUSPEND_AARCH32_def [psci_fid]
  PSCI_CPU_SUSPEND_AARCH64_def [psci_fid] PSCI_CPU_OFF_def [psci_fid]
  PSCI_CPU_ON_AARCH32_def [psci_fid] PSCI_CPU_ON_AARCH64_def [psci_fid]
  PSCI_AFFINITY_INFO_AARCH32_def [psci_fid] PSCI_AFFINITY_INFO_AARCH64_def [psci_fid]
  PSCI_MIG_AARCH32_def [psci_fid] PSCI_MIG_AARCH64_def [psci_fid]
  PSCI_MIG_INFO_TYPE_def [psci_fid] PSCI_MIG_INFO_UP_CPU_AARCH32_def [psci_fid]
  PSCI_MIG_INFO_UP_CPU_AARCH64_def [psci_fid] PSCI_SYSTEM_OFF_def [psci_fid]
  PSCI_SYSTEM_RESET_def [psci_fid] PSCI_FEATURES_def [psci_fid]
  PSCI_NODE_HW_STATE_AARCH32_def [psci_fid] PSCI_NODE_HW_STATE_AARCH64_def [psci_fid]
  PSCI_SYSTEM_SUSPEND_AARCH32_def [psci_fid] PSCI_SYSTEM_SUSPEND_AARCH64_def [psci_fid]
  PSCI_STAT_RESIDENCY_AARCH32_def [psci_fid] PSCI_STAT_RESIDENCY_AARCH64_def [psci_fid]
  PSCI_STAT_COUNT_AARCH32_def [psci_fid] PSCI_STAT_COUNT_AARCH64_def [psci_fid]
  PSCI_SYSTEM_RESET2_AARCH32_def [psci_fid] PSCI_SYSTEM_RESET2_AARCH64_def [psci_fid]
  PSCI_MEM_PROTECT_def [psci_fid] PSCI_MEM_CHK_RANGE_AARCH32_def [psci_fid]
  PSCI_MEM_CHK_RANGE_AARCH64_def [psci_fid]

definition PSCI_GENERIC_CAP :: u32 where
  "PSCI_GENERIC_CAP = define_psci_cap PSCI_VERSION OR define_psci_cap PSCI_AFFINITY_INFO_AARCH64 OR
     define_psci_cap PSCI_FEATURES"

definition PSCI_CAP_64BIT_MASK :: u32 where
  "PSCI_CAP_64BIT_MASK =
     define_psci_cap PSCI_CPU_SUSPEND_AARCH64 OR define_psci_cap PSCI_CPU_ON_AARCH64 OR
     define_psci_cap PSCI_AFFINITY_INFO_AARCH64 OR define_psci_cap PSCI_MIG_AARCH64 OR
     define_psci_cap PSCI_MIG_INFO_UP_CPU_AARCH64 OR define_psci_cap PSCI_NODE_HW_STATE_AARCH64 OR
     define_psci_cap PSCI_SYSTEM_SUSPEND_AARCH64 OR define_psci_cap PSCI_STAT_RESIDENCY_AARCH64 OR
     define_psci_cap PSCI_STAT_COUNT_AARCH64 OR define_psci_cap PSCI_SYSTEM_RESET2_AARCH64 OR
     define_psci_cap PSCI_MEM_CHK_RANGE_AARCH64"

text \<open>A capability added on a condition.\<close>

definition cap_if :: "bool \<Rightarrow> u32 \<Rightarrow> u32" where
  "cap_if b fid = (if b then define_psci_cap fid else 0)"

definition psci_setup_caps :: "plat \<Rightarrow> u32" where
  "psci_setup_caps P =
     PSCI_GENERIC_CAP OR
     cap_if (pwr_domain_off P) PSCI_CPU_OFF OR
     cap_if (has_pwr_domain_on P \<and> pwr_domain_on_finish P) PSCI_CPU_ON_AARCH64 OR
     cap_if (pwr_domain_suspend P \<and> pwr_domain_suspend_finish P) PSCI_CPU_SUSPEND_AARCH64 OR
     cap_if (pwr_domain_suspend P \<and> pwr_domain_suspend_finish P \<and>
             get_sys_suspend_power_state P \<noteq> None) PSCI_SYSTEM_SUSPEND_AARCH64 OR
     cap_if (system_off P \<noteq> None) PSCI_SYSTEM_OFF OR
     cap_if (system_reset P) PSCI_SYSTEM_RESET OR
     cap_if (has_get_node_hw_state P) PSCI_NODE_HW_STATE_AARCH64 OR
     cap_if (has_read_mem_protect P \<and> has_write_mem_protect P) PSCI_MEM_PROTECT OR
     cap_if (has_mem_protect_chk P) PSCI_MEM_CHK_RANGE_AARCH64 OR
     cap_if (has_system_reset2 P) PSCI_SYSTEM_RESET2_AARCH64 OR
     define_psci_cap PSCI_MIG_INFO_TYPE OR
     define_psci_cap PSCI_MIG_INFO_UP_CPU_AARCH64 OR
     cap_if (ENABLE_PSCI_STAT P) PSCI_STAT_RESIDENCY_AARCH64 OR
     cap_if (ENABLE_PSCI_STAT P) PSCI_STAT_COUNT_AARCH64"

definition psci_setup :: "plat \<Rightarrow> env \<Rightarrow> nat \<Rightarrow> psci \<Rightarrow> psci option" where
  "psci_setup P E me s = do {
     let s = emit Psci_arch_setup s;
     s \<leftarrow> populate_power_domain_tree P (topology_desc P) s;
     s \<leftarrow> psci_update_pwrlvl_limits P s;
     s \<leftarrow> set_cpu_mpidr E me s;
     let s = psci_init_req_local_pwr_states P s;
     s \<leftarrow> psci_set_pwr_domains_to_run me (PLAT_MAX_PWR_LVL P) s;
     Some (s\<lparr>psci_caps := psci_setup_caps P\<rparr>)
   }"

text \<open>The zeroed variables before setup; the last CPU of every domain is -1.\<close>

definition psci_boot :: "plat \<Rightarrow> psci" where
  "psci_boot P =
     (let node = \<lparr>cpu_start_idx = 0, ncpus = 0, parent_node = 0, node_state = 0, level = 0, lock_index = 0\<rparr>;
          cpu = \<lparr>mpidr = 0, cpu_parent = 0\<rparr>;
          dat = \<lparr>aff_info_state = AFF_STATE_ON, target_pwrlvl = 0, local_state = 0\<rparr>;
          stat = \<lparr>residency = 0, count = 0\<rparr>;
          n = PLATFORM_CORE_COUNT P; k = PSCI_NUM_NON_CPU_PWR_DOMAINS P
      in \<lparr>psci_req_local_pwr_states = replicate (PLAT_MAX_PWR_LVL P) (replicate n 0),
          psci_non_cpu_pd_nodes = replicate k node, psci_cpu_pd_nodes = replicate n cpu,
          psci_svc_cpu_data = replicate n dat, psci_spd_pm = None, psci_caps = 0,
          last_cpu_in_non_cpu_pd = replicate k (- 1),
          psci_cpu_stat = replicate n (replicate (PLAT_MAX_PWR_LVL_STATES P) stat),
          psci_non_cpu_stat = replicate k (replicate (PLAT_MAX_PWR_LVL_STATES P) stat),
          trace = []\<rparr>)"

section \<open>Front end\<close>

definition psci_cpu_on ::
  "plat \<Rightarrow> env \<Rightarrow> u64 \<Rightarrow> u64 \<Rightarrow> u64 \<Rightarrow> psci \<Rightarrow> (int \<times> psci) option" where
  "psci_cpu_on P E target_cpu entrypoint context_id s =
     (if psci_validate_mpidr P target_cpu \<noteq> PSCI_E_SUCCESS then Some (PSCI_E_INVALID_PARAMS, s)
      else let (rc, ep) = psci_validate_entry_point P E entrypoint context_id in
           if rc \<noteq> PSCI_E_SUCCESS then Some (rc, s)
           else psci_cpu_on_start P E target_cpu ep s)"

definition psci_version :: u32 where
  "psci_version = push_bit 16 1 OR 1"

definition is_cpu_standby_req :: "bool \<Rightarrow> nat \<Rightarrow> bool" where
  "is_cpu_standby_req is_power_down_state retn_lvl \<longleftrightarrow> \<not> is_power_down_state \<and> retn_lvl = 0"

text \<open>The fast path of \<open>psci_cpu_suspend\<close> for a CPU standby.\<close>

definition cpu_standby_path ::
  "plat \<Rightarrow> env \<Rightarrow> nat \<Rightarrow> psci_power_state \<Rightarrow> psci \<Rightarrow> (int outcome \<times> psci) option" where
  "cpu_standby_path P E me st s =
     (case cpu_standby P of
        None \<Rightarrow> Some (Returns PSCI_E_INVALID_PARAMS, s)
      | Some hook \<Rightarrow> do {
        cpu_pd_state \<leftarrow> aget st PSCI_CPU_PWR_LVL;
        s \<leftarrow> psci_set_cpu_local_state me cpu_pd_state s;
        let s = (if ENABLE_PSCI_STAT P then emit Stat_accounting_start s else s);
        _ \<leftarrow> hook cpu_pd_state;
        let s = emit (Call_cpu_standby cpu_pd_state) s;
        s \<leftarrow> psci_set_cpu_local_state me PSCI_LOCAL_STATE_RUN s;
        s \<leftarrow> (if ENABLE_PSCI_STAT P
              then psci_stats_update_pwr_up P E me PSCI_CPU_PWR_LVL st (emit Stat_accounting_stop s)
              else Some s);
        Some (Returns PSCI_E_SUCCESS, s)
      })"

text \<open>What a caller of \<open>psci_cpu_suspend_start\<close> returns once it returns.\<close>

definition suspend_result :: "unit outcome \<times> psci \<Rightarrow> int outcome \<times> psci" where
  "suspend_result r =
     ((case fst r of Returns _ \<Rightarrow> Returns PSCI_E_SUCCESS | In_standby l \<Rightarrow> In_standby l
       | Cpu_down \<Rightarrow> Cpu_down | System_down \<Rightarrow> System_down), snd r)"

definition psci_cpu_suspend ::
  "plat \<Rightarrow> env \<Rightarrow> nat \<Rightarrow> u32 \<Rightarrow> u64 \<Rightarrow> u64 \<Rightarrow> psci \<Rightarrow> (int outcome \<times> psci) option" where
  "psci_cpu_suspend P E me power_state entrypoint context_id s = do {
     (rc, st) \<leftarrow> psci_validate_power_state P power_state
                   (replicate (PLAT_MAX_PWR_LVL P + 1) PSCI_LOCAL_STATE_RUN);
     if rc \<noteq> PSCI_E_SUCCESS then do {
       _ \<leftarrow> assert (rc = PSCI_E_INVALID_PARAMS);
       Some (Returns rc, s)
     }
     else do {
       let is_power_down_state = (psci_get_pstate_type power_state \<noteq> 0);
       v \<leftarrow> psci_validate_suspend_req P st is_power_down_state;
       _ \<leftarrow> assert (v = PSCI_E_SUCCESS);
       target_pwrlvl \<leftarrow> psci_find_target_suspend_lvl P st;
       if target_pwrlvl = PSCI_INVALID_PWR_LVL P then None
       else if is_cpu_standby_req is_power_down_state target_pwrlvl then cpu_standby_path P E me st s
       else let (rc, ep) = psci_validate_entry_point P E entrypoint context_id in
            if is_power_down_state \<and> rc \<noteq> PSCI_E_SUCCESS then Some (Returns rc, s)
            else map_option suspend_result
                   (psci_cpu_suspend_start P E me ep target_pwrlvl st is_power_down_state s)
     }
   }"

definition psci_system_suspend ::
  "plat \<Rightarrow> env \<Rightarrow> nat \<Rightarrow> u64 \<Rightarrow> u64 \<Rightarrow> psci \<Rightarrow> (int outcome \<times> psci) option" where
  "psci_system_suspend P E me entrypoint context_id s = do {
     last_on \<leftarrow> psci_is_last_on_cpu P me s;
     if \<not> last_on then Some (Returns PSCI_E_DENIED, s)
     else let (rc, ep) = psci_validate_entry_point P E entrypoint context_id in
       if rc \<noteq> PSCI_E_SUCCESS then Some (Returns rc, s)
       else do {
         st \<leftarrow> psci_query_sys_suspend_pwrstate P
                 (replicate (PLAT_MAX_PWR_LVL P + 1) PSCI_LOCAL_STATE_RUN);
         lvl \<leftarrow> psci_find_target_suspend_lvl P st;
         _ \<leftarrow> assert (lvl = PLAT_MAX_PWR_LVL P);
         v \<leftarrow> psci_validate_suspend_req P st True;
         _ \<leftarrow> assert (v = PSCI_E_SUCCESS);
         top \<leftarrow> aget st (PLAT_MAX_PWR_LVL P);
         _ \<leftarrow> assert (is_local_state_off P top);
         map_option suspend_result
           (psci_cpu_suspend_start P E me ep (PLAT_MAX_PWR_LVL P) st True s)
       }
   }"

definition psci_cpu_off :: "plat \<Rightarrow> env \<Rightarrow> nat \<Rightarrow> psci \<Rightarrow> (int outcome \<times> psci) option" where
  "psci_cpu_off P E me s = do {
     (r, s) \<leftarrow> psci_do_cpu_off P E me (PLAT_MAX_PWR_LVL P) s;
     case r of
       Returns rc \<Rightarrow> do { _ \<leftarrow> assert (rc = PSCI_E_DENIED); Some (Returns rc, s) }
     | _ \<Rightarrow> Some (r, s)
   }"

text \<open>The numbers of the enumeration \<open>aff_info_state_t\<close>.\<close>

fun aff_code :: "aff_info_state \<Rightarrow> int" where
  "aff_code AFF_STATE_ON = 0"
| "aff_code AFF_STATE_OFF = 1"
| "aff_code AFF_STATE_ON_PENDING = 2"

definition psci_affinity_info :: "plat \<Rightarrow> u64 \<Rightarrow> u32 \<Rightarrow> psci \<Rightarrow> int option" where
  "psci_affinity_info P target_affinity lowest_affinity_level s =
     (if unat lowest_affinity_level > PSCI_CPU_PWR_LVL then Some PSCI_E_INVALID_PARAMS
      else let target_idx = plat_core_pos_by_mpidr P target_affinity in
           if target_idx = - 1 then Some PSCI_E_INVALID_PARAMS
           else map_option aff_code (psci_get_aff_info_state_by_idx s (nat target_idx)))"

definition psci_migrate :: "plat \<Rightarrow> env \<Rightarrow> u64 \<Rightarrow> psci \<Rightarrow> (int \<times> psci) option" where
  "psci_migrate P E target_cpu s = do {
     (rc, resident_cpu_mpidr) \<leftarrow> psci_spd_migrate_info E s;
     if rc \<noteq> 0 then Some (if rc = 1 then PSCI_E_DENIED else PSCI_E_NOT_SUPPORTED, s)
     else if resident_cpu_mpidr \<noteq> read_mpidr E then Some (PSCI_E_NOT_PRESENT, s)
     else if psci_validate_mpidr P target_cpu \<noteq> PSCI_E_SUCCESS then Some (PSCI_E_INVALID_PARAMS, s)
     else do {
       _ \<leftarrow> assert (spd_has svc_migrate s);
       let rc = svc_migrate_rc E;
       _ \<leftarrow> assert (rc = PSCI_E_SUCCESS \<or> rc = PSCI_E_INTERN_FAIL);
       Some (rc, emit (Call_svc_migrate (read_mpidr E) target_cpu) s)
     }
   }"

definition psci_migrate_info_type :: int where
  "psci_migrate_info_type = 1"

definition psci_migrate_info_up_cpu :: int where
  "psci_migrate_info_up_cpu = 0"

definition psci_node_hw_state :: "plat \<Rightarrow> env \<Rightarrow> u64 \<Rightarrow> u32 \<Rightarrow> int option" where
  "psci_node_hw_state P E target_cpu power_level =
     (if psci_validate_mpidr P target_cpu \<noteq> PSCI_E_SUCCESS then Some PSCI_E_INVALID_PARAMS
      else if unat power_level > PLAT_MAX_PWR_LVL P then Some PSCI_E_INVALID_PARAMS
      else do {
        _ \<leftarrow> assert (has_get_node_hw_state P);
        let rc = get_node_hw_state E target_cpu power_level;
        _ \<leftarrow> assert (rc \<ge> 0 \<and> rc \<le> 2 \<or> rc = PSCI_E_NOT_SUPPORTED \<or> rc = PSCI_E_INVALID_PARAMS);
        Some rc
      })"

definition SMCCC_VERSION :: u32 where "SMCCC_VERSION = 0x80000000"

definition GET_SMC_CC :: "u32 \<Rightarrow> u32" where "GET_SMC_CC fid = drop_bit 30 fid AND 1"
definition GET_SMC_TYPE :: "u32 \<Rightarrow> u32" where "GET_SMC_TYPE fid = drop_bit 31 fid AND 1"

definition is_std_svc_call :: "u32 \<Rightarrow> bool" where
  "is_std_svc_call fid \<longleftrightarrow> drop_bit 24 fid AND 0x3f = 4"

definition is_valid_fast_smc :: "u32 \<Rightarrow> bool" where
  "is_valid_fast_smc fid \<longleftrightarrow> drop_bit 16 fid AND 0xff = 0 \<and> GET_SMC_TYPE fid = 1"

definition is_psci_fid :: "u32 \<Rightarrow> bool" where
  "is_psci_fid fid \<longleftrightarrow> fid AND 0xffe0 = 0"

definition psci_features :: "u32 \<Rightarrow> psci \<Rightarrow> int" where
  "psci_features fid s =
     (let local_caps = (if GET_SMC_CC fid = 1 then psci_caps s AND PSCI_CAP_64BIT_MASK else psci_caps s)
      in if fid = SMCCC_VERSION then PSCI_E_SUCCESS
         else if \<not> (is_std_svc_call fid \<and> is_valid_fast_smc fid \<and> is_psci_fid fid)
         then PSCI_E_NOT_SUPPORTED
         else if local_caps AND define_psci_cap fid = 0 then PSCI_E_NOT_SUPPORTED
         else if fid = PSCI_CPU_SUSPEND_AARCH32 \<or> fid = PSCI_CPU_SUSPEND_AARCH64 then 0
         else PSCI_E_SUCCESS)"

text \<open>The value in the return register, with the sign of an \<open>int\<close> extended.\<close>

definition ret :: "int outcome \<times> psci \<Rightarrow> u64 outcome \<times> psci" where
  "ret r = ((case fst r of Returns x \<Rightarrow> Returns (word_of_int x) | In_standby l \<Rightarrow> In_standby l
             | Cpu_down \<Rightarrow> Cpu_down | System_down \<Rightarrow> System_down), snd r)"

definition ret_int :: "int \<times> psci \<Rightarrow> u64 outcome \<times> psci" where
  "ret_int r = (Returns (word_of_int (fst r)), snd r)"

definition SMC_UNK :: u64 where "SMC_UNK = -1"

text \<open>The two switches of the handler, for the 32-bit and the 64-bit identifiers.\<close>

definition psci_smc_32 ::
  "plat \<Rightarrow> env \<Rightarrow> nat \<Rightarrow> u32 \<Rightarrow> u64 \<Rightarrow> u64 \<Rightarrow> u64 \<Rightarrow> psci \<Rightarrow> (u64 outcome \<times> psci) option" where
  "psci_smc_32 P E me fid x1 x2 x3 s =
     (if fid = PSCI_VERSION then Some (Returns (ucast psci_version), s)
      else if fid = PSCI_CPU_OFF then map_option ret (psci_cpu_off P E me s)
      else if fid = PSCI_CPU_SUSPEND_AARCH32 then map_option ret (psci_cpu_suspend P E me (ucast x1) x2 x3 s)
      else if fid = PSCI_CPU_ON_AARCH32 then map_option ret_int (psci_cpu_on P E x1 x2 x3 s)
      else if fid = PSCI_AFFINITY_INFO_AARCH32
      then map_option (\<lambda>r. ret_int (r, s)) (psci_affinity_info P x1 (ucast x2) s)
      else if fid = PSCI_MIG_AARCH32 then map_option ret_int (psci_migrate P E x1 s)
      else if fid = PSCI_MIG_INFO_TYPE then Some (ret_int (psci_migrate_info_type, s))
      else if fid = PSCI_MIG_INFO_UP_CPU_AARCH32 then Some (ret_int (psci_migrate_info_up_cpu, s))
      else if fid = PSCI_NODE_HW_STATE_AARCH32
      then map_option (\<lambda>r. ret_int (r, s)) (psci_node_hw_state P E x1 (ucast x2))
      else if fid = PSCI_SYSTEM_SUSPEND_AARCH32 then map_option ret (psci_system_suspend P E me x1 x2 s)
      else if fid = PSCI_SYSTEM_OFF then map_option (\<lambda>s. (System_down, s)) (psci_system_off P s)
      else if fid = PSCI_SYSTEM_RESET then map_option (\<lambda>s. (System_down, s)) (psci_system_reset P s)
      else if fid = PSCI_FEATURES then Some (ret_int (psci_features (ucast x1) s, s))
      else if ENABLE_PSCI_STAT P \<and> fid = PSCI_STAT_RESIDENCY_AARCH32
      then map_option (\<lambda>r. (Returns r, s)) (psci_stat_residency P x1 (ucast x2) s)
      else if ENABLE_PSCI_STAT P \<and> fid = PSCI_STAT_COUNT_AARCH32
      then map_option (\<lambda>r. (Returns r, s)) (psci_stat_count P x1 (ucast x2) s)
      else if fid = PSCI_MEM_PROTECT then map_option ret_int (psci_mem_protect P E (ucast x1) s)
      else if fid = PSCI_MEM_CHK_RANGE_AARCH32
      then map_option (\<lambda>r. ret_int (r, s)) (psci_mem_chk_range P E x1 x2)
      else if fid = PSCI_SYSTEM_RESET2_AARCH32
      then map_option ret_int (psci_system_reset2 P E (ucast x1) x2 s)
      else Some (Returns SMC_UNK, s))"

definition psci_smc_64 ::
  "plat \<Rightarrow> env \<Rightarrow> nat \<Rightarrow> u32 \<Rightarrow> u64 \<Rightarrow> u64 \<Rightarrow> u64 \<Rightarrow> psci \<Rightarrow> (u64 outcome \<times> psci) option" where
  "psci_smc_64 P E me fid x1 x2 x3 s =
     (if fid = PSCI_CPU_SUSPEND_AARCH64 then map_option ret (psci_cpu_suspend P E me (ucast x1) x2 x3 s)
      else if fid = PSCI_CPU_ON_AARCH64 then map_option ret_int (psci_cpu_on P E x1 x2 x3 s)
      else if fid = PSCI_AFFINITY_INFO_AARCH64
      then map_option (\<lambda>r. ret_int (r, s)) (psci_affinity_info P x1 (ucast x2) s)
      else if fid = PSCI_MIG_AARCH64 then map_option ret_int (psci_migrate P E x1 s)
      else if fid = PSCI_MIG_INFO_UP_CPU_AARCH64 then Some (ret_int (psci_migrate_info_up_cpu, s))
      else if fid = PSCI_NODE_HW_STATE_AARCH64
      then map_option (\<lambda>r. ret_int (r, s)) (psci_node_hw_state P E x1 (ucast x2))
      else if fid = PSCI_SYSTEM_SUSPEND_AARCH64 then map_option ret (psci_system_suspend P E me x1 x2 s)
      else if ENABLE_PSCI_STAT P \<and> fid = PSCI_STAT_RESIDENCY_AARCH64
      then map_option (\<lambda>r. (Returns r, s)) (psci_stat_residency P x1 (ucast x2) s)
      else if ENABLE_PSCI_STAT P \<and> fid = PSCI_STAT_COUNT_AARCH64
      then map_option (\<lambda>r. (Returns r, s)) (psci_stat_count P x1 (ucast x2) s)
      else if fid = PSCI_MEM_CHK_RANGE_AARCH64
      then map_option (\<lambda>r. ret_int (r, s)) (psci_mem_chk_range P E x1 x2)
      else if fid = PSCI_SYSTEM_RESET2_AARCH64
      then map_option ret_int (psci_system_reset2 P E (ucast x1) x2 s)
      else Some (Returns SMC_UNK, s))"

definition is_caller_secure :: "u64 \<Rightarrow> bool" where
  "is_caller_secure flags \<longleftrightarrow> \<not> (flags AND 1 \<noteq> 0)"

definition psci_smc_handler ::
  "plat \<Rightarrow> env \<Rightarrow> nat \<Rightarrow> u32 \<Rightarrow> u64 \<Rightarrow> u64 \<Rightarrow> u64 \<Rightarrow> u64 \<Rightarrow> psci \<Rightarrow> (u64 outcome \<times> psci) option" where
  "psci_smc_handler P E me smc_fid x1 x2 x3 flags s =
     (if is_caller_secure flags then Some (Returns SMC_UNK, s)
      else if psci_caps s AND define_psci_cap smc_fid = 0 then Some (Returns SMC_UNK, s)
      else if GET_SMC_CC smc_fid = 0
      then psci_smc_32 P E me smc_fid (ucast (ucast x1 :: u32)) (ucast (ucast x2 :: u32))
             (ucast (ucast x3 :: u32)) s
      else psci_smc_64 P E me smc_fid x1 x2 x3 s)"

end
