(* ===== verification/Psci_topo.thy ===== *)
theory Psci_topo
  imports Psci_main
begin

unbundle bit_operations_syntax

text \<open>
  The power domain tree as the routines walk it: the ancestors of a CPU, when the arrays
  form a tree, and what each loop over the levels does, stated for whole runs of the loop.
\<close>

section \<open>Ancestors\<close>

text \<open>The ancestor of a CPU at level \<open>k + 1\<close>.\<close>

fun anc :: "psci \<Rightarrow> nat \<Rightarrow> nat \<Rightarrow> u32" where
  "anc s c 0 = cpu_parent (psci_cpu_pd_nodes s ! c)"
| "anc s c (Suc k) = parent_node (psci_non_cpu_pd_nodes s ! unat (anc s c k))"

declare anc.simps [simp del]

abbreviation anode :: "psci \<Rightarrow> nat \<Rightarrow> nat \<Rightarrow> nat" where
  "anode s c k \<equiv> unat (anc s c k)"

definition nst :: "psci \<Rightarrow> nat \<Rightarrow> plat_local_state" where
  "nst s j = node_state (psci_non_cpu_pd_nodes s ! j)"

definition rq :: "psci \<Rightarrow> nat \<Rightarrow> nat \<Rightarrow> plat_local_state" where
  "rq s k c = psci_req_local_pwr_states s ! k ! c"

definition cd :: "psci \<Rightarrow> nat \<Rightarrow> psci_cpu_data" where
  "cd s c = psci_svc_cpu_data s ! c"

text \<open>The CPUs below a node.\<close>

definition cpus_of :: "psci \<Rightarrow> nat \<Rightarrow> nat set" where
  "cpus_of s j = (let nd = psci_non_cpu_pd_nodes s ! j in
     {unat (cpu_start_idx nd) ..< unat (cpu_start_idx nd) + unat (ncpus nd)})"

definition plat_ok :: "plat \<Rightarrow> bool" where
  "plat_ok P \<longleftrightarrow> PLAT_MAX_PWR_LVL P \<le> 3 \<and> 0 < PLAT_MAX_RET_STATE P \<and>
     PLAT_MAX_RET_STATE P < PLAT_MAX_OFF_STATE P"

definition same_anc :: "psci \<Rightarrow> nat \<Rightarrow> nat \<Rightarrow> bool" where
  "same_anc s c k \<longleftrightarrow> (\<forall>c' \<in> cpus_of s (anode s c k). anc s c' k = anc s c k)"

definition node_ok :: "plat \<Rightarrow> psci \<Rightarrow> nat \<Rightarrow> nat \<Rightarrow> bool" where
  "node_ok P s c k \<longleftrightarrow>
     anode s c k < length (psci_non_cpu_pd_nodes s) \<and>
     level (psci_non_cpu_pd_nodes s ! anode s c k) = of_nat (Suc k) \<and>
     unat (lock_index (psci_non_cpu_pd_nodes s ! anode s c k)) = anode s c k \<and>
     (Suc k < PLAT_MAX_PWR_LVL P \<longrightarrow> anode s c (Suc k) < anode s c k) \<and>
     c \<in> cpus_of s (anode s c k) \<and> cpus_of s (anode s c k) \<subseteq> {..< PLATFORM_CORE_COUNT P} \<and>
     same_anc s c k"

definition topo_ok :: "plat \<Rightarrow> psci \<Rightarrow> bool" where
  "topo_ok P s \<longleftrightarrow>
     map length (psci_req_local_pwr_states s) = replicate (PLAT_MAX_PWR_LVL P) (PLATFORM_CORE_COUNT P) \<and>
     length (psci_cpu_pd_nodes s) = PLATFORM_CORE_COUNT P \<and>
     length (psci_svc_cpu_data s) = PLATFORM_CORE_COUNT P \<and>
     (\<forall>c < PLATFORM_CORE_COUNT P. \<forall>k < PLAT_MAX_PWR_LVL P. node_ok P s c k)"

text \<open>Two states with the same tree and arrays of the same size.\<close>

definition same_shape :: "psci \<Rightarrow> psci \<Rightarrow> bool" where
  "same_shape s s' \<longleftrightarrow>
     map cpu_parent (psci_cpu_pd_nodes s') = map cpu_parent (psci_cpu_pd_nodes s) \<and>
     map (\<lambda>nd. nd\<lparr>node_state := 0\<rparr>) (psci_non_cpu_pd_nodes s') =
       map (\<lambda>nd. nd\<lparr>node_state := 0\<rparr>) (psci_non_cpu_pd_nodes s) \<and>
     map length (psci_req_local_pwr_states s') = map length (psci_req_local_pwr_states s) \<and>
     length (psci_svc_cpu_data s') = length (psci_svc_cpu_data s)"

lemma same_shape_refl [simp, intro]: "same_shape s s"
  by (simp add: same_shape_def)

lemma same_shape_trans [trans]: "same_shape s t \<Longrightarrow> same_shape t u \<Longrightarrow> same_shape s u"
  by (simp add: same_shape_def)

lemma same_shape_sym: "same_shape s t \<Longrightarrow> same_shape t s"
  by (simp add: same_shape_def)

lemma same_shape_node:
  assumes "same_shape s s'"
  shows "length (psci_non_cpu_pd_nodes s') = length (psci_non_cpu_pd_nodes s)"
    and "length (psci_cpu_pd_nodes s') = length (psci_cpu_pd_nodes s)"
    and "j < length (psci_non_cpu_pd_nodes s) \<Longrightarrow>
      (psci_non_cpu_pd_nodes s' ! j)\<lparr>node_state := 0\<rparr> = (psci_non_cpu_pd_nodes s ! j)\<lparr>node_state := 0\<rparr>"
    and "c < length (psci_cpu_pd_nodes s) \<Longrightarrow>
      cpu_parent (psci_cpu_pd_nodes s' ! c) = cpu_parent (psci_cpu_pd_nodes s ! c)"
proof -
  have n: "map (\<lambda>nd. nd\<lparr>node_state := 0\<rparr>) (psci_non_cpu_pd_nodes s') =
       map (\<lambda>nd. nd\<lparr>node_state := 0\<rparr>) (psci_non_cpu_pd_nodes s)"
    and c: "map cpu_parent (psci_cpu_pd_nodes s') = map cpu_parent (psci_cpu_pd_nodes s)"
    using assms by (auto simp: same_shape_def)
  show l: "length (psci_non_cpu_pd_nodes s') = length (psci_non_cpu_pd_nodes s)"
    using n map_eq_imp_length_eq by blast
  show lc: "length (psci_cpu_pd_nodes s') = length (psci_cpu_pd_nodes s)"
    using c map_eq_imp_length_eq by blast
  show "j < length (psci_non_cpu_pd_nodes s) \<Longrightarrow>
      (psci_non_cpu_pd_nodes s' ! j)\<lparr>node_state := 0\<rparr> = (psci_non_cpu_pd_nodes s ! j)\<lparr>node_state := 0\<rparr>"
    using arg_cong [OF n, of "\<lambda>xs. xs ! j"] l by simp
  show "c < length (psci_cpu_pd_nodes s) \<Longrightarrow>
      cpu_parent (psci_cpu_pd_nodes s' ! c) = cpu_parent (psci_cpu_pd_nodes s ! c)"
    using arg_cong [OF c, of "\<lambda>xs. xs ! c"] lc by simp
qed

lemma same_shape_fields:
  assumes "same_shape s s'" "j < length (psci_non_cpu_pd_nodes s)"
  shows "parent_node (psci_non_cpu_pd_nodes s' ! j) = parent_node (psci_non_cpu_pd_nodes s ! j)"
    "level (psci_non_cpu_pd_nodes s' ! j) = level (psci_non_cpu_pd_nodes s ! j)"
    "lock_index (psci_non_cpu_pd_nodes s' ! j) = lock_index (psci_non_cpu_pd_nodes s ! j)"
    "cpus_of s' j = cpus_of s j"
proof -
  let ?n = "psci_non_cpu_pd_nodes s ! j" and ?n' = "psci_non_cpu_pd_nodes s' ! j"
  have e: "?n'\<lparr>node_state := 0\<rparr> = ?n\<lparr>node_state := 0\<rparr>" by (rule same_shape_node(3) [OF assms])
  show "parent_node ?n' = parent_node ?n" using arg_cong [OF e, of parent_node] by simp
  show "level ?n' = level ?n" using arg_cong [OF e, of level] by simp
  show "lock_index ?n' = lock_index ?n" using arg_cong [OF e, of lock_index] by simp
  have "cpu_start_idx ?n' = cpu_start_idx ?n" "ncpus ?n' = ncpus ?n"
    using arg_cong [OF e, of cpu_start_idx] arg_cong [OF e, of ncpus] by simp_all
  then show "cpus_of s' j = cpus_of s j" by (simp add: cpus_of_def Let_def)
qed

lemma topo_okD:
  assumes "topo_ok P s" "c < PLATFORM_CORE_COUNT P"
  shows "c < length (psci_cpu_pd_nodes s)" "c < length (psci_svc_cpu_data s)"
    "k < PLAT_MAX_PWR_LVL P \<Longrightarrow> node_ok P s c k"
    "k < PLAT_MAX_PWR_LVL P \<Longrightarrow> anode s c k < length (psci_non_cpu_pd_nodes s)"
    "k < PLAT_MAX_PWR_LVL P \<Longrightarrow> k < length (psci_req_local_pwr_states s)"
    "k < PLAT_MAX_PWR_LVL P \<Longrightarrow> length (psci_req_local_pwr_states s ! k) = PLATFORM_CORE_COUNT P"
proof -
  have len: "map length (psci_req_local_pwr_states s) =
      replicate (PLAT_MAX_PWR_LVL P) (PLATFORM_CORE_COUNT P)"
    using assms(1) by (simp add: topo_ok_def)
  then have l: "length (psci_req_local_pwr_states s) = PLAT_MAX_PWR_LVL P"
    by (metis length_map length_replicate)
  show "k < PLAT_MAX_PWR_LVL P \<Longrightarrow> k < length (psci_req_local_pwr_states s)" using l by simp
  show "k < PLAT_MAX_PWR_LVL P \<Longrightarrow> length (psci_req_local_pwr_states s ! k) = PLATFORM_CORE_COUNT P"
    using arg_cong [OF len, of "\<lambda>xs. xs ! k"] l by simp
  show "c < length (psci_cpu_pd_nodes s)" "c < length (psci_svc_cpu_data s)"
    using assms by (simp_all add: topo_ok_def)
  show ok: "k < PLAT_MAX_PWR_LVL P \<Longrightarrow> node_ok P s c k"
    using assms unfolding topo_ok_def by blast
  show "k < PLAT_MAX_PWR_LVL P \<Longrightarrow> anode s c k < length (psci_non_cpu_pd_nodes s)"
    using ok unfolding node_ok_def by blast
qed

lemma same_shape_anc:
  assumes "same_shape s s'" "topo_ok P s" "c < PLATFORM_CORE_COUNT P" "k \<le> PLAT_MAX_PWR_LVL P"
  shows "anc s' c k = anc s c k"
  using assms(4)
proof (induction k)
  case 0
  show ?case
    using same_shape_node(4) [OF assms(1) topo_okD(1) [OF assms(2,3)]] by (simp only: anc.simps)
next
  case (Suc k)
  then have a: "anc s' c k = anc s c k" and l: "anode s c k < length (psci_non_cpu_pd_nodes s)"
    using topo_okD(4) [OF assms(2,3), of k] by auto
  show ?case using same_shape_fields(1) [OF assms(1) l] a by (simp only: anc.simps)
qed

lemma same_shape_topo_ok:
  assumes "same_shape s s'" "topo_ok P s"
  shows "topo_ok P s'"
proof -
  have "node_ok P s' c k" if c: "c < PLATFORM_CORE_COUNT P" and k: "k < PLAT_MAX_PWR_LVL P" for c k
  proof -
    have ok: "node_ok P s c k" using topo_okD(3) [OF assms(2) c k] .
    have a: "anc s' c' j = anc s c' j" if "c' < PLATFORM_CORE_COUNT P" "j \<le> PLAT_MAX_PWR_LVL P" for c' j
      using same_shape_anc [OF assms that] .
    have j: "anode s c k < length (psci_non_cpu_pd_nodes s)" using ok by (simp add: node_ok_def)
    have lt: "c' < PLATFORM_CORE_COUNT P" if "c' \<in> cpus_of s (anode s c k)" for c'
      using ok that by (auto simp: node_ok_def)
    have ak: "anc s' c k = anc s c k" using a [of c k] c k by simp
    have "anc s' c' k = anc s c' k" if "c' \<in> cpus_of s (anode s c k)" for c'
      using a [of c' k] lt [OF that] k by simp
    moreover have "same_anc s c k" using ok by (simp add: node_ok_def)
    ultimately have "same_anc s' c k"
      unfolding same_anc_def using ak same_shape_fields(4) [OF assms(1) j] by simp
    moreover have "anc s' c (Suc k) = anc s c (Suc k)" using a [of c "Suc k"] c k by simp
    ultimately show ?thesis using ak
      using ok j same_shape_fields [OF assms(1) j] same_shape_node(1) [OF assms(1)]
      by (simp add: node_ok_def)
  qed
  then show ?thesis using assms by (auto simp: topo_ok_def same_shape_def dest: map_eq_imp_length_eq)
qed

lemma anode_inj:
  assumes "topo_ok P s" "plat_ok P" "c < PLATFORM_CORE_COUNT P"
    and "i < PLAT_MAX_PWR_LVL P" "j < PLAT_MAX_PWR_LVL P" "anode s c i = anode s c j"
  shows "i = j"
proof -
  have "(of_nat (Suc i) :: u8) = of_nat (Suc j)"
    using topo_okD(3) [OF assms(1,3)] assms(4-6) unfolding node_ok_def by metis
  then have "unat (of_nat (Suc i) :: u8) = unat (of_nat (Suc j) :: u8)" by simp
  moreover have "Suc i < 2 ^ LENGTH(8)" "Suc j < 2 ^ LENGTH(8)"
    using assms(2,4,5) by (auto simp: plat_ok_def)
  ultimately show ?thesis by (simp only: unat_of_nat_small)
qed

lemma anc_cong:
  "psci_cpu_pd_nodes s' = psci_cpu_pd_nodes s \<Longrightarrow>
   psci_non_cpu_pd_nodes s' = psci_non_cpu_pd_nodes s \<Longrightarrow> anc s' c k = anc s c k"
  by (induction k) (simp_all add: anc.simps)

lemma anc_upd [simp]:
  "anc (s\<lparr>trace := t\<rparr>) c k = anc s c k"
  "anc (s\<lparr>psci_svc_cpu_data := d\<rparr>) c k = anc s c k"
  "anc (s\<lparr>psci_req_local_pwr_states := r\<rparr>) c k = anc s c k"
  by (rule anc_cong; simp)+

lemma same_shape_upd [simp]:
  "same_shape s (s\<lparr>trace := t\<rparr>)"
  "same_shape s (s\<lparr>last_cpu_in_non_cpu_pd := l\<rparr>)"
  "same_shape s (s\<lparr>psci_cpu_stat := a\<rparr>)"
  "same_shape s (s\<lparr>psci_non_cpu_stat := b\<rparr>)"
  "length d = length (psci_svc_cpu_data s) \<Longrightarrow> same_shape s (s\<lparr>psci_svc_cpu_data := d\<rparr>)"
  by (simp_all add: same_shape_def)

lemma same_shape_emit [simp]: "same_shape s (emit e s)"
  by (simp add: emit_def)

section \<open>Single steps\<close>

lemma cpu_pd_parent_anc:
  "topo_ok P s \<Longrightarrow> c < PLATFORM_CORE_COUNT P \<Longrightarrow> cpu_pd_parent s c = Some (anc s c 0)"
  by (simp add: cpu_pd_parent_def topo_okD(1) anc.simps aget_simps)

lemma pd_parent_anc:
  "topo_ok P s \<Longrightarrow> c < PLATFORM_CORE_COUNT P \<Longrightarrow> k < PLAT_MAX_PWR_LVL P \<Longrightarrow>
   pd_parent s (anc s c k) = Some (anc s c (Suc k))"
  by (simp add: pd_parent_def topo_okD(4) anc.simps(2) aget_simps)

lemma set_node_spec:
  assumes "unat p < length (psci_non_cpu_pd_nodes s)"
  shows "\<exists>s'. set_non_cpu_pd_node_local_state p x s = Some s' \<and> same_shape s s' \<and>
    s' = s\<lparr>psci_non_cpu_pd_nodes := psci_non_cpu_pd_nodes s'\<rparr> \<and>
    nst s' (unat p) = x \<and> (\<forall>j. j \<noteq> unat p \<longrightarrow> nst s' j = nst s j)"
  using assms
  by (simp add: set_non_cpu_pd_node_local_state_def aget_simps same_shape_def nst_def map_update
      list_update_same_conv)

lemma set_req_spec:
  assumes "topo_ok P s" "c < PLATFORM_CORE_COUNT P" "k < PLAT_MAX_PWR_LVL P"
  shows "\<exists>s'. psci_set_req_local_pwr_state (Suc k) c x s = Some s' \<and> same_shape s s' \<and>
    s' = s\<lparr>psci_req_local_pwr_states := psci_req_local_pwr_states s'\<rparr> \<and>
    (\<forall>i d. rq s' i d = (if i = k \<and> d = c then x else rq s i d))"
proof -
  have k: "k < length (psci_req_local_pwr_states s)"
    and l: "length (psci_req_local_pwr_states s ! k) = PLATFORM_CORE_COUNT P"
    using topo_okD(5,6) [OF assms] by auto
  let ?row = "(psci_req_local_pwr_states s ! k)[c := x]"
  let ?s = "s\<lparr>psci_req_local_pwr_states := (psci_req_local_pwr_states s)[k := ?row]\<rparr>"
  have "psci_set_req_local_pwr_state (Suc k) c x s = Some ?s"
    using k l assms(2) by (simp add: psci_set_req_local_pwr_state_def PSCI_CPU_PWR_LVL_def aget_simps)
  moreover have "same_shape s ?s"
    using k by (simp add: same_shape_def map_update list_update_same_conv)
  moreover have "rq ?s i d = (if i = k \<and> d = c then x else rq s i d)" for i d
    using k l assms(2) by (auto simp: rq_def nth_list_update)
  ultimately show ?thesis by (intro exI [of _ ?s]) simp
qed

section \<open>Locks\<close>

definition lock_at :: "psci \<Rightarrow> nat \<Rightarrow> nat \<Rightarrow> nat" where
  "lock_at s c k = unat (lock_index (psci_non_cpu_pd_nodes s ! anode s c k))"

lemma acquire_loop_spec:
  assumes "topo_ok P s" "c < PLATFORM_CORE_COUNT P" "k + n \<le> PLAT_MAX_PWR_LVL P"
  shows "acquire_loop (anc s c k) n s =
    Some (s\<lparr>trace := trace s @ map (\<lambda>i. Lock_get (lock_at s c i)) [k ..< k + n]\<rparr>)"
  using assms
proof (induction n arbitrary: k s)
  case 0
  then show ?case by simp
next
  case (Suc n)
  let ?s = "emit (Lock_get (lock_at s c k)) s"
  have "topo_ok P ?s" using same_shape_topo_ok [OF same_shape_emit Suc.prems(1)] .
  then have "acquire_loop (anc ?s c (Suc k)) n ?s =
      Some (?s\<lparr>trace := trace ?s @ map (\<lambda>i. Lock_get (lock_at ?s c i)) [Suc k ..< Suc k + n]\<rparr>)"
    using Suc.IH Suc.prems by simp
  moreover have "anc ?s c i = anc s c i" "lock_at ?s c i = lock_at s c i" for i
    by (simp_all add: emit_def lock_at_def)
  moreover have "[k ..< k + Suc n] = k # [Suc k ..< Suc k + n]" by (simp add: upt_conv_Cons)
  ultimately show ?case
    using topo_okD(4) [OF Suc.prems(1,2), of k] Suc.prems(3)
    by (simp add: aget_simps lock_at_def anc.simps(2)) (simp add: emit_def)
qed

lemma psci_acquire_spec:
  assumes "topo_ok P s" "c < PLATFORM_CORE_COUNT P" "n \<le> PLAT_MAX_PWR_LVL P"
  shows "psci_acquire_pwr_domain_locks n c s =
    Some (s\<lparr>trace := trace s @ map (\<lambda>i. Lock_get (lock_at s c i)) [0 ..< n]\<rparr>)"
  using acquire_loop_spec [of P s c 0 n] assms
  by (simp add: psci_acquire_pwr_domain_locks_def cpu_pd_parent_anc)

lemma parent_nodes_loop_spec:
  assumes "topo_ok P s" "c < PLATFORM_CORE_COUNT P" "k + n \<le> PLAT_MAX_PWR_LVL P"
  shows "parent_nodes_loop s (anc s c k) n = Some (map (anc s c) [k ..< k + n])"
  using assms(3)
proof (induction n arbitrary: k)
  case (Suc n)
  have "[k ..< k + Suc n] = k # [Suc k ..< Suc k + n]" by (simp add: upt_conv_Cons)
  then show ?case
    using Suc.IH [of "Suc k"] Suc.prems by (simp add: pd_parent_anc [OF assms(1,2)])
qed simp

lemma release_loop_spec:
  assumes "topo_ok P s" "c < PLATFORM_CORE_COUNT P" "n \<le> m" "m \<le> PLAT_MAX_PWR_LVL P"
  shows "release_loop (map (anc s c) [0 ..< m]) n s =
    Some (s\<lparr>trace := trace s @ map (\<lambda>i. Lock_release (lock_at s c i)) (rev [0 ..< n])\<rparr>)"
  using assms
proof (induction n arbitrary: s)
  case 0
  then show ?case by simp
next
  case (Suc n)
  let ?s = "emit (Lock_release (lock_at s c n)) s"
  have "topo_ok P ?s" using same_shape_topo_ok [OF same_shape_emit Suc.prems(1)] .
  then have "release_loop (map (anc ?s c) [0 ..< m]) n ?s =
      Some (?s\<lparr>trace := trace ?s @ map (\<lambda>i. Lock_release (lock_at ?s c i)) (rev [0 ..< n])\<rparr>)"
    using Suc.IH [of ?s] Suc.prems by simp
  moreover have "anc ?s c = anc s c" "lock_at ?s c i = lock_at s c i" for i
    by (simp_all add: emit_def lock_at_def fun_eq_iff)
  ultimately show ?case
    using topo_okD(4) [OF Suc.prems(1,2), of n] Suc.prems(3,4)
    by (simp add: aget_simps lock_at_def) (simp add: emit_def)
qed

lemma psci_release_spec:
  assumes "topo_ok P s" "c < PLATFORM_CORE_COUNT P" "n \<le> PLAT_MAX_PWR_LVL P"
  shows "psci_release_pwr_domain_locks n c s =
    Some (s\<lparr>trace := trace s @ map (\<lambda>i. Lock_release (lock_at s c i)) (rev [0 ..< n])\<rparr>)"
proof -
  have "psci_get_parent_pwr_domain_nodes s c n = Some (map (anc s c) [0 ..< n])"
    using parent_nodes_loop_spec [of P s c 0 n] assms
    by (simp add: psci_get_parent_pwr_domain_nodes_def cpu_pd_parent_anc)
  then show ?thesis
    using release_loop_spec [of P s c n n] assms by (simp add: psci_release_pwr_domain_locks_def)
qed

section \<open>Target states\<close>

lemma get_target_loop_spec:
  assumes "topo_ok P s" "c < PLATFORM_CORE_COUNT P" "k + n \<le> PLAT_MAX_PWR_LVL P"
    and "k + n < length pd"
  shows "\<exists>pd'. get_target_loop s (anc s c k) (Suc k) n pd = Some pd' \<and> length pd' = length pd \<and>
    (\<forall>i < length pd. pd' ! i = (if k < i \<and> i \<le> k + n then nst s (anode s c (i - 1)) else pd ! i))"
  using assms(3,4)
proof (induction n arbitrary: k pd)
  case 0
  then show ?case by auto
next
  case (Suc n)
  have a: "get_non_cpu_pd_node_local_state s (anc s c k) = Some (nst s (anode s c k))"
    using topo_okD(4) [OF assms(1,2), of k] Suc.prems
    by (simp add: get_non_cpu_pd_node_local_state_def nst_def aget_simps)
  let ?pd = "pd[Suc k := nst s (anode s c k)]"
  obtain pd' where "get_target_loop s (anc s c (Suc k)) (Suc (Suc k)) n ?pd = Some pd'" "length pd' = length ?pd"
    "\<forall>i < length ?pd. pd' ! i = (if Suc k < i \<and> i \<le> Suc k + n then nst s (anode s c (i - 1)) else ?pd ! i)"
    using Suc.IH [of "Suc k" ?pd] Suc.prems by auto
  then show ?case
    using a Suc.prems pd_parent_anc [OF assms(1,2), of k]
    by (auto simp: aget_simps nth_list_update not_less_eq less_Suc_eq)
qed

lemma set_run_loop_spec:
  assumes "lvl + n \<le> length pd"
  shows "\<exists>pd'. set_run_loop lvl n pd = Some pd' \<and> length pd' = length pd \<and>
    (\<forall>i < length pd. pd' ! i = (if lvl \<le> i \<and> i < lvl + n then PSCI_LOCAL_STATE_RUN else pd ! i))"
  using assms
proof (induction n arbitrary: lvl pd)
  case 0
  then show ?case by auto
next
  case (Suc n)
  then show ?case
    using Suc.IH [of "Suc lvl" "pd[lvl := PSCI_LOCAL_STATE_RUN]"] by (auto simp: aget_simps nth_list_update)
qed

lemma psci_get_target_spec:
  assumes "topo_ok P s" "c < PLATFORM_CORE_COUNT P" "n \<le> PLAT_MAX_PWR_LVL P"
    and "length pd = PLAT_MAX_PWR_LVL P + 1"
  shows "\<exists>pd'. psci_get_target_local_pwr_states P c n pd s = Some pd' \<and> length pd' = PLAT_MAX_PWR_LVL P + 1 \<and>
    (\<forall>i \<le> PLAT_MAX_PWR_LVL P. pd' ! i =
      (if i = 0 then local_state (cd s c) else if i \<le> n then nst s (anode s c (i - 1)) else PSCI_LOCAL_STATE_RUN))"
proof -
  let ?p0 = "pd[0 := local_state (cd s c)]"
  have 0: "psci_get_cpu_local_state_by_idx s c = Some (local_state (cd s c))"
    using topo_okD(2) [OF assms(1,2)]
    by (simp add: psci_get_cpu_local_state_by_idx_def get_cpu_data_def cd_def aget_simps)
  obtain p1 where p1: "get_target_loop s (anc s c 0) 1 n ?p0 = Some p1" "length p1 = length ?p0"
    "\<forall>i < length ?p0. p1 ! i = (if 0 < i \<and> i \<le> n then nst s (anode s c (i - 1)) else ?p0 ! i)"
    using get_target_loop_spec [of P s c 0 n ?p0] assms by auto
  obtain p2 where p2: "set_run_loop (n + 1) (PLAT_MAX_PWR_LVL P - n) p1 = Some p2" "length p2 = length p1"
    "\<forall>i < length p1. p2 ! i = (if n + 1 \<le> i \<and> i < n + 1 + (PLAT_MAX_PWR_LVL P - n)
       then PSCI_LOCAL_STATE_RUN else p1 ! i)"
    using set_run_loop_spec [of "n + 1" "PLAT_MAX_PWR_LVL P - n" p1] assms(3,4) p1(2) by auto
  have "psci_get_target_local_pwr_states P c n pd s = Some p2"
    using 0 p1 p2 assms
    by (simp add: psci_get_target_local_pwr_states_def cpu_pd_parent_anc PSCI_CPU_PWR_LVL_def aget_simps)
  then show ?thesis using p1 p2 assms(3,4) by (intro exI [of _ p2]) (auto simp: less_Suc_eq_le)
qed

lemma set_target_loop_spec:
  assumes "topo_ok P s" "plat_ok P" "c < PLATFORM_CORE_COUNT P" "k + n \<le> PLAT_MAX_PWR_LVL P"
    and "k + n < length pd"
  shows "\<exists>s'. set_target_loop (anc s c k) (Suc k) n pd s = Some s' \<and> same_shape s s' \<and>
    s' = s\<lparr>psci_non_cpu_pd_nodes := psci_non_cpu_pd_nodes s'\<rparr> \<and>
    (\<forall>i. k \<le> i \<and> i < k + n \<longrightarrow> nst s' (anode s c i) = pd ! Suc i) \<and>
    (\<forall>j. j \<notin> anode s c ` {k ..< k + n} \<longrightarrow> nst s' j = nst s j)"
  using assms
proof (induction n arbitrary: k s)
  case 0
  then show ?case by auto
next
  case (Suc n)
  have k: "k < PLAT_MAX_PWR_LVL P" using Suc.prems by simp
  obtain s1 where s1: "set_non_cpu_pd_node_local_state (anc s c k) (pd ! Suc k) s = Some s1" "same_shape s s1"
    "s1 = s\<lparr>psci_non_cpu_pd_nodes := psci_non_cpu_pd_nodes s1\<rparr>"
    "nst s1 (anode s c k) = pd ! Suc k" "\<And>j. j \<noteq> anode s c k \<Longrightarrow> nst s1 j = nst s j"
    using set_node_spec [of "anc s c k" s "pd ! Suc k"] topo_okD(4) [OF Suc.prems(1,3) k] by auto
  have ok1: "topo_ok P s1" using same_shape_topo_ok [OF s1(2) Suc.prems(1)] .
  have a1: "anc s1 c i = anc s c i" if "i \<le> PLAT_MAX_PWR_LVL P" for i
    using same_shape_anc [OF s1(2) Suc.prems(1,3) that] .
  obtain s2 where s2: "set_target_loop (anc s1 c (Suc k)) (Suc (Suc k)) n pd s1 = Some s2" "same_shape s1 s2"
    "s2 = s1\<lparr>psci_non_cpu_pd_nodes := psci_non_cpu_pd_nodes s2\<rparr>"
    "\<And>i. Suc k \<le> i \<Longrightarrow> i < Suc k + n \<Longrightarrow> nst s2 (anode s1 c i) = pd ! Suc i"
    "\<And>j. j \<notin> anode s1 c ` {Suc k ..< Suc k + n} \<Longrightarrow> nst s2 j = nst s1 j"
    using Suc.IH [OF ok1 Suc.prems(2,3), of "Suc k"] Suc.prems(4,5) by auto
  have img: "anode s1 c ` {Suc k ..< Suc k + n} = anode s c ` {Suc k ..< Suc k + n}"
    using a1 Suc.prems(4) by (intro image_cong) auto
  have notin: "anode s c k \<notin> anode s c ` {Suc k ..< Suc k + n}"
  proof
    assume "anode s c k \<in> anode s c ` {Suc k ..< Suc k + n}"
    then obtain i where "Suc k \<le> i" "i < Suc k + n" "anode s c k = anode s c i" by auto
    then show False using anode_inj [OF Suc.prems(1,2,3) k, of i] Suc.prems(4) by simp
  qed
  have "pd_parent s1 (anc s c k) = Some (anc s1 c (Suc k))"
    using pd_parent_anc [OF ok1 Suc.prems(3) k] a1 [of k] k by simp
  then have run: "set_target_loop (anc s c k) (Suc k) (Suc n) pd s = Some s2"
    using s1(1) s2(1) Suc.prems(5) by (simp add: aget_simps)
  have at: "nst s2 (anode s c i) = pd ! Suc i" if "k \<le> i" "i < k + Suc n" for i
  proof (cases "i = k")
    case True
    then show ?thesis using s2(5) [of "anode s c k"] notin img s1(4) by simp
  next
    case False
    then show ?thesis using s2(4) [of i] a1 [of i] that Suc.prems(4) by simp
  qed
  have rest: "nst s2 j = nst s j" if j: "j \<notin> anode s c ` {k ..< k + Suc n}" for j
  proof -
    have "j \<noteq> anode s c k" "j \<notin> anode s1 c ` {Suc k ..< Suc k + n}"
      using j unfolding img by auto
    then show ?thesis using s1(5) s2(5) by simp
  qed
  have eq: "s2 = s\<lparr>psci_non_cpu_pd_nodes := psci_non_cpu_pd_nodes s2\<rparr>"
    using s1(3) s2(3) by (metis psci.update_convs(2) psci.surjective)
  show ?case using run same_shape_trans [OF s1(2) s2(2)] eq at rest by blast
qed

lemma psci_set_target_spec:
  assumes "topo_ok P s" "plat_ok P" "c < PLATFORM_CORE_COUNT P" "n \<le> PLAT_MAX_PWR_LVL P" "n < length pd"
  shows "\<exists>s'. psci_set_target_local_pwr_states c n pd s = Some s' \<and> same_shape s s' \<and>
    s' = s\<lparr>psci_non_cpu_pd_nodes := psci_non_cpu_pd_nodes s',
           psci_svc_cpu_data := (psci_svc_cpu_data s)[c := (cd s c)\<lparr>local_state := pd ! 0\<rparr>]\<rparr> \<and>
    (\<forall>i < n. nst s' (anode s c i) = pd ! Suc i) \<and>
    (\<forall>j. j \<notin> anode s c ` {..< n} \<longrightarrow> nst s' j = nst s j)"
proof -
  let ?d = "(psci_svc_cpu_data s)[c := (cd s c)\<lparr>local_state := pd ! 0\<rparr>]"
  let ?s = "s\<lparr>psci_svc_cpu_data := ?d\<rparr>"
  have 0: "psci_set_cpu_local_state c (pd ! 0) s = Some ?s"
    using topo_okD(2) [OF assms(1,3)]
    by (simp add: psci_set_cpu_local_state_def upd_cpu_data_def cd_def aget_simps)
  have sh: "same_shape s ?s" by simp
  have ok: "topo_ok P ?s" using same_shape_topo_ok [OF sh assms(1)] .
  obtain s' where s': "set_target_loop (anc ?s c 0) 1 n pd ?s = Some s'" "same_shape ?s s'"
    "s' = ?s\<lparr>psci_non_cpu_pd_nodes := psci_non_cpu_pd_nodes s'\<rparr>"
    "\<forall>i. 0 \<le> i \<and> i < 0 + n \<longrightarrow> nst s' (anode ?s c i) = pd ! Suc i"
    "\<forall>j. j \<notin> anode ?s c ` {0 ..< 0 + n} \<longrightarrow> nst s' j = nst ?s j"
    using set_target_loop_spec [OF ok assms(2,3), of 0 n pd] assms(4,5) by auto
  have "psci_set_target_local_pwr_states c n pd s = Some s'"
    using 0 s'(1) le_less_trans [OF le0 assms(5)] cpu_pd_parent_anc [OF ok assms(3)]
    by (simp add: psci_set_target_local_pwr_states_def PSCI_CPU_PWR_LVL_def aget_simps)
  moreover have "same_shape s s'" using same_shape_trans [OF sh s'(2)] .
  moreover have "s' = s\<lparr>psci_non_cpu_pd_nodes := psci_non_cpu_pd_nodes s', psci_svc_cpu_data := ?d\<rparr>"
    using s'(3) by (metis psci.update_convs(2,4) psci.surjective)
  moreover have "nst ?s j = nst s j" for j by (simp add: nst_def)
  ultimately show ?thesis using s'(4,5) by (intro exI [of _ s']) (simp add: lessThan_atLeast0)
qed

lemma set_domains_run_loop_spec:
  assumes "topo_ok P s" "plat_ok P" "c < PLATFORM_CORE_COUNT P" "k + n \<le> PLAT_MAX_PWR_LVL P"
  shows "\<exists>s'. set_domains_run_loop c (anc s c k) (Suc k) n s = Some s' \<and> same_shape s s' \<and>
    s' = s\<lparr>psci_req_local_pwr_states := psci_req_local_pwr_states s',
           psci_non_cpu_pd_nodes := psci_non_cpu_pd_nodes s'\<rparr> \<and>
    (\<forall>i. k \<le> i \<and> i < k + n \<longrightarrow> nst s' (anode s c i) = PSCI_LOCAL_STATE_RUN) \<and>
    (\<forall>j. nst s' j = nst s j \<or> nst s' j = PSCI_LOCAL_STATE_RUN) \<and>
    (\<forall>i d. rq s' i d = (if d = c \<and> k \<le> i \<and> i < k + n then PSCI_LOCAL_STATE_RUN else rq s i d))"
  using assms
proof (induction n arbitrary: k s)
  case 0
  then show ?case by auto
next
  case (Suc n)
  have k: "k < PLAT_MAX_PWR_LVL P" using Suc.prems by simp
  obtain s1 where s1: "set_non_cpu_pd_node_local_state (anc s c k) PSCI_LOCAL_STATE_RUN s = Some s1"
    "same_shape s s1" "s1 = s\<lparr>psci_non_cpu_pd_nodes := psci_non_cpu_pd_nodes s1\<rparr>"
    "nst s1 (anode s c k) = PSCI_LOCAL_STATE_RUN" "\<And>j. j \<noteq> anode s c k \<Longrightarrow> nst s1 j = nst s j"
    using set_node_spec [of "anc s c k" s PSCI_LOCAL_STATE_RUN] topo_okD(4) [OF Suc.prems(1,3) k] by auto
  have ok1: "topo_ok P s1" using same_shape_topo_ok [OF s1(2) Suc.prems(1)] .
  obtain s2 where s2: "psci_set_req_local_pwr_state (Suc k) c PSCI_LOCAL_STATE_RUN s1 = Some s2"
    "same_shape s1 s2" "s2 = s1\<lparr>psci_req_local_pwr_states := psci_req_local_pwr_states s2\<rparr>"
    "\<And>i d. rq s2 i d = (if i = k \<and> d = c then PSCI_LOCAL_STATE_RUN else rq s1 i d)"
    using set_req_spec [OF ok1 Suc.prems(3) k, of PSCI_LOCAL_STATE_RUN] by blast
  have ok2: "topo_ok P s2" using same_shape_topo_ok [OF s2(2) ok1] .
  have a2: "anc s2 c i = anc s c i" if "i \<le> PLAT_MAX_PWR_LVL P" for i
    using same_shape_anc [OF s1(2) Suc.prems(1,3) that] same_shape_anc [OF s2(2) ok1 Suc.prems(3) that] by simp
  obtain s3 where s3: "set_domains_run_loop c (anc s2 c (Suc k)) (Suc (Suc k)) n s2 = Some s3"
    "same_shape s2 s3"
    "s3 = s2\<lparr>psci_req_local_pwr_states := psci_req_local_pwr_states s3,
            psci_non_cpu_pd_nodes := psci_non_cpu_pd_nodes s3\<rparr>"
    "\<And>i. Suc k \<le> i \<Longrightarrow> i < Suc k + n \<Longrightarrow> nst s3 (anode s2 c i) = PSCI_LOCAL_STATE_RUN"
    "\<And>j. nst s3 j = nst s2 j \<or> nst s3 j = PSCI_LOCAL_STATE_RUN"
    "\<And>i d. rq s3 i d = (if d = c \<and> Suc k \<le> i \<and> i < Suc k + n then PSCI_LOCAL_STATE_RUN else rq s2 i d)"
    using Suc.IH [OF ok2 Suc.prems(2,3), of "Suc k"] Suc.prems(4) by auto
  have n2: "nst s2 j = nst s1 j" for j using arg_cong [OF s2(3), of psci_non_cpu_pd_nodes] by (simp add: nst_def)
  have r1: "rq s1 i d = rq s i d" for i d
    using arg_cong [OF s1(3), of psci_req_local_pwr_states] by (simp add: rq_def)
  have "pd_parent s2 (anc s c k) = Some (anc s2 c (Suc k))"
    using pd_parent_anc [OF ok2 Suc.prems(3) k] a2 [of k] k by simp
  then have run: "set_domains_run_loop c (anc s c k) (Suc k) (Suc n) s = Some s3"
    using s1(1) s2(1) s3(1) by simp
  have at: "nst s3 (anode s c i) = PSCI_LOCAL_STATE_RUN" if "k \<le> i" "i < k + Suc n" for i
  proof (cases "i = k")
    case True
    then show ?thesis using s3(5) [of "anode s c k"] n2 s1(4) by auto
  next
    case False
    then show ?thesis using s3(4) [of i] a2 [of i] that Suc.prems(4) by simp
  qed
  have any: "nst s3 j = nst s j \<or> nst s3 j = PSCI_LOCAL_STATE_RUN" for j
    using s3(5) [of j] n2 [of j] s1(4) s1(5) [of j] by metis
  have req: "rq s3 i d = (if d = c \<and> k \<le> i \<and> i < k + Suc n then PSCI_LOCAL_STATE_RUN else rq s i d)" for i d
    using s3(6) [of i d] s2(4) [of i d] r1 [of i d] by auto
  have eq: "s3 = s\<lparr>psci_req_local_pwr_states := psci_req_local_pwr_states s3,
            psci_non_cpu_pd_nodes := psci_non_cpu_pd_nodes s3\<rparr>"
    using s1(3) s2(3) s3(3) by (metis psci.update_convs(1,2) psci.surjective)
  have sh: "same_shape s s3"
    using same_shape_trans [OF s1(2) same_shape_trans [OF s2(2) s3(2)]] .
  show ?case using run sh eq at any req by blast
qed

end
