(* ===== verification/Psci_coord.thy ===== *)
theory Psci_coord
  imports Psci_topo
begin

text \<open>
  State coordination: the negotiated state of every domain above a CPU that powers down is
  the shallowest state requested by the CPUs below it, and RUN from the first domain on in
  which some CPU requests RUN.
\<close>

section \<open>The shallowest request\<close>

definition coord_min :: "plat \<Rightarrow> psci \<Rightarrow> (nat \<Rightarrow> nat \<Rightarrow> plat_local_state) \<Rightarrow> nat \<Rightarrow> nat \<Rightarrow> plat_local_state" where
  "coord_min P s R c k = Min (insert (PLAT_MAX_OFF_STATE P) (R k ` cpus_of s (anode s c k)))"

lemma foldl_min:
  fixes x :: "'a :: linorder"
  shows "foldl (\<lambda>t y. if y < t then y else t) x ys = Min (insert x (set ys))"
proof (induction ys arbitrary: x)
  case Nil
  then show ?case by simp
next
  case (Cons y ys)
  have "Min (insert (min x y) (set ys)) = Min (insert x (insert y (set ys)))"
    by (cases "ys = []") (simp_all add: min.assoc)
  moreover have "(if y < x then y else x) = min x y" by (auto simp: min_def)
  ultimately show ?case using Cons [of "min x y"] by simp
qed

lemma plat_get_target_spec:
  "states \<noteq> [] \<Longrightarrow>
   plat_get_target_pwr_state P states = Some (Min (insert (PLAT_MAX_OFF_STATE P) (set states)))"
  by (simp add: plat_get_target_pwr_state_def foldl_min)

lemma set_take_drop:
  assumes "i + n \<le> length xs"
  shows "set (take n (drop i xs)) = (\<lambda>j. xs ! j) ` {i ..< i + n}"
proof -
  have "take n (drop i xs) = map (\<lambda>j. xs ! j) [i ..< i + n]"
    using assms by (intro nth_equalityI) auto
  then show ?thesis by (simp only: set_map set_upt)
qed

lemma range_bound: "{a ..< a + n} \<subseteq> {..< m} \<Longrightarrow> 0 < n \<Longrightarrow> a + n \<le> (m :: nat)"
proof -
  assume a: "{a ..< a + n} \<subseteq> {..< m}" "0 < n"
  then have "a + n - 1 \<in> {..< m}" by (intro subsetD [OF a(1)]) auto
  then show ?thesis using a(2) by simp
qed

lemma get_req_spec:
  assumes "topo_ok P s" "c < PLATFORM_CORE_COUNT P" "k < PLAT_MAX_PWR_LVL P"
  shows "\<exists>xs. psci_get_req_local_pwr_states s (Suc k)
      (unat (cpu_start_idx (psci_non_cpu_pd_nodes s ! anode s c k)))
      (unat (ncpus (psci_non_cpu_pd_nodes s ! anode s c k))) = Some xs \<and>
    xs \<noteq> [] \<and> set xs = rq s k ` cpus_of s (anode s c k)"
proof -
  let ?nd = "psci_non_cpu_pd_nodes s ! anode s c k"
  let ?a = "unat (cpu_start_idx ?nd)" and ?n = "unat (ncpus ?nd)"
  have ok: "node_ok P s c k" using topo_okD(3) [OF assms] .
  have cpus: "cpus_of s (anode s c k) = {?a ..< ?a + ?n}" by (simp add: cpus_of_def Let_def)
  have "c \<in> {?a ..< ?a + ?n}" "{?a ..< ?a + ?n} \<subseteq> {..< PLATFORM_CORE_COUNT P}"
    using ok unfolding node_ok_def cpus by auto
  then have n: "0 < ?n" "?a + ?n \<le> PLATFORM_CORE_COUNT P"
    using range_bound [of ?a ?n "PLATFORM_CORE_COUNT P"] by auto
  have k: "k < length (psci_req_local_pwr_states s)"
    and l: "length (psci_req_local_pwr_states s ! k) = PLATFORM_CORE_COUNT P"
    using topo_okD(5,6) [OF assms] by auto
  let ?xs = "take ?n (drop ?a (psci_req_local_pwr_states s ! k))"
  have "psci_get_req_local_pwr_states s (Suc k) ?a ?n = Some ?xs"
    using k l n by (simp add: psci_get_req_local_pwr_states_def PSCI_CPU_PWR_LVL_def aget_simps)
  moreover have "?xs \<noteq> []" using n l by simp
  moreover have "set ?xs = rq s k ` cpus_of s (anode s c k)"
    unfolding cpus using set_take_drop [of ?a ?n "psci_req_local_pwr_states s ! k"] n l
    by (simp add: rq_def [abs_def])
  ultimately show ?thesis by blast
qed

section \<open>The loops\<close>

lemma coord_rest_loop_spec:
  assumes "topo_ok P s" "c < PLATFORM_CORE_COUNT P" "k + n \<le> PLAT_MAX_PWR_LVL P" "k + n < length st"
  shows "\<exists>st' s'. coord_rest_loop c (Suc k) n st s = Some (st', s') \<and> same_shape s s' \<and>
    s' = s\<lparr>psci_req_local_pwr_states := psci_req_local_pwr_states s'\<rparr> \<and> length st' = length st \<and>
    (\<forall>i. st' ! i = (if k < i \<and> i \<le> k + n then PSCI_LOCAL_STATE_RUN else st ! i)) \<and>
    (\<forall>i d. rq s' i d = (if d = c \<and> k \<le> i \<and> i < k + n then st ! Suc i else rq s i d))"
  using assms
proof (induction n arbitrary: k s st)
  case 0
  then show ?case by auto
next
  case (Suc n)
  have k: "k < PLAT_MAX_PWR_LVL P" using Suc.prems by simp
  obtain s1 where s1: "psci_set_req_local_pwr_state (Suc k) c (st ! Suc k) s = Some s1" "same_shape s s1"
    "s1 = s\<lparr>psci_req_local_pwr_states := psci_req_local_pwr_states s1\<rparr>"
    "\<And>i d. rq s1 i d = (if i = k \<and> d = c then st ! Suc k else rq s i d)"
    using set_req_spec [OF Suc.prems(1,2) k, of "st ! Suc k"] by blast
  have ok1: "topo_ok P s1" using same_shape_topo_ok [OF s1(2) Suc.prems(1)] .
  let ?st = "st[Suc k := PSCI_LOCAL_STATE_RUN]"
  obtain st' s' where s': "coord_rest_loop c (Suc (Suc k)) n ?st s1 = Some (st', s')" "same_shape s1 s'"
    "s' = s1\<lparr>psci_req_local_pwr_states := psci_req_local_pwr_states s'\<rparr>" "length st' = length ?st"
    "\<And>i. st' ! i = (if Suc k < i \<and> i \<le> Suc k + n then PSCI_LOCAL_STATE_RUN else ?st ! i)"
    "\<And>i d. rq s' i d = (if d = c \<and> Suc k \<le> i \<and> i < Suc k + n then ?st ! Suc i else rq s1 i d)"
    using Suc.IH [OF ok1 Suc.prems(2), of "Suc k" ?st] Suc.prems(3,4) by auto
  have run: "coord_rest_loop c (Suc k) (Suc n) st s = Some (st', s')"
    using s1(1) s'(1) Suc.prems(4) by (simp add: aget_simps)
  have vals: "st' ! i = (if k < i \<and> i \<le> k + Suc n then PSCI_LOCAL_STATE_RUN else st ! i)" for i
    using s'(5) [of i] Suc.prems(4) by (auto simp: nth_list_update)
  have req: "rq s' i d = (if d = c \<and> k \<le> i \<and> i < k + Suc n then st ! Suc i else rq s i d)" for i d
    using s'(6) [of i d] s1(4) [of i d] by auto
  have eq: "s' = s\<lparr>psci_req_local_pwr_states := psci_req_local_pwr_states s'\<rparr>"
    using s1(3) s'(3) by (metis psci.update_convs(1) psci.surjective)
  have len: "length st' = length st" using s'(4) by simp
  show ?case using run same_shape_trans [OF s1(2) s'(2)] eq len vals req by blast
qed

text \<open>The state negotiated for a level, RUN once a level below is RUN.\<close>

definition coord_state ::
  "plat \<Rightarrow> psci \<Rightarrow> (nat \<Rightarrow> nat \<Rightarrow> plat_local_state) \<Rightarrow> nat \<Rightarrow> nat \<Rightarrow> nat \<Rightarrow> plat_local_state" where
  "coord_state P s R c k i =
     (if \<forall>j. k \<le> j \<and> j \<le> i \<longrightarrow> coord_min P s R c j \<noteq> PSCI_LOCAL_STATE_RUN then coord_min P s R c i
      else PSCI_LOCAL_STATE_RUN)"

lemma coord_state_run:
  "coord_min P s R c k = PSCI_LOCAL_STATE_RUN \<Longrightarrow> k \<le> i \<Longrightarrow> coord_state P s R c k i = PSCI_LOCAL_STATE_RUN"
  by (auto simp: coord_state_def)

lemma coord_state_first: "coord_state P s R c k k = coord_min P s R c k"
  by (auto simp: coord_state_def)

lemma coord_state_next:
  assumes "coord_min P s R c k \<noteq> PSCI_LOCAL_STATE_RUN" "k < i"
  shows "coord_state P s R c k i = coord_state P s R c (Suc k) i"
proof -
  have "(\<forall>j. k \<le> j \<and> j \<le> i \<longrightarrow> coord_min P s R c j \<noteq> PSCI_LOCAL_STATE_RUN) =
      (\<forall>j. Suc k \<le> j \<and> j \<le> i \<longrightarrow> coord_min P s R c j \<noteq> PSCI_LOCAL_STATE_RUN)"
    using assms by (metis Suc_leD Suc_leI le_neq_implies_less)
  then show ?thesis by (simp add: coord_state_def)
qed

text \<open>The states after the coordination of a request \<open>st\<close> of a CPU up to level \<open>n\<close>.\<close>

definition coordinated :: "plat \<Rightarrow> psci \<Rightarrow> nat \<Rightarrow> nat \<Rightarrow> psci_power_state \<Rightarrow> psci_power_state" where
  "coordinated P s me n st =
     map (\<lambda>i. if i = 0 \<or> n < i then st ! i
              else coord_state P s (\<lambda>k d. if d = me \<and> k < n then st ! Suc k else rq s k d) me 0 (i - 1)) [0 ..< length st]"

lemma coordinated_trace: "coordinated P (s\<lparr>trace := t\<rparr>) me n st = coordinated P s me n st"
proof -
  have "anc (s\<lparr>trace := t\<rparr>) c k = anc s c k" for c k by (intro anc_cong) auto
  then show ?thesis
    by (simp add: coordinated_def coord_state_def coord_min_def cpus_of_def rq_def cong: if_cong)
qed

lemma coord_loop_spec:
  assumes "topo_ok P s" "c < PLATFORM_CORE_COUNT P" "k + n \<le> PLAT_MAX_PWR_LVL P" "k + n < length st"
  shows "\<exists>st' s'. coord_loop P c (anc s c k) (Suc k) n st s = Some (st', s') \<and> same_shape s s' \<and>
    s' = s\<lparr>psci_req_local_pwr_states := psci_req_local_pwr_states s'\<rparr> \<and> length st' = length st \<and>
    (\<forall>i. \<not> (k < i \<and> i \<le> k + n) \<longrightarrow> st' ! i = st ! i) \<and>
    (\<forall>i. k \<le> i \<and> i < k + n \<longrightarrow> st' ! Suc i = coord_state P s (rq s') c k i) \<and>
    (\<forall>i d. rq s' i d = (if d = c \<and> k \<le> i \<and> i < k + n then st ! Suc i else rq s i d))"
  using assms
proof (induction n arbitrary: k s st)
  case 0
  then show ?case by auto
next
  case (Suc n)
  have k: "k < PLAT_MAX_PWR_LVL P" using Suc.prems by simp
  obtain s1 where s1: "psci_set_req_local_pwr_state (Suc k) c (st ! Suc k) s = Some s1" "same_shape s s1"
    "s1 = s\<lparr>psci_req_local_pwr_states := psci_req_local_pwr_states s1\<rparr>"
    "\<And>i d. rq s1 i d = (if i = k \<and> d = c then st ! Suc k else rq s i d)"
    using set_req_spec [OF Suc.prems(1,2) k, of "st ! Suc k"] by blast
  have ok1: "topo_ok P s1" using same_shape_topo_ok [OF s1(2) Suc.prems(1)] .
  have nodes: "psci_non_cpu_pd_nodes s1 = psci_non_cpu_pd_nodes s"
    using arg_cong [OF s1(3), of psci_non_cpu_pd_nodes] by simp
  have anc1: "anc s1 c i = anc s c i" for i
    using arg_cong [OF s1(3), of psci_cpu_pd_nodes] nodes by (intro anc_cong) auto
  have cpus1: "cpus_of s1 j = cpus_of s j" for j by (simp add: cpus_of_def nodes)
  have cm1: "coord_min P s1 R c i = coord_min P s R c i" for R i
    by (simp add: coord_min_def anc1 cpus1)
  define t where "t = coord_min P s (rq s1) c k"
  obtain xs where xs: "psci_get_req_local_pwr_states s1 (Suc k)
      (unat (cpu_start_idx (psci_non_cpu_pd_nodes s1 ! anode s c k)))
      (unat (ncpus (psci_non_cpu_pd_nodes s1 ! anode s c k))) = Some xs"
      "plat_get_target_pwr_state P xs = Some t"
    using get_req_spec [OF ok1 Suc.prems(2) k] plat_get_target_spec
    by (metis anc1 coord_min_def cpus1 t_def)
  let ?st = "st[Suc k := t]"
  have step: "coord_loop P c (anc s c k) (Suc k) (Suc n) st s =
      (if is_local_state_run t then coord_rest_loop c (Suc (Suc k)) n ?st s1
       else coord_loop P c (anc s1 c (Suc k)) (Suc (Suc k)) n ?st s1)"
    using s1(1) xs Suc.prems(4) topo_okD(4) [OF ok1 Suc.prems(2) k]
    by (simp add: aget_simps anc1 anc.simps(2) nodes)
  have rq_k: "rq s' k = rq s1 k \<Longrightarrow> coord_min P s (rq s') c k = t" for s'
    by (simp add: t_def coord_min_def)
  show ?case
  proof (cases "t = PSCI_LOCAL_STATE_RUN")
    case True
    obtain st' s' where s': "coord_rest_loop c (Suc (Suc k)) n ?st s1 = Some (st', s')" "same_shape s1 s'"
      "s' = s1\<lparr>psci_req_local_pwr_states := psci_req_local_pwr_states s'\<rparr>" "length st' = length ?st"
      "\<And>i. st' ! i = (if Suc k < i \<and> i \<le> Suc k + n then PSCI_LOCAL_STATE_RUN else ?st ! i)"
      "\<And>i d. rq s' i d = (if d = c \<and> Suc k \<le> i \<and> i < Suc k + n then ?st ! Suc i else rq s1 i d)"
      using coord_rest_loop_spec [OF ok1 Suc.prems(2), of "Suc k" n ?st] Suc.prems(3,4) by auto
    have ck: "coord_min P s (rq s') c k = PSCI_LOCAL_STATE_RUN"
      using rq_k [of s'] s'(6) [of k] True by (auto simp: fun_eq_iff)
    have vals: "st' ! Suc i = coord_state P s (rq s') c k i" if "k \<le> i" "i < k + Suc n" for i
      using s'(5) [of "Suc i"] coord_state_run [OF ck, of i] that Suc.prems(4) True
      by (auto simp: nth_list_update)
    have same: "st' ! i = st ! i" if "\<not> (k < i \<and> i \<le> k + Suc n)" for i
      using s'(5) [of i] that by auto
    have req: "rq s' i d = (if d = c \<and> k \<le> i \<and> i < k + Suc n then st ! Suc i else rq s i d)" for i d
      using s'(6) [of i d] s1(4) [of i d] by auto
    have eq: "s' = s\<lparr>psci_req_local_pwr_states := psci_req_local_pwr_states s'\<rparr>"
      using s1(3) s'(3) by (metis psci.update_convs(1) psci.surjective)
    have "coord_loop P c (anc s c k) (Suc k) (Suc n) st s = Some (st', s')"
      using step s'(1) True by (simp add: is_local_state_run_def)
    then show ?thesis using same_shape_trans [OF s1(2) s'(2)] eq s'(4) same vals req by auto
  next
    case False
    obtain st' s' where s': "coord_loop P c (anc s1 c (Suc k)) (Suc (Suc k)) n ?st s1 = Some (st', s')"
      "same_shape s1 s'" "s' = s1\<lparr>psci_req_local_pwr_states := psci_req_local_pwr_states s'\<rparr>"
      "length st' = length ?st"
      "\<And>i. \<not> (Suc k < i \<and> i \<le> Suc k + n) \<Longrightarrow> st' ! i = ?st ! i"
      "\<And>i. Suc k \<le> i \<Longrightarrow> i < Suc k + n \<Longrightarrow> st' ! Suc i = coord_state P s1 (rq s') c (Suc k) i"
      "\<And>i d. rq s' i d = (if d = c \<and> Suc k \<le> i \<and> i < Suc k + n then ?st ! Suc i else rq s1 i d)"
      using Suc.IH [OF ok1 Suc.prems(2), of "Suc k" ?st] Suc.prems(3,4) by auto
    have ck: "coord_min P s (rq s') c k = t"
      using rq_k [of s'] s'(7) [of k] by (auto simp: fun_eq_iff)
    have cs1: "coord_state P s1 (rq s') c (Suc k) i = coord_state P s (rq s') c (Suc k) i" for i
      unfolding coord_state_def cm1 by (rule refl)
    have vals: "st' ! Suc i = coord_state P s (rq s') c k i" if "k \<le> i" "i < k + Suc n" for i
    proof (cases "i = k")
      case True
      then show ?thesis using s'(5) [of "Suc k"] ck Suc.prems(4) by (simp add: coord_state_first)
    next
      case False
      then show ?thesis
        using s'(6) [of i] that cs1 coord_state_next [of P s "rq s'" c k i] ck \<open>t \<noteq> _\<close> by simp
    qed
    have same: "st' ! i = st ! i" if "\<not> (k < i \<and> i \<le> k + Suc n)" for i
      using s'(5) [of i] that by auto
    have req: "rq s' i d = (if d = c \<and> k \<le> i \<and> i < k + Suc n then st ! Suc i else rq s i d)" for i d
      using s'(7) [of i d] s1(4) [of i d] by auto
    have eq: "s' = s\<lparr>psci_req_local_pwr_states := psci_req_local_pwr_states s'\<rparr>"
      using s1(3) s'(3) by (metis psci.update_convs(1) psci.surjective)
    have "coord_loop P c (anc s c k) (Suc k) (Suc n) st s = Some (st', s')"
      using step s'(1) False by (simp add: is_local_state_run_def)
    then show ?thesis using same_shape_trans [OF s1(2) s'(2)] eq s'(4) same vals req by auto
  qed
qed

section \<open>Coordination\<close>

lemma psci_do_state_coordination_spec:
  assumes "topo_ok P s" "plat_ok P" "me < PLATFORM_CORE_COUNT P" "n \<le> PLAT_MAX_PWR_LVL P"
    and "length st = PLAT_MAX_PWR_LVL P + 1"
  shows "\<exists>st' s'. psci_do_state_coordination P me n st s = Some (st', s') \<and> same_shape s s' \<and>
    s' = s\<lparr>psci_req_local_pwr_states := psci_req_local_pwr_states s',
           psci_non_cpu_pd_nodes := psci_non_cpu_pd_nodes s',
           psci_svc_cpu_data := (psci_svc_cpu_data s)[me := (cd s me)\<lparr>local_state := st ! 0\<rparr>]\<rparr> \<and>
    length st' = length st \<and> st' ! 0 = st ! 0 \<and>
    (\<forall>i < n. st' ! Suc i = coord_state P s (rq s') me 0 i) \<and>
    (\<forall>i. n < i \<longrightarrow> st' ! i = st ! i) \<and>
    (\<forall>i < n. nst s' (anode s me i) = st' ! Suc i) \<and>
    (\<forall>j. j \<notin> anode s me ` {..< n} \<longrightarrow> nst s' j = nst s j) \<and>
    (\<forall>i d. rq s' i d = (if d = me \<and> i < n then st ! Suc i else rq s i d))"
proof -
  obtain st' s1 where s1: "coord_loop P me (anc s me 0) 1 n st s = Some (st', s1)" "same_shape s s1"
    "s1 = s\<lparr>psci_req_local_pwr_states := psci_req_local_pwr_states s1\<rparr>" "length st' = length st"
    "\<And>i. \<not> (0 < i \<and> i \<le> 0 + n) \<Longrightarrow> st' ! i = st ! i"
    "\<And>i. 0 \<le> i \<Longrightarrow> i < 0 + n \<Longrightarrow> st' ! Suc i = coord_state P s (rq s1) me 0 i"
    "\<And>i d. rq s1 i d = (if d = me \<and> 0 \<le> i \<and> i < 0 + n then st ! Suc i else rq s i d)"
    using coord_loop_spec [of P s me 0 n st] assms by auto
  have ok1: "topo_ok P s1" using same_shape_topo_ok [OF s1(2) assms(1)] .
  have anc1: "anc s1 me i = anc s me i" for i
    using arg_cong [OF s1(3), of psci_cpu_pd_nodes] arg_cong [OF s1(3), of psci_non_cpu_pd_nodes]
    by (intro anc_cong) auto
  obtain s2 where s2: "psci_set_target_local_pwr_states me n st' s1 = Some s2" "same_shape s1 s2"
    "s2 = s1\<lparr>psci_non_cpu_pd_nodes := psci_non_cpu_pd_nodes s2,
            psci_svc_cpu_data := (psci_svc_cpu_data s1)[me := (cd s1 me)\<lparr>local_state := st' ! 0\<rparr>]\<rparr>"
    "\<And>i. i < n \<Longrightarrow> nst s2 (anode s1 me i) = st' ! Suc i"
    "\<And>j. j \<notin> anode s1 me ` {..< n} \<Longrightarrow> nst s2 j = nst s1 j"
    using psci_set_target_spec [OF ok1 assms(2,3,4), of st'] s1(4) assms(4,5) by auto
  have run: "psci_do_state_coordination P me n st s = Some (st', s2)"
    using s1(1) s2(1) assms(4) cpu_pd_parent_anc [OF assms(1,3)]
    by (simp add: psci_do_state_coordination_def)
  have n1: "nst s1 j = nst s j" for j
    using arg_cong [OF s1(3), of psci_non_cpu_pd_nodes] by (simp add: nst_def)
  have r2: "rq s2 = rq s1"
    using arg_cong [OF s2(3), of psci_req_local_pwr_states] by (simp add: rq_def fun_eq_iff)
  have c1: "cd s1 me = cd s me" "psci_svc_cpu_data s1 = psci_svc_cpu_data s"
    using arg_cong [OF s1(3), of psci_svc_cpu_data] by (simp_all add: cd_def)
  have st0: "st' ! 0 = st ! 0" using s1(5) [of 0] by simp
  have eq: "s2 = s\<lparr>psci_req_local_pwr_states := psci_req_local_pwr_states s2,
           psci_non_cpu_pd_nodes := psci_non_cpu_pd_nodes s2,
           psci_svc_cpu_data := (psci_svc_cpu_data s)[me := (cd s me)\<lparr>local_state := st ! 0\<rparr>]\<rparr>"
    using s1(3) s2(3) c1 st0 by (metis psci.update_convs(1,2,4) psci.surjective)
  have "nst s2 j = nst s j" if "j \<notin> anode s me ` {..< n}" for j
    using s2(5) [of j] that anc1 n1 by simp
  then show ?thesis
    using run same_shape_trans [OF s1(2) s2(2)] eq s1(4,5,6,7) st0 s2(4) anc1 r2
    by (intro exI [of _ st'] exI [of _ s2]) auto
qed

lemma psci_set_pwr_domains_to_run_spec:
  assumes "topo_ok P s" "plat_ok P" "me < PLATFORM_CORE_COUNT P" "n \<le> PLAT_MAX_PWR_LVL P"
  shows "\<exists>s'. psci_set_pwr_domains_to_run me n s = Some s' \<and> same_shape s s' \<and>
    s' = s\<lparr>psci_req_local_pwr_states := psci_req_local_pwr_states s',
           psci_non_cpu_pd_nodes := psci_non_cpu_pd_nodes s',
           psci_svc_cpu_data := (psci_svc_cpu_data s)
             [me := (cd s me)\<lparr>aff_info_state := AFF_STATE_ON, local_state := PSCI_LOCAL_STATE_RUN\<rparr>]\<rparr> \<and>
    (\<forall>i < n. nst s' (anode s me i) = PSCI_LOCAL_STATE_RUN) \<and>
    (\<forall>j. nst s' j = nst s j \<or> nst s' j = PSCI_LOCAL_STATE_RUN) \<and>
    (\<forall>i d. rq s' i d = (if d = me \<and> i < n then PSCI_LOCAL_STATE_RUN else rq s i d))"
proof -
  obtain s1 where s1: "set_domains_run_loop me (anc s me 0) 1 n s = Some s1" "same_shape s s1"
    "s1 = s\<lparr>psci_req_local_pwr_states := psci_req_local_pwr_states s1,
           psci_non_cpu_pd_nodes := psci_non_cpu_pd_nodes s1\<rparr>"
    "\<And>i. 0 \<le> i \<Longrightarrow> i < 0 + n \<Longrightarrow> nst s1 (anode s me i) = PSCI_LOCAL_STATE_RUN"
    "\<And>j. nst s1 j = nst s j \<or> nst s1 j = PSCI_LOCAL_STATE_RUN"
    "\<And>i d. rq s1 i d = (if d = me \<and> 0 \<le> i \<and> i < 0 + n then PSCI_LOCAL_STATE_RUN else rq s i d)"
    using set_domains_run_loop_spec [of P s me 0 n] assms by auto
  let ?d = "(psci_svc_cpu_data s)
             [me := (cd s me)\<lparr>aff_info_state := AFF_STATE_ON, local_state := PSCI_LOCAL_STATE_RUN\<rparr>]"
  let ?s = "s1\<lparr>psci_svc_cpu_data := ?d\<rparr>"
  have c1: "psci_svc_cpu_data s1 = psci_svc_cpu_data s"
    using arg_cong [OF s1(3), of psci_svc_cpu_data] by simp
  have run: "psci_set_pwr_domains_to_run me n s = Some ?s"
    using s1(1) c1 topo_okD(2) [OF assms(1,3)] cpu_pd_parent_anc [OF assms(1,3)]
    by (simp add: psci_set_pwr_domains_to_run_def psci_set_aff_info_state_by_idx_def
        psci_set_cpu_local_state_def upd_cpu_data_def cd_def aget_simps)
  have sh: "same_shape s ?s" using s1(2) c1 by (intro same_shape_trans [OF s1(2)]) simp
  have eq: "?s = s\<lparr>psci_req_local_pwr_states := psci_req_local_pwr_states ?s,
           psci_non_cpu_pd_nodes := psci_non_cpu_pd_nodes ?s, psci_svc_cpu_data := ?d\<rparr>"
    by (subst s1(3)) simp
  have "nst ?s j = nst s1 j" "rq ?s i d = rq s1 i d" for j i d by (simp_all add: nst_def rq_def)
  then show ?thesis using run sh eq s1(4,5,6) by (intro exI [of _ ?s]) simp
qed

end
