(* ===== verification/Psci_inv.thy ===== *)
theory Psci_inv
  imports Psci_coord
begin

text \<open>
  The invariant of the service and that every operation keeps it: a CPU that runs has no
  ancestor domain in a low-power state.
\<close>

section \<open>Invariant\<close>

datatype cpu_mode = Running | Standby nat | Down

text \<open>A domain below which some CPU requests RUN is in RUN.\<close>

definition req_ok :: "plat \<Rightarrow> psci \<Rightarrow> bool" where
  "req_ok P s \<longleftrightarrow> (\<forall>c < PLATFORM_CORE_COUNT P. \<forall>k < PLAT_MAX_PWR_LVL P.
     rq s k c = PSCI_LOCAL_STATE_RUN \<longrightarrow> nst s (anode s c k) = PSCI_LOCAL_STATE_RUN)"

definition runs_from :: "plat \<Rightarrow> psci \<Rightarrow> nat \<Rightarrow> nat \<Rightarrow> bool" where
  "runs_from P s c l \<longleftrightarrow> (\<forall>k. l \<le> k \<and> k < PLAT_MAX_PWR_LVL P \<longrightarrow> rq s k c = PSCI_LOCAL_STATE_RUN)"

definition cpu_ok :: "plat \<Rightarrow> psci \<Rightarrow> nat \<Rightarrow> cpu_mode \<Rightarrow> bool" where
  "cpu_ok P s c m =
     (case m of
        Running \<Rightarrow> aff_info_state (cd s c) = AFF_STATE_ON \<and> local_state (cd s c) = PSCI_LOCAL_STATE_RUN \<and>
          target_pwrlvl (cd s c) = PSCI_INVALID_PWR_LVL P \<and> runs_from P s c 0
      | Standby l \<Rightarrow> aff_info_state (cd s c) = AFF_STATE_ON \<and> l \<le> PLAT_MAX_PWR_LVL P \<and>
          target_pwrlvl (cd s c) = PSCI_INVALID_PWR_LVL P \<and> runs_from P s c l
      | Down \<Rightarrow> is_local_state_off P (local_state (cd s c)) \<and>
          (if aff_info_state (cd s c) = AFF_STATE_ON
           then target_pwrlvl (cd s c) \<le> PLAT_MAX_PWR_LVL P \<and> runs_from P s c (target_pwrlvl (cd s c))
           else target_pwrlvl (cd s c) = PSCI_INVALID_PWR_LVL P))"

definition psci_inv :: "plat \<Rightarrow> psci \<Rightarrow> (nat \<Rightarrow> cpu_mode) \<Rightarrow> bool" where
  "psci_inv P s md \<longleftrightarrow> topo_ok P s \<and> req_ok P s \<and> (\<forall>c < PLATFORM_CORE_COUNT P. cpu_ok P s c (md c))"

text \<open>States that differ only in what the invariant does not look at.\<close>

definition same_core :: "psci \<Rightarrow> psci \<Rightarrow> bool" where
  "same_core s s' \<longleftrightarrow> same_shape s s' \<and>
     psci_req_local_pwr_states s' = psci_req_local_pwr_states s \<and>
     psci_non_cpu_pd_nodes s' = psci_non_cpu_pd_nodes s \<and>
     psci_svc_cpu_data s' = psci_svc_cpu_data s"

lemma same_core_refl [simp, intro]: "same_core s s"
  by (simp add: same_core_def)

lemma same_core_trans: "same_core s t \<Longrightarrow> same_core t u \<Longrightarrow> same_core s u"
  by (auto simp: same_core_def intro: same_shape_trans)

lemma same_core_upd [simp]:
  "same_core s (s\<lparr>trace := t\<rparr>)" "same_core s (s\<lparr>psci_caps := x\<rparr>)" "same_core s (s\<lparr>psci_spd_pm := y\<rparr>)"
  "same_core s (emit e s)"
  by (simp_all add: same_core_def same_shape_def emit_def)

lemma same_core_obs:
  assumes "same_core s s'"
  shows "nst s' j = nst s j" "rq s' k c = rq s k c" "cd s' c = cd s c"
  using assms by (auto simp: same_core_def nst_def rq_def cd_def)

lemma same_core_req_ok:
  assumes "same_core s s'" "topo_ok P s"
  shows "req_ok P s' \<longleftrightarrow> req_ok P s"
proof -
  have "anc s' c k = anc s c k" if "c < PLATFORM_CORE_COUNT P" "k < PLAT_MAX_PWR_LVL P" for c k
    using assms same_shape_anc [of s s' P c k] that by (simp add: same_core_def)
  then show ?thesis by (simp add: req_ok_def same_core_obs [OF assms(1)])
qed

lemma cpu_ok_cong:
  assumes "cd s' c = cd s c" "\<And>k. rq s' k c = rq s k c"
  shows "cpu_ok P s' c m = cpu_ok P s c m"
proof -
  have "runs_from P s' c l = runs_from P s c l" for l using assms(2) by (simp add: runs_from_def)
  then show ?thesis unfolding cpu_ok_def assms(1) by (cases m) simp_all
qed

lemma same_core_inv:
  assumes "same_core s s'" "psci_inv P s md"
  shows "psci_inv P s' md"
proof -
  have ok: "topo_ok P s" "req_ok P s" using assms(2) by (auto simp: psci_inv_def)
  have "topo_ok P s'" using assms(1) ok(1) by (auto simp: same_core_def intro: same_shape_topo_ok)
  moreover have "cpu_ok P s' c m = cpu_ok P s c m" for c m
    by (rule cpu_ok_cong) (simp_all add: same_core_obs [OF assms(1)])
  ultimately show ?thesis
    using assms(2) same_core_req_ok [OF assms(1) ok(1)] by (simp add: psci_inv_def)
qed

section \<open>Coordination keeps the domains of running CPUs up\<close>

lemma anode_level:
  assumes "topo_ok P s" "plat_ok P" "c < PLATFORM_CORE_COUNT P" "d < PLATFORM_CORE_COUNT P"
    and "i < PLAT_MAX_PWR_LVL P" "j < PLAT_MAX_PWR_LVL P" "anode s c i = anode s d j"
  shows "i = j"
proof -
  have "level (psci_non_cpu_pd_nodes s ! anode s c i) = of_nat (Suc i)"
    "level (psci_non_cpu_pd_nodes s ! anode s d j) = of_nat (Suc j)"
    using topo_okD(3) [OF assms(1,3,5)] topo_okD(3) [OF assms(1,4,6)] by (auto simp: node_ok_def)
  then have "unat (of_nat (Suc i) :: u8) = unat (of_nat (Suc j) :: u8)" using assms(7) by simp
  moreover have "Suc i < 2 ^ LENGTH(8)" "Suc j < 2 ^ LENGTH(8)"
    using assms(2,5,6) by (auto simp: plat_ok_def)
  ultimately show ?thesis by (simp only: unat_of_nat_small)
qed

lemma coord_state_RUN:
  assumes "c \<in> cpus_of s (anode s me k)" "R k c = PSCI_LOCAL_STATE_RUN"
  shows "coord_state P s R me 0 k = PSCI_LOCAL_STATE_RUN"
proof -
  let ?X = "insert (PLAT_MAX_OFF_STATE P) (R k ` cpus_of s (anode s me k))"
  have "PSCI_LOCAL_STATE_RUN \<in> ?X" using assms by force
  moreover have "finite ?X" by (simp add: cpus_of_def Let_def)
  ultimately have "Min ?X \<le> PSCI_LOCAL_STATE_RUN" by (rule Min_le [rotated])
  then have "Min ?X = PSCI_LOCAL_STATE_RUN" by (simp add: PSCI_LOCAL_STATE_RUN_def)
  then show ?thesis by (simp add: coord_state_def coord_min_def)
qed

lemma coordination_inv:
  assumes "topo_ok P s" "plat_ok P" "me < PLATFORM_CORE_COUNT P" "n \<le> PLAT_MAX_PWR_LVL P"
    and "length st = PLAT_MAX_PWR_LVL P + 1" "req_ok P s"
  shows "\<exists>st' s'. psci_do_state_coordination P me n st s = Some (st', s') \<and> same_shape s s' \<and>
    topo_ok P s' \<and> req_ok P s' \<and> length st' = PLAT_MAX_PWR_LVL P + 1 \<and> st' ! 0 = st ! 0 \<and>
    trace s' = trace s \<and> psci_spd_pm s' = psci_spd_pm s \<and>
    psci_svc_cpu_data s' = (psci_svc_cpu_data s)[me := (cd s me)\<lparr>local_state := st ! 0\<rparr>] \<and>
    (\<forall>i d. rq s' i d = (if d = me \<and> i < n then st ! Suc i else rq s i d)) \<and> st' = coordinated P s me n st \<and>
    (\<forall>i < n. nst s' (anode s me i) = st' ! Suc i) \<and> (\<forall>j. j \<notin> anode s me ` {..< n} \<longrightarrow> nst s' j = nst s j)"
proof -
  obtain st' s' where s': "psci_do_state_coordination P me n st s = Some (st', s')" "same_shape s s'"
    "s' = s\<lparr>psci_req_local_pwr_states := psci_req_local_pwr_states s',
           psci_non_cpu_pd_nodes := psci_non_cpu_pd_nodes s',
           psci_svc_cpu_data := (psci_svc_cpu_data s)[me := (cd s me)\<lparr>local_state := st ! 0\<rparr>]\<rparr>"
    "length st' = length st" "st' ! 0 = st ! 0"
    "\<And>i. i < n \<Longrightarrow> st' ! Suc i = coord_state P s (rq s') me 0 i"
    "\<And>i. i < n \<Longrightarrow> nst s' (anode s me i) = st' ! Suc i"
    "\<And>j. j \<notin> anode s me ` {..< n} \<Longrightarrow> nst s' j = nst s j"
    "\<And>i d. rq s' i d = (if d = me \<and> i < n then st ! Suc i else rq s i d)" "\<And>i. n < i \<Longrightarrow> st' ! i = st ! i"
    using psci_do_state_coordination_spec [OF assms(1-5)] by blast
  have "rq s' = (\<lambda>k d. if d = me \<and> k < n then st ! Suc k else rq s k d)" using s'(9) by (intro ext) simp
  then have "st' = coordinated P s me n st"
    using s'(4,5,6,10) by (intro nth_equalityI) (auto simp: coordinated_def gr0_conv_Suc)
  moreover have "nst s' (anode s' c k) = PSCI_LOCAL_STATE_RUN"
    if c: "c < PLATFORM_CORE_COUNT P" and k: "k < PLAT_MAX_PWR_LVL P" and R: "rq s' k c = PSCI_LOCAL_STATE_RUN"
    for c k
  proof -
    have a: "anc s' c k = anc s c k" using same_shape_anc [OF s'(2) assms(1) c] k by simp
    show ?thesis
    proof (cases "anode s c k \<in> anode s me ` {..< n}")
      case True
      then obtain i where i: "i < n" "anode s c k = anode s me i" by auto
      then have "k = i" using anode_level [OF assms(1,2) c assms(3) k] assms(4) by simp
      moreover have "c \<in> cpus_of s (anode s c k)" using topo_okD(3) [OF assms(1) c k] by (simp add: node_ok_def)
      ultimately have "coord_state P s (rq s') me 0 k = PSCI_LOCAL_STATE_RUN"
        using i(2) R by (intro coord_state_RUN [of c]) auto
      then show ?thesis using s'(6,7) i a \<open>k = i\<close> by simp
    next
      case False
      then have "\<not> (c = me \<and> k < n)" by auto
      then have "rq s k c = PSCI_LOCAL_STATE_RUN" using R s'(9) [of k c] by auto
      then show ?thesis using assms(6) c k a s'(8) [OF False] by (simp add: req_ok_def)
    qed
  qed
  moreover from calculation have "req_ok P s'" by (simp add: req_ok_def)
  moreover have "topo_ok P s'" using same_shape_topo_ok [OF s'(2) assms(1)] .
  moreover have "trace s' = trace s" "psci_spd_pm s' = psci_spd_pm s"
    "psci_svc_cpu_data s' = (psci_svc_cpu_data s)[me := (cd s me)\<lparr>local_state := st ! 0\<rparr>]"
    by (subst s'(3), simp)+
  ultimately show ?thesis using s'(1,2,4,5,7,8,9) assms(5) by (intro exI [of _ st'] exI [of _ s']) simp
qed

lemma set_run_inv:
  assumes "topo_ok P s" "plat_ok P" "me < PLATFORM_CORE_COUNT P" "n \<le> PLAT_MAX_PWR_LVL P" "req_ok P s"
  shows "\<exists>s'. psci_set_pwr_domains_to_run me n s = Some s' \<and> same_shape s s' \<and>
    topo_ok P s' \<and> req_ok P s' \<and> trace s' = trace s \<and>
    psci_svc_cpu_data s' = (psci_svc_cpu_data s)
      [me := (cd s me)\<lparr>aff_info_state := AFF_STATE_ON, local_state := PSCI_LOCAL_STATE_RUN\<rparr>] \<and>
    (\<forall>i d. rq s' i d = (if d = me \<and> i < n then PSCI_LOCAL_STATE_RUN else rq s i d))"
proof -
  obtain s' where s': "psci_set_pwr_domains_to_run me n s = Some s'" "same_shape s s'"
    "s' = s\<lparr>psci_req_local_pwr_states := psci_req_local_pwr_states s',
           psci_non_cpu_pd_nodes := psci_non_cpu_pd_nodes s',
           psci_svc_cpu_data := (psci_svc_cpu_data s)
             [me := (cd s me)\<lparr>aff_info_state := AFF_STATE_ON, local_state := PSCI_LOCAL_STATE_RUN\<rparr>]\<rparr>"
    "\<And>i. i < n \<Longrightarrow> nst s' (anode s me i) = PSCI_LOCAL_STATE_RUN"
    "\<And>j. nst s' j = nst s j \<or> nst s' j = PSCI_LOCAL_STATE_RUN"
    "\<And>i d. rq s' i d = (if d = me \<and> i < n then PSCI_LOCAL_STATE_RUN else rq s i d)"
    using psci_set_pwr_domains_to_run_spec [OF assms(1-4)] by blast
  have "nst s' (anode s' c k) = PSCI_LOCAL_STATE_RUN"
    if c: "c < PLATFORM_CORE_COUNT P" and k: "k < PLAT_MAX_PWR_LVL P" and R: "rq s' k c = PSCI_LOCAL_STATE_RUN"
    for c k
  proof -
    have a: "anc s' c k = anc s c k" using same_shape_anc [OF s'(2) assms(1) c] k by simp
    show ?thesis
    proof (cases "c = me \<and> k < n")
      case True
      then show ?thesis using s'(4) [of k] a by simp
    next
      case False
      then have "rq s k c = PSCI_LOCAL_STATE_RUN" using R s'(6) [of k c] by auto
      then have "nst s (anode s c k) = PSCI_LOCAL_STATE_RUN" using assms(5) c k by (simp add: req_ok_def)
      then show ?thesis using s'(5) [of "anode s c k"] a by auto
    qed
  qed
  then have "req_ok P s'" by (simp add: req_ok_def)
  moreover have "topo_ok P s'" using same_shape_topo_ok [OF s'(2) assms(1)] .
  moreover have "trace s' = trace s"
    "psci_svc_cpu_data s' = (psci_svc_cpu_data s)
      [me := (cd s me)\<lparr>aff_info_state := AFF_STATE_ON, local_state := PSCI_LOCAL_STATE_RUN\<rparr>]"
    by (subst s'(3), simp)+
  ultimately show ?thesis using s'(1,2,6) by (intro exI [of _ s']) simp
qed

text \<open>An operation that changes the data of one CPU.\<close>

lemma inv_update:
  assumes "psci_inv P s md" "topo_ok P s'" "req_ok P s'"
    and "\<And>d. d \<noteq> c \<Longrightarrow> cd s' d = cd s d" "\<And>k d. d \<noteq> c \<Longrightarrow> rq s' k d = rq s k d"
    and "cpu_ok P s' c m"
  shows "psci_inv P s' (md(c := m))"
proof -
  have "cpu_ok P s' d (md d)" if "d < PLATFORM_CORE_COUNT P" "d \<noteq> c" for d
    using assms(1) cpu_ok_cong [of s' d s P "md d"] assms(4,5) that by (simp add: psci_inv_def)
  then show ?thesis using assms(2,3,6) by (simp add: psci_inv_def)
qed

lemma cd_update: "psci_svc_cpu_data s' = (psci_svc_cpu_data s)[c := x] \<Longrightarrow> d \<noteq> c \<Longrightarrow> cd s' d = cd s d"
  by (simp add: cd_def)

lemma cd_update_same:
  "psci_svc_cpu_data s' = (psci_svc_cpu_data s)[c := x] \<Longrightarrow> c < length (psci_svc_cpu_data s) \<Longrightarrow> cd s' c = x"
  by (simp add: cd_def)

section \<open>Searching levels\<close>

lemma find_lvl_down_spec:
  "i < length st \<Longrightarrow> \<exists>r. find_lvl_down Q st i = Some r \<and>
     (case r of None \<Rightarrow> \<forall>j \<le> i. \<not> Q (st ! j)
      | Some j \<Rightarrow> j \<le> i \<and> Q (st ! j) \<and> (\<forall>k. j < k \<and> k \<le> i \<longrightarrow> \<not> Q (st ! k)))"
proof (induction i)
  case 0
  then show ?case by (auto simp: find_lvl_down.simps [of Q st 0] aget_simps)
next
  case (Suc i)
  show ?case
  proof (cases "Q (st ! Suc i)")
    case True
    then show ?thesis using Suc.prems by (auto simp: find_lvl_down.simps [of Q st "Suc i"] aget_simps)
  next
    case False
    obtain r where r: "find_lvl_down Q st i = Some r"
      "case r of None \<Rightarrow> \<forall>j \<le> i. \<not> Q (st ! j)
        | Some j \<Rightarrow> j \<le> i \<and> Q (st ! j) \<and> (\<forall>k. j < k \<and> k \<le> i \<longrightarrow> \<not> Q (st ! k))"
      using Suc by auto
    then show ?thesis
      using False Suc.prems
      by (auto simp: find_lvl_down.simps [of Q st "Suc i"] aget_simps le_Suc_eq split: option.splits)
  qed
qed

lemma max_off_spec:
  assumes "length st = PLAT_MAX_PWR_LVL P + 1"
  shows "\<exists>l. psci_find_max_off_lvl P st = Some l \<and>
    (l = PSCI_INVALID_PWR_LVL P \<longleftrightarrow> (\<forall>j \<le> PLAT_MAX_PWR_LVL P. \<not> is_local_state_off P (st ! j)))"
  using find_lvl_down_spec [of "PLAT_MAX_PWR_LVL P" st "is_local_state_off P"] assms
  by (auto simp: psci_find_max_off_lvl_def PSCI_INVALID_PWR_LVL_def split: option.splits)

lemma target_lvl_spec:
  assumes "length st = PLAT_MAX_PWR_LVL P + 1"
  shows "\<exists>l. psci_find_target_suspend_lvl P st = Some l \<and>
    (if l = PSCI_INVALID_PWR_LVL P then \<forall>j \<le> PLAT_MAX_PWR_LVL P. st ! j = PSCI_LOCAL_STATE_RUN
     else l \<le> PLAT_MAX_PWR_LVL P \<and> st ! l \<noteq> PSCI_LOCAL_STATE_RUN \<and>
       (\<forall>k. l < k \<and> k \<le> PLAT_MAX_PWR_LVL P \<longrightarrow> st ! k = PSCI_LOCAL_STATE_RUN))"
proof -
  obtain r where r: "find_lvl_down (\<lambda>x. \<not> is_local_state_run x) st (PLAT_MAX_PWR_LVL P) = Some r"
    "case r of None \<Rightarrow> \<forall>j \<le> PLAT_MAX_PWR_LVL P. \<not> \<not> is_local_state_run (st ! j)
      | Some j \<Rightarrow> j \<le> PLAT_MAX_PWR_LVL P \<and> \<not> is_local_state_run (st ! j) \<and>
         (\<forall>k. j < k \<and> k \<le> PLAT_MAX_PWR_LVL P \<longrightarrow> \<not> \<not> is_local_state_run (st ! k))"
    using find_lvl_down_spec [of "PLAT_MAX_PWR_LVL P" st "\<lambda>x. \<not> is_local_state_run x"] assms by auto
  show ?thesis
  proof (cases r)
    case None
    then show ?thesis
      using r by (auto simp: psci_find_target_suspend_lvl_def PSCI_INVALID_PWR_LVL_def is_local_state_run_def)
  next
    case (Some j)
    then show ?thesis
      using r by (intro exI [of _ j])
        (auto simp: psci_find_target_suspend_lvl_def PSCI_INVALID_PWR_LVL_def is_local_state_run_def)
  qed
qed

end
