(* ===== verification/Psci_safe.thy ===== *)
theory Psci_safe
  imports Psci_inv
begin

text \<open>
  What CPU_ON, CPU_OFF, CPU_SUSPEND and the wake-up paths do to the service state and to
  the locks, as one lemma per operation.
\<close>

section \<open>Lock discipline\<close>

fun is_lock :: "psci_event \<Rightarrow> bool" where
  "is_lock (Lock_get _) = True"
| "is_lock (Lock_release _) = True"
| "is_lock _ = False"

text \<open>
  The lock events of an operation: the locks of the ancestors up to a level, taken from the
  lowest level to the highest and given back in the reverse order.
\<close>

definition lock_trace :: "psci \<Rightarrow> psci \<Rightarrow> nat \<Rightarrow> nat \<Rightarrow> bool" where
  "lock_trace s s' c n \<longleftrightarrow> (\<exists>new. trace s' = trace s @ new \<and>
     filter is_lock new = map (\<lambda>i. Lock_get (lock_at s c i)) [0 ..< n] @
       map (\<lambda>i. Lock_release (lock_at s c i)) (rev [0 ..< n]))"

lemma lock_at_shape:
  assumes "same_shape s s'" "topo_ok P s" "c < PLATFORM_CORE_COUNT P" "k < PLAT_MAX_PWR_LVL P"
  shows "lock_at s' c k = lock_at s c k"
proof -
  have "anc s' c k = anc s c k" using same_shape_anc [OF assms(1-3)] assms(4) by simp
  then show ?thesis
    using same_shape_fields(3) [OF assms(1) topo_okD(4) [OF assms(2-4)]] by (simp add: lock_at_def)
qed

lemma acquire_ok:
  assumes "topo_ok P s" "c < PLATFORM_CORE_COUNT P" "n \<le> PLAT_MAX_PWR_LVL P"
  shows "\<exists>t. psci_acquire_pwr_domain_locks n c s = Some (s\<lparr>trace := trace s @ t\<rparr>) \<and>
    t = map (\<lambda>i. Lock_get (lock_at s c i)) [0 ..< n]"
  using psci_acquire_spec [OF assms] by simp

lemma release_ok:
  assumes "same_shape s0 s" "topo_ok P s0" "c < PLATFORM_CORE_COUNT P" "n \<le> PLAT_MAX_PWR_LVL P"
  shows "psci_release_pwr_domain_locks n c s =
    Some (s\<lparr>trace := trace s @ map (\<lambda>i. Lock_release (lock_at s0 c i)) (rev [0 ..< n])\<rparr>)"
proof -
  have "map (\<lambda>i. Lock_release (lock_at s c i)) (rev [0 ..< n]) =
      map (\<lambda>i. Lock_release (lock_at s0 c i)) (rev [0 ..< n])"
    using lock_at_shape [OF assms(1-3)] assms(4) by (intro map_cong) auto
  then show ?thesis
    using psci_release_spec [OF same_shape_topo_ok [OF assms(1,2)] assms(3,4)] by simp
qed

lemma filter_locks:
  "filter is_lock (map (\<lambda>i. Lock_get (f i)) xs) = map (\<lambda>i. Lock_get (f i)) xs"
  "filter is_lock (map (\<lambda>i. Lock_release (f i)) xs) = map (\<lambda>i. Lock_release (f i)) xs"
  by (induction xs) auto

lemma lock_traceI:
  assumes "trace s' = trace s @ map (\<lambda>i. Lock_get (lock_at s c i)) [0 ..< n] @ mid @
       map (\<lambda>i. Lock_release (lock_at s c i)) (rev [0 ..< n]) @ post"
    and "filter is_lock mid = []" "filter is_lock post = []"
  shows "lock_trace s s' c n"
  unfolding lock_trace_def
  by (rule exI [of _ "map (\<lambda>i. Lock_get (lock_at s c i)) [0 ..< n] @ mid @
       map (\<lambda>i. Lock_release (lock_at s c i)) (rev [0 ..< n]) @ post"])
    (simp add: assms filter_locks)

section \<open>Per-CPU data\<close>

lemma get_aff [simp]:
  "c < length (psci_svc_cpu_data s) \<Longrightarrow> psci_get_aff_info_state_by_idx s c = Some (aff_info_state (cd s c))"
  by (simp add: psci_get_aff_info_state_by_idx_def get_cpu_data_def cd_def aget_simps)

lemma set_aff [simp]:
  "c < length (psci_svc_cpu_data s) \<Longrightarrow> psci_set_aff_info_state_by_idx c x s =
     Some (s\<lparr>psci_svc_cpu_data := (psci_svc_cpu_data s)[c := (cd s c)\<lparr>aff_info_state := x\<rparr>]\<rparr>)"
  by (simp add: psci_set_aff_info_state_by_idx_def upd_cpu_data_def cd_def aget_simps)

lemma set_lvl [simp]:
  "c < length (psci_svc_cpu_data s) \<Longrightarrow> psci_set_suspend_pwrlvl c x s =
     Some (s\<lparr>psci_svc_cpu_data := (psci_svc_cpu_data s)[c := (cd s c)\<lparr>target_pwrlvl := x\<rparr>]\<rparr>)"
  by (simp add: psci_set_suspend_pwrlvl_def upd_cpu_data_def cd_def aget_simps)

lemma cd_upd [simp]:
  "c < length (psci_svc_cpu_data s) \<Longrightarrow> cd (s\<lparr>psci_svc_cpu_data := (psci_svc_cpu_data s)[c := x]\<rparr>) c = x"
  "cd (s\<lparr>trace := t\<rparr>) c = cd s c"
  by (simp_all add: cd_def)

lemma emit_fields [simp]:
  "psci_svc_cpu_data (emit e s) = psci_svc_cpu_data s"
  "psci_req_local_pwr_states (emit e s) = psci_req_local_pwr_states s"
  "psci_non_cpu_pd_nodes (emit e s) = psci_non_cpu_pd_nodes s"
  "psci_cpu_pd_nodes (emit e s) = psci_cpu_pd_nodes s"
  "psci_spd_pm (emit e s) = psci_spd_pm s"
  "psci_caps (emit e s) = psci_caps s"
  "trace (emit e s) = trace s @ [e]"
  "cd (emit e s) c = cd s c"
  "spd_has f (emit e s) = spd_has f s"
  by (simp_all add: emit_def cd_def spd_has_def)

section \<open>CPU_ON\<close>

lemma psci_cpu_on_start_spec:
  assumes "topo_ok P s" "has_pwr_domain_on P" "pwr_domain_on_finish P"
    and "plat_core_pos_by_mpidr P mp = int c" "c < PLATFORM_CORE_COUNT P"
    and "pwr_domain_on E mp = PSCI_E_SUCCESS \<or> pwr_domain_on E mp = PSCI_E_INTERN_FAIL"
  shows "\<exists>rc s'. psci_cpu_on_start P E mp ep s = Some (rc, s') \<and>
    (case aff_info_state (cd s c) of
       AFF_STATE_ON \<Rightarrow> rc = PSCI_E_ALREADY_ON \<and> same_core s s'
     | AFF_STATE_ON_PENDING \<Rightarrow> rc = PSCI_E_ON_PENDING \<and> same_core s s'
     | AFF_STATE_OFF \<Rightarrow> rc = pwr_domain_on E mp \<and>
         (if rc = PSCI_E_SUCCESS
          then psci_svc_cpu_data s' = (psci_svc_cpu_data s)[c := (cd s c)\<lparr>aff_info_state := AFF_STATE_ON_PENDING\<rparr>] \<and>
            same_core s (s'\<lparr>psci_svc_cpu_data := psci_svc_cpu_data s\<rparr>) \<and>
            Cm_init_context c ep \<in> set (trace s')
          else same_core s s'))"
proof -
  have c: "c < length (psci_svc_cpu_data s)" using topo_okD(2) [OF assms(1,5)] .
  have len: "length (psci_svc_cpu_data (emit e s)) = length (psci_svc_cpu_data s)" for e by simp
  show ?thesis
  proof (cases "aff_info_state (cd s c)")
    case AFF_STATE_ON
    then show ?thesis
      using c assms(2-4)
      by (auto simp: psci_cpu_on_start_def cpu_on_validate_state_def psci_const Let_def
          intro: same_core_trans [OF same_core_upd(4) same_core_upd(4)])
  next
    case AFF_STATE_ON_PENDING
    then show ?thesis
      using c assms(2-4)
      by (auto simp: psci_cpu_on_start_def cpu_on_validate_state_def psci_const Let_def
          intro: same_core_trans [OF same_core_upd(4) same_core_upd(4)])
  next
    case AFF_STATE_OFF
    have d: "(cd s c)\<lparr>aff_info_state := AFF_STATE_OFF\<rparr> = cd s c" using AFF_STATE_OFF by simp
    have restore: "(psci_svc_cpu_data s)[c := cd s c] = psci_svc_cpu_data s" by (simp add: cd_def)
    show ?thesis
      using c assms(2-4,6) AFF_STATE_OFF
      by (auto simp: psci_cpu_on_start_def cpu_on_validate_state_def psci_const Let_def
          same_core_def same_shape_def emit_def restore d cong: if_cong)
  qed
qed

section \<open>CPU_OFF\<close>

text \<open>The platform's part of the last wait does not crash.\<close>

definition wfi_returns :: "plat \<Rightarrow> psci_power_state \<Rightarrow> bool" where
  "wfi_returns P st \<longleftrightarrow> (case pwr_domain_pwr_down_wfi P of None \<Rightarrow> True | Some hook \<Rightarrow> hook st \<noteq> None)"

lemma pwr_down_wfi_spec:
  "\<exists>e. \<not> is_lock e \<and> pwr_down_wfi P st s = (if wfi_returns P st then Some (s\<lparr>trace := trace s @ [e]\<rparr>) else None)"
proof (cases "pwr_domain_pwr_down_wfi P")
  case None
  then show ?thesis
    by (intro exI [of _ Psci_power_down_wfi]) (simp add: pwr_down_wfi_def wfi_returns_def emit_def)
next
  case (Some hook)
  then show ?thesis
    by (intro exI [of _ "Call_pwr_domain_pwr_down_wfi st"], cases "hook st")
      (simp_all add: pwr_down_wfi_def wfi_returns_def emit_def)
qed

lemma cpu_off_commit_spec:
  assumes "topo_ok P s" "plat_ok P" "\<not> ENABLE_PSCI_STAT P" "me < PLATFORM_CORE_COUNT P"
    and "n \<le> PLAT_MAX_PWR_LVL P" "req_ok P s" "length st = PLAT_MAX_PWR_LVL P + 1"
  shows "\<exists>st' s' mid. cpu_off_commit P me n st s = Some (st', s') \<and> same_shape s s' \<and>
    topo_ok P s' \<and> req_ok P s' \<and> trace s' = trace s @ mid \<and> filter is_lock mid = [] \<and> Call_pwr_domain_off st' \<in> set mid \<and>
    psci_svc_cpu_data s' = (psci_svc_cpu_data s)[me := (cd s me)\<lparr>local_state := st ! 0\<rparr>] \<and>
    (\<forall>i d. rq s' i d = (if d = me \<and> i < n then st ! Suc i else rq s i d)) \<and> st' = coordinated P s me n st \<and>
    (\<forall>i < n. nst s' (anode s me i) = st' ! Suc i) \<and> (\<forall>j. j \<notin> anode s me ` {..< n} \<longrightarrow> nst s' j = nst s j)"
proof -
  obtain st' s1 where s1: "psci_do_state_coordination P me n st s = Some (st', s1)" "same_shape s s1"
    "topo_ok P s1" "req_ok P s1" "length st' = PLAT_MAX_PWR_LVL P + 1" "trace s1 = trace s"
    "psci_svc_cpu_data s1 = (psci_svc_cpu_data s)[me := (cd s me)\<lparr>local_state := st ! 0\<rparr>]"
    "\<forall>i d. rq s1 i d = (if d = me \<and> i < n then st ! Suc i else rq s i d)" "st' = coordinated P s me n st"
    "\<forall>i < n. nst s1 (anode s me i) = st' ! Suc i" "\<forall>j. j \<notin> anode s me ` {..< n} \<longrightarrow> nst s1 j = nst s j"
    using coordination_inv [OF assms(1,2,4,5,7,6)] by blast
  obtain l where l: "psci_find_max_off_lvl P st' = Some l" using max_off_spec [OF s1(5)] by auto
  let ?s = "emit (Call_pwr_domain_off st') (emit (Pwrdown_sequence l) s1)"
  have run: "cpu_off_commit P me n st s = Some (st', ?s)"
    using s1(1) l assms(3) by (simp add: cpu_off_commit_def psci_do_pwrdown_sequence_def)
  have core: "same_core s1 ?s" by (rule same_core_trans [OF same_core_upd(4) same_core_upd(4)])
  have "same_shape s ?s" using s1(2) core same_shape_trans by (auto simp: same_core_def)
  moreover have "topo_ok P ?s" using core s1(3) same_shape_topo_ok by (auto simp: same_core_def)
  moreover have "req_ok P ?s" using same_core_req_ok [OF core s1(3)] s1(4) by simp
  moreover have "trace ?s = trace s @ [Pwrdown_sequence l, Call_pwr_domain_off st']" using s1(6) by simp
  moreover have "rq ?s i d = rq s1 i d" "nst ?s j = nst s1 j" for i d j using same_core_obs [OF core] by auto
  moreover have "Call_pwr_domain_off st' \<in> set [Pwrdown_sequence l, Call_pwr_domain_off st']" by simp
  ultimately show ?thesis
    using run s1(7-11) by (intro exI [of _ st'] exI [of _ ?s] exI [of _ "[Pwrdown_sequence l, Call_pwr_domain_off st']"]) simp
qed

lemma psci_do_cpu_off_spec:
  assumes "topo_ok P s" "plat_ok P" "\<not> ENABLE_PSCI_STAT P" "pwr_domain_off P" "me < PLATFORM_CORE_COUNT P"
    and "n \<le> PLAT_MAX_PWR_LVL P" "req_ok P s"
    and st': "st' = coordinated P s me n (psci_set_power_off_state P)"
  shows "if (spd_has svc_off s \<longrightarrow> svc_off_rc E = PSCI_E_SUCCESS) \<and> \<not> wfi_returns P st' then psci_do_cpu_off P E me n s = None
    else \<exists>r s'. psci_do_cpu_off P E me n s = Some (r, s') \<and> lock_trace s s' me n \<and>
      (if spd_has svc_off s \<and> svc_off_rc E \<noteq> PSCI_E_SUCCESS then r = Returns (svc_off_rc E) \<and> same_core s s'
       else r = Cpu_down \<and> topo_ok P s' \<and> req_ok P s' \<and>
         psci_svc_cpu_data s' = (psci_svc_cpu_data s)
           [me := (cd s me)\<lparr>local_state := PLAT_MAX_OFF_STATE P, aff_info_state := AFF_STATE_OFF\<rparr>] \<and>
         (\<forall>i d. rq s' i d = (if d = me \<and> i < n then PLAT_MAX_OFF_STATE P else rq s i d)) \<and>
         (\<forall>i < n. nst s' (anode s me i) = st' ! Suc i) \<and> (\<forall>j. j \<notin> anode s me ` {..< n} \<longrightarrow> nst s' j = nst s j) \<and>
         Call_pwr_domain_off st' \<in> set (trace s'))"
proof -
  let ?gets = "map (\<lambda>i. Lock_get (lock_at s me i)) [0 ..< n]"
  let ?rels = "map (\<lambda>i. Lock_release (lock_at s me i)) (rev [0 ..< n])"
  let ?s1 = "s\<lparr>trace := trace s @ ?gets\<rparr>"
  have acq: "psci_acquire_pwr_domain_locks n me s = Some ?s1"
    using psci_acquire_spec [OF assms(1,5,6)] by simp
  let ?mid = "if spd_has svc_off s then [Call_svc_off] else []"
  let ?s2 = "s\<lparr>trace := trace s @ ?gets @ ?mid\<rparr>"
  have spd: "spd_has f ?s1 = spd_has f s" for f by (simp add: spd_has_def)
  have s2: "(if spd_has svc_off ?s1 then emit Call_svc_off ?s1 else ?s1) = ?s2"
    by (simp add: spd emit_def)
  have core2: "same_core s ?s2" by simp
  have ok2: "topo_ok P ?s2" "req_ok P ?s2"
    using same_shape_topo_ok [OF _ assms(1), of ?s2] same_core_req_ok [OF core2 assms(1)] assms(7) by simp_all
  have sh2: "same_shape s ?s2" by simp
  show ?thesis
  proof (cases "spd_has svc_off s \<and> svc_off_rc E \<noteq> PSCI_E_SUCCESS")
    case True
    let ?s3 = "?s2\<lparr>trace := trace ?s2 @ ?rels\<rparr>"
    have "psci_release_pwr_domain_locks n me ?s2 = Some ?s3"
      using release_ok [OF sh2 assms(1,5,6)] by simp
    then have run: "psci_do_cpu_off P E me n s = Some (Returns (svc_off_rc E), ?s3)"
      using acq True assms(4) s2 by (simp add: psci_do_cpu_off_def Let_def spd)
    have "lock_trace s ?s3 me n" by (rule lock_traceI [where mid = ?mid and post = "[]"]) auto
    then show ?thesis using run True by auto
  next
    case False
    have len: "length (psci_set_power_off_state P) = PLAT_MAX_PWR_LVL P + 1"
      by (simp add: psci_set_power_off_state_def)
    have c2: "coordinated P ?s2 me n st = coordinated P s me n st" for st by (rule coordinated_trace)
    have a2: "anc ?s2 c k = anc s c k" "nst ?s2 j = nst s j" for c k j by (auto intro!: anc_cong simp: nst_def)
    obtain m2 s3 where s3: "cpu_off_commit P me n (psci_set_power_off_state P) ?s2 = Some (st', s3)"
      "same_shape ?s2 s3" "topo_ok P s3" "req_ok P s3" "trace s3 = trace ?s2 @ m2" "filter is_lock m2 = []"
      "psci_svc_cpu_data s3 = (psci_svc_cpu_data ?s2)
         [me := (cd ?s2 me)\<lparr>local_state := psci_set_power_off_state P ! 0\<rparr>]"
      "\<forall>i d. rq s3 i d = (if d = me \<and> i < n then psci_set_power_off_state P ! Suc i else rq ?s2 i d)"
      "Call_pwr_domain_off st' \<in> set m2" "\<forall>i < n. nst s3 (anode s me i) = st' ! Suc i"
      "\<forall>j. j \<notin> anode s me ` {..< n} \<longrightarrow> nst s3 j = nst s j"
      using cpu_off_commit_spec [OF ok2(1) assms(2,3,5,6) ok2(2) len] unfolding c2 a2 st' [symmetric] by blast
    let ?s4 = "s3\<lparr>trace := trace s3 @ ?rels\<rparr>"
    have sh3: "same_shape s s3" using same_shape_trans [OF sh2 s3(2)] .
    have rel: "psci_release_pwr_domain_locks n me s3 = Some ?s4"
      using release_ok [OF sh3 assms(1,5,6)] .
    have me3: "me < length (psci_svc_cpu_data s3)" using topo_okD(2) [OF s3(3) assms(5)] .
    let ?d = "(psci_svc_cpu_data s3)[me := (cd s3 me)\<lparr>aff_info_state := AFF_STATE_OFF\<rparr>]"
    let ?s5 = "?s4\<lparr>psci_svc_cpu_data := ?d\<rparr>"
    obtain e where e: "\<not> is_lock e" "pwr_down_wfi P st' ?s5 = (if wfi_returns P st' then Some (?s5\<lparr>trace := trace ?s5 @ [e]\<rparr>) else None)"
      using pwr_down_wfi_spec by blast
    define s6 where "s6 = ?s5\<lparr>trace := trace ?s5 @ [e]\<rparr>"
    have run: "psci_do_cpu_off P E me n s = (if wfi_returns P st' then Some (Cpu_down, s6) else None)"
      using acq False assms(4) s2 s3(1) rel me3 e(2) unfolding s6_def
      by (auto simp: psci_do_cpu_off_def Let_def spd psci_const)
    note e = s6_def e(1)
    have lt: "lock_trace s s6 me n"
      by (rule lock_traceI [where mid = "?mid @ m2" and post = "[e]"]) (auto simp: e s3(5,6))
    have sh6: "same_shape s3 s6" using e(1) by (simp add: same_shape_def)
    have core: "same_core s3 (s6\<lparr>psci_svc_cpu_data := psci_svc_cpu_data s3\<rparr>)"
      using e(1) by (simp add: same_core_def same_shape_def)
    have anc6: "anc s6 c k = anc s3 c k" for c k using e(1) by (intro anc_cong) auto
    have obs6: "nst s6 j = nst s3 j" "rq s6 i d = rq s3 i d" for i j d
      using e(1) by (simp_all add: nst_def rq_def)
    have "req_ok P s6" using s3(4) by (simp add: req_ok_def anc6 obs6)
    moreover have "topo_ok P s6" using same_shape_topo_ok [OF sh6 s3(3)] .
    moreover have "psci_svc_cpu_data s6 = (psci_svc_cpu_data s)
         [me := (cd s me)\<lparr>local_state := PLAT_MAX_OFF_STATE P, aff_info_state := AFF_STATE_OFF\<rparr>]"
      using e(1) s3(7) topo_okD(2) [OF assms(1,5)] by (simp add: psci_set_power_off_state_def cd_def)
    moreover have "rq s6 i d = (if d = me \<and> i < n then PLAT_MAX_OFF_STATE P else rq s i d)" for i d
      using s3(8) assms(6) obs6(2) by (simp add: rq_def psci_set_power_off_state_def)
    moreover have "Call_pwr_domain_off st' \<in> set (trace s6)" using e(1) s3(5,9) by simp
    ultimately show ?thesis using run lt False s3(10,11) obs6(1) by auto
  qed
qed

section \<open>CPU_SUSPEND\<close>

text \<open>A later state that differs in the trace and, if any, in the data of one CPU.\<close>

definition data_step :: "psci \<Rightarrow> psci \<Rightarrow> nat \<Rightarrow> psci_cpu_data \<Rightarrow> psci_event list \<Rightarrow> bool" where
  "data_step s s' c d new \<longleftrightarrow> trace s' = trace s @ new \<and> filter is_lock new = [] \<and>
     psci_svc_cpu_data s' = (psci_svc_cpu_data s)[c := d] \<and>
     same_core s (s'\<lparr>psci_svc_cpu_data := psci_svc_cpu_data s\<rparr>)"

lemma data_step_facts:
  assumes "data_step s s' c d new" "topo_ok P s"
  shows "same_shape s s'" "topo_ok P s'" "req_ok P s \<Longrightarrow> req_ok P s'" "rq s' k e = rq s k e"
proof -
  have core: "same_core s (s'\<lparr>psci_svc_cpu_data := psci_svc_cpu_data s\<rparr>)"
    and dat: "psci_svc_cpu_data s' = (psci_svc_cpu_data s)[c := d]"
    using assms(1) by (auto simp: data_step_def)
  show sh: "same_shape s s'"
    using core dat by (simp add: same_core_def same_shape_def)
  show "topo_ok P s'" using same_shape_topo_ok [OF sh assms(2)] .
  show rq: "rq s' k e = rq s k e" for k e using core by (simp add: same_core_def rq_def)
  have "nst s' j = nst s j" for j using core by (simp add: same_core_def nst_def)
  then show "req_ok P s \<Longrightarrow> req_ok P s'"
    using rq same_shape_anc [OF sh assms(2)] by (simp add: req_ok_def)
qed

lemma psci_suspend_to_pwrdown_start_spec:
  assumes "me < length (psci_svc_cpu_data s)" "length st = PLAT_MAX_PWR_LVL P + 1"
  shows "\<exists>s' new. psci_suspend_to_pwrdown_start P me n ep st s = Some s' \<and>
    data_step s s' me ((cd s me)\<lparr>target_pwrlvl := n\<rparr>) new"
proof -
  obtain l where l: "psci_find_max_off_lvl P st = Some l" using max_off_spec [OF assms(2)] by auto
  show ?thesis
    using assms(1) l
    by (auto simp: psci_suspend_to_pwrdown_start_def Let_def data_step_def psci_do_pwrdown_sequence_def
        same_core_def same_shape_def emit_def)
qed

lemma cpu_suspend_commit_spec:
  assumes "topo_ok P s" "plat_ok P" "\<not> ENABLE_PSCI_STAT P" "me < PLATFORM_CORE_COUNT P"
    and "n \<le> PLAT_MAX_PWR_LVL P" "req_ok P s" "length st = PLAT_MAX_PWR_LVL P + 1"
  shows "\<exists>st' s' mid. cpu_suspend_commit P me ep n st pd s = Some (st', s') \<and> same_shape s s' \<and>
    topo_ok P s' \<and> req_ok P s' \<and> trace s' = trace s @ mid \<and> filter is_lock mid = [] \<and>
    psci_svc_cpu_data s' = (psci_svc_cpu_data s)[me := (cd s me)\<lparr>local_state := st ! 0,
      target_pwrlvl := if pd then n else target_pwrlvl (cd s me)\<rparr>] \<and>
    (\<forall>i d. rq s' i d = (if d = me \<and> i < n then st ! Suc i else rq s i d)) \<and> st' = coordinated P s me n st \<and>
    (\<forall>i < n. nst s' (anode s me i) = st' ! Suc i) \<and> (\<forall>j. j \<notin> anode s me ` {..< n} \<longrightarrow> nst s' j = nst s j)"
proof -
  obtain st' s1 where s1: "psci_do_state_coordination P me n st s = Some (st', s1)" "same_shape s s1"
    "topo_ok P s1" "req_ok P s1" "length st' = PLAT_MAX_PWR_LVL P + 1" "trace s1 = trace s"
    "psci_svc_cpu_data s1 = (psci_svc_cpu_data s)[me := (cd s me)\<lparr>local_state := st ! 0\<rparr>]"
    "\<forall>i d. rq s1 i d = (if d = me \<and> i < n then st ! Suc i else rq s i d)" "st' = coordinated P s me n st"
    "\<forall>i < n. nst s1 (anode s me i) = st' ! Suc i" "\<forall>j. j \<notin> anode s me ` {..< n} \<longrightarrow> nst s1 j = nst s j"
    using coordination_inv [OF assms(1,2,4,5,7,6)] by blast
  have me: "me < length (psci_svc_cpu_data s)" "me < length (psci_svc_cpu_data s1)"
    using topo_okD(2) [OF assms(1,4)] topo_okD(2) [OF s1(3) assms(4)] .
  have cd1: "cd s1 me = (cd s me)\<lparr>local_state := st ! 0\<rparr>" using cd_update_same [OF s1(7) me(1)] .
  let ?f = "\<lambda>s. if pd then psci_suspend_to_pwrdown_start P me n ep st' s else Some s"
  let ?d = "(cd s me)\<lparr>local_state := st ! 0, target_pwrlvl := if pd then n else target_pwrlvl (cd s me)\<rparr>"
  obtain s2 new where s2: "?f s1 = Some s2" "data_step s1 s2 me ?d new"
  proof (cases pd)
    case True
    then show ?thesis
      using psci_suspend_to_pwrdown_start_spec [OF me(2) s1(5), of n ep] that by (auto simp: cd1)
  next
    case False
    have "psci_svc_cpu_data s1 = (psci_svc_cpu_data s1)[me := ?d]" using False s1(7) by simp
    then have "data_step s1 s1 me ?d []" using False by (simp add: data_step_def)
    then show ?thesis using False that [of s1 "[]"] by simp
  qed
  let ?s = "emit (Call_pwr_domain_suspend st') s2"
  have "cpu_suspend_commit P me ep n st pd s = Some (st', ?s)"
    using s1(1) s2(1) assms(3) by (cases pd) (simp_all add: cpu_suspend_commit_def)
  moreover have ds: "data_step s1 ?s me ?d (new @ [Call_pwr_domain_suspend st'])"
    using s2(2) by (auto simp: data_step_def same_core_def same_shape_def)
  moreover have "same_shape s ?s" using same_shape_trans [OF s1(2) data_step_facts(1) [OF ds s1(3)]] .
  moreover have "trace ?s = trace s @ new @ [Call_pwr_domain_suspend st']"
    "filter is_lock (new @ [Call_pwr_domain_suspend st']) = []"
    using ds s1(6) by (auto simp: data_step_def)
  moreover have "psci_svc_cpu_data ?s = (psci_svc_cpu_data s)[me := ?d]"
    using ds s1(7) by (simp add: data_step_def)
  moreover have "nst ?s j = nst s1 j" for j using ds by (simp add: data_step_def same_core_def nst_def)
  ultimately show ?thesis
    using data_step_facts [OF ds s1(3)] s1(4,8-11)
    by (intro exI [of _ st'] exI [of _ ?s] exI [of _ "new @ [Call_pwr_domain_suspend st']"]) simp
qed

lemma psci_cpu_suspend_start_spec:
  assumes "topo_ok P s" "plat_ok P" "\<not> ENABLE_PSCI_STAT P" "me < PLATFORM_CORE_COUNT P"
    and "pwr_domain_suspend P" "pwr_domain_suspend_finish P"
    and "n \<le> PLAT_MAX_PWR_LVL P" "req_ok P s" "length st = PLAT_MAX_PWR_LVL P + 1"
  shows "if read_isr_el1 E = 0 \<and> pd \<and> \<not> wfi_returns P (coordinated P s me n st) then psci_cpu_suspend_start P E me ep n st pd s = None
    else \<exists>r s'. psci_cpu_suspend_start P E me ep n st pd s = Some (r, s') \<and> lock_trace s s' me n \<and>
    (if read_isr_el1 E \<noteq> 0 then r = Returns () \<and> same_core s s'
     else r = (if pd then Cpu_down else In_standby n) \<and> topo_ok P s' \<and> req_ok P s' \<and>
       psci_svc_cpu_data s' = (psci_svc_cpu_data s)[me := (cd s me)\<lparr>local_state := st ! 0,
         target_pwrlvl := if pd then n else target_pwrlvl (cd s me)\<rparr>] \<and>
       (\<forall>i d. rq s' i d = (if d = me \<and> i < n then st ! Suc i else rq s i d)))"
proof -
  let ?gets = "map (\<lambda>i. Lock_get (lock_at s me i)) [0 ..< n]"
  let ?rels = "map (\<lambda>i. Lock_release (lock_at s me i)) (rev [0 ..< n])"
  let ?s1 = "s\<lparr>trace := trace s @ ?gets\<rparr>"
  have acq: "psci_acquire_pwr_domain_locks n me s = Some ?s1"
    using psci_acquire_spec [OF assms(1,4,7)] by simp
  have sh1: "same_shape s ?s1" and core1: "same_core s ?s1" by simp_all
  have ok1: "topo_ok P ?s1" "req_ok P ?s1"
    using same_shape_topo_ok [OF sh1 assms(1)] same_core_req_ok [OF core1 assms(1)] assms(8) by simp_all
  show ?thesis
  proof (cases "read_isr_el1 E \<noteq> 0")
    case True
    let ?s2 = "?s1\<lparr>trace := trace ?s1 @ ?rels\<rparr>"
    have "psci_cpu_suspend_start P E me ep n st pd s = Some (Returns (), ?s2)"
      using acq True assms(5,6) release_ok [OF sh1 assms(1,4,7)] by (simp add: psci_cpu_suspend_start_def)
    moreover have "lock_trace s ?s2 me n" by (rule lock_traceI [where mid = "[]" and post = "[]"]) auto
    ultimately show ?thesis using True by auto
  next
    case False
    let ?st = "coordinated P s me n st"
    have c1: "coordinated P ?s1 me n st = ?st" by (rule coordinated_trace)
    obtain s2 mid where s2: "cpu_suspend_commit P me ep n st pd ?s1 = Some (?st, s2)"
      "same_shape ?s1 s2" "topo_ok P s2" "req_ok P s2" "trace s2 = trace ?s1 @ mid" "filter is_lock mid = []"
      "psci_svc_cpu_data s2 = (psci_svc_cpu_data ?s1)[me := (cd ?s1 me)\<lparr>local_state := st ! 0,
        target_pwrlvl := if pd then n else target_pwrlvl (cd ?s1 me)\<rparr>]"
      "\<forall>i d. rq s2 i d = (if d = me \<and> i < n then st ! Suc i else rq ?s1 i d)"
      using cpu_suspend_commit_spec [OF ok1(1) assms(2,3,4,7) ok1(2) assms(9), of ep pd] unfolding c1 by blast
    let ?s3 = "s2\<lparr>trace := trace s2 @ ?rels\<rparr>"
    have rel: "psci_release_pwr_domain_locks n me s2 = Some ?s3"
      using release_ok [OF same_shape_trans [OF sh1 s2(2)] assms(1,4,7)] .
    obtain e0 where e0: "\<not> is_lock e0" "pwr_down_wfi P ?st ?s3 = (if wfi_returns P ?st then Some (?s3\<lparr>trace := trace ?s3 @ [e0]\<rparr>) else None)"
      using pwr_down_wfi_spec by blast
    define e where "e = (if pd then e0 else Wfi)"
    define s4 where "s4 = ?s3\<lparr>trace := trace ?s3 @ [e]\<rparr>"
    have run: "psci_cpu_suspend_start P E me ep n st pd s =
        (if pd \<and> \<not> wfi_returns P ?st then None else Some (if pd then Cpu_down else In_standby n, s4))"
      using acq False assms(5,6) s2(1) rel e0(2) by (simp add: psci_cpu_suspend_start_def s4_def e_def emit_def)
    have e: "s4 = ?s3\<lparr>trace := trace ?s3 @ [e]\<rparr>" "\<not> is_lock e"
      using e0(1) by (simp_all add: s4_def e_def)
    have lt: "lock_trace s s4 me n"
      by (rule lock_traceI [where mid = mid and post = "[e]"]) (auto simp: e s2(5,6))
    have core: "same_core s2 s4" using e(1) by (simp add: same_core_def same_shape_def)
    have "topo_ok P s4" "req_ok P s4"
      using core s2(3,4) same_core_req_ok [OF core s2(3)] same_shape_topo_ok [of s2 s4]
      by (auto simp: same_core_def)
    moreover have "psci_svc_cpu_data s4 = psci_svc_cpu_data s2" using core by (simp add: same_core_def)
    moreover have "rq s4 i d = rq s2 i d" for i d using same_core_obs(2) [OF core] .
    moreover have "rq ?s1 i d = rq s i d" for i d by (simp add: rq_def)
    ultimately show ?thesis using run lt False s2(7,8) by auto
  qed
qed

section \<open>Waking up\<close>

lemma psci_suspend_to_standby_finisher_spec:
  assumes "topo_ok P s" "plat_ok P" "\<not> ENABLE_PSCI_STAT P" "me < PLATFORM_CORE_COUNT P"
    and "n \<le> PLAT_MAX_PWR_LVL P" "req_ok P s"
  shows "\<exists>s'. psci_suspend_to_standby_finisher P E me n s = Some s' \<and> lock_trace s s' me n \<and>
    topo_ok P s' \<and> req_ok P s' \<and>
    psci_svc_cpu_data s' = (psci_svc_cpu_data s)
      [me := (cd s me)\<lparr>aff_info_state := AFF_STATE_ON, local_state := PSCI_LOCAL_STATE_RUN\<rparr>] \<and>
    (\<forall>i d. rq s' i d = (if d = me \<and> i < n then PSCI_LOCAL_STATE_RUN else rq s i d))"
proof -
  let ?gets = "map (\<lambda>i. Lock_get (lock_at s me i)) [0 ..< n]"
  let ?rels = "map (\<lambda>i. Lock_release (lock_at s me i)) (rev [0 ..< n])"
  let ?s1 = "s\<lparr>trace := trace s @ ?gets\<rparr>"
  let ?run = "replicate (PLAT_MAX_PWR_LVL P + 1) PSCI_LOCAL_STATE_RUN"
  have acq: "psci_acquire_pwr_domain_locks n me s = Some ?s1"
    using psci_acquire_spec [OF assms(1,4,5)] by simp
  have ok1: "topo_ok P ?s1" using same_shape_topo_ok [OF same_shape_upd(1) assms(1)] .
  obtain st where st: "psci_get_target_local_pwr_states P me n ?run ?s1 = Some st"
    using psci_get_target_spec [OF ok1 assms(4,5), of ?run] by auto
  let ?s2 = "emit (Call_pwr_domain_suspend_finish st) ?s1"
  have core2: "same_core s ?s2" by (rule same_core_trans [OF same_core_upd(1) same_core_upd(4)])
  then have sh2: "same_shape s ?s2" by (simp add: same_core_def)
  have ok2: "topo_ok P ?s2" "req_ok P ?s2"
    using same_shape_topo_ok [OF sh2 assms(1)] same_core_req_ok [OF core2 assms(1)] assms(6) by simp_all
  obtain s3 where s3: "psci_set_pwr_domains_to_run me n ?s2 = Some s3" "same_shape ?s2 s3" "topo_ok P s3"
    "req_ok P s3" "trace s3 = trace ?s2"
    "psci_svc_cpu_data s3 = (psci_svc_cpu_data ?s2)
      [me := (cd ?s2 me)\<lparr>aff_info_state := AFF_STATE_ON, local_state := PSCI_LOCAL_STATE_RUN\<rparr>]"
    "\<forall>i d. rq s3 i d = (if d = me \<and> i < n then PSCI_LOCAL_STATE_RUN else rq ?s2 i d)"
    using set_run_inv [OF ok2(1) assms(2,4,5) ok2(2)] by blast
  let ?s4 = "s3\<lparr>trace := trace s3 @ ?rels\<rparr>"
  have rel: "psci_release_pwr_domain_locks n me s3 = Some ?s4"
    using release_ok [OF same_shape_trans [OF sh2 s3(2)] assms(1,4,5)] .
  have run: "psci_suspend_to_standby_finisher P E me n s = Some ?s4"
    using acq st assms(3) s3(1) rel by (simp add: psci_suspend_to_standby_finisher_def)
  have lt: "lock_trace s ?s4 me n"
    by (rule lock_traceI [where mid = "[Call_pwr_domain_suspend_finish st]" and post = "[]"]) (auto simp: s3(5))
  have core: "same_core s3 ?s4" by simp
  have "topo_ok P ?s4" "req_ok P ?s4"
    using s3(3,4) same_core_req_ok [OF core s3(3)] same_shape_topo_ok [of s3 ?s4] by auto
  moreover have "rq ?s4 i d = rq s3 i d" "rq ?s2 i d = rq s i d" for i d
    using same_core_obs(2) [OF core] same_core_obs(2) [OF core2] .
  ultimately show ?thesis using run lt s3(6,7) by (intro exI [of _ ?s4]) simp
qed

text \<open>The part of the warm boot that depends on why the CPU wakes.\<close>

lemma on_finish_spec:
  assumes "me < length (psci_svc_cpu_data s)" "me < length (psci_cpu_pd_nodes s)"
    and "aff_info_state (cd s me) = AFF_STATE_ON_PENDING"
  shows "\<exists>s' new. psci_cpu_on_finish P E me st s = Some s' \<and> data_step s s' me (cd s me) new"
  using assms
  by (auto simp: psci_cpu_on_finish_def set_cpu_mpidr_def Let_def data_step_def aget_simps emit_def
      same_core_def same_shape_def map_update list_update_same_conv cd_def nth_list_update)

lemma suspend_finish_spec:
  assumes "me < length (psci_svc_cpu_data s)" "length st = PLAT_MAX_PWR_LVL P + 1"
    and "aff_info_state (cd s me) = AFF_STATE_ON" "is_local_state_off P (st ! 0)"
  shows "\<exists>s' new. psci_cpu_suspend_finish P me st s = Some s' \<and>
    data_step s s' me ((cd s me)\<lparr>target_pwrlvl := PSCI_INVALID_PWR_LVL P\<rparr>) new"
proof -
  obtain l where l: "psci_find_max_off_lvl P st = Some l" "l \<noteq> PSCI_INVALID_PWR_LVL P"
    using max_off_spec [OF assms(2)] assms(4) by auto
  show ?thesis
    using assms l
    by (auto simp: psci_cpu_suspend_finish_def Let_def data_step_def aget_simps emit_def PSCI_CPU_PWR_LVL_def
        same_core_def same_shape_def cd_def spd_has_def)
qed

lemma psci_warmboot_spec:
  assumes "topo_ok P s" "plat_ok P" "\<not> ENABLE_PSCI_STAT P" "me < PLATFORM_CORE_COUNT P" "req_ok P s"
    and "cpu_ok P s me Down" "aff_info_state (cd s me) \<noteq> AFF_STATE_OFF"
  shows "\<exists>n s'. psci_warmboot_entrypoint P E me s = Some s' \<and> n \<le> PLAT_MAX_PWR_LVL P \<and>
    lock_trace s s' me n \<and> topo_ok P s' \<and> req_ok P s' \<and> runs_from P s' me 0 \<and>
    psci_svc_cpu_data s' = (psci_svc_cpu_data s)[me := (cd s me)\<lparr>target_pwrlvl := PSCI_INVALID_PWR_LVL P,
      aff_info_state := AFF_STATE_ON, local_state := PSCI_LOCAL_STATE_RUN\<rparr>] \<and>
    (\<forall>i d. d \<noteq> me \<longrightarrow> rq s' i d = rq s i d)"
proof -
  have me: "me < length (psci_svc_cpu_data s)" "me < length (psci_cpu_pd_nodes s)"
    using topo_okD(1,2) [OF assms(1,4)] by auto
  define n where "n = (if target_pwrlvl (cd s me) = PSCI_INVALID_PWR_LVL P then PLAT_MAX_PWR_LVL P
    else target_pwrlvl (cd s me))"
  have n: "n \<le> PLAT_MAX_PWR_LVL P" "runs_from P s me n"
    using assms(6) by (auto simp: n_def cpu_ok_def runs_from_def PSCI_INVALID_PWR_LVL_def split: if_splits)
  have lvl: "get_power_on_target_pwrlvl P me s = Some n"
    using me(1) by (simp add: get_power_on_target_pwrlvl_def psci_get_suspend_pwrlvl_def get_cpu_data_def
        n_def cd_def aget_simps)
  let ?gets = "map (\<lambda>i. Lock_get (lock_at s me i)) [0 ..< n]"
  let ?rels = "map (\<lambda>i. Lock_release (lock_at s me i)) (rev [0 ..< n])"
  let ?s1 = "s\<lparr>trace := trace s @ ?gets\<rparr>"
  let ?run = "replicate (PLAT_MAX_PWR_LVL P + 1) PSCI_LOCAL_STATE_RUN"
  have acq: "psci_acquire_pwr_domain_locks n me s = Some ?s1"
    using psci_acquire_spec [OF assms(1,4) n(1)] by simp
  have core1: "same_core s ?s1" and sh1: "same_shape s ?s1" by simp_all
  have ok1: "topo_ok P ?s1" "req_ok P ?s1"
    using same_shape_topo_ok [OF sh1 assms(1)] same_core_req_ok [OF core1 assms(1)] assms(5) by simp_all
  obtain st where st: "psci_get_target_local_pwr_states P me n ?run ?s1 = Some st"
    "length st = PLAT_MAX_PWR_LVL P + 1" "st ! 0 = local_state (cd s me)"
    using psci_get_target_spec [OF ok1(1) assms(4) n(1), of ?run] by auto
  have off: "is_local_state_off P (st ! 0)" using assms(6) st(3) by (simp add: cpu_ok_def)
  let ?d = "(cd s me)\<lparr>target_pwrlvl := PSCI_INVALID_PWR_LVL P\<rparr>"
  let ?f = "if aff_info_state (cd s me) = AFF_STATE_ON_PENDING then psci_cpu_on_finish P E me st ?s1
    else psci_cpu_suspend_finish P me st ?s1"
  obtain s2 new where s2: "?f = Some s2" "data_step ?s1 s2 me ?d new"
  proof (cases "aff_info_state (cd s me) = AFF_STATE_ON_PENDING")
    case True
    then have "?d = cd s me" using assms(6) by (simp add: cpu_ok_def)
    then show ?thesis using on_finish_spec [of me ?s1 P E st] me True that by auto
  next
    case False
    then have "aff_info_state (cd s me) = AFF_STATE_ON" using assms(7) by (cases "aff_info_state (cd s me)") auto
    then show ?thesis using suspend_finish_spec [of me ?s1 st P] me(1) st(2) off that by auto
  qed
  note f2 = data_step_facts [OF s2(2) ok1(1)]
  have sh2: "same_shape s s2" using same_shape_trans [OF sh1 f2(1)] .
  obtain s3 where s3: "psci_set_pwr_domains_to_run me n s2 = Some s3" "same_shape s2 s3" "topo_ok P s3"
    "req_ok P s3" "trace s3 = trace s2"
    "psci_svc_cpu_data s3 = (psci_svc_cpu_data s2)
      [me := (cd s2 me)\<lparr>aff_info_state := AFF_STATE_ON, local_state := PSCI_LOCAL_STATE_RUN\<rparr>]"
    "\<And>i d. rq s3 i d = (if d = me \<and> i < n then PSCI_LOCAL_STATE_RUN else rq s2 i d)"
    using set_run_inv [OF f2(2) assms(2,4) n(1) f2(3) [OF ok1(2)]] by blast
  let ?s4 = "s3\<lparr>trace := trace s3 @ ?rels\<rparr>"
  have rel: "psci_release_pwr_domain_locks n me s3 = Some ?s4"
    using release_ok [OF same_shape_trans [OF sh2 s3(2)] assms(1,4) n(1)] .
  have run: "psci_warmboot_entrypoint P E me s = Some ?s4"
    using acq st(1) lvl assms(3,7) s2(1) s3(1) rel me(1)
    by (auto simp: psci_warmboot_entrypoint_def split: if_splits)
  have lt: "lock_trace s ?s4 me n"
    by (rule lock_traceI [where mid = new and post = "[]"]) (use s2(2) in \<open>auto simp: s3(5) data_step_def\<close>)
  have core: "same_core s3 ?s4" by simp
  have ok4: "topo_ok P ?s4" "req_ok P ?s4"
    using s3(3,4) same_core_req_ok [OF core s3(3)] same_shape_topo_ok [of s3 ?s4] by auto
  have d2: "psci_svc_cpu_data s2 = (psci_svc_cpu_data s)[me := ?d]" "cd s2 me = ?d"
    using s2(2) me(1) by (auto simp: data_step_def cd_def)
  have dat: "psci_svc_cpu_data ?s4 = (psci_svc_cpu_data s)[me := (cd s me)\<lparr>target_pwrlvl := PSCI_INVALID_PWR_LVL P,
      aff_info_state := AFF_STATE_ON, local_state := PSCI_LOCAL_STATE_RUN\<rparr>]"
    using s3(6) d2 by simp
  have rq4: "rq ?s4 i d = (if d = me \<and> i < n then PSCI_LOCAL_STATE_RUN else rq s i d)" for i d
    using same_core_obs(2) [OF core, of i d] s3(7) [of i d] f2(4) [of i d] by (simp add: rq_def)
  have "runs_from P ?s4 me 0" using rq4 n(2) by (auto simp: runs_from_def)
  then show ?thesis
    using run n(1) lt ok4 dat rq4 by (intro exI [of _ n] exI [of _ ?s4]) simp
qed

end
