(* ===== verification/Psci_sys.thy ===== *)
theory Psci_sys
  imports Psci_safe
begin

unbundle bit_operations_syntax

text \<open>
  The service as a system: CPUs call it, wait, wake up and are powered on in any order.
  The locale \<open>psci_platform\<close> is the contract between the generic code and a platform
  port; under it every call keeps the invariant and none stops at an assertion of the generic
  code. The port may panic in its own hooks: a call then returns exactly as far as those do.
\<close>

section \<open>Platform contract\<close>

text \<open>What a call can be told from outside: return codes of hooks that are documented.\<close>

definition env_ok :: "env \<Rightarrow> bool" where
  "env_ok E \<longleftrightarrow> (svc_off_rc E = PSCI_E_SUCCESS \<or> svc_off_rc E = PSCI_E_DENIED) \<and>
     (\<forall>mp. pwr_domain_on E mp = PSCI_E_SUCCESS \<or> pwr_domain_on E mp = PSCI_E_INTERN_FAIL)"

definition power_req_ok :: "plat \<Rightarrow> psci_power_state \<Rightarrow> bool \<Rightarrow> bool" where
  "power_req_ok P st pd \<longleftrightarrow> length st = PLAT_MAX_PWR_LVL P + 1 \<and>
     psci_validate_suspend_req P st pd = Some PSCI_E_SUCCESS \<and> (pd \<longrightarrow> is_local_state_off P (st ! 0))"

definition all_run :: "plat \<Rightarrow> psci_power_state" where
  "all_run P = replicate (PLAT_MAX_PWR_LVL P + 1) PSCI_LOCAL_STATE_RUN"

text \<open>The two hooks that may panic on some ports do not on this one.\<close>

definition wfi_safe :: "plat \<Rightarrow> bool" where
  "wfi_safe P \<longleftrightarrow> (\<forall>st. wfi_returns P st)"

definition standby_safe :: "plat \<Rightarrow> bool" where
  "standby_safe P \<longleftrightarrow> (\<forall>hook x. cpu_standby P = Some hook \<longrightarrow> hook x \<noteq> None)"

locale psci_platform =
  fixes P :: plat
  assumes plat: "plat_ok P"
    and no_stat: "\<not> ENABLE_PSCI_STAT P"
    and hooks: "pwr_domain_off P" "has_pwr_domain_on P" "pwr_domain_on_finish P"
      "pwr_domain_suspend P" "pwr_domain_suspend_finish P"
    and validate: "\<exists>hook. validate_power_state P = Some hook \<and>
      (\<forall>ps. case hook ps (all_run P) of (rc, st) \<Rightarrow>
        if rc = PSCI_E_SUCCESS then power_req_ok P st (psci_get_pstate_type ps \<noteq> 0)
        else rc = PSCI_E_INVALID_PARAMS)"
    and sys_suspend: "\<exists>hook. get_sys_suspend_power_state P = Some hook \<and>
      power_req_ok P (hook (all_run P)) True \<and>
      psci_find_target_suspend_lvl P (hook (all_run P)) = Some (PLAT_MAX_PWR_LVL P) \<and>
      is_local_state_off P (hook (all_run P) ! PLAT_MAX_PWR_LVL P)"
    and core_pos: "plat_core_pos_by_mpidr P mp < int (PLATFORM_CORE_COUNT P)"
      "- 1 \<le> plat_core_pos_by_mpidr P mp"

section \<open>Steps of the system\<close>

fun mode_of :: "'a outcome \<Rightarrow> cpu_mode" where
  "mode_of (Returns _) = Running"
| "mode_of (In_standby l) = Standby l"
| "mode_of Cpu_down = Down"
| "mode_of System_down = Down"

text \<open>
  A running CPU makes a call; a CPU in standby wakes; a CPU that is down and has been turned
  on, or had only been suspended, comes out of reset.
\<close>

inductive psci_step :: "plat \<Rightarrow> psci \<times> (nat \<Rightarrow> cpu_mode) \<Rightarrow> psci \<times> (nat \<Rightarrow> cpu_mode) \<Rightarrow> bool"
  for P :: plat where
  Smc: "c < PLATFORM_CORE_COUNT P \<Longrightarrow> md c = Running \<Longrightarrow> env_ok E \<Longrightarrow>
    psci_smc_handler P E c fid x1 x2 x3 flags s = Some (r, s') \<Longrightarrow> r \<noteq> System_down \<Longrightarrow>
    psci_step P (s, md) (s', md(c := mode_of r))"
| Wake: "c < PLATFORM_CORE_COUNT P \<Longrightarrow> md c = Standby l \<Longrightarrow> env_ok E \<Longrightarrow>
    psci_suspend_to_standby_finisher P E c l s = Some s' \<Longrightarrow>
    psci_step P (s, md) (s', md(c := Running))"
| Boot: "c < PLATFORM_CORE_COUNT P \<Longrightarrow> md c = Down \<Longrightarrow> env_ok E \<Longrightarrow>
    psci_get_aff_info_state_by_idx s c \<noteq> Some AFF_STATE_OFF \<Longrightarrow>
    psci_warmboot_entrypoint P E c s = Some s' \<Longrightarrow>
    psci_step P (s, md) (s', md(c := Running))"

definition psci_reach :: "plat \<Rightarrow> psci \<times> (nat \<Rightarrow> cpu_mode) \<Rightarrow> psci \<times> (nat \<Rightarrow> cpu_mode) \<Rightarrow> bool" where
  "psci_reach P = (psci_step P)\<^sup>*\<^sup>*"

section \<open>Facts on requests\<close>

lemma suspend_req_target:
  assumes "power_req_ok P st pd"
  shows "\<exists>l. psci_find_target_suspend_lvl P st = Some l \<and> l \<le> PLAT_MAX_PWR_LVL P"
proof -
  obtain l where l: "psci_find_target_suspend_lvl P st = Some l"
    "if l = PSCI_INVALID_PWR_LVL P then \<forall>j \<le> PLAT_MAX_PWR_LVL P. st ! j = PSCI_LOCAL_STATE_RUN
     else l \<le> PLAT_MAX_PWR_LVL P \<and> st ! l \<noteq> PSCI_LOCAL_STATE_RUN \<and>
       (\<forall>k. l < k \<and> k \<le> PLAT_MAX_PWR_LVL P \<longrightarrow> st ! k = PSCI_LOCAL_STATE_RUN)"
    using target_lvl_spec [of st P] assms by (auto simp: power_req_ok_def)
  have "l \<noteq> PSCI_INVALID_PWR_LVL P"
    using assms l(1) by (auto simp: power_req_ok_def psci_validate_suspend_req_def psci_const)
  then show ?thesis using l by auto
qed

lemma cpu_ok_one:
  assumes "psci_svc_cpu_data s' = (psci_svc_cpu_data s)[c := x]" "c < length (psci_svc_cpu_data s)"
  shows "cd s' c = x" "d \<noteq> c \<Longrightarrow> cd s' d = cd s d"
  using assms by (simp_all add: cd_def)

lemma mode_ret [simp]: "mode_of (fst (ret x)) = mode_of (fst x)" "snd (ret x) = snd x"
  "fst (ret x) = System_down \<longleftrightarrow> fst x = System_down"
  by (auto simp: ret_def split: outcome.splits)

lemma ret_int_simps [simp]: "fst (ret_int x) = Returns (word_of_int (fst x))" "snd (ret_int x) = snd x"
  by (simp_all add: ret_int_def)

text \<open>The calls that only report or notify.\<close>

lemma quiet_calls:
  "psci_migrate P E mp s = Some (rc, s') \<Longrightarrow> same_core s s'"
  "psci_mem_protect P E en s = Some (rc, s') \<Longrightarrow> same_core s s'"
  "psci_system_reset2 P E ty ck s = Some (rc, s') \<Longrightarrow> same_core s s'"
  by (auto simp: psci_migrate_def psci_mem_protect_def psci_system_reset2_def Let_def emit_def same_core_def
      same_shape_def split: bind_splits prod.splits if_splits)

text \<open>The handler: what each of its branches leaves behind.\<close>

definition keeps :: "plat \<Rightarrow> (nat \<Rightarrow> cpu_mode) \<Rightarrow> nat \<Rightarrow> (u64 outcome \<times> psci) option \<Rightarrow> bool" where
  "keeps P md me res \<longleftrightarrow> (\<forall>r s'. res = Some (r, s') \<longrightarrow> r \<noteq> System_down \<longrightarrow> psci_inv P s' (md(me := mode_of r)))"

text \<open>A call that returns if the hooks it runs do (\<open>b\<close>), and that keeps the invariant.\<close>

definition call_ok :: "bool \<Rightarrow> plat \<Rightarrow> (nat \<Rightarrow> cpu_mode) \<Rightarrow> nat \<Rightarrow> (int outcome \<times> psci) option \<Rightarrow> bool" where
  "call_ok b P md me res \<longleftrightarrow> (b \<longrightarrow> res \<noteq> None) \<and>
     (\<forall>r s'. res = Some (r, s') \<longrightarrow> psci_inv P s' (md(me := mode_of r)) \<and> r \<noteq> System_down)"

lemma call_okI:
  "res = Some (r, s') \<Longrightarrow> psci_inv P s' (md(me := mode_of r)) \<Longrightarrow> r \<noteq> System_down \<Longrightarrow> call_ok b P md me res"
  "res = None \<Longrightarrow> \<not> b \<Longrightarrow> call_ok b P md me res"
  by (simp_all add: call_ok_def)

lemma call_ok_mono: "call_ok b P md me res \<Longrightarrow> (b' \<Longrightarrow> b) \<Longrightarrow> call_ok b' P md me res"
  by (auto simp: call_ok_def)

lemma keeps_if: "(b \<Longrightarrow> keeps P md me x) \<Longrightarrow> (\<not> b \<Longrightarrow> keeps P md me y) \<Longrightarrow> keeps P md me (if b then x else y)"
  by simp

lemma keeps_ret:
  assumes "call_ok b P md me res"
  shows "keeps P md me (map_option ret res)"
proof (cases res)
  case None
  then show ?thesis by (simp add: keeps_def)
next
  case (Some x)
  then have "psci_inv P (snd x) (md(me := mode_of (fst x)))" using assms by (cases x) (simp add: call_ok_def)
  then show ?thesis using Some by (cases x; cases "fst x") (simp_all add: keeps_def ret_def)
qed

lemma keeps_ret_int:
  assumes "md me = Running" "\<And>rc s'. res = Some (rc, s') \<Longrightarrow> psci_inv P s' md"
  shows "keeps P md me (map_option ret_int res)"
  using assms by (cases res) (auto simp: keeps_def ret_int_def fun_upd_idem)

lemma keeps_const:
  assumes "md me = Running" "psci_inv P s md"
  shows "keeps P md me (map_option (\<lambda>r. (Returns (f r), s)) res)" "keeps P md me (Some (Returns x, s))"
    "keeps P md me (map_option (\<lambda>r. ret_int (g r, s)) res')" "keeps P md me (Some (ret_int (y, s)))"
  using assms by (auto simp: keeps_def ret_int_def fun_upd_idem)

lemma keeps_down: "keeps P md me (map_option (\<lambda>s. (System_down, s)) res)"
  by (auto simp: keeps_def)

section \<open>Every call keeps the invariant\<close>

context psci_platform
begin

lemma cpu_on_inv:
  assumes "psci_inv P s md" "env_ok E"
  shows "\<exists>rc s'. psci_cpu_on P E mp entry ctx s = Some (rc, s') \<and> psci_inv P s' md"
proof (cases "psci_validate_mpidr P mp = PSCI_E_SUCCESS")
  case False
  then show ?thesis using assms by (simp add: psci_cpu_on_def)
next
  case True
  have ok: "topo_ok P s" "req_ok P s" using assms(1) by (auto simp: psci_inv_def)
  obtain rc0 ep where ep: "psci_validate_entry_point P E entry ctx = (rc0, ep)" by fastforce
  show ?thesis
  proof (cases "rc0 = PSCI_E_SUCCESS")
    case False
    then show ?thesis using True ep assms by (simp add: psci_cpu_on_def)
  next
    case ok0: True
    have "0 \<le> plat_core_pos_by_mpidr P mp"
      using True by (auto simp: psci_validate_mpidr_def psci_const split: if_splits)
    then obtain c where c: "plat_core_pos_by_mpidr P mp = int c" "c < PLATFORM_CORE_COUNT P"
      using core_pos(1) [of mp] by (metis nonneg_int_cases of_nat_less_iff)
    have rcs: "pwr_domain_on E mp = PSCI_E_SUCCESS \<or> pwr_domain_on E mp = PSCI_E_INTERN_FAIL"
      using assms(2) by (simp add: env_ok_def)
    obtain rc s' where s': "psci_cpu_on_start P E mp ep s = Some (rc, s')"
      "case aff_info_state (cd s c) of
       AFF_STATE_ON \<Rightarrow> rc = PSCI_E_ALREADY_ON \<and> same_core s s'
     | AFF_STATE_ON_PENDING \<Rightarrow> rc = PSCI_E_ON_PENDING \<and> same_core s s'
     | AFF_STATE_OFF \<Rightarrow> rc = pwr_domain_on E mp \<and>
         (if rc = PSCI_E_SUCCESS
          then psci_svc_cpu_data s' = (psci_svc_cpu_data s)[c := (cd s c)\<lparr>aff_info_state := AFF_STATE_ON_PENDING\<rparr>] \<and>
            same_core s (s'\<lparr>psci_svc_cpu_data := psci_svc_cpu_data s\<rparr>) \<and>
            Cm_init_context c ep \<in> set (trace s')
          else same_core s s')"
      using psci_cpu_on_start_spec [OF ok(1) hooks(2,3) c rcs, of ep] by blast
    have run: "psci_cpu_on P E mp entry ctx s = Some (rc, s')"
      using True ep ok0 s'(1) by (simp add: psci_cpu_on_def)
    show ?thesis
    proof (cases "same_core s s'")
      case True
      then show ?thesis using run same_core_inv [OF True assms(1)] by blast
    next
      case False
      let ?d = "(cd s c)\<lparr>aff_info_state := AFF_STATE_ON_PENDING\<rparr>"
      have f: "aff_info_state (cd s c) = AFF_STATE_OFF"
        "psci_svc_cpu_data s' = (psci_svc_cpu_data s)[c := ?d]"
        "same_core s (s'\<lparr>psci_svc_cpu_data := psci_svc_cpu_data s\<rparr>)"
        using s'(2) False by (auto split: aff_info_state.splits if_splits)
      have clen: "c < length (psci_svc_cpu_data s)" using topo_okD(2) [OF ok(1) c(2)] .
      have "cpu_ok P s c (md c)" using assms(1) c(2) by (simp add: psci_inv_def)
      then have down: "md c = Down" using f(1) by (cases "md c") (auto simp: cpu_ok_def)
      have sh: "same_shape s s'" using f(2,3) by (simp add: same_core_def same_shape_def)
      have obs: "nst s' j = nst s j" "rq s' k d = rq s k d" for j k d
        using f(3) by (simp_all add: same_core_def nst_def rq_def)
      have "req_ok P s'" using ok(2) same_shape_anc [OF sh ok(1)] obs by (simp add: req_ok_def)
      moreover have "cpu_ok P s' c Down"
        using \<open>cpu_ok P s c (md c)\<close> down f(1) cpu_ok_one(1) [OF f(2) clen] by (simp add: cpu_ok_def)
      ultimately have "psci_inv P s' (md(c := Down))"
        using inv_update [OF assms(1) same_shape_topo_ok [OF sh ok(1)]] obs(2) cpu_ok_one(2) [OF f(2) clen] by blast
      then show ?thesis using run down by (metis fun_upd_triv)
    qed
  qed
qed

lemma cpu_off_inv:
  assumes "psci_inv P s md" "env_ok E" "me < PLATFORM_CORE_COUNT P" "md me = Running"
  shows "call_ok (wfi_safe P) P md me (psci_cpu_off P E me s)"
proof -
  have ok: "topo_ok P s" "req_ok P s" "cpu_ok P s me Running"
    using assms by (auto simp: psci_inv_def dest: spec [of _ me])
  have me: "me < length (psci_svc_cpu_data s)" using topo_okD(2) [OF ok(1) assms(3)] .
  define st where "st = coordinated P s me (PLAT_MAX_PWR_LVL P) (psci_set_power_off_state P)"
  note spec = psci_do_cpu_off_spec [OF ok(1) plat no_stat hooks(1) assms(3) order_refl ok(2) st_def, of E]
  let ?d = "(cd s me)\<lparr>local_state := PLAT_MAX_OFF_STATE P, aff_info_state := AFF_STATE_OFF\<rparr>"
  show ?thesis
  proof (cases "(spd_has svc_off s \<longrightarrow> svc_off_rc E = PSCI_E_SUCCESS) \<and> \<not> wfi_returns P st")
    case True
    then have "psci_cpu_off P E me s = None" using spec by (simp add: psci_cpu_off_def)
    then show ?thesis using True by (intro call_okI(2)) (auto simp: wfi_safe_def)
  next
    case F: False
    obtain r s' where s': "psci_do_cpu_off P E me (PLAT_MAX_PWR_LVL P) s = Some (r, s')"
      "if spd_has svc_off s \<and> svc_off_rc E \<noteq> PSCI_E_SUCCESS then r = Returns (svc_off_rc E) \<and> same_core s s'
       else r = Cpu_down \<and> topo_ok P s' \<and> req_ok P s' \<and> psci_svc_cpu_data s' = (psci_svc_cpu_data s)[me := ?d] \<and>
         (\<forall>i d. d \<noteq> me \<longrightarrow> rq s' i d = rq s i d)"
      using spec unfolding if_not_P [OF F] by force
    show ?thesis
    proof (cases "spd_has svc_off s \<and> svc_off_rc E \<noteq> PSCI_E_SUCCESS")
      case True
      then have "r = Returns PSCI_E_DENIED" "same_core s s'" using s'(2) assms(2) by (auto simp: env_ok_def)
      then show ?thesis
        using s'(1) same_core_inv [OF _ assms(1), of s'] assms(4)
        by (intro call_okI(1) [of _ r s']) (auto simp: psci_cpu_off_def fun_upd_idem)
    next
      case False
      have f: "r = Cpu_down" "topo_ok P s'" "req_ok P s'"
        "psci_svc_cpu_data s' = (psci_svc_cpu_data s)[me := ?d]" "\<And>i d. d \<noteq> me \<Longrightarrow> rq s' i d = rq s i d"
        using s'(2) False by auto
      have "cpu_ok P s' me Down"
        using ok(3) plat cpu_ok_one(1) [OF f(4) me]
        by (simp add: cpu_ok_def is_local_state_off_def plat_ok_def)
      then have "psci_inv P s' (md(me := Down))"
        using inv_update [OF assms(1) f(2,3)] cpu_ok_one(2) [OF f(4) me] f(5) by blast
      then show ?thesis using s'(1) f(1) by (intro call_okI(1) [of _ Cpu_down s']) (simp_all add: psci_cpu_off_def)
    qed
  qed
qed

text \<open>The common tail of CPU_SUSPEND and SYSTEM_SUSPEND.\<close>

lemma suspend_start_inv:
  assumes "psci_inv P s md" "me < PLATFORM_CORE_COUNT P" "md me = Running"
    and "l \<le> PLAT_MAX_PWR_LVL P" "length st = PLAT_MAX_PWR_LVL P + 1" "pd \<Longrightarrow> is_local_state_off P (st ! 0)"
  shows "call_ok (pd \<longrightarrow> wfi_safe P) P md me (map_option suspend_result (psci_cpu_suspend_start P E me ep l st pd s))"
proof -
  have ok: "topo_ok P s" "req_ok P s" "cpu_ok P s me Running"
    using assms by (auto simp: psci_inv_def dest: spec [of _ me])
  have me: "me < length (psci_svc_cpu_data s)" using topo_okD(2) [OF ok(1) assms(2)] .
  let ?d = "(cd s me)\<lparr>local_state := st ! 0, target_pwrlvl := if pd then l else target_pwrlvl (cd s me)\<rparr>"
  note spec = psci_cpu_suspend_start_spec [OF ok(1) plat no_stat assms(2) hooks(4,5) assms(4) ok(2) assms(5), of E pd ep]
  show ?thesis
  proof (cases "read_isr_el1 E = 0 \<and> pd \<and> \<not> wfi_returns P (coordinated P s me l st)")
    case True
    then have "psci_cpu_suspend_start P E me ep l st pd s = None" using spec by simp
    then show ?thesis using True by (intro call_okI(2)) (auto simp: wfi_safe_def)
  next
    case F: False
    obtain r s' where s': "psci_cpu_suspend_start P E me ep l st pd s = Some (r, s')"
      "if read_isr_el1 E \<noteq> 0 then r = Returns () \<and> same_core s s'
       else r = (if pd then Cpu_down else In_standby l) \<and> topo_ok P s' \<and> req_ok P s' \<and>
         psci_svc_cpu_data s' = (psci_svc_cpu_data s)[me := ?d] \<and>
         (\<forall>i d. rq s' i d = (if d = me \<and> i < l then st ! Suc i else rq s i d))"
      using spec unfolding if_not_P [OF F] by blast
    show ?thesis
    proof (cases "read_isr_el1 E \<noteq> 0")
      case True
      then show ?thesis
        using s' same_core_inv [OF _ assms(1), of s'] assms(3)
        by (intro call_okI(1) [of _ "Returns PSCI_E_SUCCESS" s']) (simp_all add: suspend_result_def fun_upd_idem)
    next
      case False
      then have f: "r = (if pd then Cpu_down else In_standby l)" "topo_ok P s'" "req_ok P s'"
        "psci_svc_cpu_data s' = (psci_svc_cpu_data s)[me := ?d]"
        "\<And>i d. rq s' i d = (if d = me \<and> i < l then st ! Suc i else rq s i d)"
        using s'(2) by auto
      have "runs_from P s' me l" using ok(3) f(5) by (auto simp: cpu_ok_def runs_from_def)
      then have "cpu_ok P s' me (if pd then Down else Standby l)"
        using ok(3) cpu_ok_one(1) [OF f(4) me] assms(4,6) by (simp add: cpu_ok_def)
      then have "psci_inv P s' (md(me := if pd then Down else Standby l))"
        using inv_update [OF assms(1) f(2,3), of me] cpu_ok_one(2) [OF f(4) me] f(5) by simp
      then show ?thesis
        using s'(1) f(1)
        by (intro call_okI(1) [of _ "if pd then Cpu_down else In_standby l" s']) (auto simp: suspend_result_def)
    qed
  qed
qed

lemma standby_path_inv:
  assumes "psci_inv P s md" "me < PLATFORM_CORE_COUNT P" "md me = Running" "0 < length st"
  shows "if \<exists>hook. cpu_standby P = Some hook \<and> hook (st ! 0) = None then cpu_standby_path P E me st s = None
    else \<exists>rc s'. cpu_standby_path P E me st s = Some (Returns rc, s') \<and> same_core s s'"
proof -
  have ok: "topo_ok P s" "cpu_ok P s me Running"
    using assms by (auto simp: psci_inv_def dest: spec [of _ me])
  have me: "me < length (psci_svc_cpu_data s)" using topo_okD(2) [OF ok(1) assms(2)] .
  have "(psci_svc_cpu_data s)[me := (psci_svc_cpu_data s ! me)\<lparr>local_state := PSCI_LOCAL_STATE_RUN\<rparr>] =
      psci_svc_cpu_data s"
    using ok(2) me by (simp add: cpu_ok_def cd_def list_update_same_conv)
  then show ?thesis
    using me assms(4) no_stat
    by (cases "cpu_standby P"; cases "the (cpu_standby P) (st ! 0)")
      (auto simp: cpu_standby_path_def psci_set_cpu_local_state_def upd_cpu_data_def aget_simps Let_def
        PSCI_CPU_PWR_LVL_def emit_def same_core_def same_shape_def)
qed

lemma standby_path_ok:
  assumes "psci_inv P s md" "me < PLATFORM_CORE_COUNT P" "md me = Running" "0 < length st"
  shows "call_ok (standby_safe P) P md me (cpu_standby_path P E me st s)"
proof (cases "\<exists>hook. cpu_standby P = Some hook \<and> hook (st ! 0) = None")
  case True
  then have "\<not> standby_safe P" unfolding standby_safe_def by blast
  then show ?thesis using standby_path_inv [OF assms, of E] True by (intro call_okI(2)) simp_all
next
  case False
  then obtain rc s' where s': "cpu_standby_path P E me st s = Some (Returns rc, s')" "same_core s s'"
    using standby_path_inv [OF assms, of E] by metis
  show ?thesis
    using s'(1) same_core_inv [OF s'(2) assms(1)] assms(3)
    by (intro call_okI(1) [of _ "Returns rc" s']) (simp_all add: fun_upd_idem)
qed

lemma cpu_suspend_inv:
  assumes "psci_inv P s md" "me < PLATFORM_CORE_COUNT P" "md me = Running"
  shows "call_ok (if psci_get_pstate_type ps = 0 then standby_safe P else wfi_safe P) P md me (psci_cpu_suspend P E me ps entry ctx s)"
proof -
  have same: "md(me := Running) = md" using assms(3) by (simp add: fun_upd_idem)
  obtain hook where hook: "validate_power_state P = Some hook"
    "\<And>ps. case hook ps (all_run P) of (rc, st) \<Rightarrow>
      if rc = PSCI_E_SUCCESS then power_req_ok P st (psci_get_pstate_type ps \<noteq> 0) else rc = PSCI_E_INVALID_PARAMS"
    using validate by blast
  obtain rc st where v: "psci_validate_power_state P ps (all_run P) = Some (rc, st)"
    "if rc = PSCI_E_SUCCESS then power_req_ok P st (psci_get_pstate_type ps \<noteq> 0) else rc = PSCI_E_INVALID_PARAMS"
    using hook(1) hook(2) [of ps]
    by (cases "psci_check_power_state ps = 0"; cases "hook ps (all_run P)")
      (auto simp: psci_validate_power_state_def psci_const)
  note v1 = v(1) [unfolded all_run_def]
  show ?thesis
  proof (cases "rc = PSCI_E_SUCCESS")
    case False
    then show ?thesis
      using v1 v(2) assms(1) same by (intro call_okI(1) [of _ "Returns rc" s]) (simp_all add: psci_cpu_suspend_def)
  next
    case True
    let ?pd = "psci_get_pstate_type ps \<noteq> 0"
    have req: "power_req_ok P st ?pd" using v(2) True by simp
    obtain l where l: "psci_find_target_suspend_lvl P st = Some l" "l \<le> PLAT_MAX_PWR_LVL P"
      using suspend_req_target [OF req] by auto
    have len: "length st = PLAT_MAX_PWR_LVL P + 1" and val: "psci_validate_suspend_req P st ?pd = Some PSCI_E_SUCCESS"
      using req by (auto simp: power_req_ok_def)
    have ninv: "l \<noteq> PSCI_INVALID_PWR_LVL P" using l(2) by (simp add: PSCI_INVALID_PWR_LVL_def)
    obtain rc2 ep where ep: "psci_validate_entry_point P E entry ctx = (rc2, ep)" by fastforce
    have body: "psci_cpu_suspend P E me ps entry ctx s =
      (if is_cpu_standby_req ?pd l then cpu_standby_path P E me st s
       else if ?pd \<and> rc2 \<noteq> PSCI_E_SUCCESS then Some (Returns rc2, s)
       else map_option suspend_result (psci_cpu_suspend_start P E me ep l st ?pd s))"
      using v1 True l(1) val ninv ep by (simp add: psci_cpu_suspend_def)
    show ?thesis
    proof (cases "is_cpu_standby_req ?pd l")
      case True
      show ?thesis
        unfolding body if_P [OF True] using len True
        by (intro call_ok_mono [OF standby_path_ok [OF assms]]) (simp_all add: is_cpu_standby_req_def)
    next
      case False
      show ?thesis
      proof (cases "?pd \<and> rc2 \<noteq> PSCI_E_SUCCESS")
        case True
        show ?thesis
          using body True False assms(1) same by (intro call_okI(1) [of _ "Returns rc2" s]) simp_all
      next
        case F2: False
        show ?thesis
          unfolding body if_not_P [OF False] if_not_P [OF F2]
          using req
          by (intro call_ok_mono [OF suspend_start_inv [OF assms l(2) len]]) (auto simp: power_req_ok_def)
      qed
    qed
  qed
qed

lemma last_on_loop_total:
  assumes "i + n \<le> length (psci_svc_cpu_data s)" "aff_info_state (cd s me) = AFF_STATE_ON"
  shows "\<exists>b. last_on_loop s me i n = Some b"
  using assms
proof (induction n arbitrary: i)
  case (Suc n)
  then show ?case using Suc.IH [of "Suc i"] by auto
qed auto

lemma system_suspend_inv:
  assumes "psci_inv P s md" "me < PLATFORM_CORE_COUNT P" "md me = Running"
  shows "call_ok (wfi_safe P) P md me (psci_system_suspend P E me entry ctx s)"
proof -
  have same: "md(me := Running) = md" using assms(3) by (simp add: fun_upd_idem)
  have ok: "topo_ok P s" "cpu_ok P s me Running"
    using assms by (auto simp: psci_inv_def dest: spec [of _ me])
  obtain b where b: "psci_is_last_on_cpu P me s = Some b"
    using last_on_loop_total [of 0 "PLATFORM_CORE_COUNT P" s me] ok
    by (auto simp: psci_is_last_on_cpu_def topo_ok_def cpu_ok_def)
  obtain hook where hook: "get_sys_suspend_power_state P = Some hook" "power_req_ok P (hook (all_run P)) True"
      "psci_find_target_suspend_lvl P (hook (all_run P)) = Some (PLAT_MAX_PWR_LVL P)"
      "is_local_state_off P (hook (all_run P) ! PLAT_MAX_PWR_LVL P)"
    using sys_suspend by blast
  define st where "st = hook (all_run P)"
  have st: "length st = PLAT_MAX_PWR_LVL P + 1" "psci_validate_suspend_req P st True = Some PSCI_E_SUCCESS"
    "is_local_state_off P (st ! 0)" using hook(2) by (auto simp: power_req_ok_def st_def)
  obtain rc ep where ep: "psci_validate_entry_point P E entry ctx = (rc, ep)" by fastforce
  have q: "psci_query_sys_suspend_pwrstate P (replicate (PLAT_MAX_PWR_LVL P + 1) PSCI_LOCAL_STATE_RUN) = Some st"
    using hook(1) by (simp add: psci_query_sys_suspend_pwrstate_def st_def all_run_def)
  have body: "psci_system_suspend P E me entry ctx s =
    (if \<not> b then Some (Returns PSCI_E_DENIED, s)
     else if rc \<noteq> PSCI_E_SUCCESS then Some (Returns rc, s)
     else map_option suspend_result (psci_cpu_suspend_start P E me ep (PLAT_MAX_PWR_LVL P) st True s))"
    using b ep q st(1,2) hook(3,4) by (simp add: psci_system_suspend_def aget_simps flip: st_def)
  show ?thesis
  proof (cases "b \<and> rc = PSCI_E_SUCCESS")
    case False
    then have "\<exists>x. psci_system_suspend P E me entry ctx s = Some (Returns x, s)" using body by (cases b) auto
    then obtain x where x: "psci_system_suspend P E me entry ctx s = Some (Returns x, s)" ..
    show ?thesis using x assms(1) same by (intro call_okI(1) [of _ "Returns x" s]) simp_all
  next
    case True
    then show ?thesis
      unfolding body using suspend_start_inv [OF assms order_refl st(1), of True E ep] st(3) by simp
  qed
qed

lemma wake_inv:
  assumes "psci_inv P s md" "me < PLATFORM_CORE_COUNT P" "md me = Standby l"
  shows "\<exists>s'. psci_suspend_to_standby_finisher P E me l s = Some s' \<and> psci_inv P s' (md(me := Running))"
proof -
  have ok: "topo_ok P s" "req_ok P s" "cpu_ok P s me (Standby l)"
    using assms by (auto simp: psci_inv_def dest: spec [of _ me])
  have l: "l \<le> PLAT_MAX_PWR_LVL P" using ok(3) by (simp add: cpu_ok_def)
  have me: "me < length (psci_svc_cpu_data s)" using topo_okD(2) [OF ok(1) assms(2)] .
  let ?d = "(cd s me)\<lparr>aff_info_state := AFF_STATE_ON, local_state := PSCI_LOCAL_STATE_RUN\<rparr>"
  obtain s' where s': "psci_suspend_to_standby_finisher P E me l s = Some s'" "topo_ok P s'" "req_ok P s'"
    "psci_svc_cpu_data s' = (psci_svc_cpu_data s)[me := ?d]"
    "\<And>i d. rq s' i d = (if d = me \<and> i < l then PSCI_LOCAL_STATE_RUN else rq s i d)"
    using psci_suspend_to_standby_finisher_spec [OF ok(1) plat no_stat assms(2) l ok(2), of E] by blast
  have "cpu_ok P s' me Running"
    using ok(3) cpu_ok_one(1) [OF s'(4) me] s'(5) by (auto simp: cpu_ok_def runs_from_def)
  then show ?thesis
    using s'(1) inv_update [OF assms(1) s'(2,3), of me Running] cpu_ok_one(2) [OF s'(4) me] s'(5) by auto
qed

lemma boot_inv:
  assumes "psci_inv P s md" "me < PLATFORM_CORE_COUNT P" "md me = Down"
    and "psci_get_aff_info_state_by_idx s me \<noteq> Some AFF_STATE_OFF"
  shows "\<exists>s'. psci_warmboot_entrypoint P E me s = Some s' \<and> psci_inv P s' (md(me := Running))"
proof -
  have ok: "topo_ok P s" "req_ok P s" "cpu_ok P s me Down"
    using assms by (auto simp: psci_inv_def dest: spec [of _ me])
  have me: "me < length (psci_svc_cpu_data s)" using topo_okD(2) [OF ok(1) assms(2)] .
  have on: "aff_info_state (cd s me) \<noteq> AFF_STATE_OFF" using assms(4) me by auto
  let ?d = "(cd s me)\<lparr>target_pwrlvl := PSCI_INVALID_PWR_LVL P, aff_info_state := AFF_STATE_ON,
    local_state := PSCI_LOCAL_STATE_RUN\<rparr>"
  obtain s' where s': "psci_warmboot_entrypoint P E me s = Some s'" "topo_ok P s'" "req_ok P s'"
    "runs_from P s' me 0" "psci_svc_cpu_data s' = (psci_svc_cpu_data s)[me := ?d]"
    "\<And>i d. d \<noteq> me \<Longrightarrow> rq s' i d = rq s i d"
    using psci_warmboot_spec [OF ok(1) plat no_stat assms(2) ok(2,3) on, of E] by blast
  have "cpu_ok P s' me Running" using cpu_ok_one(1) [OF s'(5) me] s'(4) by (simp add: cpu_ok_def)
  then show ?thesis
    using s'(1) inv_update [OF assms(1) s'(2,3), of me Running] cpu_ok_one(2) [OF s'(5) me] s'(6) by auto
qed

lemma smc_keeps:
  assumes "psci_inv P s md" "env_ok E" "me < PLATFORM_CORE_COUNT P" "md me = Running"
  shows "keeps P md me (psci_smc_32 P E me fid x1 x2 x3 s)" "keeps P md me (psci_smc_64 P E me fid x1 x2 x3 s)"
proof -
  have on: "keeps P md me (map_option ret_int (psci_cpu_on P E a b c s))" for a b c
    using cpu_on_inv [OF assms(1,2), of a b c] by (intro keeps_ret_int [where md = md and me = me, OF assms(4)]) auto
  have off: "keeps P md me (map_option ret (psci_cpu_off P E me s))"
    using cpu_off_inv [OF assms] by (rule keeps_ret)
  have susp: "keeps P md me (map_option ret (psci_cpu_suspend P E me a b c s))" for a b c
    using cpu_suspend_inv [OF assms(1,3,4), of a E b c] by (rule keeps_ret)
  have sys: "keeps P md me (map_option ret (psci_system_suspend P E me a b s))" for a b
    using system_suspend_inv [OF assms(1,3,4), of E a b] by (rule keeps_ret)
  have mig: "keeps P md me (map_option ret_int (psci_migrate P E a s))" for a
    by (rule keeps_ret_int [where md = md and me = me, OF assms(4)]) (blast intro: same_core_inv [OF _ assms(1)] quiet_calls)
  have mem: "keeps P md me (map_option ret_int (psci_mem_protect P E a s))" for a
    by (rule keeps_ret_int [where md = md and me = me, OF assms(4)]) (blast intro: same_core_inv [OF _ assms(1)] quiet_calls)
  have rst: "keeps P md me (map_option ret_int (psci_system_reset2 P E a b s))" for a b
    by (rule keeps_ret_int [where md = md and me = me, OF assms(4)]) (blast intro: same_core_inv [OF _ assms(1)] quiet_calls)
  note cases = keeps_if on off susp sys mig mem rst keeps_down
    keeps_const(1) [where md = md and me = me, OF assms(4,1), where f = "\<lambda>x. x"] keeps_const(2) [where md = md and me = me, OF assms(4,1)]
    keeps_const(3) [where md = md and me = me, OF assms(4,1), where g = "\<lambda>x. x"] keeps_const(4) [where md = md and me = me, OF assms(4,1)]
  show "keeps P md me (psci_smc_32 P E me fid x1 x2 x3 s)"
    unfolding psci_smc_32_def by (intro cases)
  show "keeps P md me (psci_smc_64 P E me fid x1 x2 x3 s)"
    unfolding psci_smc_64_def by (intro cases)
qed

lemma smc_inv:
  assumes "psci_inv P s md" "env_ok E" "me < PLATFORM_CORE_COUNT P" "md me = Running"
    and "psci_smc_handler P E me fid x1 x2 x3 flags s = Some (r, s')" "r \<noteq> System_down"
  shows "psci_inv P s' (md(me := mode_of r))"
proof -
  have "keeps P md me (psci_smc_handler P E me fid x1 x2 x3 flags s)"
    unfolding psci_smc_handler_def
    by (intro keeps_if smc_keeps [OF assms(1-4)] keeps_const(2) [where md = md and me = me, OF assms(4,1)])
  then show ?thesis using assms(5,6) by (simp add: keeps_def)
qed

lemma step_inv:
  assumes "psci_step P a b" "psci_inv P (fst a) (snd a)"
  shows "psci_inv P (fst b) (snd b)"
  using assms
proof (induction rule: psci_step.induct)
  case (Smc c md E fid x1 x2 x3 flags s r s')
  then show ?case using smc_inv [of s md E c fid x1 x2 x3 flags r s'] by (simp add: fun_upd_def)
next
  case (Wake c md l E s s')
  then show ?case using wake_inv [of s md c l E] by (auto simp: fun_upd_def)
next
  case (Boot c md E s s')
  then show ?case using boot_inv [of s md c E] by (auto simp: fun_upd_def)
qed

lemma reach_inv:
  assumes "psci_reach P a b" "psci_inv P (fst a) (snd a)"
  shows "psci_inv P (fst b) (snd b)"
  using assms(1) unfolding psci_reach_def
  by (induction rule: rtranclp_induct) (auto simp: assms(2) intro: step_inv)

text \<open>A running CPU has all its ancestor domains up.\<close>

lemma inv_running:
  assumes "psci_inv P s md" "c < PLATFORM_CORE_COUNT P" "md c = Running" "k < PLAT_MAX_PWR_LVL P"
  shows "nst s (anode s c k) = PSCI_LOCAL_STATE_RUN"
proof -
  have "req_ok P s" "cpu_ok P s c Running" using assms by (auto simp: psci_inv_def dest: spec [of _ c])
  then show ?thesis using assms(2,4) by (simp add: req_ok_def cpu_ok_def runs_from_def)
qed

end

end
