(* ===== verification/A8k.thy ===== *)
theory A8k
  imports Psci_sys
begin

unbundle bit_operations_syntax

text \<open>
  The Armada 8K port of PSCI: the topology and the MPIDR check of
  \<^verbatim>\<open>plat/marvell/armada/common/marvell_topology.c\<close>, the core position of
  \<^verbatim>\<open>marvell_helpers.S\<close> and the hooks of \<^verbatim>\<open>a8k/common/plat_pm.c\<close> whose
  result the service uses or that may not come back; what the other hooks do is hardware
  access that returns, and only their presence matters here. The port works with or without
  the power management firmware of the SoC (\<open>is_pm_fw_running\<close>), and without it relies on
  the board's description of how to switch the SoC off (\<open>plat_marvell_get_pm_cfg\<close>, NULL
  unless the board overrides it); both are parameters of the record \<open>a8k\<close>, the platform the
  secure firmware is built for. A hook that panics, or reads through a NULL pointer or past an
  array, gives \<open>None\<close>.
\<close>

definition PLAT_MARVELL_CLUSTER_COUNT :: nat where "PLAT_MARVELL_CLUSTER_COUNT = 2"
definition PLAT_MARVELL_CLUSTER_CORE_COUNT :: nat where "PLAT_MARVELL_CLUSTER_CORE_COUNT = 2"
definition MARVELL_LOCAL_STATE_RET :: u8 where "MARVELL_LOCAL_STATE_RET = 1"
definition MARVELL_LOCAL_STATE_OFF :: u8 where "MARVELL_LOCAL_STATE_OFF = 2"

definition MPIDR_CPU_MASK :: u32 where "MPIDR_CPU_MASK = 0xff"
definition MPIDR_CLUSTER_MASK :: u32 where "MPIDR_CLUSTER_MASK = push_bit 8 0xff"

definition MPIDR_AFFLVL_VAL :: "nat \<Rightarrow> u64 \<Rightarrow> u64" where
  "MPIDR_AFFLVL_VAL shift mp = drop_bit shift mp AND 0xff"

definition marvell_power_domain_tree_desc :: "u8 list" where
  "marvell_power_domain_tree_desc =
     of_nat PLAT_MARVELL_CLUSTER_COUNT #
     replicate PLAT_MARVELL_CLUSTER_COUNT (of_nat PLAT_MARVELL_CLUSTER_CORE_COUNT)"

text \<open>The complement of the mask is taken at 32 bits, as the constants are \<open>unsigned int\<close>.\<close>

definition marvell_check_mpidr :: "u64 \<Rightarrow> int" where
  "marvell_check_mpidr mp =
     (let mp = mp AND MPIDR_AFFINITY_MASK in
      if mp AND ucast (NOT (MPIDR_CLUSTER_MASK OR MPIDR_CPU_MASK OR push_bit 16 (0xff :: u32))) \<noteq> 0
      then - 1
      else if unat (MPIDR_AFFLVL_VAL 32 mp) \<ge> PLAT_MARVELL_CLUSTER_COUNT then - 1
      else if unat (MPIDR_AFFLVL_VAL 8 mp) \<ge> PLAT_MARVELL_CLUSTER_COUNT then - 1
      else if unat (MPIDR_AFFLVL_VAL 0 mp) \<ge> PLAT_MARVELL_CLUSTER_CORE_COUNT then - 1
      else 0)"

definition plat_marvell_calc_core_pos :: "u64 \<Rightarrow> u64" where
  "plat_marvell_calc_core_pos mp =
     (mp AND ucast MPIDR_CPU_MASK) + drop_bit 7 (mp AND ucast MPIDR_CLUSTER_MASK)"

definition marvell_core_pos_by_mpidr :: "u64 \<Rightarrow> int" where
  "marvell_core_pos_by_mpidr mp =
     (if marvell_check_mpidr mp = - 1 then - 1
      else sint (ucast (plat_marvell_calc_core_pos mp) :: u32))"

text \<open>The loop that sets the levels up to the requested one to OFF.\<close>

fun set_off_upto :: "nat \<Rightarrow> psci_power_state \<Rightarrow> psci_power_state" where
  "set_off_upto 0 st = st[0 := MARVELL_LOCAL_STATE_OFF]"
| "set_off_upto (Suc n) st = (set_off_upto n st)[Suc n := MARVELL_LOCAL_STATE_OFF]"

definition a8k_validate_power_state :: "u32 \<Rightarrow> psci_power_state \<Rightarrow> int \<times> psci_power_state" where
  "a8k_validate_power_state power_state st =
     (let pwr_lvl = unat (psci_get_pstate_pwrlvl power_state) in
      if pwr_lvl > 1 then (PSCI_E_INVALID_PARAMS, st)
      else if psci_get_pstate_type power_state = PSTATE_TYPE_STANDBY \<and> pwr_lvl \<noteq> 0
      then (PSCI_E_INVALID_PARAMS, st)
      else let st = (if psci_get_pstate_type power_state = PSTATE_TYPE_STANDBY
                     then st[0 := MARVELL_LOCAL_STATE_RET] else set_off_upto pwr_lvl st)
           in if psci_get_pstate_id power_state \<noteq> 0 then (PSCI_E_INVALID_PARAMS, st)
              else (PSCI_E_SUCCESS, st))"

definition a8k_get_sys_suspend_power_state :: "psci_power_state \<Rightarrow> psci_power_state" where
  "a8k_get_sys_suspend_power_state st = set_off_upto 1 st"

definition a8k_validate_ns_entrypoint :: "u64 \<Rightarrow> int" where
  "a8k_validate_ns_entrypoint entrypoint = PSCI_E_SUCCESS"

section \<open>Hooks that may not come back\<close>

text \<open>The firmware's own standby; without it the port has none.\<close>

definition a8k_cpu_standby :: "bool \<Rightarrow> plat_local_state \<Rightarrow> unit option" where
  "a8k_cpu_standby is_pm_fw_running cpu_state = (if \<not> is_pm_fw_running then None else Some ())"

definition PMIC_GPIO_MAX_NUMBER :: nat where "PMIC_GPIO_MAX_NUMBER = 8"
definition PMIC_GPIO_MAX_TOGGLE_STEP :: nat where "PMIC_GPIO_MAX_TOGGLE_STEP = 8"

record gpio_info =
  cp_index :: int
  gpio_index :: int

text \<open>The one method there is, \<open>PMIC_GPIO\<close>, with its arrays of eight entries.\<close>

record power_off_method =
  pin_count :: int
  info :: "gpio_info list"
  step_count :: int
  seq :: "u32 list"
  delay_ms :: int

text \<open>A loop that reads the entries below \<open>i + n\<close> of an array.\<close>

fun read_entries :: "'a list \<Rightarrow> nat \<Rightarrow> nat \<Rightarrow> unit option" where
  "read_entries xs i 0 = Some ()"
| "read_entries xs i (Suc n) = do { _ \<leftarrow> aget xs i; read_entries xs (Suc i) n }"

text \<open>
  Each step of the toggling loop reads its bit pattern, the first pin and then all pins; the
  counters are unsigned, so a negative count is a huge one.
\<close>

fun toggle_loop :: "gpio_info list \<Rightarrow> nat \<Rightarrow> u32 list \<Rightarrow> nat \<Rightarrow> nat \<Rightarrow> unit option" where
  "toggle_loop pins np sq i 0 = Some ()"
| "toggle_loop pins np sq i (Suc n) = do {
     _ \<leftarrow> aget sq i;
     _ \<leftarrow> aget pins 0;
     _ \<leftarrow> read_entries pins 0 np;
     toggle_loop pins np sq (Suc i) n
   }"

definition plat_marvell_power_off_gpio :: "power_off_method \<Rightarrow> unit option" where
  "plat_marvell_power_off_gpio pm_cfg = do {
     _ \<leftarrow> assert (pin_count pm_cfg < int PMIC_GPIO_MAX_NUMBER \<and> step_count pm_cfg < int PMIC_GPIO_MAX_TOGGLE_STEP);
     let np = unat (word_of_int (pin_count pm_cfg) :: u32);
     _ \<leftarrow> read_entries (info pm_cfg) 0 np;
     toggle_loop (info pm_cfg) np (seq pm_cfg) 0 (unat (word_of_int (step_count pm_cfg) :: u32))
   }"

text \<open>With the firmware the CPU waits for it; without, the configuration is read unchecked.\<close>

definition a8k_pwr_domain_pwr_down_wfi :: "bool \<Rightarrow> power_off_method option \<Rightarrow> psci_power_state \<Rightarrow> unit option" where
  "a8k_pwr_domain_pwr_down_wfi is_pm_fw_running pm_cfg target_state =
     (if is_pm_fw_running then Some ()
      else do { cfg \<leftarrow> pm_cfg; plat_marvell_power_off_gpio cfg })"

definition a8k_system_off :: "unit option" where
  "a8k_system_off = None"

section \<open>The platform\<close>

definition a8k :: "bool \<Rightarrow> power_off_method option \<Rightarrow> plat" where
  "a8k fw cfg =
    \<lparr>PLAT_MAX_PWR_LVL = 1, PLATFORM_CORE_COUNT = PLAT_MARVELL_CLUSTER_COUNT * PLAT_MARVELL_CLUSTER_CORE_COUNT,
     PSCI_NUM_NON_CPU_PWR_DOMAINS = PLAT_MARVELL_CLUSTER_COUNT,
     PLAT_MAX_RET_STATE = MARVELL_LOCAL_STATE_RET, PLAT_MAX_OFF_STATE = MARVELL_LOCAL_STATE_OFF,
     PLAT_MAX_PWR_LVL_STATES = 2, ENABLE_PSCI_STAT = False, HW_ASSISTED_COHERENCY = False,
     plat_core_pos_by_mpidr = marvell_core_pos_by_mpidr, topology_desc = marvell_power_domain_tree_desc,
     cpu_standby = Some (a8k_cpu_standby fw), has_pwr_domain_on = True, pwr_domain_off = True,
     pwr_domain_suspend_pwrdown_early = False, pwr_domain_suspend = True, pwr_domain_on_finish = True,
     pwr_domain_suspend_finish = True, pwr_domain_pwr_down_wfi = Some (a8k_pwr_domain_pwr_down_wfi fw cfg), system_off = Some a8k_system_off,
     system_reset = True, validate_power_state = Some a8k_validate_power_state,
     validate_ns_entrypoint = Some a8k_validate_ns_entrypoint,
     get_sys_suspend_power_state = Some a8k_get_sys_suspend_power_state,
     get_pwr_lvl_state_idx = None, translate_power_state_by_mpidr = None,
     has_get_node_hw_state = False, has_mem_protect_chk = False, has_read_mem_protect = False,
     has_write_mem_protect = False, has_system_reset2 = False\<rparr>"

definition env0 :: env where
  "env0 = \<lparr>read_isr_el1 = 0, read_mpidr = 0x80000000, read_scr_el3 = 0x500, read_sctlr_el1 = 0,
     read_sctlr_el2 = 0, pwr_domain_on = (\<lambda>_. 0), svc_off_rc = 0, svc_migrate_rc = 0,
     svc_migrate_info_rc = (0, 0), get_node_hw_state = (\<lambda>_ _. 0), mem_protect_chk = (\<lambda>_ _. 0),
     read_mem_protect = (0, 0), write_mem_protect = (\<lambda>_. 0), system_reset2 = (\<lambda>_ _ _. 0),
     plat_psci_stat_get_residency = (\<lambda>_ _ _. 0)\<rparr>"

section \<open>The port meets the platform contract\<close>

lemma affinity_low: "(mp AND MPIDR_AFFINITY_MASK) AND 0xff = mp AND (0xff :: u64)"
proof -
  have "MPIDR_AFFINITY_MASK AND 0xff = (0xff :: u64)" by code_simp
  then show ?thesis by (simp only: and.assoc)
qed

lemma afflvl1: "MPIDR_AFFLVL_VAL 8 (mp AND MPIDR_AFFINITY_MASK) = drop_bit 8 mp AND 0xff"
proof -
  have "drop_bit 8 MPIDR_AFFINITY_MASK AND 0xff = (0xff :: u64)" by code_simp
  then show ?thesis by (simp add: MPIDR_AFFLVL_VAL_def drop_bit_and and.assoc)
qed

lemma cluster_bits: "drop_bit 7 (mp AND 0xff00) = push_bit 1 (drop_bit 8 mp AND (0xff :: u64))"
proof -
  have m: "(0xff00 :: u64) = push_bit 8 (mask 8)" "(0xff :: u64) = mask 8" by (simp_all add: mask_eq_exp_minus_1)
  have "bit (drop_bit 7 (mp AND push_bit 8 (mask 8))) n = bit (push_bit 1 (drop_bit 8 mp AND (mask 8 :: u64))) n"
    if "n < 64" for n
    using that unfolding bit_drop_bit_eq bit_push_bit_iff bit_and_iff bit_mask_iff comp_def
    by (cases n) auto
  then show ?thesis unfolding m by (intro bit_word_eqI) simp
qed

text \<open>
  The first test never fires: the complement has no bit above the 32nd, and the mask of the
  affinity fields none between the 24th and the 32nd.
\<close>

lemma check_mpidr_exact:
  "marvell_check_mpidr mp =
     (if unat (drop_bit 32 mp AND 0xff) < 2 \<and> unat (drop_bit 8 mp AND 0xff) < 2 \<and> unat (mp AND 0xff) < 2 then 0 else - 1)"
proof -
  let ?N = "ucast (NOT (MPIDR_CLUSTER_MASK OR MPIDR_CPU_MASK OR push_bit 16 (0xff :: u32))) :: u64"
  have "MPIDR_AFFINITY_MASK AND ?N = 0" "drop_bit 32 MPIDR_AFFINITY_MASK AND 0xff = (0xff :: u64)" by code_simp+
  then have m: "(mp AND MPIDR_AFFINITY_MASK) AND ?N = 0"
    "MPIDR_AFFLVL_VAL 32 (mp AND MPIDR_AFFINITY_MASK) = drop_bit 32 mp AND 0xff"
    by (simp_all add: MPIDR_AFFLVL_VAL_def drop_bit_and and.assoc)
  have l0: "MPIDR_AFFLVL_VAL 0 (mp AND MPIDR_AFFINITY_MASK) = mp AND 0xff"
    unfolding MPIDR_AFFLVL_VAL_def drop_bit_0 by (simp only: affinity_low id_apply)
  show ?thesis
    unfolding marvell_check_mpidr_def Let_def m afflvl1 l0
    by (simp add: PLAT_MARVELL_CLUSTER_COUNT_def PLAT_MARVELL_CLUSTER_CORE_COUNT_def not_le)
qed

lemma core_pos_exact:
  "marvell_core_pos_by_mpidr mp =
     (if unat (mp AND 0xff) < 2 \<and> unat (drop_bit 8 mp AND 0xff) < 2 \<and> unat (drop_bit 32 mp AND 0xff) < 2
      then int (unat (mp AND 0xff) + 2 * unat (drop_bit 8 mp AND 0xff)) else - 1)"
proof -
  let ?a = "mp AND 0xff" and ?b = "drop_bit 8 mp AND (0xff :: u64)"
  have ab: "?a = of_nat (unat ?a)" "?b = of_nat (unat ?b)" by simp_all
  have masks: "ucast MPIDR_CPU_MASK = (0xff :: u64)" "ucast MPIDR_CLUSTER_MASK = (0xff00 :: u64)"
    by code_simp+
  have pos: "plat_marvell_calc_core_pos mp = ?a + push_bit 1 ?b"
    unfolding plat_marvell_calc_core_pos_def masks cluster_bits ..
  have "sint (ucast (plat_marvell_calc_core_pos mp) :: u32) = int (unat ?a + 2 * unat ?b)"
    if "unat ?a < 2" "unat ?b < 2"
  proof -
    have "unat ?a = 0 \<or> unat ?a = 1" "unat ?b = 0 \<or> unat ?b = 1" using that by auto
    then show ?thesis unfolding pos by (subst ab(1), subst ab(2)) (elim disjE; simp)
  qed
  then show ?thesis by (simp add: marvell_core_pos_by_mpidr_def check_mpidr_exact)
qed

text \<open>When the hooks come back.\<close>

definition pm_cfg_ok :: "power_off_method \<Rightarrow> bool" where
  "pm_cfg_ok c \<longleftrightarrow> 0 \<le> pin_count c \<and> pin_count c < 8 \<and> 0 \<le> step_count c \<and> step_count c < 8 \<and>
     length (info c) = PMIC_GPIO_MAX_NUMBER \<and> length (seq c) = PMIC_GPIO_MAX_TOGGLE_STEP"

lemma read_entries_ok: "i + n \<le> length xs \<Longrightarrow> read_entries xs i n = Some ()"
  by (induction n arbitrary: i) (auto simp: aget_simps)

lemma toggle_loop_ok:
  "i + n \<le> length sq \<Longrightarrow> pins \<noteq> [] \<Longrightarrow> np \<le> length pins \<Longrightarrow> toggle_loop pins np sq i n = Some ()"
  by (induction n arbitrary: i) (auto simp: aget_simps read_entries_ok)

lemma power_off_gpio_ok:
  assumes "pm_cfg_ok c"
  shows "plat_marvell_power_off_gpio c = Some ()"
proof -
  have "unat (word_of_int (pin_count c) :: u32) < 8" "unat (word_of_int (step_count c) :: u32) < 8"
    using assms
    by (auto simp: pm_cfg_ok_def take_bit_int_eq_self nat_less_iff simp flip: nat_uint_eq simp: uint_word_of_int_eq)
  moreover have "length (info c) = 8" "length (seq c) = 8" "info c \<noteq> []"
    using assms by (auto simp: pm_cfg_ok_def PMIC_GPIO_MAX_NUMBER_def PMIC_GPIO_MAX_TOGGLE_STEP_def)
  ultimately show ?thesis
    using assms
    by (simp add: plat_marvell_power_off_gpio_def pm_cfg_ok_def PMIC_GPIO_MAX_NUMBER_def
        PMIC_GPIO_MAX_TOGGLE_STEP_def Let_def read_entries_ok toggle_loop_ok)
qed

lemma a8k_hooks:
  "standby_safe (a8k fw cfg) \<longleftrightarrow> fw" "fw \<or> (\<exists>c. cfg = Some c \<and> pm_cfg_ok c) \<Longrightarrow> wfi_safe (a8k fw cfg)"
  "\<not> wfi_returns (a8k False None) st"
  by (auto simp: standby_safe_def wfi_safe_def wfi_returns_def a8k_def a8k_cpu_standby_def
      a8k_pwr_domain_pwr_down_wfi_def power_off_gpio_ok)

lemma a8k_validate:
  "case a8k_validate_power_state ps (all_run (a8k fw cfg)) of (rc, st) \<Rightarrow>
     if rc = PSCI_E_SUCCESS then power_req_ok (a8k fw cfg) st (psci_get_pstate_type ps \<noteq> 0)
     else rc = PSCI_E_INVALID_PARAMS"
proof -
  have r: "power_req_ok (a8k fw cfg) ((all_run (a8k fw cfg))[0 := MARVELL_LOCAL_STATE_RET]) False"
    "power_req_ok (a8k fw cfg) (set_off_upto 0 (all_run (a8k fw cfg))) True" "power_req_ok (a8k fw cfg) (set_off_upto (Suc 0) (all_run (a8k fw cfg))) True"
    by code_simp+
  have "unat (psci_get_pstate_pwrlvl ps) > 1 \<or> unat (psci_get_pstate_pwrlvl ps) = 0 \<or>
      unat (psci_get_pstate_pwrlvl ps) = 1" by linarith
  then show ?thesis
    using r by (elim disjE) (auto simp: a8k_validate_power_state_def Let_def psci_const PSTATE_TYPE_STANDBY_def)
qed

lemma a8k_sys_suspend:
  "power_req_ok (a8k fw cfg) (a8k_get_sys_suspend_power_state (all_run (a8k fw cfg))) True \<and>
   psci_find_target_suspend_lvl (a8k fw cfg) (a8k_get_sys_suspend_power_state (all_run (a8k fw cfg))) = Some (PLAT_MAX_PWR_LVL (a8k fw cfg)) \<and>
   is_local_state_off (a8k fw cfg) (a8k_get_sys_suspend_power_state (all_run (a8k fw cfg)) ! PLAT_MAX_PWR_LVL (a8k fw cfg))"
  by code_simp

lemma a8k_fields:
  "plat_core_pos_by_mpidr (a8k fw cfg) = marvell_core_pos_by_mpidr" "PLATFORM_CORE_COUNT (a8k fw cfg) = 4"
  "PLAT_MAX_PWR_LVL (a8k fw cfg) = 1" "validate_power_state (a8k fw cfg) = Some a8k_validate_power_state"
  "get_sys_suspend_power_state (a8k fw cfg) = Some a8k_get_sys_suspend_power_state" "ENABLE_PSCI_STAT (a8k fw cfg) = False"
  by (simp_all add: a8k_def PLAT_MARVELL_CLUSTER_COUNT_def PLAT_MARVELL_CLUSTER_CORE_COUNT_def)

interpretation a8k_psci: psci_platform "a8k fw cfg" for fw cfg
proof
  show "plat_ok (a8k fw cfg)" by code_simp
  show "\<not> ENABLE_PSCI_STAT (a8k fw cfg)" by (simp add: a8k_fields)
  show "pwr_domain_off (a8k fw cfg)" "has_pwr_domain_on (a8k fw cfg)" "pwr_domain_on_finish (a8k fw cfg)"
    "pwr_domain_suspend (a8k fw cfg)" "pwr_domain_suspend_finish (a8k fw cfg)"
    by (simp_all add: a8k_def)
  show "\<exists>hook. validate_power_state (a8k fw cfg) = Some hook \<and>
      (\<forall>ps. case hook ps (all_run (a8k fw cfg)) of (rc, st) \<Rightarrow>
        if rc = PSCI_E_SUCCESS then power_req_ok (a8k fw cfg) st (psci_get_pstate_type ps \<noteq> 0)
        else rc = PSCI_E_INVALID_PARAMS)"
    using a8k_validate by (simp add: a8k_fields)
  show "\<exists>hook. get_sys_suspend_power_state (a8k fw cfg) = Some hook \<and>
      power_req_ok (a8k fw cfg) (hook (all_run (a8k fw cfg))) True \<and>
      psci_find_target_suspend_lvl (a8k fw cfg) (hook (all_run (a8k fw cfg))) = Some (PLAT_MAX_PWR_LVL (a8k fw cfg)) \<and>
      is_local_state_off (a8k fw cfg) (hook (all_run (a8k fw cfg)) ! PLAT_MAX_PWR_LVL (a8k fw cfg))"
    using a8k_sys_suspend by (simp only: a8k_fields) blast
  show "plat_core_pos_by_mpidr (a8k fw cfg) mp < int (PLATFORM_CORE_COUNT (a8k fw cfg))" "- 1 \<le> plat_core_pos_by_mpidr (a8k fw cfg) mp" for mp
    unfolding a8k_fields core_pos_exact by (auto simp del: of_nat_add of_nat_mult of_nat_unat)
qed

section \<open>Boot\<close>

definition boot_modes :: "nat \<Rightarrow> cpu_mode" where
  "boot_modes c = (if c = 0 then Running else Down)"

definition a8k_start :: "u64 \<Rightarrow> psci" where
  "a8k_start mp =
     (let node = (\<lambda>i st. \<lparr>cpu_start_idx = 2 * i, ncpus = 2, parent_node = -1, node_state = st, level = 1,
                    lock_index = ucast i\<rparr>);
          off = \<lparr>aff_info_state = AFF_STATE_OFF, target_pwrlvl = 2, local_state = 2\<rparr>;
          stat = \<lparr>residency = 0, count = 0\<rparr>
      in \<lparr>psci_req_local_pwr_states = [[0, 2, 2, 2]],
          psci_non_cpu_pd_nodes = [node 0 0, node 1 2],
          psci_cpu_pd_nodes = [\<lparr>mpidr = mp AND MPIDR_AFFINITY_MASK, cpu_parent = 0\<rparr>, \<lparr>mpidr = -1, cpu_parent = 0\<rparr>,
            \<lparr>mpidr = -1, cpu_parent = 1\<rparr>, \<lparr>mpidr = -1, cpu_parent = 1\<rparr>],
          psci_svc_cpu_data = [\<lparr>aff_info_state = AFF_STATE_ON, target_pwrlvl = 2, local_state = 0\<rparr>, off, off, off],
          psci_spd_pm = None, psci_caps = 18399, last_cpu_in_non_cpu_pd = [-1, -1],
          psci_cpu_stat = replicate 4 [stat, stat], psci_non_cpu_stat = replicate 2 [stat, stat],
          trace = [Psci_arch_setup]\<rparr>)"

lemma a8k_setup: "psci_setup (a8k fw cfg) E 0 (psci_boot (a8k fw cfg)) = Some (a8k_start (read_mpidr E))"
  by code_simp

text \<open>The state after a cold boot satisfies the invariant, with only the primary CPU running.\<close>

lemma a8k_consts:
  "PSCI_INVALID_PWR_LVL (a8k fw cfg) = 2" "PLAT_MAX_RET_STATE (a8k fw cfg) = 1" "PLAT_MAX_OFF_STATE (a8k fw cfg) = 2"
  by (simp_all add: a8k_def PSCI_INVALID_PWR_LVL_def MARVELL_LOCAL_STATE_RET_def MARVELL_LOCAL_STATE_OFF_def)

lemma a8k_start_cpus:
  assumes "c < 4"
  shows "anc (a8k_start mp) c 0 = of_nat (c div 2)"
proof -
  have "c = 0 \<or> c = 1 \<or> c = 2 \<or> c = 3" using assms by linarith
  then show ?thesis by (elim disjE) (simp_all add: anc.simps a8k_start_def Let_def)
qed

lemma a8k_start_nodes:
  "cpus_of (a8k_start mp) 0 = {0, 1}" "cpus_of (a8k_start mp) (Suc 0) = {2, 3}"
  by (auto simp: cpus_of_def a8k_start_def Let_def)

lemma a8k_start_node_ok:
  assumes "c < 4"
  shows "node_ok (a8k fw cfg) (a8k_start mp) c 0"
proof -
  have "c = 0 \<or> c = 1 \<or> c = 2 \<or> c = 3" using assms by linarith
  then show ?thesis
    by (elim disjE) (simp_all add: node_ok_def same_anc_def a8k_start_nodes a8k_start_cpus a8k_fields,
        simp_all add: a8k_start_def Let_def)
qed

lemma a8k_start_inv: "psci_inv (a8k fw cfg) (a8k_start mp) boot_modes"
proof -
  have cpu: "cpu_ok (a8k fw cfg) (a8k_start mp) c (boot_modes c)" "rq (a8k_start mp) 0 c = 0 \<Longrightarrow> c = 0" if "c < 4" for c
  proof -
    have "c = 0 \<or> c = 1 \<or> c = 2 \<or> c = 3" using that by linarith
    then show "rq (a8k_start mp) 0 c = 0 \<Longrightarrow> c = 0" by (auto simp: rq_def a8k_start_def Let_def)
    from \<open>c = 0 \<or> c = 1 \<or> c = 2 \<or> c = 3\<close> show "cpu_ok (a8k fw cfg) (a8k_start mp) c (boot_modes c)"
      by (elim disjE, simp_all add: cpu_ok_def boot_modes_def cd_def runs_from_def rq_def a8k_start_def a8k_consts
          a8k_fields psci_const is_local_state_off_def Let_def)
  qed
  have "req_ok (a8k fw cfg) (a8k_start mp)"
  proof -
    have "nst (a8k_start mp) 0 = 0" by (simp add: nst_def a8k_start_def Let_def)
    then show ?thesis
      using cpu(2) by (fastforce simp: req_ok_def a8k_fields PSCI_LOCAL_STATE_RUN_def a8k_start_cpus)
  qed
  moreover have "topo_ok (a8k fw cfg) (a8k_start mp)"
    unfolding topo_ok_def using a8k_start_node_ok by (auto simp: a8k_fields a8k_start_def Let_def)
  ultimately show ?thesis
    using cpu(1) by (simp add: psci_inv_def a8k_fields)
qed

end
