(* ===== verification/Psci_props.thy ===== *)
theory Psci_props
  imports A8k
begin

unbundle bit_operations_syntax

text \<open>
  What the service promises to its callers, stated for the generic code and for the system
  that the Armada 8K port and the generic code make up together.
\<close>

section \<open>Auxiliary facts\<close>

lemma boot_reach_inv:
  assumes "psci_setup (a8k fw cfg) E 0 (psci_boot (a8k fw cfg)) = Some s0" "psci_reach (a8k fw cfg) (s0, boot_modes) (s, md)"
  shows "psci_inv (a8k fw cfg) s md"
  using a8k_psci.reach_inv [OF assms(2)] a8k_start_inv [where mp = "read_mpidr E"] assms(1)
  by (simp add: a8k_setup)

lemma env0_ok: "env_ok env0"
  by (simp add: env_ok_def env0_def psci_const)

text \<open>A run of two steps: CPU 0 turns CPU 2 on, and CPU 2 comes out of reset.\<close>

lemma run_cpu_on:
  "\<exists>s md. psci_reach (a8k fw cfg) (a8k_start 0x80000000, boot_modes) (s, md) \<and> md 2 = Running"
proof -
  let ?h = "psci_smc_handler (a8k fw cfg) env0 0 PSCI_CPU_ON_AARCH64 0x100 0x4000000 0 1 (a8k_start 0x80000000)"
  have "case ?h of None \<Rightarrow> False
    | Some (r, s1) \<Rightarrow> r = Returns 0 \<and> psci_get_aff_info_state_by_idx s1 2 = Some AFF_STATE_ON_PENDING \<and>
        \<not> Option.is_none (psci_warmboot_entrypoint (a8k fw cfg) env0 2 s1)"
    by code_simp
  then obtain s1 s2 where s: "?h = Some (Returns 0, s1)"
    "psci_get_aff_info_state_by_idx s1 2 = Some AFF_STATE_ON_PENDING"
    "psci_warmboot_entrypoint (a8k fw cfg) env0 2 s1 = Some s2"
    by (auto simp: Option.is_none_def split: option.splits)
  have m: "boot_modes 0 = Running" "(boot_modes(0 := Running)) 2 = Down" by (simp_all add: boot_modes_def)
  have "psci_step (a8k fw cfg) (a8k_start 0x80000000, boot_modes) (s1, boot_modes(0 := mode_of (Returns 0 :: u64 outcome)))"
    by (rule psci_step.Smc [where md = boot_modes and c = 0, OF _ m(1) env0_ok s(1)]) (simp_all add: a8k_fields)
  moreover have "psci_step (a8k fw cfg) (s1, boot_modes(0 := Running)) (s2, (boot_modes(0 := Running))(2 := Running))"
    by (rule psci_step.Boot [where md = "boot_modes(0 := Running)" and c = 2, OF _ m(2) env0_ok _ s(3)])
      (simp_all add: a8k_fields s(2))
  ultimately show ?thesis
    unfolding psci_reach_def by (metis converse_rtranclp_into_rtranclp fun_upd_same mode_of.simps(1) r_into_rtranclp)
qed

lemma validate_depth_loop_spec:
  "i < length st \<Longrightarrow> validate_depth_loop P st i d = Some
     (d \<le> state_depth (find_local_state_type P (st ! i)) \<and>
      (\<forall>j < i. state_depth (find_local_state_type P (st ! Suc j)) \<le> state_depth (find_local_state_type P (st ! j))))"
proof (induction i arbitrary: d)
  case 0
  then show ?case by (simp add: validate_depth_loop.simps [of P st 0] aget_simps Let_def not_less)
next
  case (Suc i)
  then show ?case
    by (auto simp: validate_depth_loop.simps [of P st "Suc i"] aget_simps Let_def less_Suc_eq)
qed

lemma suspend_req_spec:
  assumes "length st = PLAT_MAX_PWR_LVL P + 1"
  shows "\<exists>rc. psci_validate_suspend_req P st pd = Some rc \<and> rc \<in> {PSCI_E_SUCCESS, PSCI_E_INVALID_PARAMS} \<and>
    (rc = PSCI_E_SUCCESS \<longleftrightarrow>
      (\<exists>t \<le> PLAT_MAX_PWR_LVL P. st ! t \<noteq> PSCI_LOCAL_STATE_RUN \<and>
        (\<forall>k. t < k \<and> k \<le> PLAT_MAX_PWR_LVL P \<longrightarrow> st ! k = PSCI_LOCAL_STATE_RUN) \<and>
        (\<forall>j < t. state_depth (find_local_state_type P (st ! Suc j)) \<le> state_depth (find_local_state_type P (st ! j)))) \<and>
      (pd \<or> (\<forall>j \<le> PLAT_MAX_PWR_LVL P. \<not> is_local_state_off P (st ! j))))"
proof -
  let ?M = "PLAT_MAX_PWR_LVL P"
  let ?d = "\<lambda>j. state_depth (find_local_state_type P (st ! j))"
  obtain l where l: "psci_find_target_suspend_lvl P st = Some l"
    "if l = PSCI_INVALID_PWR_LVL P then \<forall>j \<le> ?M. st ! j = PSCI_LOCAL_STATE_RUN
     else l \<le> ?M \<and> st ! l \<noteq> PSCI_LOCAL_STATE_RUN \<and> (\<forall>k. l < k \<and> k \<le> ?M \<longrightarrow> st ! k = PSCI_LOCAL_STATE_RUN)"
    using target_lvl_spec [OF assms] by blast
  obtain m where m: "psci_find_max_off_lvl P st = Some m"
    "m = PSCI_INVALID_PWR_LVL P \<longleftrightarrow> (\<forall>j \<le> ?M. \<not> is_local_state_off P (st ! j))"
    using max_off_spec [OF assms] by blast
  show ?thesis
  proof (cases "l = PSCI_INVALID_PWR_LVL P")
    case True
    then show ?thesis using l by (auto simp: psci_validate_suspend_req_def psci_const)
  next
    case False
    have lt: "l \<le> ?M" "st ! l \<noteq> PSCI_LOCAL_STATE_RUN" "\<And>k. l < k \<Longrightarrow> k \<le> ?M \<Longrightarrow> st ! k = PSCI_LOCAL_STATE_RUN"
      using l(2) False by auto
    have uniq: "t = l" if "t \<le> ?M" "st ! t \<noteq> PSCI_LOCAL_STATE_RUN"
        "\<forall>k. t < k \<and> k \<le> ?M \<longrightarrow> st ! k = PSCI_LOCAL_STATE_RUN" for t
      using that lt by (metis linorder_neqE_nat)
    have loop: "validate_depth_loop P st l 0 = Some (\<forall>j < l. ?d (Suc j) \<le> ?d j)"
      using validate_depth_loop_spec [of l st P 0] lt(1) assms by simp
    have ex: "(\<exists>t \<le> ?M. st ! t \<noteq> PSCI_LOCAL_STATE_RUN \<and>
        (\<forall>k. t < k \<and> k \<le> ?M \<longrightarrow> st ! k = PSCI_LOCAL_STATE_RUN) \<and> (\<forall>j < t. ?d (Suc j) \<le> ?d j)) \<longleftrightarrow>
      (\<forall>j < l. ?d (Suc j) \<le> ?d j)"
      using uniq lt by blast
    show ?thesis
      unfolding ex using l(1) m False loop by (auto simp: psci_validate_suspend_req_def psci_const Let_def)
  qed
qed

lemma lock_order:
  assumes "topo_ok P s" "c < PLATFORM_CORE_COUNT P" "n \<le> PLAT_MAX_PWR_LVL P"
  shows "sorted_wrt (\<lambda>a b. b < a) (map (lock_at s c) [0 ..< n])"
proof -
  have ok: "k < PLAT_MAX_PWR_LVL P \<Longrightarrow> node_ok P s c k" for k using topo_okD(3) [OF assms(1,2)] .
  have lk: "k < PLAT_MAX_PWR_LVL P \<Longrightarrow> lock_at s c k = anode s c k" for k
    using ok [of k] by (simp add: node_ok_def lock_at_def)
  have "Suc k < PLAT_MAX_PWR_LVL P \<Longrightarrow> lock_at s c (Suc k) < lock_at s c k" for k
    using ok [of k] lk [of k] lk [of "Suc k"] by (simp add: node_ok_def)
  moreover have "transp (\<lambda>a b :: nat. b < a)" by (auto intro: transpI)
  ultimately show ?thesis
    using assms(3) by (simp add: sorted_wrt_iff_nth_Suc_transp)
qed

text \<open>The states that a coordination stores, level by level.\<close>

lemma coordinated_nth:
  assumes "i < n" "n < length st"
  shows "coordinated P s me n st ! Suc i =
    (let R = (\<lambda>k d. if d = me \<and> k < n then st ! Suc k else rq s k d) in
     if \<exists>j \<le> i. coord_min P s R me j = PSCI_LOCAL_STATE_RUN then PSCI_LOCAL_STATE_RUN
     else Min (insert (PLAT_MAX_OFF_STATE P) (R i ` cpus_of s (anode s me i))))"
  using assms by (auto simp: coordinated_def coord_state_def coord_min_def Let_def)

text \<open>Calls that end in a hook of the port that does not come back.\<close>

lemma system_off_panics: "psci_system_off (a8k fw cfg) s = None"
  by (simp add: psci_system_off_def a8k_def a8k_system_off_def Let_def)

lemma unsupported_standby:
  assumes "psci_inv (a8k False cfg) s md" "c < PLATFORM_CORE_COUNT (a8k False cfg)" "md c = Running"
  shows "psci_cpu_suspend (a8k False cfg) E c 0 entry ctx s = None"
proof -
  let ?P = "a8k False cfg"
  have v: "psci_validate_power_state ?P 0 (replicate (PLAT_MAX_PWR_LVL ?P + 1) PSCI_LOCAL_STATE_RUN) = Some (PSCI_E_SUCCESS, [1, 0])"
    "psci_get_pstate_type 0 = 0" "psci_validate_suspend_req ?P [1, 0] False = Some PSCI_E_SUCCESS"
    "psci_find_target_suspend_lvl ?P [1, 0] = Some 0" "PSCI_INVALID_PWR_LVL ?P \<noteq> 0" "is_cpu_standby_req False 0"
    by code_simp+
  have "cpu_standby ?P = Some (a8k_cpu_standby False)" "a8k_cpu_standby False x = None" for x
    by (simp_all add: a8k_def a8k_cpu_standby_def)
  then have "cpu_standby_path ?P E c [1, 0] s = None"
    using a8k_psci.standby_path_inv [OF assms, of "[1, 0]" E] by simp
  then show ?thesis using v by (simp add: psci_cpu_suspend_def Let_def)
qed

lemma unconfigured_power_down:
  assumes "psci_inv (a8k False cfg) s md" "c < PLATFORM_CORE_COUNT (a8k False cfg)" "md c = Running"
  shows "cfg = None \<longrightarrow>
    ((spd_has svc_off s \<longrightarrow> svc_off_rc E = PSCI_E_SUCCESS) \<longrightarrow> psci_cpu_off (a8k False cfg) E c s = None) \<and>
    (fst (psci_validate_entry_point (a8k False cfg) E entry ctx) = PSCI_E_SUCCESS \<and> read_isr_el1 E = 0 \<longrightarrow>
      psci_cpu_suspend (a8k False cfg) E c 0x10000 entry ctx s = None \<and>
      psci_cpu_suspend (a8k False cfg) E c 0x1010000 entry ctx s = None)"
proof (intro impI conjI)
  let ?P = "a8k False cfg"
  assume none: "cfg = None"
  have ok: "topo_ok ?P s" "req_ok ?P s" using assms(1) by (auto simp: psci_inv_def)
  have wfi: "\<not> wfi_returns ?P st" for st using a8k_hooks(3) none by simp
  {
    assume spd: "spd_has svc_off s \<longrightarrow> svc_off_rc E = PSCI_E_SUCCESS"
    show "psci_cpu_off ?P E c s = None"
      using psci_do_cpu_off_spec [OF ok(1) a8k_psci.plat a8k_psci.no_stat a8k_psci.hooks(1) assms(2) order_refl ok(2) refl, of E]
        spd wfi by (simp add: psci_cpu_off_def)
  }
  assume A: "fst (psci_validate_entry_point ?P E entry ctx) = PSCI_E_SUCCESS \<and> read_isr_el1 E = 0"
  obtain ep where ep: "psci_validate_entry_point ?P E entry ctx = (PSCI_E_SUCCESS, ep)" using A by (metis prod.collapse)
  have start: "psci_cpu_suspend_start ?P E c ep n st True s = None" if "n \<le> 1" "length st = 2" for n st
    using psci_cpu_suspend_start_spec [OF ok(1) a8k_psci.plat a8k_psci.no_stat assms(2) a8k_psci.hooks(4,5) _ ok(2), of n st E True ep]
      that A wfi by (simp add: a8k_fields)
  have v: "psci_validate_power_state ?P 0x10000 (replicate (PLAT_MAX_PWR_LVL ?P + 1) PSCI_LOCAL_STATE_RUN) = Some (PSCI_E_SUCCESS, [2, 0])"
    "psci_get_pstate_type 0x10000 \<noteq> 0" "psci_validate_suspend_req ?P [2, 0] True = Some PSCI_E_SUCCESS"
    "psci_find_target_suspend_lvl ?P [2, 0] = Some 0" "PSCI_INVALID_PWR_LVL ?P = 2" "\<not> is_cpu_standby_req True 0"
    by code_simp+
  show "psci_cpu_suspend ?P E c 0x10000 entry ctx s = None"
    using v ep start [of 0 "[2, 0]"] by (simp add: psci_cpu_suspend_def Let_def)
  have w: "psci_validate_power_state ?P 0x1010000 (replicate (PLAT_MAX_PWR_LVL ?P + 1) PSCI_LOCAL_STATE_RUN) = Some (PSCI_E_SUCCESS, [2, 2])"
    "psci_get_pstate_type 0x1010000 \<noteq> 0" "psci_validate_suspend_req ?P [2, 2] True = Some PSCI_E_SUCCESS"
    "psci_find_target_suspend_lvl ?P [2, 2] = Some 1" "\<not> is_cpu_standby_req True 1"
    by code_simp+
  show "psci_cpu_suspend ?P E c 0x1010000 entry ctx s = None"
    using w v(5) ep start [of 1 "[2, 2]"] by (simp add: psci_cpu_suspend_def Let_def)
qed

lemma features_gate:
  assumes "psci_features fid s = PSCI_E_NOT_SUPPORTED" "GET_SMC_CC fid = 0"
    and "is_std_svc_call fid \<and> is_valid_fast_smc fid \<and> is_psci_fid fid"
  shows "psci_smc_handler P E me fid x1 x2 x3 flags s = Some (Returns SMC_UNK, s)"
  using assms by (auto simp: psci_features_def psci_smc_handler_def Let_def psci_const split: if_splits)


section \<open>The system\<close>

text \<open>
  C1. From the cold boot of the Armada 8K on, with and without its power management firmware, whatever calls the CPUs make, in whatever order
  they wait, wake and leave reset: the cluster of a CPU that runs is in the RUN state, the CPU
  itself is recorded as ON and in RUN, and the request it has on record for its cluster is RUN.
\<close>

theorem running_cluster_is_on:
  assumes "psci_setup (a8k fw cfg) E 0 (psci_boot (a8k fw cfg)) = Some s0" "psci_reach (a8k fw cfg) (s0, boot_modes) (s, md)"
    and "c < PLATFORM_CORE_COUNT (a8k fw cfg)" "md c = Running"
  shows "node_state (psci_non_cpu_pd_nodes s ! unat (cpu_parent (psci_cpu_pd_nodes s ! c))) = PSCI_LOCAL_STATE_RUN \<and>
    aff_info_state (psci_svc_cpu_data s ! c) = AFF_STATE_ON \<and>
    local_state (psci_svc_cpu_data s ! c) = PSCI_LOCAL_STATE_RUN \<and>
    psci_req_local_pwr_states s ! 0 ! c = PSCI_LOCAL_STATE_RUN"
proof -
  have inv: "psci_inv (a8k fw cfg) s md" using boot_reach_inv [OF assms(1,2)] .
  have "cpu_ok (a8k fw cfg) s c Running" using inv assms(3,4) by (auto simp: psci_inv_def dest: spec [of _ c])
  moreover have "nst s (anode s c 0) = PSCI_LOCAL_STATE_RUN"
    using a8k_psci.inv_running [OF inv assms(3,4), of 0] by (simp add: a8k_fields)
  ultimately show ?thesis
    by (simp add: cpu_ok_def nst_def anc.simps cd_def runs_from_def rq_def a8k_fields)
qed

theorem running_cluster_is_on_witness:
  "\<exists>s md. psci_reach (a8k True None) (a8k_start 0x80000000, boot_modes) (s, md) \<and> md 2 = Running \<and>
     node_state (psci_non_cpu_pd_nodes s ! unat (cpu_parent (psci_cpu_pd_nodes s ! 2))) = PSCI_LOCAL_STATE_RUN"
proof -
  obtain s md where r: "psci_reach (a8k True None) (a8k_start 0x80000000, boot_modes) (s, md)" "md 2 = Running"
    using run_cpu_on by blast
  have "psci_setup (a8k True None) env0 0 (psci_boot (a8k True None)) = Some (a8k_start 0x80000000)"
    by (simp add: a8k_setup env0_def)
  from running_cluster_is_on [OF this r(1), of 2] r show ?thesis by (auto simp: a8k_fields)
qed



text \<open>
  C41. What is left of the port without its power management firmware. In every state reached from
  the cold boot, a running CPU that asks for standby panics the system in \<open>a8k_cpu_standby\<close>; if
  the board gives no power-off configuration either, CPU_OFF that is not denied and every
  CPU_SUSPEND that powers down with a good entry point and no interrupt pending read through the
  NULL configuration. SYSTEM_OFF panics on every board.
\<close>

theorem no_firmware_panics:
  assumes "psci_setup (a8k False cfg) E0 0 (psci_boot (a8k False cfg)) = Some s0"
    and "psci_reach (a8k False cfg) (s0, boot_modes) (s, md)"
    and "c < PLATFORM_CORE_COUNT (a8k False cfg)" "md c = Running"
  shows "psci_cpu_suspend (a8k False cfg) E c 0 entry ctx s = None \<and>
    (cfg = None \<longrightarrow>
      ((spd_has svc_off s \<longrightarrow> svc_off_rc E = PSCI_E_SUCCESS) \<longrightarrow> psci_cpu_off (a8k False cfg) E c s = None) \<and>
      (fst (psci_validate_entry_point (a8k False cfg) E entry ctx) = PSCI_E_SUCCESS \<and> read_isr_el1 E = 0 \<longrightarrow>
        psci_cpu_suspend (a8k False cfg) E c 0x10000 entry ctx s = None \<and>
        psci_cpu_suspend (a8k False cfg) E c 0x1010000 entry ctx s = None)) \<and>
    psci_system_off (a8k False cfg) s = None"
  by (intro conjI unsupported_standby [OF boot_reach_inv [OF assms(1,2)] assms(3,4)]
      unconfigured_power_down [OF boot_reach_inv [OF assms(1,2)] assms(3,4)] system_off_panics)

theorem no_firmware_panics_witness:
  "psci_cpu_suspend (a8k False None) env0 0 0 0 0 (a8k_start 0x80000000) = None \<and>
   psci_cpu_off (a8k False None) env0 0 (a8k_start 0x80000000) = None"
proof -
  have "psci_setup (a8k False None) env0 0 (psci_boot (a8k False None)) = Some (a8k_start 0x80000000)"
    by (simp add: a8k_setup env0_def)
  moreover have "\<not> spd_has svc_off (a8k_start 0x80000000)" by code_simp
  ultimately show ?thesis
    using no_firmware_panics [of None env0 "a8k_start 0x80000000" "a8k_start 0x80000000" boot_modes 0 env0 0 0]
    by (simp add: psci_reach_def a8k_fields boot_modes_def)
qed

section \<open>State coordination\<close>

text \<open>
  C2. State coordination. When a CPU asks for the states \<open>st\<close> up to level \<open>n\<close>, every ancestor
  domain gets the shallowest state that the CPUs below it request, the calling CPU's own request
  included; from the first domain on in which some CPU requests RUN, all domains above stay in
  RUN. The result is both returned and stored in the nodes; no other node and no request of
  another CPU changes.
\<close>

theorem state_coordination_correct:
  assumes "topo_ok P s" "plat_ok P" "me < PLATFORM_CORE_COUNT P" "n \<le> PLAT_MAX_PWR_LVL P"
    and "length st = PLAT_MAX_PWR_LVL P + 1"
  shows "\<exists>st' s'. psci_do_state_coordination P me n st s = Some (st', s') \<and> st' ! 0 = st ! 0 \<and>
    (\<forall>i < n. st' ! Suc i =
       (if \<exists>j \<le> i. coord_min P s (rq s') me j = PSCI_LOCAL_STATE_RUN then PSCI_LOCAL_STATE_RUN
        else Min (insert (PLAT_MAX_OFF_STATE P) (rq s' i ` cpus_of s (anode s me i))))) \<and>
    (\<forall>i < n. nst s' (anode s me i) = st' ! Suc i) \<and>
    (\<forall>j. j \<notin> anode s me ` {..< n} \<longrightarrow> nst s' j = nst s j) \<and>
    (\<forall>i d. rq s' i d = (if d = me \<and> i < n then st ! Suc i else rq s i d)) \<and>
    local_state (psci_svc_cpu_data s' ! me) = st ! 0"
proof -
  obtain st' s' where r: "psci_do_state_coordination P me n st s = Some (st', s')" "st' ! 0 = st ! 0"
    "s' = s\<lparr>psci_req_local_pwr_states := psci_req_local_pwr_states s',
           psci_non_cpu_pd_nodes := psci_non_cpu_pd_nodes s',
           psci_svc_cpu_data := (psci_svc_cpu_data s)[me := (cd s me)\<lparr>local_state := st ! 0\<rparr>]\<rparr>"
    "\<And>i. i < n \<Longrightarrow> st' ! Suc i = coord_state P s (rq s') me 0 i"
    "\<And>i. i < n \<Longrightarrow> nst s' (anode s me i) = st' ! Suc i"
    "\<And>j. j \<notin> anode s me ` {..< n} \<Longrightarrow> nst s' j = nst s j"
    "\<And>i d. rq s' i d = (if d = me \<and> i < n then st ! Suc i else rq s i d)"
    using psci_do_state_coordination_spec [OF assms] by blast
  have "local_state (psci_svc_cpu_data s' ! me) = st ! 0"
    using arg_cong [OF r(3), of psci_svc_cpu_data] topo_okD(2) [OF assms(1,3)] by simp
  moreover have eq: "coord_state P s R me 0 i =
       (if \<exists>j \<le> i. coord_min P s R me j = PSCI_LOCAL_STATE_RUN then PSCI_LOCAL_STATE_RUN
        else Min (insert (PLAT_MAX_OFF_STATE P) (R i ` cpus_of s (anode s me i))))" for R i
    by (auto simp: coord_state_def coord_min_def)
  ultimately show ?thesis using r(1,2) r(4) [unfolded eq] r(5-7) by blast
qed

theorem state_coordination_correct_witness:
  "\<exists>st' s'. psci_do_state_coordination (a8k True None) 0 1 [2, 2] (a8k_start 0) = Some (st', s') \<and> nst s' 0 = st' ! 1"
  using state_coordination_correct [of "a8k True None" "a8k_start 0" 0 1 "[2, 2]"] a8k_start_inv [where mp = 0] a8k_psci.plat
    a8k_start_cpus [of 0 0]
  by (auto simp: psci_inv_def a8k_fields)


section \<open>The calls\<close>

text \<open>
  C16. CPU_ON, every branch: an unknown MPIDR is refused with INVALID_PARAMS and a bad entry point
  with the code of its check, both without effect; a CPU that is on gives ALREADY_ON, one that is
  being turned on gives ON_PENDING; for a CPU that is off the answer is the platform's, and only
  if that is SUCCESS is the CPU marked ON_PENDING and its context set up, while the record of
  every other CPU is kept.
\<close>

theorem cpu_on_correct:
  assumes "topo_ok P s" "has_pwr_domain_on P" "pwr_domain_on_finish P" "env_ok E"
    and "\<And>mp. - 1 \<le> plat_core_pos_by_mpidr P mp \<and> plat_core_pos_by_mpidr P mp < int (PLATFORM_CORE_COUNT P)"
  shows "\<exists>rc s'. psci_cpu_on P E mp entry ctx s = Some (rc, s') \<and>
    (if plat_core_pos_by_mpidr P mp = - 1 then rc = PSCI_E_INVALID_PARAMS \<and> s' = s
     else if fst (psci_validate_entry_point P E entry ctx) \<noteq> PSCI_E_SUCCESS
     then rc = fst (psci_validate_entry_point P E entry ctx) \<and> s' = s
     else let c = nat (plat_core_pos_by_mpidr P mp) in
       case aff_info_state (cd s c) of
         AFF_STATE_ON \<Rightarrow> rc = PSCI_E_ALREADY_ON \<and> same_core s s'
       | AFF_STATE_ON_PENDING \<Rightarrow> rc = PSCI_E_ON_PENDING \<and> same_core s s'
       | AFF_STATE_OFF \<Rightarrow> rc = pwr_domain_on E mp \<and>
           (if rc = PSCI_E_SUCCESS
            then psci_svc_cpu_data s' = (psci_svc_cpu_data s)[c := (cd s c)\<lparr>aff_info_state := AFF_STATE_ON_PENDING\<rparr>] \<and>
              same_core s (s'\<lparr>psci_svc_cpu_data := psci_svc_cpu_data s\<rparr>) \<and>
              Cm_init_context c (snd (psci_validate_entry_point P E entry ctx)) \<in> set (trace s')
            else same_core s s'))"
proof -
  obtain rc0 ep where ep: "psci_validate_entry_point P E entry ctx = (rc0, ep)" by fastforce
  show ?thesis
  proof (cases "plat_core_pos_by_mpidr P mp = - 1 \<or> rc0 \<noteq> PSCI_E_SUCCESS")
    case True
    then show ?thesis
      using ep assms(5) [of mp] by (auto simp: psci_cpu_on_def psci_validate_mpidr_def psci_const)
  next
    case False
    then have "0 \<le> plat_core_pos_by_mpidr P mp" using assms(5) [of mp] by linarith
    then obtain c where c: "plat_core_pos_by_mpidr P mp = int c" "c < PLATFORM_CORE_COUNT P"
      using assms(5) [of mp] by (metis nonneg_int_cases of_nat_less_iff)
    have "pwr_domain_on E mp = PSCI_E_SUCCESS \<or> pwr_domain_on E mp = PSCI_E_INTERN_FAIL"
      using assms(4) by (simp add: env_ok_def)
    from psci_cpu_on_start_spec [OF assms(1-3) c this, of ep] obtain rc s' where
      r: "psci_cpu_on_start P E mp ep s = Some (rc, s')" and post: "case aff_info_state (cd s c) of
         AFF_STATE_ON \<Rightarrow> rc = PSCI_E_ALREADY_ON \<and> same_core s s'
       | AFF_STATE_ON_PENDING \<Rightarrow> rc = PSCI_E_ON_PENDING \<and> same_core s s'
       | AFF_STATE_OFF \<Rightarrow> rc = pwr_domain_on E mp \<and>
           (if rc = PSCI_E_SUCCESS
            then psci_svc_cpu_data s' = (psci_svc_cpu_data s)[c := (cd s c)\<lparr>aff_info_state := AFF_STATE_ON_PENDING\<rparr>] \<and>
              same_core s (s'\<lparr>psci_svc_cpu_data := psci_svc_cpu_data s\<rparr>) \<and>
              Cm_init_context c ep \<in> set (trace s')
            else same_core s s')"
      by blast
    show ?thesis
    proof (intro exI conjI)
      show "psci_cpu_on P E mp entry ctx s = Some (rc, s')"
        using False ep c r by (simp add: psci_cpu_on_def psci_validate_mpidr_def)
    qed (use False ep c post in \<open>cases "aff_info_state (cd s c)"; simp\<close>)
  qed
qed

theorem cpu_on_correct_witness:
  "\<exists>s'. psci_cpu_on (a8k True None) env0 0x100 0x4000000 0 (a8k_start 0) = Some (PSCI_E_SUCCESS, s') \<and>
     aff_info_state (psci_svc_cpu_data s' ! 2) = AFF_STATE_ON_PENDING"
proof -
  have v: "plat_core_pos_by_mpidr (a8k True None) 0x100 = 2" "fst (psci_validate_entry_point (a8k True None) env0 0x4000000 0) = PSCI_E_SUCCESS"
    "aff_info_state (cd (a8k_start 0) 2) = AFF_STATE_OFF" "length (psci_svc_cpu_data (a8k_start 0)) = 4"
    "pwr_domain_on env0 0x100 = PSCI_E_SUCCESS"
    by code_simp+
  show ?thesis
    using cpu_on_correct [of "a8k True None" "a8k_start 0" env0 "0x100" "0x4000000" 0] a8k_start_inv [where mp = 0] env0_ok
      a8k_psci.hooks a8k_psci.core_pos v
    by (auto simp: psci_inv_def)
qed

text \<open>
  C13. CPU_OFF up to level \<open>n\<close>. The locks of the ancestors are taken from the lowest level up and
  given back in the reverse order. If the secure payload denies, its code is returned and nothing
  changes. Otherwise the deepest state is recorded as the CPU's request for each of its domains
  below level \<open>n\<close>, no other request changes, and each of these domains gets the shallowest state
  its CPUs now request, RUN from the first one on in which some CPU requests RUN; no other domain
  changes. The platform is told these states, the CPU is down and recorded as OFF in the deepest
  state, no other CPU's record changes; if the platform's last wait crashes, so does the call.
\<close>

theorem cpu_off_correct:
  assumes "topo_ok P s" "plat_ok P" "\<not> ENABLE_PSCI_STAT P" "pwr_domain_off P" "me < PLATFORM_CORE_COUNT P"
    and "n \<le> PLAT_MAX_PWR_LVL P" "req_ok P s"
    and "st' = coordinated P s me n (psci_set_power_off_state P)"
  shows "if (spd_has svc_off s \<longrightarrow> svc_off_rc E = PSCI_E_SUCCESS) \<and> \<not> wfi_returns P st'
    then psci_do_cpu_off P E me n s = None
    else \<exists>r s'. psci_do_cpu_off P E me n s = Some (r, s') \<and>
      lock_trace s s' me n \<and> sorted_wrt (\<lambda>a b. b < a) (map (lock_at s me) [0 ..< n]) \<and>
      (if spd_has svc_off s \<and> svc_off_rc E \<noteq> PSCI_E_SUCCESS then r = Returns (svc_off_rc E) \<and> same_core s s'
       else r = Cpu_down \<and> topo_ok P s' \<and> req_ok P s' \<and>
         psci_svc_cpu_data s' = (psci_svc_cpu_data s)
           [me := (cd s me)\<lparr>local_state := PLAT_MAX_OFF_STATE P, aff_info_state := AFF_STATE_OFF\<rparr>] \<and>
         (\<forall>i d. rq s' i d = (if d = me \<and> i < n then PLAT_MAX_OFF_STATE P else rq s i d)) \<and>
         (\<forall>i < n. nst s' (anode s me i) = st' ! Suc i \<and> st' ! Suc i =
           (if \<exists>j \<le> i. coord_min P s (rq s') me j = PSCI_LOCAL_STATE_RUN then PSCI_LOCAL_STATE_RUN
            else Min (insert (PLAT_MAX_OFF_STATE P) (rq s' i ` cpus_of s (anode s me i))))) \<and>
         (\<forall>j. j \<notin> anode s me ` {..< n} \<longrightarrow> nst s' j = nst s j) \<and>
         Call_pwr_domain_off st' \<in> set (trace s'))"
proof -
  have pt: "st' ! Suc i = (if \<exists>j \<le> i. coord_min P s R me j = PSCI_LOCAL_STATE_RUN then PSCI_LOCAL_STATE_RUN
      else Min (insert (PLAT_MAX_OFF_STATE P) (R i ` cpus_of s (anode s me i))))"
    if "i < n" "\<forall>i d. R i d = (if d = me \<and> i < n then PLAT_MAX_OFF_STATE P else rq s i d)" for R i
  proof -
    have R: "R = (\<lambda>k d. if d = me \<and> k < n then psci_set_power_off_state P ! Suc k else rq s k d)"
      using that(2) assms(6) by (intro ext) (simp add: psci_set_power_off_state_def)
    have len: "n < length (psci_set_power_off_state P)" using assms(6) by (simp add: psci_set_power_off_state_def)
    show ?thesis unfolding assms(8) R using coordinated_nth [OF that(1) len, of P s me, unfolded Let_def] .
  qed
  show ?thesis
  proof (cases "(spd_has svc_off s \<longrightarrow> svc_off_rc E = PSCI_E_SUCCESS) \<and> \<not> wfi_returns P st'")
    case True
    then show ?thesis using psci_do_cpu_off_spec [OF assms, of E] by simp
  next
    case False
    from psci_do_cpu_off_spec [OF assms, of E, unfolded if_not_P [OF False]]
    obtain r s' where r: "psci_do_cpu_off P E me n s = Some (r, s')" "lock_trace s s' me n" and
      post: "if spd_has svc_off s \<and> svc_off_rc E \<noteq> PSCI_E_SUCCESS then r = Returns (svc_off_rc E) \<and> same_core s s'
       else r = Cpu_down \<and> topo_ok P s' \<and> req_ok P s' \<and>
         psci_svc_cpu_data s' = (psci_svc_cpu_data s)
           [me := (cd s me)\<lparr>local_state := PLAT_MAX_OFF_STATE P, aff_info_state := AFF_STATE_OFF\<rparr>] \<and>
         (\<forall>i d. rq s' i d = (if d = me \<and> i < n then PLAT_MAX_OFF_STATE P else rq s i d)) \<and>
         (\<forall>i < n. nst s' (anode s me i) = st' ! Suc i) \<and> (\<forall>j. j \<notin> anode s me ` {..< n} \<longrightarrow> nst s' j = nst s j) \<and>
         Call_pwr_domain_off st' \<in> set (trace s')" by blast
    have "st' ! Suc i = (if \<exists>j \<le> i. coord_min P s (rq s') me j = PSCI_LOCAL_STATE_RUN then PSCI_LOCAL_STATE_RUN
        else Min (insert (PLAT_MAX_OFF_STATE P) (rq s' i ` cpus_of s (anode s me i))))"
      if "i < n" "\<not> (spd_has svc_off s \<and> svc_off_rc E \<noteq> PSCI_E_SUCCESS)" for i
      using pt [OF that(1), of "rq s'"] post that(2) by meson
    then show ?thesis
      unfolding if_not_P [OF False] using r post lock_order [OF assms(1,5,6)]
      by (intro exI [of _ r] exI [of _ s'])
        (cases "spd_has svc_off s \<and> svc_off_rc E \<noteq> PSCI_E_SUCCESS"; simp only: if_True if_False simp_thms; blast)
  qed
qed

theorem cpu_off_correct_witness:
  "\<exists>s'. psci_do_cpu_off (a8k True None) env0 0 1 (a8k_start 0) = Some (Cpu_down, s') \<and>
     aff_info_state (psci_svc_cpu_data s' ! 0) = AFF_STATE_OFF"
proof -
  have v: "\<not> spd_has svc_off (a8k_start 0)" "length (psci_svc_cpu_data (a8k_start 0)) = 4" by code_simp+
  have wfi: "wfi_returns (a8k True None) st" for st using a8k_hooks(2) [of True None] by (simp add: wfi_safe_def)
  have inv: "psci_inv (a8k True None) (a8k_start 0) boot_modes" by (rule a8k_start_inv)
  show ?thesis
    using cpu_off_correct [of "a8k True None" "a8k_start 0" 0 1 _ env0, OF _ _ _ _ _ _ _ refl] inv wfi a8k_psci.plat a8k_psci.hooks(1) a8k_psci.no_stat v
    by (auto simp: psci_inv_def a8k_fields)
qed

text \<open>
  C14. CPU_SUSPEND. An interrupt that is pending when the locks are held abandons the suspend and
  nothing changes. A power down in which the platform's last wait crashes does not return.
  Otherwise the CPU waits in standby or is down as asked for, its local state
  and its requests up to level \<open>n\<close> are the ones asked for, the target level is recorded for the
  way back if it powers down, and no other CPU's data or request changes.
\<close>

theorem cpu_suspend_correct:
  assumes "topo_ok P s" "plat_ok P" "\<not> ENABLE_PSCI_STAT P" "me < PLATFORM_CORE_COUNT P"
    and "pwr_domain_suspend P" "pwr_domain_suspend_finish P"
    and "n \<le> PLAT_MAX_PWR_LVL P" "req_ok P s" "length st = PLAT_MAX_PWR_LVL P + 1"
  shows "if read_isr_el1 E = 0 \<and> pd \<and> \<not> wfi_returns P (coordinated P s me n st)
    then psci_cpu_suspend_start P E me ep n st pd s = None
    else \<exists>r s'. psci_cpu_suspend_start P E me ep n st pd s = Some (r, s') \<and> lock_trace s s' me n \<and>
    (if read_isr_el1 E \<noteq> 0 then r = Returns () \<and> same_core s s'
     else r = (if pd then Cpu_down else In_standby n) \<and> topo_ok P s' \<and> req_ok P s' \<and>
       psci_svc_cpu_data s' = (psci_svc_cpu_data s)[me := (cd s me)\<lparr>local_state := st ! 0,
         target_pwrlvl := if pd then n else target_pwrlvl (cd s me)\<rparr>] \<and>
       (\<forall>i d. rq s' i d = (if d = me \<and> i < n then st ! Suc i else rq s i d)))"
  using assms by (rule psci_cpu_suspend_start_spec)

theorem cpu_suspend_correct_witness:
  "\<exists>s'. psci_cpu_suspend_start (a8k True None) env0 0 \<lparr>ep_attr = 1, pc = 0, spsr = 0, arg0 = 0\<rparr> 1 [2, 2] True (a8k_start 0)
       = Some (Cpu_down, s') \<and> target_pwrlvl (psci_svc_cpu_data s' ! 0) = 1"
proof -
  have v: "read_isr_el1 env0 = 0" "length (psci_svc_cpu_data (a8k_start 0)) = 4" by code_simp+
  have wfi: "wfi_returns (a8k True None) st" for st using a8k_hooks(2) [of True None] by (simp add: wfi_safe_def)
  have inv: "psci_inv (a8k True None) (a8k_start 0) boot_modes" by (rule a8k_start_inv)
  show ?thesis
    using cpu_suspend_correct [of "a8k True None" "a8k_start 0" 0 1 "[2, 2]" env0 True "\<lparr>ep_attr = 1, pc = 0, spsr = 0, arg0 = 0\<rparr>"]
      inv wfi a8k_psci.plat a8k_psci.hooks a8k_psci.no_stat v
    by (auto simp: psci_inv_def a8k_fields)
qed

text \<open>
  C15. Warm boot. A CPU that was turned on or suspended comes back with its record ON and in RUN,
  the target level reset, RUN requested at every level, its domains in RUN, and the locks of the
  levels it had left taken and given back; the other CPUs' requests are kept.
\<close>

theorem warmboot_correct:
  assumes "topo_ok P s" "plat_ok P" "\<not> ENABLE_PSCI_STAT P" "me < PLATFORM_CORE_COUNT P" "req_ok P s"
    and "cpu_ok P s me Down" "aff_info_state (cd s me) \<noteq> AFF_STATE_OFF"
  shows "\<exists>n s'. psci_warmboot_entrypoint P E me s = Some s' \<and> n \<le> PLAT_MAX_PWR_LVL P \<and>
    lock_trace s s' me n \<and> topo_ok P s' \<and> cpu_ok P s' me Running \<and>
    (\<forall>k < PLAT_MAX_PWR_LVL P. nst s' (anode s' me k) = PSCI_LOCAL_STATE_RUN) \<and>
    (\<forall>d. d \<noteq> me \<longrightarrow> cd s' d = cd s d) \<and> (\<forall>i d. d \<noteq> me \<longrightarrow> rq s' i d = rq s i d)"
proof -
  let ?d = "(cd s me)\<lparr>target_pwrlvl := PSCI_INVALID_PWR_LVL P, aff_info_state := AFF_STATE_ON,
    local_state := PSCI_LOCAL_STATE_RUN\<rparr>"
  obtain n s' where s': "psci_warmboot_entrypoint P E me s = Some s'" "n \<le> PLAT_MAX_PWR_LVL P"
    "lock_trace s s' me n" "topo_ok P s'" "req_ok P s'" "runs_from P s' me 0"
    "psci_svc_cpu_data s' = (psci_svc_cpu_data s)[me := ?d]" "\<And>i d. d \<noteq> me \<Longrightarrow> rq s' i d = rq s i d"
    using psci_warmboot_spec [OF assms] by blast
  have "cpu_ok P s' me Running"
    using cpu_ok_one(1) [OF s'(7) topo_okD(2) [OF assms(1,4)]] s'(6) by (simp add: cpu_ok_def)
  moreover have "\<forall>k < PLAT_MAX_PWR_LVL P. nst s' (anode s' me k) = PSCI_LOCAL_STATE_RUN"
    using s'(5,6) assms(4) by (simp add: req_ok_def runs_from_def)
  ultimately show ?thesis using s' cpu_ok_one(2) [OF s'(7) topo_okD(2) [OF assms(1,4)]] by blast
qed

text \<open>A CPU that has been turned on and is still in reset.\<close>

definition pending_state :: psci where
  "pending_state = (a8k_start 0)\<lparr>psci_svc_cpu_data := (psci_svc_cpu_data (a8k_start 0))
     [2 := (cd (a8k_start 0) 2)\<lparr>aff_info_state := AFF_STATE_ON_PENDING\<rparr>]\<rparr>"

theorem warmboot_correct_witness:
  "\<exists>s'. psci_warmboot_entrypoint (a8k True None) env0 2 pending_state = Some s' \<and> cpu_ok (a8k True None) s' 2 Running"
proof -
  have inv: "psci_inv (a8k True None) (a8k_start 0) boot_modes" by (rule a8k_start_inv)
  have sh: "same_shape (a8k_start 0) pending_state" by (simp add: pending_state_def same_shape_def)
  have topo: "topo_ok (a8k True None) (a8k_start 0)" "req_ok (a8k True None) (a8k_start 0)" using inv by (auto simp: psci_inv_def)
  have d: "cd pending_state 2 = \<lparr>aff_info_state = AFF_STATE_ON_PENDING, target_pwrlvl = 2, local_state = 2\<rparr>"
    by code_simp
  have "req_ok (a8k True None) pending_state"
    using topo(2) same_shape_anc [OF sh topo(1)]
    by (simp add: req_ok_def pending_state_def nst_def rq_def)
  moreover have "cpu_ok (a8k True None) pending_state 2 Down"
    unfolding cpu_ok_def d by (simp add: a8k_consts is_local_state_off_def)
  ultimately show ?thesis
    using warmboot_correct [of "a8k True None" pending_state 2 env0] same_shape_topo_ok [OF sh topo(1)] a8k_psci.plat
      a8k_psci.no_stat d
    by (auto simp: a8k_fields)
qed

text \<open>
  C17. Checking a suspend request. A request is accepted exactly if some level asks for a
  low-power state, no level asks for a deeper one than the level below it, and, when it is not a
  request to power down, no level asks to be switched off; every other request gives
  INVALID_PARAMS.
\<close>

theorem validate_suspend_req_correct:
  assumes "length st = PLAT_MAX_PWR_LVL P + 1"
  shows "\<exists>rc. psci_validate_suspend_req P st pd = Some rc \<and> rc \<in> {PSCI_E_SUCCESS, PSCI_E_INVALID_PARAMS} \<and>
    (rc = PSCI_E_SUCCESS \<longleftrightarrow>
      (\<exists>t \<le> PLAT_MAX_PWR_LVL P. st ! t \<noteq> PSCI_LOCAL_STATE_RUN \<and>
        (\<forall>k. t < k \<and> k \<le> PLAT_MAX_PWR_LVL P \<longrightarrow> st ! k = PSCI_LOCAL_STATE_RUN) \<and>
        (\<forall>j < t. state_depth (find_local_state_type P (st ! Suc j)) \<le> state_depth (find_local_state_type P (st ! j)))) \<and>
      (pd \<or> (\<forall>j \<le> PLAT_MAX_PWR_LVL P. \<not> is_local_state_off P (st ! j))))"
  using assms by (rule suspend_req_spec)

theorem validate_suspend_req_correct_witness:
  "psci_validate_suspend_req (a8k True None) [1, 2] True = Some PSCI_E_INVALID_PARAMS"
proof -
  have v: "state_depth (find_local_state_type (a8k True None) 1) = 1" "state_depth (find_local_state_type (a8k True None) 2) = 2"
    by code_simp+
  show ?thesis
    using validate_suspend_req_correct [of "[1, 2]" "a8k True None" True] v
    by (auto simp: a8k_fields PSCI_LOCAL_STATE_RUN_def le_Suc_eq less_Suc_eq)
qed

text \<open>
  C33. The core position, exactly: \<open>plat_core_pos_by_mpidr\<close> accepts an MPIDR if and only if its
  affinity levels 0, 1 and 3 are all below 2, and then gives level 0 plus twice level 1; every
  other MPIDR gives \<open>-1\<close>. Level 2 and the bits outside the affinity fields take no part, and level
  3 none in the position, so that several MPIDRs name one core.
\<close>

theorem core_pos_correct:
  "marvell_core_pos_by_mpidr mp =
     (if unat (mp AND 0xff) < 2 \<and> unat (drop_bit 8 mp AND 0xff) < 2 \<and> unat (drop_bit 32 mp AND 0xff) < 2
      then int (unat (mp AND 0xff) + 2 * unat (drop_bit 8 mp AND 0xff)) else - 1)"
  by (rule core_pos_exact)

text \<open>
  What \<open>psci_features\<close> reports as not supported, the handler refuses: a 32-bit PSCI function
  that is not in the capability mask gets the unknown-function code and changes nothing.
\<close>

theorem unsupported_is_refused:
  assumes "psci_features fid s = PSCI_E_NOT_SUPPORTED" "GET_SMC_CC fid = 0"
    and "is_std_svc_call fid \<and> is_valid_fast_smc fid \<and> is_psci_fid fid"
  shows "psci_smc_handler P E me fid x1 x2 x3 flags s = Some (Returns SMC_UNK, s)"
  using assms by (rule features_gate)

theorem unsupported_is_refused_witness:
  "psci_smc_handler (a8k True None) env0 0 PSCI_MEM_PROTECT 1 0 0 1 (a8k_start 0) = Some (Returns SMC_UNK, a8k_start 0)"
proof -
  have "psci_features PSCI_MEM_PROTECT (a8k_start 0) = PSCI_E_NOT_SUPPORTED" "GET_SMC_CC PSCI_MEM_PROTECT = 0"
    "is_std_svc_call PSCI_MEM_PROTECT \<and> is_valid_fast_smc PSCI_MEM_PROTECT \<and> is_psci_fid PSCI_MEM_PROTECT"
    by code_simp+
  then show ?thesis by (rule unsupported_is_refused)
qed

end
