(* ===== verification/Bakery.thy ===== *)
theory Bakery
  imports Prelude
begin

unbundle bit_operations_syntax

text \<open>
  The bakery lock of \<^verbatim>\<open>lib/locks/bakery\<close>, in both builds (\<^verbatim>\<open>bakery_lock_coherent.c\<close> and
  \<^verbatim>\<open>bakery_lock_normal.c\<close>). A CPU's place in the code is a program counter with the locals of
  \<open>bakery_get_ticket\<close> and \<open>bakery_lock_get\<close>; one step is one access to the shared array, so a run
  is any interleaving of the CPUs. The result \<open>None\<close> is a failed assertion. Memory is coherent,
  as the comments of both files require (the second build establishes it by cache maintenance).
\<close>

section \<open>Lock data\<close>

definition PRIORITY :: "u32 \<Rightarrow> u32 \<Rightarrow> u32" where
  "PRIORITY t pos = push_bit 8 t OR pos"

definition CHOOSING_TICKET :: u32 where "CHOOSING_TICKET = 1"
definition CHOSEN_TICKET :: u32 where "CHOSEN_TICKET = 0"

definition bakery_is_choosing :: "u32 \<Rightarrow> bool" where
  "bakery_is_choosing info \<longleftrightarrow> info AND 1 \<noteq> 0"

definition bakery_ticket_number :: "u32 \<Rightarrow> u32" where
  "bakery_ticket_number info = drop_bit 1 info AND 0x7FFF"

definition make_bakery_data :: "u32 \<Rightarrow> u32 \<Rightarrow> u32" where
  "make_bakery_data choosing number = ((choosing AND 1) OR push_bit 1 number) AND 0xFFFF"

text \<open>
  Where a CPU is: outside; in the loop of \<open>bakery_get_ticket\<close> with \<open>they\<close> and \<open>my_ticket\<close>; in
  the loop of \<open>bakery_lock_get\<close>; in its inner wait loop with \<open>their_ticket\<close>; holding the lock.
\<close>

datatype bakery_pc =
    Idle
  | Scan nat u32
  | Compare nat u32
  | Wait_change nat u32 u32
  | Held u32

record bakery =
  lock_data :: "u16 list"
  pcs :: "bakery_pc list"

definition read_data :: "bakery \<Rightarrow> nat \<Rightarrow> u32" where
  "read_data b i = ucast (lock_data b ! i)"

definition goto_pc :: "nat \<Rightarrow> bakery_pc \<Rightarrow> bakery \<Rightarrow> bakery" where
  "goto_pc me pc b = b\<lparr>pcs := (pcs b)[me := pc]\<rparr>"

definition write_data :: "nat \<Rightarrow> u32 \<Rightarrow> bakery \<Rightarrow> bakery" where
  "write_data me d b = b\<lparr>lock_data := (lock_data b)[me := ucast d]\<rparr>"

section \<open>Steps\<close>

text \<open>The body of the ticket loop, which in the second build leaves the CPU itself out.\<close>

definition scan_coherent :: "nat \<Rightarrow> nat \<Rightarrow> u32 \<Rightarrow> u32 \<Rightarrow> u32" where
  "scan_coherent me they info my_ticket =
     (let their_ticket = bakery_ticket_number info in
      if their_ticket > my_ticket then their_ticket else my_ticket)"

definition scan_normal :: "nat \<Rightarrow> nat \<Rightarrow> u32 \<Rightarrow> u32 \<Rightarrow> u32" where
  "scan_normal me they info my_ticket =
     (if me = they then my_ticket
      else let their_ticket = bakery_ticket_number info in
           if their_ticket > my_ticket then their_ticket else my_ticket)"

definition bakery_get_ticket_step ::
  "(nat \<Rightarrow> nat \<Rightarrow> u32 \<Rightarrow> u32 \<Rightarrow> u32) \<Rightarrow> nat \<Rightarrow> nat \<Rightarrow> u32 \<Rightarrow> bakery \<Rightarrow> bakery" where
  "bakery_get_ticket_step scan me they my_ticket b =
     (if they < length (lock_data b)
      then goto_pc me (Scan (Suc they) (scan me they (read_data b they) my_ticket)) b
      else let my_ticket = my_ticket + 1
           in goto_pc me (Compare 0 my_ticket)
                (write_data me (make_bakery_data CHOSEN_TICKET my_ticket) b))"

definition bakery_lock_get_step :: "nat \<Rightarrow> nat \<Rightarrow> u32 \<Rightarrow> bakery \<Rightarrow> bakery" where
  "bakery_lock_get_step me they my_ticket b =
     (let my_prio = PRIORITY my_ticket (of_nat me) in
      if they \<ge> length (lock_data b) then goto_pc me (Held my_ticket) b
      else if me = they then goto_pc me (Compare (Suc they) my_ticket) b
      else let their_bakery_data = read_data b they in
           if bakery_is_choosing their_bakery_data then b
           else let their_ticket = bakery_ticket_number their_bakery_data in
                if their_ticket \<noteq> 0 \<and> PRIORITY their_ticket (of_nat they) < my_prio
                then goto_pc me (Wait_change they my_ticket their_ticket) b
                else goto_pc me (Compare (Suc they) my_ticket) b)"

definition bakery_lock_release :: "nat \<Rightarrow> bakery \<Rightarrow> bakery option" where
  "bakery_lock_release me b =
     (if bakery_ticket_number (read_data b me) = 0 then None
      else Some (goto_pc me Idle (write_data me 0 b)))"

definition bakery_step :: "(nat \<Rightarrow> nat \<Rightarrow> u32 \<Rightarrow> u32 \<Rightarrow> u32) \<Rightarrow> nat \<Rightarrow> bakery \<Rightarrow> bakery option" where
  "bakery_step scan me b =
     (case pcs b ! me of
        Idle \<Rightarrow>
          if bakery_ticket_number (read_data b me) \<noteq> 0 then None
          else Some (goto_pc me (Scan 0 0) (write_data me (make_bakery_data CHOOSING_TICKET 0) b))
      | Scan they my_ticket \<Rightarrow> Some (bakery_get_ticket_step scan me they my_ticket b)
      | Compare they my_ticket \<Rightarrow> Some (bakery_lock_get_step me they my_ticket b)
      | Wait_change they my_ticket their_ticket \<Rightarrow>
          Some (if their_ticket = bakery_ticket_number (read_data b they) then b
                else goto_pc me (Compare (Suc they) my_ticket) b)
      | Held my_ticket \<Rightarrow> bakery_lock_release me b)"

text \<open>A run: the list says which CPU makes the next access.\<close>

fun bakery_run :: "(nat \<Rightarrow> nat \<Rightarrow> u32 \<Rightarrow> u32 \<Rightarrow> u32) \<Rightarrow> nat list \<Rightarrow> bakery \<Rightarrow> bakery option" where
  "bakery_run scan [] b = Some b"
| "bakery_run scan (me # sched) b =
     (case bakery_step scan me b of None \<Rightarrow> None | Some b' \<Rightarrow> bakery_run scan sched b')"

definition bakery_init :: "nat \<Rightarrow> bakery" where
  "bakery_init n = \<lparr>lock_data = replicate n 0, pcs = replicate n Idle\<rparr>"

text \<open>The ticket about to be drawn fits into the 15 bits of the lock data.\<close>

fun draw_fits :: "nat \<Rightarrow> bakery_pc \<Rightarrow> bool" where
  "draw_fits n (Scan they my_ticket) = (they < n \<or> unat my_ticket < 0x7FFF)"
| "draw_fits n _ = True"

fun draws_fit :: "(nat \<Rightarrow> nat \<Rightarrow> u32 \<Rightarrow> u32 \<Rightarrow> u32) \<Rightarrow> nat list \<Rightarrow> bakery \<Rightarrow> bool" where
  "draws_fit scan [] b = True"
| "draws_fit scan (me # sched) b =
     (draw_fits (length (lock_data b)) (pcs b ! me) \<and>
      (case bakery_step scan me b of None \<Rightarrow> True | Some b' \<Rightarrow> draws_fit scan sched b'))"

section \<open>Words\<close>

lemma priority_value:
  assumes "unat t < 2 ^ 16" "p < 256"
  shows "unat (PRIORITY t (of_nat p)) = unat t * 256 + p"
proof -
  have small: "unat (of_nat p :: u32) = p" using assms(2) by (simp add: unat_of_nat_small)
  have "bit (of_nat p :: u32) n \<Longrightarrow> n < 8" for n
  proof -
    assume b: "bit (of_nat p :: u32) n"
    have "take_bit 8 (of_nat p :: u32) = of_nat p"
      using assms(2) by (simp add: take_bit_of_nat take_bit_nat_eq_self)
    then show "n < 8" using b by (metis bit_take_bit_iff)
  qed
  then have "PRIORITY t (of_nat p) = push_bit 8 t + of_nat p"
    unfolding PRIORITY_def by (intro disjunctive_add [symmetric]) (fastforce simp: bit_simps)
  moreover have "unat (push_bit 8 t) = unat t * 256"
    using assms(1) by (simp add: push_bit_eq_mult unat_word_ariths)
  ultimately show ?thesis
    using assms small by (simp add: unat_word_ariths)
qed

lemma choosing_bit: "bakery_is_choosing info \<longleftrightarrow> bit info 0"
  by (simp add: bakery_is_choosing_def and_one_eq bit_0 even_iff_mod_2_eq_zero)

lemma ticket_of_data:
  assumes "unat t \<le> 0x7FFF"
  shows "bakery_ticket_number (ucast (ucast (make_bakery_data CHOSEN_TICKET t) :: u16)) = t"
    "\<not> bakery_is_choosing (ucast (ucast (make_bakery_data CHOSEN_TICKET t) :: u16))"
proof -
  have "take_bit 15 t = t"
    using assms by (simp add: unat_eq_iff unsigned_take_bit_eq take_bit_nat_eq_self)
  then have hi: "bit t n \<Longrightarrow> n < 15" for n by (metis bit_take_bit_iff)
  have masks: "(0xFFFF :: u32) = mask 16" "(0x7FFF :: u32) = mask 15" by (simp_all add: mask_eq_exp_minus_1)
  show "bakery_ticket_number (ucast (ucast (make_bakery_data CHOSEN_TICKET t) :: u16)) = t"
    unfolding bakery_ticket_number_def make_bakery_data_def CHOSEN_TICKET_def masks
    by (rule bit_word_eqI) (use hi in \<open>fastforce simp: bit_simps simp del: push_bit_Suc One_nat_def\<close>)
  show "\<not> bakery_is_choosing (ucast (ucast (make_bakery_data CHOSEN_TICKET t) :: u16))"
    unfolding choosing_bit make_bakery_data_def CHOSEN_TICKET_def masks
    by (simp add: bit_simps del: push_bit_Suc One_nat_def bit_0)
qed

lemma data_const:
  "bakery_ticket_number 0 = 0" "\<not> bakery_is_choosing 0"
  "bakery_ticket_number (ucast (ucast (make_bakery_data CHOOSING_TICKET 0) :: u16)) = 0"
  "bakery_is_choosing (ucast (ucast (make_bakery_data CHOOSING_TICKET 0) :: u16))"
  by code_simp+


section \<open>Invariant\<close>

fun ticket_of :: "bakery_pc \<Rightarrow> u32 option" where
  "ticket_of (Compare k t) = Some t"
| "ticket_of (Wait_change k t tt) = Some t"
| "ticket_of (Held t) = Some t"
| "ticket_of _ = None"

text \<open>The CPUs a contender has already compared itself with.\<close>

fun passed :: "bakery_pc \<Rightarrow> nat \<Rightarrow> bool" where
  "passed (Compare k t) j = (j < k)"
| "passed (Wait_change k t tt) j = (j < k)"
| "passed (Held t) j = True"
| "passed _ j = False"

text \<open>CPU \<open>j\<close> has, or will draw, a lower priority than CPU \<open>i\<close> with ticket \<open>t\<close>.\<close>

definition behind :: "nat \<Rightarrow> u32 \<Rightarrow> nat \<Rightarrow> bakery_pc \<Rightarrow> bool" where
  "behind i t j pc =
     (case pc of
        Idle \<Rightarrow> True
      | Scan k m \<Rightarrow> i < k \<longrightarrow> unat t \<le> unat m
      | _ \<Rightarrow> unat t * 256 + i < unat (the (ticket_of pc)) * 256 + j)"

definition pair_ok :: "nat \<Rightarrow> bakery_pc \<Rightarrow> nat \<Rightarrow> bakery_pc \<Rightarrow> bool" where
  "pair_ok i p j q \<longleftrightarrow> (\<forall>t. ticket_of p = Some t \<longrightarrow>
     (passed p j \<longrightarrow> behind i t j q) \<and>
     (\<forall>tt. p = Wait_change j t tt \<longrightarrow> behind i t j q \<or> ticket_of q = Some tt))"

definition pc_ok :: "nat \<Rightarrow> nat \<Rightarrow> u16 \<Rightarrow> bakery_pc \<Rightarrow> bool" where
  "pc_ok n i d pc =
     (case pc of
        Idle \<Rightarrow> d = 0
      | Scan k m \<Rightarrow> d = ucast (make_bakery_data CHOOSING_TICKET 0) \<and> k \<le> n
      | _ \<Rightarrow> (let t = the (ticket_of pc) in
          0 < unat t \<and> unat t \<le> 0x7FFF \<and> d = ucast (make_bakery_data CHOSEN_TICKET t) \<and>
          (\<forall>k u tt. pc = Wait_change k u tt \<longrightarrow>
             k < n \<and> k \<noteq> i \<and> tt \<noteq> 0 \<and> unat tt * 256 + k < unat u * 256 + i)))"

definition bakery_inv :: "bakery \<Rightarrow> bool" where
  "bakery_inv b \<longleftrightarrow> length (pcs b) = length (lock_data b) \<and> length (lock_data b) \<le> 256 \<and>
     (\<forall>i < length (lock_data b). pc_ok (length (lock_data b)) i (lock_data b ! i) (pcs b ! i)) \<and>
     (\<forall>i < length (lock_data b). \<forall>j < length (lock_data b). i \<noteq> j \<longrightarrow> pair_ok i (pcs b ! i) j (pcs b ! j))"

lemma bakery_invD:
  assumes "bakery_inv b" "i < length (lock_data b)"
  shows "length (pcs b) = length (lock_data b)" "i < 256"
    "pc_ok (length (lock_data b)) i (lock_data b ! i) (pcs b ! i)"
    "j < length (lock_data b) \<Longrightarrow> i \<noteq> j \<Longrightarrow> pair_ok i (pcs b ! i) j (pcs b ! j)"
  using assms by (auto simp: bakery_inv_def)

lemma bakery_inv_init: "n \<le> 256 \<Longrightarrow> bakery_inv (bakery_init n)"
  by (simp add: bakery_inv_def bakery_init_def pc_ok_def pair_ok_def)

text \<open>What the other CPUs read of a CPU.\<close>

lemma pc_ok_data:
  assumes "pc_ok n i d pc"
  shows "bakery_ticket_number (ucast d) = (case ticket_of pc of None \<Rightarrow> 0 | Some t \<Rightarrow> t)"
    "bakery_is_choosing (ucast d) \<longleftrightarrow> (\<exists>k m. pc = Scan k m)"
    "ticket_of pc = Some t \<Longrightarrow> 0 < unat t \<and> unat t \<le> 0x7FFF"
  using assms by (cases pc; auto simp: pc_ok_def Let_def data_const ticket_of_data)+

lemma bakery_inv_read:
  assumes "bakery_inv b" "i < length (lock_data b)"
  shows "bakery_ticket_number (read_data b i) = (case ticket_of (pcs b ! i) of None \<Rightarrow> 0 | Some t \<Rightarrow> t)"
    "bakery_is_choosing (read_data b i) \<longleftrightarrow> (\<exists>k m. pcs b ! i = Scan k m)"
    "ticket_of (pcs b ! i) = Some t \<Longrightarrow> 0 < unat t \<and> unat t \<le> 0x7FFF"
  using pc_ok_data [OF bakery_invD(3) [OF assms]] by (simp_all add: read_data_def)

text \<open>A step changes one CPU's entry; the invariant is kept if that entry fits the others.\<close>

lemma bakery_inv_upd:
  assumes "bakery_inv b" "me < length (lock_data b)" "pc_ok (length (lock_data b)) me d pc"
    and "\<And>j. j < length (lock_data b) \<Longrightarrow> j \<noteq> me \<Longrightarrow> pair_ok me pc j (pcs b ! j)"
    and "\<And>i. i < length (lock_data b) \<Longrightarrow> i \<noteq> me \<Longrightarrow> pair_ok i (pcs b ! i) me pc"
  shows "bakery_inv (b\<lparr>lock_data := (lock_data b)[me := d], pcs := (pcs b)[me := pc]\<rparr>)"
  using assms by (simp add: bakery_inv_def nth_list_update)

lemma bakery_inv_goto:
  assumes "bakery_inv b" "me < length (lock_data b)"
    and "pc_ok (length (lock_data b)) me (lock_data b ! me) pc"
    and "\<And>j. j < length (lock_data b) \<Longrightarrow> j \<noteq> me \<Longrightarrow> pair_ok me pc j (pcs b ! j)"
    and "\<And>i. i < length (lock_data b) \<Longrightarrow> i \<noteq> me \<Longrightarrow> pair_ok i (pcs b ! i) me pc"
  shows "bakery_inv (goto_pc me pc b)"
  using bakery_inv_upd [OF assms] by (simp add: goto_pc_def list_update_id)

lemma behind_same_ticket:
  "ticket_of p = ticket_of q \<Longrightarrow> ticket_of p \<noteq> None \<Longrightarrow> behind i t j p = behind i t j q"
  by (cases p; cases q) (auto simp: behind_def)

text \<open>For the others, a CPU that keeps its ticket has not moved.\<close>

lemma pair_ok_same_ticket:
  assumes "pair_ok i p j q" "ticket_of q' = ticket_of q" "ticket_of q \<noteq> None"
  shows "pair_ok i p j q'"
  using assms behind_same_ticket [of q' q] by (auto simp: pair_ok_def)

text \<open>A contender that moves on past \<open>k\<close> without drawing a new ticket.\<close>

lemma advance_inv:
  assumes "bakery_inv b" "me < length (lock_data b)" "ticket_of (pcs b ! me) = Some t"
    and "pc = Compare (Suc k) t \<or> pc = Held t \<and> length (lock_data b) \<le> k"
    and "\<And>j. j < k \<Longrightarrow> passed (pcs b ! me) j"
    and "k < length (lock_data b) \<Longrightarrow> k \<noteq> me \<Longrightarrow> behind me t k (pcs b ! k)"
  shows "bakery_inv (goto_pc me pc b)"
proof (rule bakery_inv_goto [OF assms(1,2)])
  have pc: "ticket_of pc = Some t" using assms(4) by auto
  show "pc_ok (length (lock_data b)) me (lock_data b ! me) pc"
    using bakery_invD(3) [OF assms(1,2)] assms(3,4) by (cases "pcs b ! me") (auto simp: pc_ok_def)
  show "pair_ok i (pcs b ! i) me pc" if "i < length (lock_data b)" "i \<noteq> me" for i
    using pair_ok_same_ticket [OF bakery_invD(4) [OF assms(1) that(1) assms(2) that(2)]] pc assms(3) by simp
  fix j assume j: "j < length (lock_data b)" "j \<noteq> me"
  have "pair_ok me (pcs b ! me) j (pcs b ! j)" using bakery_invD(4) [OF assms(1,2) j(1)] j(2) by simp
  then show "pair_ok me pc j (pcs b ! j)"
    using assms(3-6) j by (cases "j = k") (auto simp: pair_ok_def less_Suc_eq)
qed

lemma position_unique:
  fixes a c p q :: nat
  assumes "a * 256 + p = c * 256 + q" "p < 256" "q < 256"
  shows "p = q"
proof -
  have "(a * 256 + p) mod 256 = (c * 256 + q) mod 256" using assms(1) by (rule arg_cong)
  then show ?thesis using assms(2,3) by simp
qed

lemma compare_step_inv:
  assumes "bakery_inv b" "me < length (lock_data b)" "pcs b ! me = Compare k t"
  shows "bakery_inv (bakery_lock_get_step me k t b)"
proof -
  let ?n = "length (lock_data b)"
  consider (held) "k \<ge> ?n" | (self) "k < ?n" "k = me" | (choosing) "k < ?n" "k \<noteq> me" "bakery_is_choosing (read_data b k)"
    | (look) "k < ?n" "k \<noteq> me" "\<not> bakery_is_choosing (read_data b k)" by linarith
  then show ?thesis
  proof cases
    case held
    then show ?thesis
      using assms advance_inv [OF assms(1,2), of t "Held t" k] by (simp add: bakery_lock_get_step_def Let_def)
  next
    case self
    then show ?thesis
      using assms advance_inv [OF assms(1,2), of t "Compare (Suc k) t" k] by (simp add: bakery_lock_get_step_def Let_def)
  next
    case choosing
    then show ?thesis using assms(1) by (auto simp: bakery_lock_get_step_def Let_def)
  next
    case look
    define q where "q = pcs b ! k"
    have t: "0 < unat t" "unat t \<le> 0x7FFF" using bakery_inv_read(3) [OF assms(1,2)] assms(3) by auto
    have lt: "me < 256" "k < 256" using bakery_invD(2) [OF assms(1)] assms(2) look(1) by auto
    have no_scan: "\<And>j m. q \<noteq> Scan j m" using bakery_inv_read(2) [OF assms(1) look(1)] look(3) by (simp add: q_def)
    show ?thesis
    proof (cases "\<exists>tt. ticket_of q = Some tt \<and> unat tt * 256 + k < unat t * 256 + me")
      case True
      then obtain tt where tt: "ticket_of q = Some tt" "unat tt * 256 + k < unat t * 256 + me" by blast
      then have b: "0 < unat tt" "unat tt \<le> 0x7FFF" using bakery_inv_read(3) [OF assms(1) look(1)] by (auto simp: q_def)
      have "bakery_lock_get_step me k t b = goto_pc me (Wait_change k t tt) b"
        using look tt b t lt bakery_inv_read(1) [OF assms(1) look(1)]
        by (auto simp: bakery_lock_get_step_def Let_def word_less_nat_alt priority_value q_def)
      moreover have "bakery_inv (goto_pc me (Wait_change k t tt) b)"
      proof (rule bakery_inv_goto [OF assms(1,2)])
        show "pc_ok ?n me (lock_data b ! me) (Wait_change k t tt)"
          using bakery_invD(3) [OF assms(1,2)] assms(3) look b(1) tt(2) by (auto simp: pc_ok_def)
        show "pair_ok i (pcs b ! i) me (Wait_change k t tt)" if "i < ?n" "i \<noteq> me" for i
          using pair_ok_same_ticket [OF bakery_invD(4) [OF assms(1) that(1) assms(2) that(2)]] assms(3) by simp
        fix j assume "j < ?n" "j \<noteq> me"
        then show "pair_ok me (Wait_change k t tt) j (pcs b ! j)"
          using bakery_invD(4) [OF assms(1,2), of j] assms(3) tt(1) by (auto simp: pair_ok_def q_def)
      qed
      ultimately show ?thesis by simp
    next
      case False
      have b: "ticket_of q = Some tt \<Longrightarrow> 0 < unat tt \<and> unat tt \<le> 0x7FFF" for tt
        using bakery_inv_read(3) [OF assms(1) look(1)] by (simp add: q_def)
      have "bakery_lock_get_step me k t b = goto_pc me (Compare (Suc k) t) b"
      proof (cases "ticket_of q")
        case None
        then show ?thesis
          using look bakery_inv_read(1) [OF assms(1) look(1)] by (simp add: bakery_lock_get_step_def Let_def q_def)
      next
        case (Some tt)
        have "\<not> PRIORITY tt (of_nat k) < PRIORITY t (of_nat me)"
          using False Some b [OF Some] t lt by (simp add: word_less_nat_alt priority_value)
        then show ?thesis
          using look Some bakery_inv_read(1) [OF assms(1) look(1)] by (simp add: bakery_lock_get_step_def Let_def q_def)
      qed
      moreover have "behind me t k q"
      proof -
        have "unat t * 256 + me \<noteq> unat tt * 256 + k" for tt :: u32
          using position_unique lt look(2) by blast
        then show ?thesis using False no_scan by (cases q) (auto simp: behind_def not_less le_less)
      qed
      ultimately show ?thesis
        using advance_inv [OF assms(1,2), of t "Compare (Suc k) t" k] assms(3) by (simp add: q_def)
    qed
  qed
qed

lemma wait_step_inv:
  assumes "bakery_inv b" "me < length (lock_data b)" "pcs b ! me = Wait_change k t tt"
    and "tt \<noteq> bakery_ticket_number (read_data b k)"
  shows "bakery_inv (goto_pc me (Compare (Suc k) t) b)"
proof (rule advance_inv [OF assms(1,2)])
  have k: "k < length (lock_data b)" "k \<noteq> me"
    using bakery_invD(3) [OF assms(1,2)] assms(3) by (auto simp: pc_ok_def)
  have "pair_ok me (pcs b ! me) k (pcs b ! k)" using bakery_invD(4) [OF assms(1,2) k(1)] k(2) by simp
  then show "behind me t k (pcs b ! k)"
    using assms(3,4) bakery_inv_read(1) [OF assms(1) k(1)] by (auto simp: pair_ok_def)
qed (use assms(3) in auto)

lemma outside_inv:
  assumes "bakery_inv b" "me < length (lock_data b)"
    and "pc = Idle \<and> d = 0 \<or> pc = Scan 0 0 \<and> d = ucast (make_bakery_data CHOOSING_TICKET 0)"
    and "ticket_of (pcs b ! me) \<noteq> None \<or> pcs b ! me = Idle"
  shows "bakery_inv (b\<lparr>lock_data := (lock_data b)[me := d], pcs := (pcs b)[me := pc]\<rparr>)"
proof (rule bakery_inv_upd [OF assms(1,2)])
  show "pc_ok (length (lock_data b)) me d pc" using assms(3) by (auto simp: pc_ok_def)
  show "pair_ok me pc j (pcs b ! j)" for j using assms(3) by (auto simp: pair_ok_def)
  show "pair_ok i (pcs b ! i) me pc" for i using assms(3) by (auto simp: pair_ok_def behind_def)
qed

locale ticket_scan =
  fixes scan :: "nat \<Rightarrow> nat \<Rightarrow> u32 \<Rightarrow> u32 \<Rightarrow> u32"
  assumes scan_keeps: "unat m \<le> unat (scan me they d m)"
    and scan_sees: "me \<noteq> they \<Longrightarrow> unat (bakery_ticket_number d) \<le> unat (scan me they d m)"
begin

lemma scan_step_inv:
  assumes "bakery_inv b" "me < length (lock_data b)" "pcs b ! me = Scan k m"
    and "draw_fits (length (lock_data b)) (pcs b ! me)"
  shows "bakery_inv (bakery_get_ticket_step scan me k m b)"
proof (cases "k < length (lock_data b)")
  case True
  let ?m = "scan me k (read_data b k) m"
  have "pair_ok i (pcs b ! i) me (Scan (Suc k) ?m)" if i: "i < length (lock_data b)" "i \<noteq> me" for i
  proof -
    have old: "pair_ok i (pcs b ! i) me (Scan k m)"
      using bakery_invD(4) [OF assms(1) i(1) assms(2) i(2)] assms(3) by simp
    have "unat t \<le> unat ?m" if "ticket_of (pcs b ! i) = Some t" "i = k" for t
      using scan_sees [of me k "read_data b k" m] bakery_inv_read(1) [OF assms(1) True] that i by simp
    moreover have "unat m \<le> unat ?m" by (rule scan_keeps)
    ultimately show ?thesis
      using old by (fastforce simp: pair_ok_def behind_def less_Suc_eq)
  qed
  then show ?thesis
    using True assms bakery_invD(3) [OF assms(1,2)]
    by (auto simp: bakery_get_ticket_step_def pc_ok_def pair_ok_def intro!: bakery_inv_goto)
next
  case False
  let ?t = "m + 1" and ?n = "length (lock_data b)"
  have k: "k = ?n" using False bakery_invD(3) [OF assms(1,2)] assms(3) by (simp add: pc_ok_def)
  have fit: "unat m < 0x7FFF" using assms(3,4) k by simp
  then have t: "unat ?t = unat m + 1" by (simp add: unat_word_ariths)
  have "pair_ok i (pcs b ! i) me (Compare 0 ?t)" if i: "i < ?n" "i \<noteq> me" for i
  proof -
    have old: "pair_ok i (pcs b ! i) me (Scan k m)"
      using bakery_invD(4) [OF assms(1) i(1) assms(2) i(2)] assms(3) by simp
    have "unat t * 256 + i < unat ?t * 256 + me" if "unat t \<le> unat m" for t :: u32
      using that t bakery_invD(2) [OF assms(1) i(1)] by simp
    then show ?thesis
      using old i k by (fastforce simp: pair_ok_def behind_def)
  qed
  then show ?thesis
    using False fit t bakery_inv_upd [OF assms(1,2), of "ucast (make_bakery_data CHOSEN_TICKET ?t)" "Compare 0 ?t"]
    by (simp add: bakery_get_ticket_step_def Let_def goto_pc_def write_data_def pc_ok_def pair_ok_def)
qed

lemma step_inv:
  assumes "bakery_inv b" "me < length (lock_data b)" "draw_fits (length (lock_data b)) (pcs b ! me)"
  shows "\<exists>b'. bakery_step scan me b = Some b' \<and> bakery_inv b' \<and> length (lock_data b') = length (lock_data b)"
proof (cases "pcs b ! me")
  case Idle
  then show ?thesis
    using outside_inv [OF assms(1,2), of "Scan 0 0"] bakery_inv_read(1) [OF assms(1,2)]
    by (simp add: bakery_step_def goto_pc_def write_data_def)
next
  case (Scan k m)
  then show ?thesis
    using scan_step_inv [OF assms(1,2) _ assms(3)]
    by (simp add: bakery_step_def bakery_get_ticket_step_def goto_pc_def write_data_def Let_def)
next
  case (Compare k t)
  then show ?thesis
    using compare_step_inv [OF assms(1,2)]
    by (simp add: bakery_step_def bakery_lock_get_step_def goto_pc_def Let_def)
next
  case (Wait_change k t tt)
  then show ?thesis
    using wait_step_inv [OF assms(1,2)] assms(1) by (simp add: bakery_step_def goto_pc_def)
next
  case (Held t)
  have "bakery_ticket_number (read_data b me) \<noteq> 0"
    using bakery_inv_read(1,3) [OF assms(1,2)] Held by (auto simp: unat_eq_iff)
  then show ?thesis
    using outside_inv [OF assms(1,2), of Idle 0] Held
    by (simp add: bakery_step_def bakery_lock_release_def goto_pc_def write_data_def)
qed

lemma run_inv:
  assumes "bakery_inv b" "set sched \<subseteq> {..< length (lock_data b)}" "draws_fit scan sched b"
  shows "\<exists>b'. bakery_run scan sched b = Some b' \<and> bakery_inv b' \<and> length (lock_data b') = length (lock_data b)"
  using assms
proof (induction sched arbitrary: b)
  case Nil
  then show ?case by simp
next
  case (Cons me sched)
  obtain b1 where b1: "bakery_step scan me b = Some b1" "bakery_inv b1" "length (lock_data b1) = length (lock_data b)"
    using step_inv [OF Cons.prems(1), of me] Cons.prems(2,3) by auto
  then show ?case using Cons.IH [OF b1(2)] Cons.prems(2,3) by simp
qed

end

lemma inv_mutex:
  assumes "bakery_inv b" "i < length (lock_data b)" "j < length (lock_data b)"
    and "pcs b ! i = Held t" "pcs b ! j = Held u"
  shows "i = j"
proof (rule ccontr)
  assume "i \<noteq> j"
  then have "behind i t j (Held u)" "behind j u i (Held t)"
    using bakery_invD(4) [OF assms(1,2,3)] bakery_invD(4) [OF assms(1,3,2)] assms(4,5) by (auto simp: pair_ok_def)
  then show False by (simp add: behind_def)
qed

interpretation coherent: ticket_scan scan_coherent
  by unfold_locales (auto simp: scan_coherent_def Let_def word_less_nat_alt not_less)

interpretation normal: ticket_scan scan_normal
  by unfold_locales (auto simp: scan_normal_def Let_def word_less_nat_alt not_less)


section \<open>Tickets that do not fit\<close>

definition holds_at :: "nat \<Rightarrow> u32 \<Rightarrow> bakery" where
  "holds_at c t = \<lparr>lock_data = [0, 0][c := ucast (make_bakery_data CHOSEN_TICKET t)], pcs = [Idle, Idle][c := Held t]\<rparr>"

lemma run_append:
  "bakery_run scan (xs @ ys) b = (case bakery_run scan xs b of None \<Rightarrow> None | Some b' \<Rightarrow> bakery_run scan ys b')"
  by (induction xs arbitrary: b) (auto split: option.splits)

text \<open>A run during which, from its first step on, some CPU always contends for the lock or holds it.\<close>

definition contended :: "bakery \<Rightarrow> bool" where
  "contended b \<longleftrightarrow> (\<exists>pc\<in>set (pcs b). pc \<noteq> Idle)"

fun contended_run :: "(nat \<Rightarrow> nat \<Rightarrow> u32 \<Rightarrow> u32 \<Rightarrow> u32) \<Rightarrow> nat list \<Rightarrow> bakery \<Rightarrow> bool" where
  "contended_run scan [] b = True"
| "contended_run scan (me # sched) b =
     (case bakery_step scan me b of None \<Rightarrow> False | Some b' \<Rightarrow> contended b' \<and> contended_run scan sched b')"

lemma contended_run_append:
  "contended_run scan (xs @ ys) b \<longleftrightarrow> contended_run scan xs b \<and>
     (case bakery_run scan xs b of None \<Rightarrow> False | Some b' \<Rightarrow> contended_run scan ys b')"
  by (induction xs arbitrary: b) (auto split: option.splits)

lemma hand_over:
  assumes "0 < unat t" "unat t < 0x7FFF" "c < 2"
  shows "bakery_run scan_coherent (replicate (5 + c) (1 - c) @ [c] @ replicate (3 - c) (1 - c)) (holds_at c t) = Some (holds_at (1 - c) (t + 1)) \<and>
    contended_run scan_coherent (replicate (5 + c) (1 - c) @ [c] @ replicate (3 - c) (1 - c)) (holds_at c t)"
proof -
  have t1: "unat (t + 1) = unat t + 1" using assms by (simp add: unat_word_ariths)
  have tk: "bakery_ticket_number (ucast (ucast (make_bakery_data CHOSEN_TICKET t) :: u16)) = t"
    "\<not> bakery_is_choosing (ucast (ucast (make_bakery_data CHOSEN_TICKET t) :: u16))"
    "bakery_ticket_number (ucast (ucast (make_bakery_data CHOSEN_TICKET (t + 1)) :: u16)) = t + 1"
    using ticket_of_data [of t] ticket_of_data [of "t + 1"] assms t1 by auto
  have pr: "PRIORITY t (of_nat 0) < PRIORITY (t + 1) (of_nat 1)" "PRIORITY t (of_nat 1) < PRIORITY (t + 1) (of_nat 0)"
    using assms t1 priority_value [of t 0] priority_value [of t 1] priority_value [of "t + 1" 0] priority_value [of "t + 1" 1]
    by (auto simp: word_less_nat_alt)
  have nz: "t \<noteq> 0" "0 < t" using assms by (auto simp: unat_eq_iff word_less_nat_alt)
  have "c = 0 \<or> c = 1" using assms(3) by auto
  then show ?thesis
    using tk pr nz data_const
    by (elim disjE) (simp_all add: holds_at_def bakery_step_def goto_pc_def write_data_def read_data_def
        bakery_get_ticket_step_def bakery_lock_get_step_def bakery_lock_release_def scan_coherent_def Let_def
        contended_def numeral_eq_Suc)
qed


lemma reach_ticket:
  assumes "n < 0x7FFF"
  shows "\<exists>sched. set sched \<subseteq> {0, 1} \<and> contended_run scan_coherent sched (bakery_init 2) \<and>
    bakery_run scan_coherent sched (bakery_init 2) = Some (holds_at (n mod 2) (of_nat (Suc n)))"
  using assms
proof (induction n)
  case 0
  have "bakery_run scan_coherent (replicate 7 0) (bakery_init 2) = Some (holds_at 0 1)"
    "contended_run scan_coherent (replicate 7 0) (bakery_init 2)" by code_simp+
  moreover have "set (replicate 7 0) \<subseteq> {0, 1 :: nat}" by simp
  ultimately show ?case by (metis mod_0 of_nat_1 One_nat_def)
next
  case (Suc n)
  then obtain sched where sched: "set sched \<subseteq> {0, 1}" "contended_run scan_coherent sched (bakery_init 2)"
    and s: "bakery_run scan_coherent sched (bakery_init 2) = Some (holds_at (n mod 2) (of_nat (Suc n)))"
    by auto
  let ?more = "replicate (5 + n mod 2) (1 - n mod 2) @ [n mod 2] @ replicate (3 - n mod 2) (1 - n mod 2)"
  have u: "unat (of_nat (Suc n) :: u32) = Suc n" using Suc.prems by (simp add: unat_of_nat_small del: of_nat_Suc)
  have "1 - n mod 2 = Suc n mod 2" by presburger
  moreover have "of_nat (Suc n) + 1 = (of_nat (Suc (Suc n)) :: u32)" by simp
  ultimately have h: "bakery_run scan_coherent ?more (holds_at (n mod 2) (of_nat (Suc n))) = Some (holds_at (Suc n mod 2) (of_nat (Suc (Suc n))))"
    "contended_run scan_coherent ?more (holds_at (n mod 2) (of_nat (Suc n)))"
    using hand_over [of "of_nat (Suc n)" "n mod 2"] u Suc.prems by (simp_all only: simp_thms)
  have "bakery_run scan_coherent (sched @ ?more) (bakery_init 2) = Some (holds_at (Suc n mod 2) (of_nat (Suc (Suc n))))"
    using s h(1) by (simp only: run_append option.case)
  moreover have "contended_run scan_coherent (sched @ ?more) (bakery_init 2)"
    using s sched(2) h(2) by (simp only: contended_run_append option.case simp_thms)
  moreover have "set (sched @ ?more) \<subseteq> {0, 1}"
    using sched(1) by (cases "even n") (auto simp: even_iff_mod_2_eq_zero odd_iff_mod_2_eq_one)
  ultimately show ?case by blast
qed

text \<open>CPU 1 draws ticket 32768 behind the holder, which leaves; then CPU 0 comes back.\<close>

lemma overflow_run:
  "bakery_run scan_coherent (replicate 5 1 @ [0] @ replicate 3 1 @ replicate 7 0) (holds_at 0 0x7FFF) =
     Some \<lparr>lock_data = [2, 0], pcs = [Held 1, Held 0x8000]\<rparr>"
  "contended_run scan_coherent (replicate 5 1 @ [0] @ replicate 3 1 @ replicate 7 0) (holds_at 0 0x7FFF)"
  by code_simp+


section \<open>Progress\<close>

definition holds_lock :: "bakery \<Rightarrow> nat \<Rightarrow> bool" where
  "holds_lock b i = (case pcs b ! i of Held _ \<Rightarrow> True | _ \<Rightarrow> False)"

lemma changes_pc: "me < length (pcs b) \<Longrightarrow> pc \<noteq> pcs b ! me \<Longrightarrow> goto_pc me pc b \<noteq> b"
  by (metis bakery.ext_inject bakery.surjective bakery.update_convs(2) goto_pc_def nth_list_update_eq)

lemma scan_moves:
  assumes "me < length (pcs b)" "pcs b ! me = Scan k m"
  shows "bakery_get_ticket_step scan me k m b \<noteq> b"
proof -
  have "pcs (bakery_get_ticket_step scan me k m b) ! me \<noteq> Scan k m"
    using assms by (simp add: bakery_get_ticket_step_def goto_pc_def write_data_def Let_def)
  then show ?thesis using assms(2) by metis
qed

lemma compare_moves:
  assumes "me < length (pcs b)" "pcs b ! me = Compare k t"
    and "k < length (lock_data b) \<Longrightarrow> \<not> bakery_is_choosing (read_data b k)"
  shows "bakery_lock_get_step me k t b \<noteq> b"
proof -
  have "pcs (bakery_lock_get_step me k t b) ! me \<noteq> Compare k t"
    using assms by (auto simp: bakery_lock_get_step_def goto_pc_def Let_def not_le)
  then show ?thesis using assms(2) by metis
qed

lemma progress:
  assumes "bakery_inv b" "c < length (lock_data b)" "pcs b ! c \<noteq> Idle"
  shows "\<exists>me < length (lock_data b). pcs b ! me \<noteq> Idle \<and> (\<exists>b'. bakery_step scan me b = Some b' \<and> b' \<noteq> b)"
proof (cases "\<exists>i < length (lock_data b). \<exists>k m. pcs b ! i = Scan k m")
  case True
  then obtain i k m where i: "i < length (lock_data b)" "pcs b ! i = Scan k m" by blast
  then show ?thesis
    using scan_moves [of i b k m scan] bakery_invD(1) [OF assms(1)]
    by (intro exI [of _ i]) (simp add: bakery_step_def)
next
  case False
  let ?n = "length (lock_data b)"
  let ?C = "{i. i < ?n \<and> pcs b ! i \<noteq> Idle}"
  let ?p = "\<lambda>i. unat (the (ticket_of (pcs b ! i))) * 256 + i"
  have "c \<in> ?C" using assms(2,3) by simp
  then obtain me where me: "me \<in> ?C" "\<And>i. i \<in> ?C \<Longrightarrow> ?p me \<le> ?p i"
    using ex_has_least_nat [of "\<lambda>i. i \<in> ?C" c ?p] by blast
  have n: "me < ?n" "pcs b ! me \<noteq> Idle" "length (pcs b) = ?n" using me(1) bakery_invD(1) [OF assms(1)] by auto
  have ch: "\<not> bakery_is_choosing (read_data b k)" if "k < ?n" for k
    using False bakery_inv_read(2) [OF assms(1) that] that by blast
  have "\<exists>b'. bakery_step scan me b = Some b' \<and> b' \<noteq> b"
  proof (cases "pcs b ! me")
    case (Compare k t)
    then show ?thesis using compare_moves [of me b k t] n ch by (simp add: bakery_step_def)
  next
    case (Wait_change k t tt)
    have k: "k < ?n" "k \<noteq> me" "tt \<noteq> 0" "unat tt * 256 + k < unat t * 256 + me"
      using bakery_invD(3) [OF assms(1) n(1)] Wait_change by (auto simp: pc_ok_def)
    have "tt \<noteq> bakery_ticket_number (read_data b k)"
    proof
      assume "tt = bakery_ticket_number (read_data b k)"
      then have "ticket_of (pcs b ! k) = Some tt"
        using bakery_inv_read(1) [OF assms(1) k(1)] k(3) by (auto split: option.splits)
      moreover have "k \<in> ?C" using calculation k(1) by auto
      ultimately show False using me(2) [of k] k(4) Wait_change by simp
    qed
    then show ?thesis using Wait_change n changes_pc [of me b] by (simp add: bakery_step_def)
  next
    case (Held t)
    have "bakery_ticket_number (read_data b me) \<noteq> 0"
      using bakery_inv_read(1,3) [OF assms(1) n(1)] Held by (auto simp: unat_eq_iff)
    moreover have "pcs (goto_pc me Idle (write_data me 0 b)) ! me = Idle" using n by (simp add: goto_pc_def write_data_def)
    ultimately show ?thesis
      using Held n(2) by (auto simp: bakery_step_def bakery_lock_release_def)
  qed (use n False in auto)
  then show ?thesis using n by blast
qed

section \<open>Properties\<close>

text \<open>
  C3. Mutual exclusion. Whatever the number of CPUs (up to 256) and however their accesses are
  interleaved, in both builds of the lock, as long as no ticket drawn exceeds its 15 bits: no
  assertion of the lock fails and no two CPUs hold the lock at the same time.
\<close>

theorem bakery_mutual_exclusion:
  assumes "n \<le> 256" "set sched \<subseteq> {..< n}" "scan \<in> {scan_coherent, scan_normal}"
    and "draws_fit scan sched (bakery_init n)"
  shows "\<exists>b. bakery_run scan sched (bakery_init n) = Some b \<and>
    (\<forall>i < n. \<forall>j < n. holds_lock b i \<and> holds_lock b j \<longrightarrow> i = j)"
proof -
  have len: "length (lock_data (bakery_init n)) = n" by (simp add: bakery_init_def)
  obtain b where b: "bakery_run scan sched (bakery_init n) = Some b" "bakery_inv b" "length (lock_data b) = n"
    using assms(3) coherent.run_inv [OF bakery_inv_init [OF assms(1)], of sched]
      normal.run_inv [OF bakery_inv_init [OF assms(1)], of sched] assms(2,4) len by auto
  then show ?thesis
    using inv_mutex [OF b(2)] by (auto simp: holds_lock_def split: bakery_pc.splits)
qed

theorem bakery_mutual_exclusion_witness:
  "\<exists>b. bakery_run scan_normal (replicate 7 0 @ replicate 5 1) (bakery_init 2) = Some b \<and>
     (\<forall>i < 2. \<forall>j < 2. holds_lock b i \<and> holds_lock b j \<longrightarrow> i = j)"
proof -
  have "draws_fit scan_normal (replicate 7 0 @ replicate 5 1) (bakery_init 2)" by code_simp
  then show ?thesis by (intro bakery_mutual_exclusion) auto
qed

text \<open>
  C18. No deadlock. In every state of such a run in which some CPU contends for the lock or holds
  it, one of the contending or holding CPUs can make a step that moves it forward: they never
  all wait for each other.
\<close>

theorem bakery_no_deadlock:
  assumes "n \<le> 256" "set sched \<subseteq> {..< n}" "scan \<in> {scan_coherent, scan_normal}"
    and "draws_fit scan sched (bakery_init n)" "bakery_run scan sched (bakery_init n) = Some b"
    and "c < n" "pcs b ! c \<noteq> Idle"
  shows "\<exists>me < n. pcs b ! me \<noteq> Idle \<and> (\<exists>b'. bakery_step scan me b = Some b' \<and> b' \<noteq> b)"
proof -
  have len: "length (lock_data (bakery_init n)) = n" by (simp add: bakery_init_def)
  have "bakery_inv b \<and> length (lock_data b) = n"
    using assms(3) coherent.run_inv [OF bakery_inv_init [OF assms(1)], of sched]
      normal.run_inv [OF bakery_inv_init [OF assms(1)], of sched] assms(2,4,5) len by auto
  then show ?thesis using progress [of b c scan] assms(6,7) by simp
qed

theorem bakery_no_deadlock_witness:
  "\<exists>b. bakery_run scan_coherent [0, 1, 0, 1] (bakery_init 2) = Some b \<and>
     (\<exists>me < 2. pcs b ! me \<noteq> Idle \<and> (\<exists>b'. bakery_step scan_coherent me b = Some b' \<and> b' \<noteq> b))"
proof -
  have f: "draws_fit scan_coherent [0, 1, 0, 1] (bakery_init 2)" by code_simp
  have "bakery_run scan_coherent [0, 1, 0, 1] (bakery_init 2) = Some \<lparr>lock_data = [1, 1], pcs = [Scan 1 0, Scan 1 0]\<rparr>"
    by code_simp
  then show ?thesis
    using bakery_no_deadlock [of 2 "[0, 1, 0, 1]" scan_coherent _ 0, OF _ _ _ f]
    by auto
qed

text \<open>
  C34. Tickets have 15 bits and nothing stops them from growing while the lock stays contended. There is a run of two
  CPUs, in which at every moment from the first step on one of them contends for the lock or holds it, and which no assertion stops, at whose
  end CPU 1 holds the lock with ticket 32768, for which its entry of the array says ticket 0 and not choosing, and CPU 0 holds the
  lock with ticket 1. The run draws a ticket that does not fit.
\<close>

theorem bakery_overflow_breaks_exclusion:
  "\<exists>sched b. set sched \<subseteq> {0, 1} \<and> bakery_run scan_coherent sched (bakery_init 2) = Some b \<and>
     contended_run scan_coherent sched (bakery_init 2) \<and> \<not> draws_fit scan_coherent sched (bakery_init 2) \<and>
     pcs b ! 0 = Held 1 \<and> pcs b ! 1 = Held 32768 \<and>
     bakery_ticket_number (read_data b 1) = 0 \<and> \<not> bakery_is_choosing (read_data b 1)"
proof -
  let ?over = "replicate 5 1 @ [0] @ replicate 3 1 @ replicate 7 0 :: nat list"
  let ?b = "\<lparr>lock_data = [2, 0], pcs = [Held 1, Held 0x8000]\<rparr>"
  obtain sched where s: "set sched \<subseteq> {0, 1}" "contended_run scan_coherent sched (bakery_init 2)"
    "bakery_run scan_coherent sched (bakery_init 2) = Some (holds_at 0 0x7FFF)"
    using reach_ticket [of "0x7FFE"] by auto
  have run: "bakery_run scan_coherent (sched @ ?over) (bakery_init 2) = Some ?b"
    using s(3) overflow_run(1) by (simp only: run_append option.case)
  have set: "set (sched @ ?over) \<subseteq> {0, 1}" using s(1) by auto
  have "\<not> draws_fit scan_coherent (sched @ ?over) (bakery_init 2)"
  proof
    assume "draws_fit scan_coherent (sched @ ?over) (bakery_init 2)"
    moreover have "set (sched @ ?over) \<subseteq> {..< length (lock_data (bakery_init 2))}"
      using set by (auto simp: bakery_init_def)
    ultimately have "bakery_inv ?b"
      using coherent.run_inv [OF bakery_inv_init [of 2], of "sched @ ?over"] run by auto
    then show False using inv_mutex [of ?b 0 1 1 "0x8000"] by simp
  qed
  moreover have "contended_run scan_coherent (sched @ ?over) (bakery_init 2)"
    using s(2,3) overflow_run(2) by (simp only: contended_run_append option.case simp_thms)
  moreover have "bakery_ticket_number (read_data ?b 1) = 0 \<and> \<not> bakery_is_choosing (read_data ?b 1)" by code_simp
  ultimately show ?thesis
    using run set by (intro exI [of _ "sched @ ?over"] exI [of _ ?b]) (simp del: set_append replicate_Suc)
qed

end
