(* ===== verification/Byte_queue.thy ===== *)
theory Byte_queue
  imports Prelude
begin

text \<open>
  The contract of a byte queue: what the two ring buffers of U-Boot (\<^verbatim>\<open>lib/membuff.c\<close> and
  \<^verbatim>\<open>lib/circbuf.c\<close>) promise their clients. A reader takes bytes from the front; a queue also
  accepts bytes at the back, all of them as long as there is room. The lemmas are about clients
  that mix both operations.
\<close>

datatype queue_op = Push "u8 list" | Pop nat

text \<open>A client that performs a list of operations and collects what it reads.\<close>

fun run_ops :: "(u8 list \<Rightarrow> 's \<Rightarrow> 's option) \<Rightarrow> (nat \<Rightarrow> 's \<Rightarrow> (u8 list \<times> 's) option) \<Rightarrow>
    queue_op list \<Rightarrow> 's \<Rightarrow> (u8 list \<times> 's) option" where
  "run_ops push pop [] s = Some ([], s)"
| "run_ops push pop (Push xs # ops) s = do { s' \<leftarrow> push xs s; run_ops push pop ops s' }"
| "run_ops push pop (Pop n # ops) s = do {
     (out, s') \<leftarrow> pop n s;
     (rest, s'') \<leftarrow> run_ops push pop ops s';
     Some (out @ rest, s'')
   }"

fun pushed :: "queue_op list \<Rightarrow> u8 list" where
  "pushed [] = []"
| "pushed (Push xs # ops) = xs @ pushed ops"
| "pushed (Pop n # ops) = pushed ops"

text \<open>The queue never holds more than \<open>cap\<close> bytes, if it holds \<open>have\<close> before.\<close>

fun fits :: "nat \<Rightarrow> nat \<Rightarrow> queue_op list \<Rightarrow> bool" where
  "fits cap have [] = True"
| "fits cap have (Push xs # ops) = (have + length xs \<le> cap \<and> fits cap (have + length xs) ops)"
| "fits cap have (Pop n # ops) = fits cap (have - n) ops"

locale byte_reader =
  fixes pop :: "nat \<Rightarrow> 's \<Rightarrow> (u8 list \<times> 's) option"
    and contents :: "'s \<Rightarrow> u8 list"
    and inv :: "'s \<Rightarrow> bool"
  assumes pop: "inv s \<Longrightarrow> \<exists>s'. pop n s = Some (take n (contents s), s') \<and> inv s' \<and> contents s' = drop n (contents s)"
begin

text \<open>Reading in two pieces is reading in one.\<close>

lemma pop_pop:
  assumes "inv s"
  shows "\<exists>s1 s2 s3 xs ys. pop n s = Some (xs, s1) \<and> pop m s1 = Some (ys, s2) \<and>
    pop (n + m) s = Some (xs @ ys, s3) \<and> contents s2 = contents s3"
proof -
  obtain s1 where s1: "pop n s = Some (take n (contents s), s1)" "inv s1" "contents s1 = drop n (contents s)"
    using pop [OF assms] by blast
  obtain s2 where s2: "pop m s1 = Some (take m (contents s1), s2)" "contents s2 = drop m (contents s1)"
    using pop [OF s1(2)] by blast
  obtain s3 where s3: "pop (n + m) s = Some (take (n + m) (contents s), s3)" "contents s3 = drop (n + m) (contents s)"
    using pop [OF assms] by blast
  have "drop m (drop n (contents s)) = drop (n + m) (contents s)" by (simp add: add.commute)
  then show ?thesis using s1 s2 s3 by (simp only: take_add) auto
qed

end

locale byte_queue = byte_reader pop contents inv
  for pop :: "nat \<Rightarrow> 's \<Rightarrow> (u8 list \<times> 's) option" and contents :: "'s \<Rightarrow> u8 list" and inv :: "'s \<Rightarrow> bool" +
  fixes push :: "u8 list \<Rightarrow> 's \<Rightarrow> 's option"
    and cap :: "'s \<Rightarrow> nat"
  assumes push: "inv s \<Longrightarrow> length (contents s) + length xs \<le> cap s \<Longrightarrow>
      \<exists>s'. push xs s = Some s' \<and> inv s' \<and> contents s' = contents s @ xs \<and> cap s' = cap s"
    and pop_cap: "inv s \<Longrightarrow> pop n s = Some (xs, s') \<Longrightarrow> cap s' = cap s"
begin

text \<open>First in, first out: nothing is lost, added or reordered while the queue has room.\<close>

lemma fifo:
  assumes "inv s" "fits (cap s) (length (contents s)) ops"
  shows "\<exists>out s'. run_ops push pop ops s = Some (out, s') \<and> inv s' \<and>
    out @ contents s' = contents s @ pushed ops"
  using assms
proof (induction ops arbitrary: s)
  case Nil
  then show ?case by simp
next
  case (Cons op ops)
  show ?case
  proof (cases op)
    case (Push xs)
    then obtain s1 where s1: "push xs s = Some s1" "inv s1" "contents s1 = contents s @ xs" "cap s1 = cap s"
      using push [OF Cons.prems(1), of xs] Cons.prems(2) by auto
    then show ?thesis using Cons.IH [OF s1(2)] Cons.prems(2) Push by (simp add: append_assoc)
  next
    case (Pop n)
    obtain s1 where s1: "pop n s = Some (take n (contents s), s1)" "inv s1" "contents s1 = drop n (contents s)"
      using pop [OF Cons.prems(1)] by blast
    obtain out s2 where s2: "run_ops push pop ops s1 = Some (out, s2)" "inv s2" "out @ contents s2 = contents s1 @ pushed ops"
      using Cons.IH [OF s1(2)] Cons.prems pop_cap [OF Cons.prems(1) s1(1)] Pop s1(3) by auto
    then show ?thesis using s1 Pop append_take_drop_id [of n "contents s"] by auto
  qed
qed

end

end
