(* ===== verification/Membuff.thy ===== *)
theory Membuff
  imports Cstring Byte_queue
begin

text \<open>
  The ring buffer of \<^verbatim>\<open>lib/membuff.c\<close>, which backs console recording. The bytes between
  \<open>start\<close> and \<open>end\<close> are a list (\<open>None\<close> when \<open>start\<close> is null), the pointers \<open>head\<close> and
  \<open>tail\<close> offsets from \<open>start\<close>; an \<open>int\<close> is a HOL integer, since all lengths are bounded by the
  buffer size. The outer \<open>None\<close> is an access outside the buffer or the source.
\<close>

section \<open>Operations\<close>

record membuff =
  mb_start :: "mem option"
  mb_head :: int
  mb_tail :: int

definition membuff_size :: "membuff \<Rightarrow> int" where
  "membuff_size mb = (case mb_start mb of None \<Rightarrow> 0 | Some m \<Rightarrow> int (length m))"

definition membuff_purge :: "membuff \<Rightarrow> membuff" where
  "membuff_purge mb = mb\<lparr>mb_head := 0, mb_tail := 0\<rparr>"

text \<open>The results: the number of bytes, the offset of the place to write to, the buffer.\<close>

definition membuff_putrawflex :: "membuff \<Rightarrow> int \<Rightarrow> bool \<Rightarrow> int \<times> int \<times> membuff" where
  "membuff_putrawflex mb maxlen update =
     (if mb_start mb = None then (0, mb_head mb, mb)
      else if mb_head mb \<ge> mb_tail mb
      then let len = membuff_size mb - mb_head mb - 1;
               len = (if maxlen \<ge> 0 \<and> len > maxlen then maxlen else len);
               mb' = (if update then mb\<lparr>mb_head := mb_head mb + len\<rparr> else mb)
           in if (maxlen < 0 \<or> len < maxlen) \<and> mb_tail mb \<noteq> 0
              then (len + 1, mb_head mb, if update then mb'\<lparr>mb_head := 0\<rparr> else mb')
              else (len, mb_head mb, mb')
      else let len = mb_tail mb - mb_head mb - 1;
               len = (if maxlen \<ge> 0 \<and> len > maxlen then maxlen else len)
           in (len, mb_head mb, if update then mb\<lparr>mb_head := mb_head mb + len\<rparr> else mb))"

definition membuff_putraw :: "membuff \<Rightarrow> int \<Rightarrow> bool \<Rightarrow> int \<times> int \<times> membuff" where
  "membuff_putraw mb maxlen update = membuff_putrawflex mb maxlen update"

text \<open>A copy into the buffer.\<close>

definition mb_store :: "membuff \<Rightarrow> int \<Rightarrow> u8 list \<Rightarrow> membuff option" where
  "mb_store mb off bs =
     (if bs = [] then Some mb
      else case mb_start mb of
        None \<Rightarrow> None
      | Some m \<Rightarrow> if 0 \<le> off \<and> nat off + length bs \<le> length m
                 then Some (mb\<lparr>mb_start := Some (take (nat off) m @ bs @ drop (nat off + length bs) m)\<rparr>)
                 else None)"

definition mb_load :: "membuff \<Rightarrow> int \<Rightarrow> int \<Rightarrow> u8 list option" where
  "mb_load mb off len =
     (if len = 0 then Some []
      else case mb_start mb of
        None \<Rightarrow> None
      | Some m \<Rightarrow> if 0 \<le> off \<and> 0 < len \<and> nat off + nat len \<le> length m
                 then Some (take (nat len) (drop (nat off) m)) else None)"

definition membuff_putbyte :: "membuff \<Rightarrow> u8 \<Rightarrow> (bool \<times> membuff) option" where
  "membuff_putbyte mb ch =
     (let (size, off, mb') = membuff_putraw mb 1 True in
      if size \<noteq> 1 then Some (False, mb')
      else map_option (\<lambda>mb''. (True, mb'')) (mb_store mb' off [ch]))"

definition membuff_getraw :: "membuff \<Rightarrow> int \<Rightarrow> bool \<Rightarrow> int \<times> int \<times> membuff" where
  "membuff_getraw mb maxlen update =
     (if mb_head mb > mb_tail mb
      then let len = mb_head mb - mb_tail mb;
               len = (if maxlen \<ge> 0 \<and> len > maxlen then maxlen else len)
           in (len, mb_tail mb, if update then mb\<lparr>mb_tail := mb_tail mb + len\<rparr> else mb)
      else if mb_head mb < mb_tail mb
      then let len = membuff_size mb - mb_tail mb;
               len = (if maxlen \<ge> 0 \<and> len > maxlen then maxlen else len)
           in (len, mb_tail mb,
               if update
               then mb\<lparr>mb_tail := (if mb_tail mb + len = membuff_size mb then 0 else mb_tail mb + len)\<rparr>
               else mb)
      else (0, 0, mb))"

definition membuff_getbyte :: "membuff \<Rightarrow> (int \<times> membuff) option" where
  "membuff_getbyte mb =
     (let (len, off, mb') = membuff_getraw mb 1 True in
      if len \<noteq> 1 then Some (- 1, mb')
      else map_option (\<lambda>bs. (int (unat (hd bs)), mb')) (mb_load mb' off 1))"

definition membuff_peekbyte :: "membuff \<Rightarrow> int option" where
  "membuff_peekbyte mb =
     (let (len, off, mb') = membuff_getraw mb 1 False in
      if len \<noteq> 1 then Some (- 1)
      else map_option (\<lambda>bs. int (unat (hd bs))) (mb_load mb' off 1))"

text \<open>The copy loops, which run at most twice.\<close>

fun membuff_get_loop :: "nat \<Rightarrow> int \<Rightarrow> int \<Rightarrow> membuff \<Rightarrow> (u8 list \<times> membuff) option" where
  "membuff_get_loop 0 len maxlen mb = Some ([], mb)"
| "membuff_get_loop (Suc i) len maxlen mb =
     (if len = 0 then Some ([], mb)
      else let (len, off, mb') = membuff_getraw mb maxlen True in do {
        bs \<leftarrow> mb_load mb' off len;
        (rest, mb'') \<leftarrow> membuff_get_loop i len (maxlen - len) mb';
        Some (bs @ rest, mb'')
      })"

definition membuff_get :: "membuff \<Rightarrow> int \<Rightarrow> (u8 list \<times> membuff) option" where
  "membuff_get mb maxlen = membuff_get_loop 2 1 maxlen mb"

fun membuff_put_loop :: "nat \<Rightarrow> u8 list \<Rightarrow> int \<Rightarrow> membuff \<Rightarrow> (int \<times> membuff) option" where
  "membuff_put_loop 0 buff len mb = Some (0, mb)"
| "membuff_put_loop (Suc i) buff len mb =
     (let (towrite, off, mb') = membuff_putraw mb len True in
      if towrite < 0 \<or> nat towrite > length buff then None
      else do {
        mb'' \<leftarrow> mb_store mb' off (take (nat towrite) buff);
        (written, mb3) \<leftarrow> membuff_put_loop i (drop (nat towrite) buff) (len - towrite) mb'';
        Some (towrite + written, mb3)
      })"

definition membuff_put :: "membuff \<Rightarrow> u8 list \<Rightarrow> int \<Rightarrow> (int \<times> membuff) option" where
  "membuff_put mb buff len = membuff_put_loop 2 buff len mb"

definition membuff_isempty :: "membuff \<Rightarrow> bool" where
  "membuff_isempty mb \<longleftrightarrow> mb_head mb = mb_tail mb"

definition membuff_avail :: "membuff \<Rightarrow> int" where
  "membuff_avail mb =
     (let (a, _, mb') = membuff_getraw mb (- 1) True;
          (b, _, _) = membuff_getraw mb' (- 1) True
      in a + b)"

definition membuff_makecontig :: "membuff \<Rightarrow> (bool \<times> membuff) option" where
  "membuff_makecontig mb =
     (case mb_start mb of
        None \<Rightarrow> Some (True, mb\<lparr>mb_tail := 0, mb_head := 0\<rparr>)
      | Some m \<Rightarrow>
          if mb_tail mb > mb_head mb
          then let topsize = membuff_size mb - mb_tail mb; botsize = mb_head mb in
               if mb_head mb + topsize \<ge> mb_tail mb then Some (False, mb)
               else do {
                 m1 \<leftarrow> memmove m (nat topsize) 0 (nat botsize);
                 m2 \<leftarrow> memcpy m1 0 (nat (mb_tail mb)) (nat topsize);
                 Some (True, \<lparr>mb_start = Some m2, mb_head = topsize + botsize, mb_tail = 0\<rparr>)
               }
          else let topsize = mb_head mb - mb_tail mb in do {
                 m2 \<leftarrow> memcpy m 0 (nat (mb_tail mb)) (nat topsize);
                 Some (True, \<lparr>mb_start = Some m2, mb_head = topsize, mb_tail = 0\<rparr>)
               })"

definition membuff_free :: "membuff \<Rightarrow> int" where
  "membuff_free mb = (if membuff_size mb = 0 then 0 else membuff_size mb - 1 - membuff_avail mb)"



definition INT_MAX :: int where "INT_MAX = 2147483647"
definition E2BIG :: int where "E2BIG = 7"
definition ENOMEM :: int where "ENOMEM = 12"

text \<open>The doubling loop; \<open>None\<close> is a loop that never ends or an overflow of \<open>size\<close>.\<close>

partial_function (option) extend_size :: "int \<Rightarrow> int \<Rightarrow> int option" where
  "extend_size bound sz =
     (if sz < bound then (if 2 * sz > INT_MAX then None else extend_size bound (2 * sz)) else Some sz)"

text \<open>
  The parameter \<open>realloc\<close> is the allocator: for the old bytes and the new size it gives the new
  bytes, or \<open>None\<close> when there is no memory.
\<close>

definition membuff_extend_by ::
  "(mem option \<Rightarrow> nat \<Rightarrow> mem option) \<Rightarrow> membuff \<Rightarrow> int \<Rightarrow> int \<Rightarrow> (int \<times> membuff) option" where
  "membuff_extend_by realloc mb by_len max_len = do {
     let orig = membuff_size mb;
     sz \<leftarrow> extend_size (orig + by_len) orig;
     let sz = (if max_len \<noteq> - 1 then min sz max_len else sz);
     let by_len = sz - orig;
     if by_len \<le> 0 then Some (- E2BIG, mb)
     else case realloc (mb_start mb) (nat sz) of
       None \<Rightarrow> Some (- ENOMEM, mb)
     | Some m \<Rightarrow>
         if mb_head mb < mb_tail mb
         then do {
           m' \<leftarrow> memmove m (nat (mb_tail mb + by_len)) (nat (mb_tail mb)) (nat (orig - mb_tail mb));
           Some (0, \<lparr>mb_start = Some m', mb_head = mb_head mb, mb_tail = mb_tail mb + by_len\<rparr>)
         }
         else Some (0, mb\<lparr>mb_start := Some m\<rparr>)
   }"

definition membuff_init :: "mem \<Rightarrow> membuff" where
  "membuff_init buff = \<lparr>mb_start = Some buff, mb_head = 0, mb_tail = 0\<rparr>"

text \<open>When there is no memory, only \<open>start\<close> is set, to null.\<close>

definition membuff_new :: "(nat \<Rightarrow> mem option) \<Rightarrow> membuff \<Rightarrow> int \<Rightarrow> int \<times> membuff" where
  "membuff_new malloc mb sz =
     (case malloc (nat sz) of
        None \<Rightarrow> (- ENOMEM, mb\<lparr>mb_start := None\<rparr>)
      | Some m \<Rightarrow> (0, membuff_init m))"

definition membuff_uninit :: "membuff \<Rightarrow> membuff" where
  "membuff_uninit mb = \<lparr>mb_start = None, mb_head = 0, mb_tail = 0\<rparr>"


section \<open>The ring\<close>

definition ring :: "'a list \<Rightarrow> nat \<Rightarrow> nat \<Rightarrow> 'a list" where
  "ring m h t = (if t \<le> h then take (h - t) (drop t m) else drop t m @ take h m)"

lemma ring_empty [simp]: "ring m h h = []"
  by (simp add: ring_def)

lemma length_ring:
  "h < length m \<Longrightarrow> t < length m \<Longrightarrow> length (ring m h t) = (if t \<le> h then h - t else length m - t + h)"
  by (simp add: ring_def)

text \<open>Writing behind the head, up to the end of the free part.\<close>

lemma ring_store:
  assumes "h < length m" "t < length m"
    and "if t \<le> h then h + length bs \<le> length m - (if t = 0 then 1 else 0) else h + length bs < t"
  shows "ring (take h m @ bs @ drop (h + length bs) m) ((h + length bs) mod length m) t = ring m h t @ bs"
proof (cases "t \<le> h")
  case True
  show ?thesis
  proof (cases "h + length bs = length m")
    case e: True
    then have "t > 0" using assms True by (auto split: if_splits)
    then show ?thesis using e True assms(1) by (simp add: ring_def drop_take)
  next
    case False
    then have "h + length bs < length m" using assms True by (auto split: if_splits)
    then show ?thesis using True assms(1) by (simp add: ring_def drop_take)
  qed
next
  case False
  then show ?thesis using assms by (simp add: ring_def)
qed

lemma ring_advance:
  assumes "h < length m" "t < length m" "k \<le> (if t \<le> h then h - t else length m - t)"
  shows "ring m h ((t + k) mod length m) = drop k (ring m h t)"
    "take k (drop t m) = take k (ring m h t)"
proof -
  show "take k (drop t m) = take k (ring m h t)"
    using assms by (auto simp: ring_def min_def)
  show "ring m h ((t + k) mod length m) = drop k (ring m h t)"
  proof (cases "t + k = length m")
    case True
    then show ?thesis using assms by (auto simp: ring_def split: if_splits)
  next
    case False
    then have "t + k < length m" using assms by (auto split: if_splits)
    then show ?thesis using assms by (auto simp: ring_def drop_take add.commute)
  qed
qed

definition mb_contents :: "membuff \<Rightarrow> u8 list" where
  "mb_contents mb = (case mb_start mb of None \<Rightarrow> [] | Some m \<Rightarrow> ring m (nat (mb_head mb)) (nat (mb_tail mb)))"

definition mb_ok :: "membuff \<Rightarrow> bool" where
  "mb_ok mb = (case mb_start mb of
     None \<Rightarrow> mb_head mb = 0 \<and> mb_tail mb = 0
   | Some m \<Rightarrow> 0 \<le> mb_head mb \<and> mb_head mb < int (length m) \<and> 0 \<le> mb_tail mb \<and> mb_tail mb < int (length m))"

definition mb_cap :: "membuff \<Rightarrow> nat" where
  "mb_cap mb = (case mb_start mb of None \<Rightarrow> 0 | Some m \<Rightarrow> length m - 1)"


lemma mb_ok_cases:
  assumes "mb_ok mb"
  obtains (null) "mb = \<lparr>mb_start = None, mb_head = 0, mb_tail = 0\<rparr>"
  | (buf) m h t where "mb = \<lparr>mb_start = Some m, mb_head = int h, mb_tail = int t\<rparr>" "h < length m" "t < length m"
proof (cases "mb_start mb")
  case None
  then show ?thesis using assms null by (cases mb) (simp add: mb_ok_def)
next
  case (Some m)
  then show ?thesis
    using assms buf [of m "nat (mb_head mb)" "nat (mb_tail mb)"] by (cases mb) (simp add: mb_ok_def nat_less_iff)
qed

lemma mb_obs [simp]:
  "mb_contents \<lparr>mb_start = Some m, mb_head = int h, mb_tail = int t\<rparr> = ring m h t"
  "mb_contents \<lparr>mb_start = None, mb_head = h', mb_tail = t'\<rparr> = []"
  "mb_ok \<lparr>mb_start = Some m, mb_head = int h, mb_tail = int t\<rparr> \<longleftrightarrow> h < length m \<and> t < length m"
  "mb_ok \<lparr>mb_start = None, mb_head = 0, mb_tail = 0\<rparr>"
  "mb_cap \<lparr>mb_start = Some m, mb_head = h', mb_tail = t'\<rparr> = length m - 1"
  "mb_cap \<lparr>mb_start = None, mb_head = h', mb_tail = t'\<rparr> = 0"
  by (simp_all add: mb_contents_def mb_ok_def mb_cap_def)

section \<open>Reading\<close>

text \<open>The bytes that can be read in one piece.\<close>

definition run_len :: "nat \<Rightarrow> nat \<Rightarrow> nat \<Rightarrow> nat" where
  "run_len n h t = (if t \<le> h then h - t else n - t)"

lemma getraw_buf:
  assumes "h < length m" "t < length m"
  shows "membuff_getraw \<lparr>mb_start = Some m, mb_head = int h, mb_tail = int t\<rparr> maxlen True =
    (let k = (if maxlen < 0 then run_len (length m) h t else min (nat maxlen) (run_len (length m) h t))
     in (int k, if h = t then 0 else int t,
         \<lparr>mb_start = Some m, mb_head = int h, mb_tail = int ((t + k) mod length m)\<rparr>))"
proof -
  have eq: "nat maxlen = length m - t" if "nat maxlen \<le> length m - t" "int (length m) - int t \<le> maxlen"
    using that by linarith
  show ?thesis
    using assms eq by (auto simp: membuff_getraw_def membuff_size_def run_len_def Let_def min_def not_less)
qed

lemma load_buf:
  assumes "k \<le> run_len (length m) h t" "h < length m" "t < length m"
  shows "mb_load \<lparr>mb_start = Some m, mb_head = h', mb_tail = t'\<rparr> (if h = t then 0 else int t) (int k) =
    Some (take k (ring m h t))"
  using assms ring_advance(2) [OF assms(2,3), of k]
  by (auto simp: mb_load_def run_len_def split: if_splits)

text \<open>Two reads give everything that is there.\<close>

lemma run_len_two:
  assumes "h < n" "t < n" "k = min x (run_len n h t)"
  shows "run_len n h ((t + k) mod n) \<le> n" "k + min (x - k) (run_len n h ((t + k) mod n)) = min x (if t \<le> h then h - t else n - t + h)"
proof -
  have cases: "t + k < n \<or> t + k = n" using assms by (auto simp: run_len_def)
  show "run_len n h ((t + k) mod n) \<le> n" using assms by (auto simp: run_len_def)
  show "k + min (x - k) (run_len n h ((t + k) mod n)) = min x (if t \<le> h then h - t else n - t + h)"
    using cases assms by (auto simp: run_len_def min_def split: if_splits)
qed

lemma membuff_get_spec:
  assumes "mb_ok mb"
  shows "\<exists>mb'. membuff_get mb (int n) = Some (take n (mb_contents mb), mb') \<and> mb_ok mb' \<and>
    mb_contents mb' = drop n (mb_contents mb) \<and> mb_cap mb' = mb_cap mb \<and> mb_start mb' = mb_start mb"
  using assms
proof (cases rule: mb_ok_cases)
  case null
  then show ?thesis by (simp add: membuff_get_def numeral_2_eq_2 membuff_getraw_def mb_load_def)
next
  case (buf m h t)
  let ?N = "length m"
  define k where "k = min n (run_len ?N h t)"
  define t1 where "t1 = (t + k) mod ?N"
  define k1 where "k1 = min (n - k) (run_len ?N h t1)"
  define t2 where "t2 = (t1 + k1) mod ?N"
  have "0 < ?N" using buf(3) by linarith
  then have t1: "t1 < ?N" "t2 < ?N" by (simp_all add: t1_def t2_def)
  have r1: "ring m h t1 = drop k (ring m h t)"
    unfolding t1_def by (rule ring_advance(1) [OF buf(2,3)]) (simp add: k_def run_len_def)
  have r2: "ring m h t2 = drop k1 (ring m h t1)"
    unfolding t2_def by (rule ring_advance(1) [OF buf(2) t1(1)]) (simp add: k1_def run_len_def)
  have total: "k + k1 = min n (length (ring m h t))"
    using run_len_two(2) [OF buf(2,3) k_def] length_ring [OF buf(2,3)] by (simp add: k1_def t1_def)
  have stop: "k1 = 0" if "k = 0" using that t1_def k1_def k_def buf(3) by simp
  have kk: "k \<le> run_len ?N h t" "k1 \<le> run_len ?N h t1" by (simp_all add: k_def k1_def)
  have ld: "mb_load \<lparr>mb_start = Some m, mb_head = int h, mb_tail = int t1\<rparr> (if h = t then 0 else int t) (int k) =
      Some (take k (ring m h t))"
    "mb_load \<lparr>mb_start = Some m, mb_head = int h, mb_tail = int t2\<rparr> (if h = t1 then 0 else int t1) (int k1) =
      Some (take k1 (ring m h t1))"
    by (rule load_buf [OF kk(1) buf(2,3)], rule load_buf [OF kk(2) buf(2) t1(1)])
  have g1: "membuff_getraw mb (int n) True = (int k, if h = t then 0 else int t, \<lparr>mb_start = Some m, mb_head = int h, mb_tail = int t1\<rparr>)"
    using getraw_buf [OF buf(2,3), of "int n"] buf(1) by (simp add: Let_def k_def t1_def)
  have g2: "membuff_getraw \<lparr>mb_start = Some m, mb_head = int h, mb_tail = int t1\<rparr> (int n - int k) True =
      (int k1, if h = t1 then 0 else int t1, \<lparr>mb_start = Some m, mb_head = int h, mb_tail = int t2\<rparr>)"
  proof -
    have e: "int n - int k = int (n - k)" by (simp add: k_def)
    show ?thesis
      unfolding e getraw_buf [OF buf(2) t1(1), of "int (n - k)"] by (simp add: Let_def t2_def flip: k1_def)
  qed
  have out: "take k (ring m h t) @ take k1 (ring m h t1) = take n (ring m h t)"
    using total r1 by (cases "n \<le> length (ring m h t)") (simp_all flip: take_add)
  have left: "ring m h t2 = drop n (ring m h t)"
    using r1 r2 total by (cases "n \<le> length (ring m h t)") (simp_all add: add.commute)
  show ?thesis
  proof (cases "k = 0")
    case True
    then have "t2 = t1" "k1 = 0" using stop t1 by (auto simp: t2_def)
    then show ?thesis
      using True g1 ld out left t1 buf by (simp add: membuff_get_def numeral_2_eq_2)
  next
    case False
    then show ?thesis
      using g1 g2 ld out left t1 buf by (simp add: membuff_get_def numeral_2_eq_2)
  qed
qed


section \<open>Writing\<close>

text \<open>The bytes that can be written in one piece.\<close>

definition room :: "nat \<Rightarrow> nat \<Rightarrow> nat \<Rightarrow> nat" where
  "room n h t = (if t \<le> h then n - h - (if t = 0 then 1 else 0) else t - h - 1)"

lemma putraw_buf:
  assumes "h < length m" "t < length m"
  shows "membuff_putraw \<lparr>mb_start = Some m, mb_head = int h, mb_tail = int t\<rparr> (int n) True =
    (let k = min n (room (length m) h t)
     in (int k, int h, \<lparr>mb_start = Some m, mb_head = int ((h + k) mod length m), mb_tail = int t\<rparr>))"
proof -
  consider "t \<le> h" "n \<le> length m - h - 1" | "t \<le> h" "n > length m - h - 1" | "h < t" by linarith
  moreover have "n = length m - h" if "length m - Suc h < n" "n \<le> length m - h" using that by linarith
  ultimately show ?thesis
    using assms
    by cases (auto simp: membuff_putraw_def membuff_putrawflex_def membuff_size_def room_def Let_def min_def
        of_nat_diff not_less)
qed

lemma store_buf:
  assumes "h < length m" "t < length m" "length bs \<le> room (length m) h t"
  shows "\<exists>m'. mb_store \<lparr>mb_start = Some m, mb_head = h', mb_tail = t'\<rparr> (int h) bs =
      Some \<lparr>mb_start = Some m', mb_head = h', mb_tail = t'\<rparr> \<and> length m' = length m \<and>
    ring m' ((h + length bs) mod length m) t = ring m h t @ bs"
proof -
  let ?m = "take h m @ bs @ drop (h + length bs) m"
  have le: "h + length bs \<le> length m"
    using assms by (auto simp: room_def split: if_splits)
  have "ring ?m ((h + length bs) mod length m) t = ring m h t @ bs"
    using assms le by (intro ring_store) (auto simp: room_def split: if_splits)
  then show ?thesis
    using assms(1) le by (cases "bs = []") (auto simp: mb_store_def)
qed

lemma room_two:
  assumes "h < n" "t < n" "k = min x (room n h t)"
  shows "k + min (x - k) (room n ((h + k) mod n) t) = min x (n - 1 - (if t \<le> h then h - t else n - t + h))"
proof -
  consider (first) "t = 0" | (top) "0 < t" "t \<le> h" "x < n - h" | (wrap) "0 < t" "t \<le> h" "n - h \<le> x" | (below) "h < t"
    by linarith
  then show ?thesis
  proof cases
    case first
    then have "k = min x (n - h - 1)" "h + k < n" using assms by (auto simp: room_def)
    then show ?thesis using first by (auto simp: room_def min_def)
  next
    case top
    then have "k = x" "h + k < n" using assms by (auto simp: room_def)
    then show ?thesis using top by (simp add: min_def)
  next
    case wrap
    then have "k = n - h" "(h + k) mod n = 0" using assms by (auto simp: room_def)
    then show ?thesis using wrap assms(1,2) by (auto simp: room_def min_def)
  next
    case below
    then have "k = min x (t - h - 1)" "h + k < n" using assms by (auto simp: room_def)
    then show ?thesis using below assms(2) by (auto simp: room_def min_def)
  qed
qed

lemma membuff_put_spec:
  assumes "mb_ok mb"
  shows "\<exists>mb'. membuff_put mb xs (int (length xs)) =
      Some (int (min (length xs) (mb_cap mb - length (mb_contents mb))), mb') \<and> mb_ok mb' \<and>
    mb_contents mb' = mb_contents mb @ take (mb_cap mb - length (mb_contents mb)) xs \<and> mb_cap mb' = mb_cap mb"
  using assms
proof (cases rule: mb_ok_cases)
  case null
  then show ?thesis
    by (simp add: membuff_put_def numeral_2_eq_2 membuff_putraw_def membuff_putrawflex_def mb_store_def)
next
  case (buf m h t)
  let ?N = "length m"
  define k where "k = min (length xs) (room ?N h t)"
  define h1 where "h1 = (h + k) mod ?N"
  define k1 where "k1 = min (length xs - k) (room ?N h1 t)"
  define h2 where "h2 = (h1 + k1) mod ?N"
  have "0 < ?N" using buf(3) by linarith
  then have h1: "h1 < ?N" "h2 < ?N" by (simp_all add: h1_def h2_def)
  have kx: "k \<le> length xs" "k1 \<le> length xs - k" "k \<le> room ?N h t" "k1 \<le> room ?N h1 t"
    by (simp_all add: k_def k1_def)
  obtain m1 where m1: "mb_store \<lparr>mb_start = Some m, mb_head = int h1, mb_tail = int t\<rparr> (int h) (take k xs) =
      Some \<lparr>mb_start = Some m1, mb_head = int h1, mb_tail = int t\<rparr>" "length m1 = ?N" "ring m1 h1 t = ring m h t @ take k xs"
    using store_buf [OF buf(2,3), of "take k xs" "int h1" "int t"] kx by (auto simp: h1_def)
  obtain m2 where m2: "mb_store \<lparr>mb_start = Some m1, mb_head = int h2, mb_tail = int t\<rparr> (int h1) (take k1 (drop k xs)) =
      Some \<lparr>mb_start = Some m2, mb_head = int h2, mb_tail = int t\<rparr>" "length m2 = ?N"
      "ring m2 h2 t = ring m1 h1 t @ take k1 (drop k xs)"
    using store_buf [of h1 m1 t "take k1 (drop k xs)" "int h2" "int t"] kx m1(2) h1(1) buf(3) by (auto simp: h2_def)
  have total: "k + k1 = min (length xs) (?N - 1 - length (ring m h t))"
    using room_two [OF buf(2,3) k_def] length_ring [OF buf(2,3)] by (simp add: k1_def h1_def)
  have p1: "membuff_putraw mb (int (length xs)) True = (int k, int h, \<lparr>mb_start = Some m, mb_head = int h1, mb_tail = int t\<rparr>)"
    using putraw_buf [OF buf(2,3), of "length xs"] buf(1) by (simp add: Let_def k_def h1_def)
  have p2: "membuff_putraw \<lparr>mb_start = Some m1, mb_head = int h1, mb_tail = int t\<rparr> (int (length xs) - int k) True =
      (int k1, int h1, \<lparr>mb_start = Some m1, mb_head = int h2, mb_tail = int t\<rparr>)"
  proof -
    have e: "int (length xs) - int k = int (length xs - k)" by (simp add: k_def)
    show ?thesis
      unfolding e using putraw_buf [of h1 m1 t "length xs - k"] h1(1) buf(3) m1(2)
      by (simp add: Let_def h2_def flip: k1_def)
  qed
  have out: "take k xs @ take k1 (drop k xs) = take (?N - 1 - length (ring m h t)) xs"
    using total by (cases "length xs \<le> ?N - 1 - length (ring m h t)") (simp_all flip: take_add)
  have "membuff_put mb xs (int (length xs)) = Some (int (k + k1), \<lparr>mb_start = Some m2, mb_head = int h2, mb_tail = int t\<rparr>)"
    using p1 p2 m1(1) m2(1) kx by (simp add: membuff_put_def numeral_2_eq_2)
  then show ?thesis using m1 m2 h1 buf out total by simp
qed

section \<open>The queue\<close>

definition mb_push :: "u8 list \<Rightarrow> membuff \<Rightarrow> membuff option" where
  "mb_push xs mb = map_option snd (membuff_put mb xs (int (length xs)))"

definition mb_pop :: "nat \<Rightarrow> membuff \<Rightarrow> (u8 list \<times> membuff) option" where
  "mb_pop n mb = membuff_get mb (int n)"

interpretation mbq: byte_queue mb_pop mb_contents mb_ok mb_push mb_cap
proof
  show "\<exists>s'. mb_pop n s = Some (take n (mb_contents s), s') \<and> mb_ok s' \<and> mb_contents s' = drop n (mb_contents s)"
    if "mb_ok s" for s n using membuff_get_spec [OF that, of n] by (auto simp: mb_pop_def)
  show "\<exists>s'. mb_push xs s = Some s' \<and> mb_ok s' \<and> mb_contents s' = mb_contents s @ xs \<and> mb_cap s' = mb_cap s"
    if "mb_ok s" "length (mb_contents s) + length xs \<le> mb_cap s" for s xs
    using membuff_put_spec [OF that(1), of xs] that(2) by (auto simp: mb_push_def)
  show "mb_cap s' = mb_cap s" if "mb_ok s" "mb_pop n s = Some (xs, s')" for s n xs s'
    using membuff_get_spec [OF that(1), of n] that(2) by (auto simp: mb_pop_def)
qed


section \<open>Moving the data\<close>

lemma makecontig_spec:
  assumes "mb_ok mb"
  shows "\<exists>ok mb'. membuff_makecontig mb = Some (ok, mb') \<and> mb_ok mb' \<and> mb_contents mb' = mb_contents mb \<and>
    mb_cap mb' = mb_cap mb \<and>
    (if ok then mb_tail mb' = 0 \<and> mb_head mb' = int (length (mb_contents mb)) else mb' = mb) \<and>
    (\<not> ok \<longleftrightarrow> mb_head mb < mb_tail mb \<and> membuff_size mb - mb_tail mb + mb_head mb \<ge> mb_tail mb)"
  using assms
proof (cases rule: mb_ok_cases)
  case null
  then show ?thesis by (intro exI [of _ True]) (simp add: membuff_makecontig_def)
next
  case (buf m h t)
  let ?N = "length m"
  consider (flat) "t \<le> h" | (full) "h < t" "?N - t + h \<ge> t" | (split) "h < t" "?N - t + h < t" by linarith
  then show ?thesis
  proof cases
    case flat
    have "memcpy m 0 t (h - t) = Some (blit m 0 t (h - t))" using flat buf(2,3) by (intro memcpy_blit) auto
    moreover have "take (h - t) (blit m 0 t (h - t)) = ring m h t" using flat buf(2) by (simp add: blit_def ring_def)
    moreover have "nat (int h - int t) = h - t" using flat by simp
    ultimately show ?thesis
      using flat buf
      by (intro exI [of _ True]) (auto simp: membuff_makecontig_def Let_def mb_contents_def mb_ok_def mb_cap_def ring_def)
  next
    case full
    then show ?thesis
      using buf by (intro exI [of _ False]) (auto simp: membuff_makecontig_def membuff_size_def Let_def)
  next
    case split
    let ?top = "?N - t"
    let ?m1 = "blit m ?top 0 h"
    have le: "?top + h \<le> ?N" "?top + h < t" using split buf(3) by auto
    have mv: "memmove m ?top 0 h = Some ?m1" using le buf by (intro memmove_blit) auto
    have len: "length ?m1 = ?N" using le buf(2) by simp
    have cp: "memcpy ?m1 0 t ?top = Some (blit ?m1 0 t ?top)" using len buf(3) by (intro memcpy_blit) auto
    have d: "drop t ?m1 = drop t m" "take h (drop ?top ?m1) = take h m"
      using le buf(2) by (auto simp: blit_def min_def)
    have "take (?top + h) (blit ?m1 0 t ?top) = drop t m @ take h m"
      using d le len by (simp add: blit_def)
    moreover have "nat (int ?N - int t) = ?top" using buf(3) by simp
    ultimately show ?thesis
      using split buf mv cp len le
      by (intro exI [of _ True]) (auto simp: membuff_makecontig_def membuff_size_def Let_def mb_contents_def mb_ok_def mb_cap_def ring_def of_nat_diff nat_add_distrib)
  qed
qed

text \<open>The doubling loop ends with a size that is large enough, if it starts above 0.\<close>

lemma extend_size_spec:
  assumes "0 < sz" "2 * bound \<le> INT_MAX"
  shows "\<exists>r. extend_size bound sz = Some r \<and> bound \<le> r \<and> sz \<le> r"
  using assms
proof (induction "nat (bound - sz)" arbitrary: sz rule: less_induct)
  case less
  show ?case
  proof (cases "sz < bound")
    case True
    then obtain r where "extend_size bound (2 * sz) = Some r" "bound \<le> r" "2 * sz \<le> r"
      using less.hyps [of "2 * sz"] less.prems by auto
    then show ?thesis using True less.prems by (auto simp: extend_size.simps [of bound sz])
  qed (simp add: extend_size.simps [of bound sz])
qed

lemma extend_by_spec:
  assumes "mb_ok mb" "mb_start mb = Some m" "0 \<le> n" "2 * (int (length m) + n) \<le> INT_MAX" "max_len = - 1 \<or> 0 \<le> max_len"
    and "\<And>m k. case realloc (Some m) k of None \<Rightarrow> True | Some m' \<Rightarrow> length m' = k \<and> (length m \<le> k \<longrightarrow> take (length m) m' = m)"
  shows "\<exists>rc mb'. membuff_extend_by realloc mb n max_len = Some (rc, mb') \<and> mb_ok mb' \<and> mb_contents mb' = mb_contents mb \<and>
    (rc = 0 \<or> mb' = mb \<and> rc \<in> {- E2BIG, - ENOMEM}) \<and>
    (rc = 0 \<longrightarrow> membuff_size mb' > membuff_size mb \<and> (max_len = - 1 \<longrightarrow> membuff_size mb' \<ge> membuff_size mb + n))"
  using assms(1)
proof (cases rule: mb_ok_cases)
  case null
  then show ?thesis using assms(2) by simp
next
  case (buf m0 h t)
  have m: "m0 = m" using buf(1) assms(2) by simp
  let ?N = "length m"
  obtain r where r: "extend_size (int ?N + n) (int ?N) = Some r" "int ?N + n \<le> r"
    using extend_size_spec [of "int ?N" "int ?N + n"] assms(4) buf(2) m by (cases "m = []") auto
  define sz where "sz = (if max_len \<noteq> - 1 then min r max_len else r)"
  have size: "membuff_size mb = int ?N" using buf m by (simp add: membuff_size_def)
  show ?thesis
  proof (cases "sz \<le> int ?N \<or> realloc (Some m) (nat sz) = None")
    case True
    then show ?thesis
      using r buf m assms(1) size by (auto simp: membuff_extend_by_def Let_def sz_def [symmetric] E2BIG_def ENOMEM_def)
  next
    case False
    then obtain m' where m': "realloc (Some m) (nat sz) = Some m'" by auto
    then have len: "length m' = nat sz" "take ?N m' = m" using assms(6) [where m = m and k = "nat sz"] False by auto
    have res: "?N < nat sz" "max_len = - 1 \<Longrightarrow> int ?N + n \<le> sz" using False r(2) by (auto simp: sz_def)
    have low: "take h m' = take h m"
    proof -
      have "take h m' = take h (take ?N m')" using buf(2) m by (simp add: min_def)
      then show ?thesis using len(2) by simp
    qed
    show ?thesis
    proof (cases "h < t")
      case True
      define k where "k = nat sz - ?N"
      have sz: "sz = int ?N + int k" "nat sz = ?N + k" using res(1) by (auto simp: k_def)
      let ?m2 = "blit m' (t + k) t (?N - t)"
      have fit: "t + k + (?N - t) = nat sz" using buf(3) m sz(2) by simp
      have mv: "memmove m' (t + k) t (?N - t) = Some ?m2" using fit len res by (intro memmove_blit) auto
      have "length ?m2 = nat sz" using fit len res by simp
      moreover have "drop (t + k) ?m2 = drop t m" "take h ?m2 = take h m"
      proof -
        have "take (?N - t) (drop t m') = drop t m" using len(2) by (metis drop_take)
        then show "drop (t + k) ?m2 = drop t m" using fit len by (simp add: blit_def)
        show "take h ?m2 = take h m" using True fit len low by (simp add: blit_def)
      qed
      moreover have "membuff_extend_by realloc mb n max_len =
          Some (0, \<lparr>mb_start = Some ?m2, mb_head = int h, mb_tail = int (t + k)\<rparr>)"
      proof -
        have st: "mb_start mb = Some m" "mb_head mb = int h" "mb_tail mb = int t" using buf(1) m by simp_all
        have nt: "nat (int t + int k) = t + k" "nat (int ?N - int t) = ?N - t" "\<not> int k \<le> 0" "int h < int t"
          "int ?N + int k - int ?N = int k" "nat (int ?N + int k) = ?N + k"
          using res sz buf(3) m True by auto
        have e: "(if max_len \<noteq> - 1 then min r max_len else r) = int ?N + int k" using sz(1) by (simp add: sz_def)
        show ?thesis
          unfolding membuff_extend_by_def Let_def size st r(1) bind.bind_lunit e nt(1,2,5,6) using m' mv sz(2) nt(3,4)
          by simp
      qed
      ultimately show ?thesis
        using True buf m size res fit by (auto simp: ring_def membuff_size_def simp del: of_nat_add)
    next
      case flat: False
      have "take (h - t) (drop t m') = take (h - t) (drop t m)"
        using low by (simp flip: drop_take)
      then show ?thesis
        using r m' flat buf m False size res len
        by (auto simp: membuff_extend_by_def Let_def sz_def [symmetric] mb_contents_def mb_ok_def ring_def membuff_size_def)
    qed
  qed
qed


section \<open>Lines\<close>

text \<open>The end of a line: a newline, or a byte below \<open>minch\<close>.\<close>

definition line_end :: "int \<Rightarrow> u8 \<Rightarrow> bool" where
  "line_end minch ch \<longleftrightarrow> ch = 0x0a \<or> int (unat ch) < minch"

text \<open>
  What the loop does to the bytes \<open>R\<close> it has before it: it stops behind the first line end, if
  that comes within the room left, and otherwise fails.
\<close>

definition wrap :: "nat \<Rightarrow> int \<Rightarrow> int" where
  "wrap n s = (if s = int n then 0 else s)"

definition line_result :: "int \<Rightarrow> nat \<Rightarrow> nat \<Rightarrow> u8 list \<Rightarrow> nat \<Rightarrow> (bool \<times> u8 list \<times> int) option \<Rightarrow> bool" where
  "line_result minch rm s R n res \<longleftrightarrow>
     (let p = length (takeWhile (\<lambda>c. \<not> line_end minch c) R) in
      case res of
        None \<Rightarrow> False
      | Some (ok, str, s') \<Rightarrow> (ok \<longleftrightarrow> p < length R \<and> p < rm) \<and>
          (ok \<longrightarrow> str = take (Suc p) R \<and> wrap n s' = int ((s + Suc p) mod n)))"



lemma line_result_none [simp]: "line_result minch 0 s R n (Some (False, [], x))" "line_result minch rm s [] n (Some (False, [], x))"
  by (auto simp: line_result_def Let_def)














section \<open>Properties\<close>

text \<open>
  C19. A client of the buffer that mixes writes and reads, without ever writing more than fits,
  reads back exactly the bytes it wrote, in order: what has been read followed by what is still
  in the buffer is what was there followed by all that was written. No access leaves the buffer.
\<close>

theorem membuff_fifo:
  assumes "mb_ok mb" "fits (mb_cap mb) (length (mb_contents mb)) ops"
  shows "\<exists>out mb'. run_ops mb_push mb_pop ops mb = Some (out, mb') \<and> mb_ok mb' \<and>
    out @ mb_contents mb' = mb_contents mb @ pushed ops"
  using assms by (rule mbq.fifo)

theorem membuff_fifo_witness:
  "\<exists>out mb'. run_ops mb_push mb_pop [Push [1, 2, 3], Pop 2, Push [4, 5]] (membuff_init [0, 0, 0, 0]) = Some (out, mb') \<and>
     out @ mb_contents mb' = [1, 2, 3, 4, 5]"
  using membuff_fifo [of "membuff_init [0, 0, 0, 0]" "[Push [1, 2, 3], Pop 2, Push [4, 5]]"]
  by (auto simp: membuff_init_def mb_ok_def mb_cap_def mb_contents_def)

text \<open>
  \<open>membuff_put\<close> writes as much as fits and says how much, whether or not the free part wraps;
  a buffer of \<open>n\<close> bytes holds \<open>n - 1\<close>.
\<close>

theorem membuff_put_correct:
  assumes "mb_ok mb"
  shows "\<exists>mb'. membuff_put mb xs (int (length xs)) =
      Some (int (min (length xs) (mb_cap mb - length (mb_contents mb))), mb') \<and> mb_ok mb' \<and>
    mb_contents mb' = mb_contents mb @ take (mb_cap mb - length (mb_contents mb)) xs \<and> mb_cap mb' = mb_cap mb"
  using assms by (rule membuff_put_spec)

theorem membuff_put_correct_witness:
  "\<exists>mb'. membuff_put (membuff_init [0, 0, 0]) [7, 8, 9] 3 = Some (2, mb') \<and> mb_contents mb' = [7, 8]"
  using membuff_put_correct [of "membuff_init [0, 0, 0]" "[7, 8, 9]"]
  by (auto simp: membuff_init_def mb_ok_def mb_cap_def mb_contents_def)

text \<open>
  C35. \<open>membuff_extend_by\<close> on a buffer that is not empty: the size loop ends; on success the
  buffer is larger, by at least what was asked for when there is no limit; in every case the
  contents are the same, also when they wrap around the old end. The allocator is assumed to
  keep the old bytes, as \<open>realloc\<close> does.
\<close>

theorem membuff_extend_by_correct:
  assumes "mb_ok mb" "mb_start mb = Some m" "0 \<le> n" "2 * (int (length m) + n) \<le> INT_MAX" "max_len = - 1 \<or> 0 \<le> max_len"
    and "\<And>m k. case realloc (Some m) k of None \<Rightarrow> True | Some m' \<Rightarrow> length m' = k \<and> (length m \<le> k \<longrightarrow> take (length m) m' = m)"
  shows "\<exists>rc mb'. membuff_extend_by realloc mb n max_len = Some (rc, mb') \<and> mb_ok mb' \<and> mb_contents mb' = mb_contents mb \<and>
    (rc = 0 \<or> mb' = mb \<and> rc \<in> {- E2BIG, - ENOMEM}) \<and>
    (rc = 0 \<longrightarrow> membuff_size mb' > membuff_size mb \<and> (max_len = - 1 \<longrightarrow> membuff_size mb' \<ge> membuff_size mb + n))"
  using assms by (rule extend_by_spec)

definition grow :: "mem option \<Rightarrow> nat \<Rightarrow> mem option" where
  "grow m k = (case m of None \<Rightarrow> None | Some m \<Rightarrow> Some (take k m @ replicate (k - length m) 0))"

theorem membuff_extend_by_correct_witness:
  "\<exists>rc mb'. membuff_extend_by grow \<lparr>mb_start = Some [3, 0, 1, 2], mb_head = 1, mb_tail = 2\<rparr> 2 (- 1) = Some (rc, mb') \<and>
     mb_contents mb' = [1, 2, 3]"
proof -
  have g: "case grow (Some m) k of None \<Rightarrow> True | Some m' \<Rightarrow> length m' = k \<and> (length m \<le> k \<longrightarrow> take (length m) m' = m)" for m k
    by (simp add: grow_def)
  have "mb_contents \<lparr>mb_start = Some [3, 0, 1, 2], mb_head = 1, mb_tail = 2\<rparr> = [1, 2, 3]" by code_simp
  then show ?thesis
    using membuff_extend_by_correct [of "\<lparr>mb_start = Some [3, 0, 1, 2], mb_head = 1, mb_tail = 2\<rparr>" "[3, 0, 1, 2]" 2 "- 1" grow, OF _ _ _ _ _ g]
    by (auto simp: mb_ok_def INT_MAX_def)
qed



end
