(* ===== verification/Circbuf.thy ===== *)
theory Circbuf
  imports Byte_queue
begin

text \<open>
  The ring buffer of \<^verbatim>\<open>lib/circbuf.c\<close>, used by the USB serial gadget. Pointers are offsets
  from \<open>data\<close>; pushing into a full buffer overwrites the oldest bytes. \<open>None\<close> is an access outside
  the buffer.
\<close>

record circbuf =
  cb_size :: nat
  totalsize :: nat
  cb_top :: nat
  cb_tail :: nat
  cb_data :: "u8 list"

definition buf_init :: "(nat \<Rightarrow> u8 list option) \<Rightarrow> nat \<Rightarrow> circbuf option" where
  "buf_init malloc n =
     (case malloc n of
        None \<Rightarrow> None
      | Some d \<Rightarrow> Some \<lparr>cb_size = 0, totalsize = n, cb_top = 0, cb_tail = 0, cb_data = d\<rparr>)"

definition buf_free :: "circbuf \<Rightarrow> circbuf" where
  "buf_free b = \<lparr>cb_size = 0, totalsize = 0, cb_top = 0, cb_tail = 0, cb_data = []\<rparr>"

text \<open>The pointer after \<open>p\<close>, which wraps at \<open>end\<close>.\<close>

definition next_ptr :: "circbuf \<Rightarrow> nat \<Rightarrow> nat" where
  "next_ptr b p = (if Suc p = length (cb_data b) then 0 else Suc p)"

fun pop_loop :: "nat \<Rightarrow> circbuf \<Rightarrow> nat \<Rightarrow> (u8 list \<times> nat) option" where
  "pop_loop 0 b p = Some ([], p)"
| "pop_loop (Suc n) b p = do {
     c \<leftarrow> aget (cb_data b) p;
     (rest, p') \<leftarrow> pop_loop n b (next_ptr b p);
     Some (c # rest, p')
   }"

definition buf_pop :: "nat \<Rightarrow> circbuf \<Rightarrow> (u8 list \<times> circbuf) option" where
  "buf_pop len b = do {
     let len = (if len > cb_size b then cb_size b else len);
     (dest, p) \<leftarrow> pop_loop len b (cb_top b);
     Some (dest, b\<lparr>cb_top := p, cb_size := cb_size b - len\<rparr>)
   }"

fun push_loop :: "u8 list \<Rightarrow> circbuf \<Rightarrow> nat \<Rightarrow> (circbuf \<times> nat) option" where
  "push_loop [] b p = Some (b, p)"
| "push_loop (c # src) b p = do {
     d \<leftarrow> aset (cb_data b) p c;
     let b = b\<lparr>cb_data := d\<rparr>;
     let b' = (if cb_size b < totalsize b then b\<lparr>cb_size := Suc (cb_size b)\<rparr> else b\<lparr>cb_top := next_ptr b (cb_top b)\<rparr>);
     push_loop src b' (next_ptr b p)
   }"

definition buf_push :: "u8 list \<Rightarrow> circbuf \<Rightarrow> circbuf option" where
  "buf_push src b = do {
     (b, p) \<leftarrow> push_loop src b (cb_tail b);
     Some (b\<lparr>cb_tail := p\<rparr>)
   }"

section \<open>Invariant\<close>

text \<open>The bytes held, oldest first.\<close>

definition held :: "'a list \<Rightarrow> nat \<Rightarrow> nat \<Rightarrow> 'a list" where
  "held d p n = map (\<lambda>i. d ! ((p + i) mod length d)) [0 ..< n]"

definition cb_contents :: "circbuf \<Rightarrow> u8 list" where
  "cb_contents b = held (cb_data b) (cb_top b) (cb_size b)"

definition cb_ok :: "circbuf \<Rightarrow> bool" where
  "cb_ok b \<longleftrightarrow> 0 < totalsize b \<and> length (cb_data b) = totalsize b \<and> cb_size b \<le> totalsize b \<and> cb_top b < totalsize b \<and>
     cb_tail b = (cb_top b + cb_size b) mod totalsize b"

lemma next_ptr_mod: "p < length (cb_data b) \<Longrightarrow> next_ptr b p = Suc p mod length (cb_data b)"
  by (auto simp: next_ptr_def)

lemma next_ptr_upd [simp]:
  "next_ptr (b\<lparr>cb_data := (cb_data b)[i := c]\<rparr>) p = next_ptr b p"
  "next_ptr (b\<lparr>cb_tail := z, cb_data := (cb_data b)[i := c]\<rparr>) p = next_ptr b p"
  by (simp_all add: next_ptr_def)

lemma held_Cons: "p < length d \<Longrightarrow> held d p (Suc n) = d ! p # held d (Suc p mod length d) n"
  unfolding held_def upt_conv_Cons [OF zero_less_Suc] map_Suc_upt [symmetric] by (simp add: mod_simps comp_def)

lemma held_snoc: "held d p (Suc n) = held d p n @ [d ! ((p + n) mod length d)]"
  by (simp add: held_def)

lemma mod_once: "x < 2 * n \<Longrightarrow> x mod n = (if x < n then x else x - n)" for n :: nat
  by (auto simp: le_mod_geq not_less)

lemma held_update:
  assumes "n < length d" "p < length d"
  shows "held (d[(p + n) mod length d := c]) p n = held d p n"
proof -
  have "(p + n) mod length d \<noteq> (p + i) mod length d" if "i < n" for i
    using that assms by (auto simp: mod_once)
  then show ?thesis by (simp add: held_def nth_list_update_neq)
qed

lemma pop_loop_spec:
  "p < length (cb_data b) \<Longrightarrow> pop_loop n b p = Some (held (cb_data b) p n, (p + n) mod length (cb_data b))"
proof (induction n arbitrary: p)
  case 0
  then show ?case by (simp add: held_def)
next
  case (Suc n)
  have "0 < length (cb_data b)" using Suc.prems by linarith
  then have "Suc p mod length (cb_data b) < length (cb_data b)" by (rule mod_less_divisor)
  then show ?case
    using Suc by (simp add: held_Cons aget_simps next_ptr_mod mod_simps)
qed

lemma held_take: "k \<le> n \<Longrightarrow> held d p k = take k (held d p n)"
  by (simp add: held_def take_map)

lemma held_drop: "k \<le> n \<Longrightarrow> held d ((p + k) mod length d) (n - k) = drop k (held d p n)"
proof (rule nth_equalityI)
  assume "k \<le> n"
  fix i assume "i < length (held d ((p + k) mod length d) (n - k))"
  then have "i < n - k" "k + i < n" by (auto simp: held_def)
  then show "held d ((p + k) mod length d) (n - k) ! i = drop k (held d p n) ! i"
    by (simp add: held_def mod_simps add.assoc)
qed (simp add: held_def)

lemma buf_pop_spec:
  assumes "cb_ok b"
  shows "\<exists>b'. buf_pop n b = Some (take n (cb_contents b), b') \<and> cb_ok b' \<and> cb_contents b' = drop n (cb_contents b) \<and>
    totalsize b' = totalsize b"
proof -
  define k where "k = min n (cb_size b)"
  have p: "cb_top b < length (cb_data b)" "length (cb_data b) = totalsize b" using assms by (auto simp: cb_ok_def)
  have len: "length (cb_contents b) = cb_size b" by (simp add: cb_contents_def held_def)
  have run: "buf_pop n b = Some (held (cb_data b) (cb_top b) k, b\<lparr>cb_top := (cb_top b + k) mod length (cb_data b), cb_size := cb_size b - k\<rparr>)"
  proof -
    have e: "(if n > cb_size b then cb_size b else n) = k" by (simp add: k_def)
    show ?thesis unfolding buf_pop_def Let_def e using pop_loop_spec [OF p(1), of k] by simp
  qed
  have "held (cb_data b) (cb_top b) k = take n (cb_contents b)"
    using held_take [of k "cb_size b" "cb_data b" "cb_top b"] len by (simp add: k_def cb_contents_def min_def)
  moreover have "held (cb_data b) ((cb_top b + k) mod length (cb_data b)) (cb_size b - k) = drop n (cb_contents b)"
    using held_drop [of k "cb_size b" "cb_data b" "cb_top b"] len by (simp add: k_def cb_contents_def min_def)
  moreover have "cb_ok (b\<lparr>cb_top := (cb_top b + k) mod length (cb_data b), cb_size := cb_size b - k\<rparr>)"
  proof -
    have "cb_top b + k + (cb_size b - k) = cb_top b + cb_size b" by (simp add: k_def)
    then have "((cb_top b + k) mod totalsize b + (cb_size b - k)) mod totalsize b = cb_tail b"
      using assms by (simp only: cb_ok_def mod_add_left_eq)
    then show ?thesis using assms p by (auto simp: cb_ok_def)
  qed
  ultimately show ?thesis using run by (simp add: cb_contents_def)
qed

text \<open>The last \<open>n\<close> bytes of a list: what a full buffer keeps.\<close>

definition newest :: "nat \<Rightarrow> 'a list \<Rightarrow> 'a list" where
  "newest n xs = drop (length xs - n) xs"

lemma newest_newest: "newest n (newest n xs @ ys) = newest n (xs @ ys)"
  by (cases "length xs \<le> n") (auto simp: newest_def add.commute)

text \<open>One byte.\<close>

definition push_byte :: "u8 \<Rightarrow> circbuf \<Rightarrow> circbuf" where
  "push_byte c b =
     (let b1 = b\<lparr>cb_data := (cb_data b)[cb_tail b := c], cb_tail := next_ptr b (cb_tail b)\<rparr> in
      if cb_size b < totalsize b then b1\<lparr>cb_size := Suc (cb_size b)\<rparr> else b1\<lparr>cb_top := next_ptr b (cb_top b)\<rparr>)"

lemma push_byte_spec:
  assumes "cb_ok b"
  shows "cb_ok (push_byte c b) \<and> cb_contents (push_byte c b) = newest (totalsize b) (cb_contents b @ [c]) \<and>
    totalsize (push_byte c b) = totalsize b"
proof -
  let ?N = "totalsize b"
  have N: "0 < ?N" "length (cb_data b) = ?N" "cb_top b < ?N" "cb_size b \<le> ?N" "cb_tail b = (cb_top b + cb_size b) mod ?N"
    using assms by (auto simp: cb_ok_def)
  have t: "cb_tail b < ?N" "next_ptr b (cb_tail b) = Suc (cb_tail b) mod ?N" "next_ptr b (cb_top b) = Suc (cb_top b) mod ?N"
    using N by (auto simp: next_ptr_mod)
  have len: "length (cb_contents b) = cb_size b" by (simp add: cb_contents_def held_def)
  show ?thesis
  proof (cases "cb_size b < ?N")
    case True
    have "held ((cb_data b)[cb_tail b := c]) (cb_top b) (Suc (cb_size b)) = cb_contents b @ [c]"
      using held_update [of "cb_size b" "cb_data b" "cb_top b" c] True N t(1) by (simp add: held_snoc cb_contents_def)
    then show ?thesis
      using True N t len by (auto simp: push_byte_def Let_def cb_ok_def cb_contents_def newest_def mod_simps)
  next
    case False
    then have sz: "cb_size b = ?N" and tt: "cb_tail b = cb_top b" using N by auto
    obtain n where n: "?N = Suc n" using N(1) by (cases ?N) auto
    have h: "held ((cb_data b)[cb_top b := c]) (Suc (cb_top b) mod ?N) (Suc n) = drop 1 (cb_contents b) @ [c]"
    proof -
      have "Suc (cb_top b) + n = cb_top b + ?N" using n by simp
      then have e: "(Suc (cb_top b) mod ?N + n) mod ?N = cb_top b" using N(3) by (simp only: mod_add_left_eq) simp
      have "held ((cb_data b)[cb_top b := c]) (Suc (cb_top b) mod ?N) n = held (cb_data b) (Suc (cb_top b) mod ?N) n"
        using held_update [of n "cb_data b" "Suc (cb_top b) mod ?N" c, unfolded N(2) e] N n by simp
      moreover have "held (cb_data b) (Suc (cb_top b) mod ?N) n = drop 1 (cb_contents b)"
        using held_drop [of 1 ?N "cb_data b" "cb_top b"] N(2) n sz by (simp add: cb_contents_def)
      ultimately show ?thesis unfolding held_snoc using N e by simp
    qed
    then have "held ((cb_data b)[cb_top b := c]) (Suc (cb_top b) mod ?N) ?N = drop 1 (cb_contents b) @ [c]" by (simp only: n)
    moreover have "newest ?N (cb_contents b @ [c]) = drop 1 (cb_contents b) @ [c]"
      using len sz n by (simp add: newest_def)
    ultimately show ?thesis
      using False N(1-4) t(2,3) tt sz by (simp add: push_byte_def Let_def cb_ok_def cb_contents_def)
  qed
qed

lemma push_loop_eq:
  assumes "cb_ok b"
  shows "push_loop xs (b\<lparr>cb_tail := z\<rparr>) (cb_tail b) =
    Some ((fold push_byte xs b)\<lparr>cb_tail := z\<rparr>, cb_tail (fold push_byte xs b))"
  using assms
proof (induction xs arbitrary: b)
  case Nil
  then show ?case by simp
next
  case (Cons c xs)
  have lt: "cb_tail b < length (cb_data b)" using Cons.prems by (auto simp: cb_ok_def)
  have ok: "cb_ok (push_byte c b)" using push_byte_spec [OF Cons.prems] by simp
  have t: "cb_tail (push_byte c b) = next_ptr b (cb_tail b)" by (simp add: push_byte_def Let_def)
  have r: "(push_byte c b)\<lparr>cb_tail := z\<rparr> =
      (let b' = b\<lparr>cb_tail := z, cb_data := (cb_data b)[cb_tail b := c]\<rparr>
       in if cb_size b < totalsize b then b'\<lparr>cb_size := Suc (cb_size b)\<rparr> else b'\<lparr>cb_top := next_ptr b (cb_top b)\<rparr>)"
    by (cases b) (simp add: push_byte_def Let_def next_ptr_def)
  show ?case
    using Cons.IH [OF ok] lt unfolding t r by (cases "cb_size b < totalsize b") (simp_all add: aget_simps Let_def)
qed

lemma buf_push_spec:
  assumes "cb_ok b"
  shows "\<exists>b'. buf_push xs b = Some b' \<and> cb_ok b' \<and> cb_contents b' = newest (totalsize b) (cb_contents b @ xs) \<and>
    totalsize b' = totalsize b"
proof -
  have "cb_ok (fold push_byte xs b) \<and> cb_contents (fold push_byte xs b) = newest (totalsize b) (cb_contents b @ xs) \<and>
      totalsize (fold push_byte xs b) = totalsize b"
    using assms
  proof (induction xs arbitrary: b)
    case Nil
    then show ?case by (simp add: newest_def cb_contents_def held_def cb_ok_def)
  next
    case (Cons c xs)
    then show ?case
      using push_byte_spec [OF Cons.prems, of c] newest_newest [of "totalsize b" "cb_contents b @ [c]" xs] by simp
  qed
  then show ?thesis
    using push_loop_eq [OF assms, of xs "cb_tail b"] by (simp add: buf_push_def)
qed

interpretation cbq: byte_queue buf_pop cb_contents cb_ok buf_push totalsize
proof
  show "\<exists>s'. buf_pop n s = Some (take n (cb_contents s), s') \<and> cb_ok s' \<and> cb_contents s' = drop n (cb_contents s)"
    if "cb_ok s" for s n using buf_pop_spec [OF that, of n] by blast
  show "\<exists>s'. buf_push xs s = Some s' \<and> cb_ok s' \<and> cb_contents s' = cb_contents s @ xs \<and> totalsize s' = totalsize s"
    if "cb_ok s" "length (cb_contents s) + length xs \<le> totalsize s" for s xs
    using buf_push_spec [OF that(1), of xs] that(2) by (auto simp: newest_def)
  show "totalsize s' = totalsize s" if "cb_ok s" "buf_pop n s = Some (xs, s')" for s n xs s'
    using buf_pop_spec [OF that(1), of n] that(2) by auto
qed

text \<open>
  C28. The circular buffer as a sliding window. Pushing any number of bytes keeps the newest
  \<open>totalsize\<close> of all bytes, overwriting the oldest; popping returns the oldest bytes that are
  left; and as long as no push overflows, bytes come out in the order they went in, each once.
\<close>

theorem circbuf_window:
  assumes "cb_ok b"
  shows "(\<exists>b'. buf_push xs b = Some b' \<and> cb_ok b' \<and> cb_contents b' = newest (totalsize b) (cb_contents b @ xs)) \<and>
    (\<exists>b'. buf_pop n b = Some (take n (cb_contents b), b') \<and> cb_ok b' \<and> cb_contents b' = drop n (cb_contents b)) \<and>
    (fits (totalsize b) (length (cb_contents b)) ops \<longrightarrow>
      (\<exists>out b'. run_ops buf_push buf_pop ops b = Some (out, b') \<and> cb_ok b' \<and>
        out @ cb_contents b' = cb_contents b @ pushed ops))"
  using buf_push_spec [OF assms, of xs] buf_pop_spec [OF assms, of n] cbq.fifo [OF assms, of ops] by blast

theorem circbuf_window_witness:
  "\<exists>b'. buf_push [1, 2, 3, 4, 5] \<lparr>cb_size = 0, totalsize = 3, cb_top = 0, cb_tail = 0, cb_data = [0, 0, 0]\<rparr> = Some b' \<and>
     cb_contents b' = [3, 4, 5]"
  using circbuf_window [of "\<lparr>cb_size = 0, totalsize = 3, cb_top = 0, cb_tail = 0, cb_data = [0, 0, 0]\<rparr>" "[1, 2, 3, 4, 5]" 0 "[]"]
  by (auto simp: cb_ok_def cb_contents_def held_def newest_def)

end
