(* ===== verification/Variable_store.thy ===== *)
theory Variable_store
  imports Prelude
begin

text \<open>
  The contract of a store of environment variables, as its clients see it: setting and unsetting
  a variable may be refused, and otherwise changes the variables the way a finite map changes.
  A store has room for a number of new variables; a list of changes that fits is carried out
  completely, whatever is refused on the way.
\<close>

type_synonym chars = "u8 list"

datatype env_change = Put chars chars | Drop chars

text \<open>A list of changes run through a store's operations, with the answers it gave.\<close>

fun run_changes ::
  "(chars \<Rightarrow> chars \<Rightarrow> 's \<Rightarrow> (bool \<times> 's) option) \<Rightarrow> (chars \<Rightarrow> 's \<Rightarrow> (bool \<times> 's) option) \<Rightarrow>
   env_change list \<Rightarrow> 's \<Rightarrow> (bool list \<times> 's) option" where
  "run_changes set_var unset_var [] s = Some ([], s)"
| "run_changes set_var unset_var (c # cs) s = do {
     (ok, s) \<leftarrow> (case c of Put k d \<Rightarrow> set_var k d s | Drop k \<Rightarrow> unset_var k s);
     (oks, s) \<leftarrow> run_changes set_var unset_var cs s;
     Some (ok # oks, s)
   }"

text \<open>What the accepted changes make of a map.\<close>

definition change_map :: "env_change \<Rightarrow> (chars \<Rightarrow> chars option) \<Rightarrow> chars \<Rightarrow> chars option" where
  "change_map c m = (case c of Put k d \<Rightarrow> m(k \<mapsto> d) | Drop k \<Rightarrow> m(k := None))"

fun apply_changes :: "env_change list \<Rightarrow> bool list \<Rightarrow> (chars \<Rightarrow> chars option) \<Rightarrow> chars \<Rightarrow> chars option" where
  "apply_changes (c # cs) (ok # oks) m = apply_changes cs oks (if ok then change_map c m else m)"
| "apply_changes _ _ m = m"

text \<open>The answers of a store that refuses nothing: dropping an unknown variable fails.\<close>

fun open_answers :: "env_change list \<Rightarrow> (chars \<Rightarrow> chars option) \<Rightarrow> bool list" where
  "open_answers [] m = []"
| "open_answers (c # cs) m =
     (case c of Put k d \<Rightarrow> True | Drop k \<Rightarrow> m k \<noteq> None) # open_answers cs (change_map c m)"

fun puts :: "env_change list \<Rightarrow> nat" where
  "puts [] = 0"
| "puts (Put k d # cs) = Suc (puts cs)"
| "puts (Drop k # cs) = puts cs"

definition change_fits :: "(chars \<Rightarrow> bool) \<Rightarrow> (chars \<Rightarrow> bool) \<Rightarrow> env_change \<Rightarrow> bool" where
  "change_fits name_ok value_ok c = (case c of Put k d \<Rightarrow> name_ok k \<and> value_ok d | Drop k \<Rightarrow> name_ok k)"

locale variable_store =
  fixes inv :: "'s \<Rightarrow> bool"
    and view :: "'s \<Rightarrow> chars \<Rightarrow> chars option"
    and room :: "'s \<Rightarrow> nat"
    and permissive :: "'s \<Rightarrow> bool"
    and name_ok :: "chars \<Rightarrow> bool"
    and value_ok :: "chars \<Rightarrow> bool"
    and set_var :: "chars \<Rightarrow> chars \<Rightarrow> 's \<Rightarrow> (bool \<times> 's) option"
    and unset_var :: "chars \<Rightarrow> 's \<Rightarrow> (bool \<times> 's) option"
  assumes set_law:
    "\<lbrakk>inv s; name_ok k; value_ok d; 0 < room s \<or> view s k \<noteq> None\<rbrakk> \<Longrightarrow>
      \<exists>ok s'. set_var k d s = Some (ok, s') \<and> inv s' \<and> room s \<le> Suc (room s') \<and>
        view s' = (if ok then (view s)(k \<mapsto> d) else view s) \<and> (permissive s \<longrightarrow> ok \<and> permissive s')"
    and unset_law:
    "\<lbrakk>inv s; name_ok k\<rbrakk> \<Longrightarrow>
      \<exists>ok s'. unset_var k s = Some (ok, s') \<and> inv s' \<and> room s' = room s \<and>
        view s' = (if ok then (view s)(k := None) else view s) \<and>
        (permissive s \<longrightarrow> (ok \<longleftrightarrow> view s k \<noteq> None) \<and> permissive s')"
begin

lemma change_law:
  assumes "inv s" "change_fits name_ok value_ok c" "puts [c] \<le> room s"
  shows "\<exists>ok s'. (case c of Put k d \<Rightarrow> set_var k d s | Drop k \<Rightarrow> unset_var k s) = Some (ok, s') \<and>
    inv s' \<and> room s \<le> room s' + puts [c] \<and> view s' = (if ok then change_map c (view s) else view s) \<and>
    (permissive s \<longrightarrow> permissive s' \<and> [ok] = open_answers [c] (view s) \<and> view s' = change_map c (view s))"
proof (cases c)
  case (Put k d)
  then show ?thesis using set_law [of s k d] assms by (auto simp: change_fits_def change_map_def)
next
  case (Drop k)
  then show ?thesis
    using unset_law [of s k] assms by (auto simp: change_fits_def change_map_def fun_upd_idem)
qed

lemma puts_Cons: "puts (c # cs) = puts [c] + puts cs"
  by (cases c) simp_all

theorem run_law:
  assumes "inv s" "\<forall>c\<in>set cs. change_fits name_ok value_ok c" "puts cs \<le> room s"
  shows "\<exists>oks s'. run_changes set_var unset_var cs s = Some (oks, s') \<and> inv s' \<and> length oks = length cs \<and>
    room s \<le> room s' + puts cs \<and> view s' = apply_changes cs oks (view s) \<and>
    (permissive s \<longrightarrow> permissive s' \<and> oks = open_answers cs (view s))"
  using assms
proof (induction cs arbitrary: s)
  case (Cons c cs)
  obtain ok s1 where s1: "(case c of Put k d \<Rightarrow> set_var k d s | Drop k \<Rightarrow> unset_var k s) = Some (ok, s1)"
    "inv s1" "room s \<le> room s1 + puts [c]" "view s1 = (if ok then change_map c (view s) else view s)"
    "permissive s \<longrightarrow> permissive s1 \<and> [ok] = open_answers [c] (view s) \<and> view s1 = change_map c (view s)"
    using change_law [of s c] Cons.prems puts_Cons [of c cs] by auto
  obtain oks s2 where s2: "run_changes set_var unset_var cs s1 = Some (oks, s2)" "inv s2" "length oks = length cs"
    "room s1 \<le> room s2 + puts cs" "view s2 = apply_changes cs oks (view s1)"
    "permissive s1 \<longrightarrow> permissive s2 \<and> oks = open_answers cs (view s1)"
    using Cons.IH [of s1] Cons.prems s1(2,3) puts_Cons [of c cs] by auto
  have "run_changes set_var unset_var (c # cs) s = Some (ok # oks, s2)" using s1(1) s2(1) by simp
  moreover have "view s2 = apply_changes (c # cs) (ok # oks) (view s)" using s2(5) s1(4) by simp
  moreover have "room s \<le> room s2 + puts (c # cs)" using s1(3) s2(4) puts_Cons [of c cs] by simp
  moreover have "permissive s \<longrightarrow> permissive s2 \<and> ok # oks = open_answers (c # cs) (view s)"
    using s1(5) s2(6) by simp
  ultimately show ?case using s2(2,3) by auto
qed simp

end

end
