(* ===== verification/Hashtable.thy ===== *)
theory Hashtable
  imports Cstring Variable_store
begin

unbundle bit_operations_syntax

text \<open>
  The hash table behind the environment variables, \<^verbatim>\<open>lib/hashtable.c\<close> and
  \<^verbatim>\<open>include/search.h\<close>: double hashing with open addressing in slots 1 to \<open>size\<close>, deleted
  slots marked -1. A string is the list of its bytes before the terminating zero, a string
  pointer is \<open>None\<close> when it is null or freed; the result \<open>None\<close> of an operation means that the C
  code dereferences such a pointer, leaves the table, divides by zero or does not return.
  \<open>size\<close>, \<open>filled\<close> and indices are natural numbers (\<open>filled\<close> wraps as the 32-bit counter does);
  the hash value is computed on 32 bits.
\<close>

section \<open>Data\<close>

datatype env_op = env_op_create | env_op_delete | env_op_overwrite

datatype hsearch_action = FIND | ENTER

datatype errno = EINVAL | EPERM | ENOMEM | ESRCH

type_synonym env_callback = "chars \<Rightarrow> chars option \<Rightarrow> env_op \<Rightarrow> u32 \<Rightarrow> bool"

record entry =
  e_key :: "chars option"
  e_data :: "chars option"
  e_callback :: "env_callback option"
  e_flags :: u32

record slot =
  s_used :: int
  s_entry :: entry

record hsearch_data =
  ht_table :: "slot list option"
  ht_size :: nat
  ht_filled :: nat
  ht_change_ok :: "(entry \<Rightarrow> chars option \<Rightarrow> env_op \<Rightarrow> u32 \<Rightarrow> bool) option"

text \<open>
  What the table takes from other components: whether an allocation of that many bytes succeeds,
  and the callback and flags that \<open>env_callback_init\<close> and \<open>env_flags_init\<close> give a new entry.
\<close>

record env_hooks =
  malloc_ok :: "nat \<Rightarrow> bool"
  env_callback_init :: "hsearch_data \<Rightarrow> chars \<Rightarrow> env_callback option"
  env_flags_init :: "hsearch_data \<Rightarrow> chars \<Rightarrow> u32"

text \<open>What an operation returns: the value, \<open>*retval\<close> as a slot index, \<open>errno\<close>, the table.\<close>

type_synonym hresult = "nat \<times> nat option \<times> errno option \<times> hsearch_data"

definition null_slot :: slot where
  "null_slot = \<lparr>s_used = 0, s_entry = \<lparr>e_key = None, e_data = None, e_callback = None, e_flags = 0\<rparr>\<rparr>"

definition get_slot :: "hsearch_data \<Rightarrow> nat \<Rightarrow> slot option" where
  "get_slot h i = do { t \<leftarrow> ht_table h; aget t i }"

definition put_slot :: "hsearch_data \<Rightarrow> nat \<Rightarrow> slot \<Rightarrow> hsearch_data option" where
  "put_slot h i s = do { t \<leftarrow> ht_table h; t' \<leftarrow> aset t i s; Some (h\<lparr>ht_table := Some t'\<rparr>) }"

text \<open>\<open>strcmp\<close> and \<open>strncmp\<close> on two strings stored one after the other.\<close>

definition str_cmp :: "chars \<Rightarrow> chars \<Rightarrow> int option" where
  "str_cmp a b = strcmp (a @ 0 # b @ [0]) 0 (Suc (length a))"

definition str_ncmp :: "chars \<Rightarrow> chars \<Rightarrow> nat \<Rightarrow> int option" where
  "str_ncmp a b n = strncmp (a @ 0 # b @ [0]) 0 (Suc (length a)) n"

definition str_dup :: "env_hooks \<Rightarrow> chars option \<Rightarrow> chars option" where
  "str_dup E s = (case s of None \<Rightarrow> None | Some s \<Rightarrow> if malloc_ok E (length s + 1) then Some s else None)"

section \<open>Creating and destroying\<close>

partial_function (option) isprime_loop :: "u32 \<Rightarrow> u32 \<Rightarrow> u32 option" where
  "isprime_loop number d =
     (if d * d < number \<and> number mod d \<noteq> 0 then isprime_loop number (d + 2) else Some d)"

definition isprime :: "u32 \<Rightarrow> bool option" where
  "isprime number = do { d \<leftarrow> isprime_loop number 3; Some (number mod d \<noteq> 0) }"

partial_function (option) hcreate_loop :: "nat \<Rightarrow> nat option" where
  "hcreate_loop nel = do {
     p \<leftarrow> isprime (of_nat nel);
     if p then Some nel else hcreate_loop (nel + 2)
   }"

definition sizeof_ENTRY :: nat where "sizeof_ENTRY = 40"

definition hcreate_r :: "env_hooks \<Rightarrow> nat \<Rightarrow> hsearch_data \<Rightarrow> (nat \<times> hsearch_data) option" where
  "hcreate_r E nel h =
     (if ht_table h \<noteq> None then Some (0, h)
      else do {
        nel \<leftarrow> hcreate_loop (nel OR 1);
        let h = h\<lparr>ht_size := unat (of_nat nel :: u32), ht_filled := 0\<rparr>;
        if malloc_ok E ((ht_size h + 1) * sizeof_ENTRY)
        then Some (1, h\<lparr>ht_table := Some (replicate (ht_size h + 1) null_slot)\<rparr>)
        else Some (0, h)
      })"

text \<open>\<open>hdestroy_r\<close> reads every slot, frees the strings of the used ones and drops the table.\<close>

definition hdestroy_r :: "hsearch_data \<Rightarrow> hsearch_data option" where
  "hdestroy_r h =
     (if \<forall>i\<in>set [1..<Suc (ht_size h)]. get_slot h i \<noteq> None then Some (h\<lparr>ht_table := None\<rparr>) else None)"

section \<open>Searching\<close>

fun hmatch_loop :: "chars \<Rightarrow> nat \<Rightarrow> hsearch_data \<Rightarrow> nat list \<Rightarrow> nat option" where
  "hmatch_loop m key_len h [] = Some 0"
| "hmatch_loop m key_len h (idx # is) = do {
     s \<leftarrow> get_slot h idx;
     if s_used s \<le> 0 then hmatch_loop m key_len h is
     else do {
       k \<leftarrow> e_key (s_entry s);
       c \<leftarrow> str_ncmp m k key_len;
       if c = 0 then Some idx else hmatch_loop m key_len h is
     }
   }"

definition hmatch_r :: "chars \<Rightarrow> nat \<Rightarrow> hsearch_data \<Rightarrow> hresult option" where
  "hmatch_r m last_idx h = do {
     idx \<leftarrow> hmatch_loop m (length m) h [last_idx + 1..<ht_size h];
     if idx = 0 then Some (0, None, Some ESRCH, h) else Some (idx, Some idx, None, h)
   }"

text \<open>
  \<open>_compare_and_overwrite_entry\<close>; the inner \<open>None\<close> is the return value -1 (keep searching).
\<close>

definition compare_and_overwrite_entry ::
  "env_hooks \<Rightarrow> chars \<Rightarrow> chars option \<Rightarrow> hsearch_action \<Rightarrow> hsearch_data \<Rightarrow> u32 \<Rightarrow> nat \<Rightarrow> nat
   \<Rightarrow> hresult option option" where
  "compare_and_overwrite_entry E item_key item_data act h flag hval idx = do {
     s \<leftarrow> get_slot h idx;
     same \<leftarrow> (if s_used s = int hval
              then do { k \<leftarrow> e_key (s_entry s); c \<leftarrow> str_cmp item_key k; Some (c = 0) }
              else Some False);
     if \<not> same then Some None
     else if act = ENTER \<and> item_data \<noteq> None then
       (if (case ht_change_ok h of None \<Rightarrow> False
            | Some change_ok \<Rightarrow> change_ok (s_entry s) item_data env_op_overwrite flag)
        then Some (Some (0, None, Some EPERM, h))
        else if (case e_callback (s_entry s) of None \<Rightarrow> False
                 | Some cb \<Rightarrow> cb item_key item_data env_op_overwrite flag)
        then Some (Some (0, None, Some EINVAL, h))
        else do {
          let d = str_dup E item_data;
          h \<leftarrow> put_slot h idx (s\<lparr>s_entry := (s_entry s)\<lparr>e_data := d\<rparr>\<rparr>);
          if d = None then Some (Some (0, None, Some ENOMEM, h))
          else Some (Some (idx, Some idx, None, h))
        })
     else Some (Some (idx, Some idx, None, h))
   }"

fun hash_loop :: "chars \<Rightarrow> nat \<Rightarrow> u32 \<Rightarrow> u32" where
  "hash_loop key 0 hval = hval"
| "hash_loop key (Suc count) hval = hash_loop key count (push_bit 4 hval + ucast (key ! count))"

definition hash_index :: "nat \<Rightarrow> chars \<Rightarrow> nat" where
  "hash_index n key =
     (let hval = unat (hash_loop key (length key) (of_nat (length key))) mod n
      in if hval = 0 then Suc hval else hval)"

definition probe_next :: "nat \<Rightarrow> nat \<Rightarrow> nat \<Rightarrow> nat" where
  "probe_next n hval2 idx = (if idx \<le> hval2 then n + idx - hval2 else idx - hval2)"

text \<open>The do-while loop: the value is the operation's result or the slot where the search ended.\<close>

partial_function (option) probe_loop ::
  "env_hooks \<Rightarrow> chars \<Rightarrow> chars option \<Rightarrow> hsearch_action \<Rightarrow> hsearch_data \<Rightarrow> u32 \<Rightarrow> nat \<Rightarrow> nat \<Rightarrow> nat
   \<Rightarrow> (hresult + nat) option" where
  "probe_loop E item_key item_data act h flag hval hval2 idx =
     (let idx = probe_next (ht_size h) hval2 idx
      in if idx = hval then Some (Inr idx)
         else do {
           r \<leftarrow> compare_and_overwrite_entry E item_key item_data act h flag hval idx;
           case r of
             Some r \<Rightarrow> Some (Inl r)
           | None \<Rightarrow> do {
               s \<leftarrow> get_slot h idx;
               if s_used s \<noteq> 0 then probe_loop E item_key item_data act h flag hval hval2 idx
               else Some (Inr idx)
             }
         })"

declare isprime_loop.simps [code] hcreate_loop.simps [code] probe_loop.simps [code]

section \<open>Deleting\<close>

text \<open>\<open>_hdelete\<close>\<close>

definition hdelete_slot :: "hsearch_data \<Rightarrow> nat \<Rightarrow> hsearch_data option" where
  "hdelete_slot h idx = do {
     h \<leftarrow> put_slot h idx
       \<lparr>s_used = - 1, s_entry = \<lparr>e_key = None, e_data = None, e_callback = None, e_flags = 0\<rparr>\<rparr>;
     Some (h\<lparr>ht_filled := unat (of_nat (ht_filled h) - 1 :: u32)\<rparr>)
   }"

section \<open>Entering\<close>

text \<open>The end of \<open>hsearch_r\<close>, after an empty bucket has been found.\<close>

definition hsearch_enter ::
  "env_hooks \<Rightarrow> chars \<Rightarrow> chars option \<Rightarrow> hsearch_action \<Rightarrow> hsearch_data \<Rightarrow> u32 \<Rightarrow> nat \<Rightarrow> nat \<Rightarrow> nat
   \<Rightarrow> hresult option" where
  "hsearch_enter E item_key item_data act h flag hval first_deleted idx =
     (if act = FIND then Some (0, None, Some ESRCH, h)
      else if ht_filled h = ht_size h then Some (0, None, Some ENOMEM, h)
      else do {
        let idx = (if first_deleted \<noteq> 0 then first_deleted else idx);
        s \<leftarrow> get_slot h idx;
        let k = str_dup E (Some item_key);
        let d = str_dup E item_data;
        let e = (s_entry s)\<lparr>e_key := k, e_data := d\<rparr>;
        h \<leftarrow> put_slot h idx \<lparr>s_used = int hval, s_entry = e\<rparr>;
        if k = None \<or> d = None then Some (0, None, Some ENOMEM, h)
        else do {
          let h = h\<lparr>ht_filled := unat (of_nat (ht_filled h) + 1 :: u32)\<rparr>;
          let e = e\<lparr>e_callback := env_callback_init E h item_key\<rparr>;
          h \<leftarrow> put_slot h idx \<lparr>s_used = int hval, s_entry = e\<rparr>;
          let e = e\<lparr>e_flags := env_flags_init E h item_key\<rparr>;
          h \<leftarrow> put_slot h idx \<lparr>s_used = int hval, s_entry = e\<rparr>;
          if (case ht_change_ok h of None \<Rightarrow> False
              | Some change_ok \<Rightarrow> change_ok e item_data env_op_create flag)
          then do { h \<leftarrow> hdelete_slot h idx; Some (0, None, Some EPERM, h) }
          else if (case e_callback e of None \<Rightarrow> False
                   | Some cb \<Rightarrow> cb item_key item_data env_op_create flag)
          then do { h \<leftarrow> hdelete_slot h idx; Some (0, None, Some EINVAL, h) }
          else Some (1, Some idx, None, h)
        }
      })"

definition hsearch_r ::
  "env_hooks \<Rightarrow> chars \<Rightarrow> chars option \<Rightarrow> hsearch_action \<Rightarrow> hsearch_data \<Rightarrow> u32 \<Rightarrow> hresult option" where
  "hsearch_r E item_key item_data act h flag =
     (if ht_size h = 0 then None
      else do {
        let hval = hash_index (ht_size h) item_key;
        s \<leftarrow> get_slot h hval;
        if s_used s = 0 then hsearch_enter E item_key item_data act h flag hval 0 hval
        else do {
          let first_deleted = (if s_used s = - 1 then hval else 0);
          r \<leftarrow> compare_and_overwrite_entry E item_key item_data act h flag hval hval;
          case r of
            Some r \<Rightarrow> Some r
          | None \<Rightarrow>
              let m = unat (of_nat (ht_size h) - 2 :: u32)
              in if m = 0 then None
                 else do {
                   p \<leftarrow> probe_loop E item_key item_data act h flag hval (1 + hval mod m) hval;
                   case p of
                     Inl r \<Rightarrow> Some r
                   | Inr idx \<Rightarrow> hsearch_enter E item_key item_data act h flag hval first_deleted idx
                 }
        }
      })"

definition hdelete_r :: "chars \<Rightarrow> hsearch_data \<Rightarrow> u32 \<Rightarrow> env_hooks \<Rightarrow> hresult option" where
  "hdelete_r key h flag E = do {
     (idx, ep, err, h) \<leftarrow> hsearch_r E key None FIND h 0;
     if idx = 0 then Some (0, None, Some ESRCH, h)
     else do {
       s \<leftarrow> get_slot h idx;
       if (case ht_change_ok h of None \<Rightarrow> False
           | Some change_ok \<Rightarrow> change_ok (s_entry s) None env_op_delete flag)
       then Some (0, None, Some EPERM, h)
       else if (case e_callback (s_entry s) of None \<Rightarrow> False
                | Some cb \<Rightarrow> cb key None env_op_delete flag)
       then Some (0, None, Some EINVAL, h)
       else do { h \<leftarrow> hdelete_slot h idx; Some (1, None, None, h) }
     }
   }"

section \<open>Walking\<close>

text \<open>The callback returns its value and what it makes of the entry.\<close>

fun hwalk_loop :: "(entry \<Rightarrow> int \<times> entry) \<Rightarrow> hsearch_data \<Rightarrow> nat list \<Rightarrow> (int \<times> hsearch_data) option" where
  "hwalk_loop cb h [] = Some (0, h)"
| "hwalk_loop cb h (i # is) = do {
     s \<leftarrow> get_slot h i;
     if s_used s > 0 then do {
       let (retval, e) = cb (s_entry s);
       h \<leftarrow> put_slot h i (s\<lparr>s_entry := e\<rparr>);
       if retval \<noteq> 0 then Some (retval, h) else hwalk_loop cb h is
     }
     else hwalk_loop cb h is
   }"

definition hwalk_r :: "hsearch_data \<Rightarrow> (entry \<Rightarrow> int \<times> entry) \<Rightarrow> (int \<times> hsearch_data) option" where
  "hwalk_r h cb = hwalk_loop cb h [1..<Suc (ht_size h)]"


section \<open>The probe sequence\<close>

definition prime_size :: "nat \<Rightarrow> bool" where
  "prime_size n \<longleftrightarrow> 4 < n \<and> n < 2 ^ 31 \<and> (\<forall>m. m dvd n \<longrightarrow> m = 1 \<or> m = n)"

definition hval2_of :: "nat \<Rightarrow> chars \<Rightarrow> nat" where
  "hval2_of n k = 1 + hash_index n k mod (n - 2)"

definition probe :: "nat \<Rightarrow> chars \<Rightarrow> nat \<Rightarrow> nat" where
  "probe n k j = (hash_index n k - 1 + j * (n - hval2_of n k)) mod n + 1"

lemma hash_index_bounds: "1 < n \<Longrightarrow> 0 < hash_index n k \<and> hash_index n k < n"
  by (simp add: hash_index_def Let_def)

lemma hval2_bounds: "4 < n \<Longrightarrow> 0 < hval2_of n k \<and> hval2_of n k < n - 1"
  using mod_less_divisor [of "n - 2" "hash_index n k"] by (simp add: hval2_of_def del: mod_less_divisor)

lemma probe_0: "4 < n \<Longrightarrow> probe n k 0 = hash_index n k"
  using hash_index_bounds [of n k] by (auto simp: probe_def mod_less)

lemma probe_bounds: "4 < n \<Longrightarrow> 0 < probe n k j \<and> probe n k j \<le> n"
  by (simp add: probe_def Suc_le_eq)

lemma probe_next_probe:
  assumes "4 < n"
  shows "probe_next n (hval2_of n k) (probe n k j) = probe n k (Suc j)"
proof -
  let ?d = "hval2_of n k" and ?i = "probe n k j - 1"
  have d: "0 < ?d" "?d < n" using hval2_bounds [OF assms, of k] by auto
  have i: "?i < n" "probe n k j = Suc ?i" using probe_bounds [OF assms, of k j] by auto
  have "probe n k (Suc j) = (?i + (n - ?d)) mod n + 1"
    by (simp add: probe_def mod_add_left_eq) (simp add: algebra_simps)
  moreover have "(?i + (n - ?d)) mod n = (if Suc ?i \<le> ?d then ?i + (n - ?d) else ?i - ?d)"
  proof (cases "Suc ?i \<le> ?d")
    case False
    then have "?i + (n - ?d) = (?i - ?d) + n" using d by simp
    then show ?thesis using False i(1) by simp
  qed (use d in simp)
  ultimately show ?thesis using i d by (auto simp: probe_next_def)
qed

lemma prime_coprime: "prime_size n \<Longrightarrow> 0 < d \<Longrightarrow> d < n \<Longrightarrow> coprime d n"
proof -
  assume n: "prime_size n" and d: "0 < d" "d < n"
  have "gcd d n = 1 \<or> gcd d n = n" using n by (simp add: prime_size_def)
  moreover have "gcd d n \<le> d" using d by (simp add: dvd_imp_le)
  ultimately show ?thesis using d by (auto simp: coprime_iff_gcd_eq_1)
qed

lemma probe_eq_iff:
  assumes "prime_size n" "i \<le> j" "j - i < n"
  shows "probe n k i = probe n k j \<longleftrightarrow> i = j"
proof
  let ?e = "n - hval2_of n k"
  assume eq: "probe n k i = probe n k j"
  have n: "4 < n" using assms(1) by (simp add: prime_size_def)
  have e: "0 < ?e" "?e < n" using hval2_bounds [OF n, of k] by auto
  have "(hash_index n k - 1 + j * ?e) mod n = (hash_index n k - 1 + i * ?e) mod n"
    using eq by (simp add: probe_def)
  then have "n dvd (j - i) * ?e"
    using mod_eq_dvd_iff_nat [of "hash_index n k - 1 + i * ?e" "hash_index n k - 1 + j * ?e" n] assms(2)
    by (simp add: diff_mult_distrib mult_le_mono)
  then have "n dvd j - i"
    using prime_coprime [OF assms(1) e] by (simp add: coprime_dvd_mult_left_iff coprime_commute)
  then show "i = j" using assms(2,3) by (metis dvd_imp_le diff_is_0_eq le_antisym leD neq0_conv)
qed simp

lemma inj_probe: "prime_size n \<Longrightarrow> inj_on (probe n k) {..<n}"
proof (rule inj_onI)
  fix i j assume n: "prime_size n" and ij: "i \<in> {..<n}" "j \<in> {..<n}" "probe n k i = probe n k j"
  show "i = j"
  proof (cases "i \<le> j")
    case True
    then show ?thesis using probe_eq_iff [OF n, of i j k] ij by simp
  next
    case False
    then show ?thesis using probe_eq_iff [OF n, of j i k] ij by (simp add: less_imp_diff_less)
  qed
qed

lemma probe_surj:
  assumes "prime_size n" "0 < i" "i \<le> n"
  obtains j where "j < n" "probe n k j = i"
proof -
  have n: "4 < n" using assms(1) by (simp add: prime_size_def)
  have "probe n k ` {..<n} = {1..n}"
  proof (rule card_subset_eq)
    show "probe n k ` {..<n} \<subseteq> {1..n}" using probe_bounds [OF n, of k] by (auto simp: Suc_le_eq)
  qed (simp_all add: card_image [OF inj_probe [OF assms(1)]])
  then have "i \<in> probe n k ` {..<n}" using assms(2,3) by simp
  then show ?thesis using that by auto
qed

lemma probe_cycle:
  assumes "prime_size n" "0 < j" "j \<le> n"
  shows "probe n k j = hash_index n k \<longleftrightarrow> j = n"
proof
  have n: "4 < n" using assms(1) by (simp add: prime_size_def)
  show "j = n \<Longrightarrow> probe n k j = hash_index n k"
    using probe_0 [OF n, of k] mod_mult_self2 [of "hash_index n k - 1" n] by (simp add: probe_def del: mod_mult_self2 add_diff_assoc2)
  show "probe n k j = hash_index n k \<Longrightarrow> j = n"
    using probe_eq_iff [OF assms(1), of 0 j k] assms(2,3) probe_0 [OF n, of k] by (cases "j = n") auto
qed


section \<open>The table invariant\<close>

definition live :: "slot list \<Rightarrow> nat \<Rightarrow> bool" where
  "live t i \<longleftrightarrow> 0 < s_used (t ! i)"

text \<open>
  A used slot holds both strings and the first index of its key, and stands on the probe sequence
  of its key behind slots that were never free since.
\<close>

definition slot_ok :: "nat \<Rightarrow> slot list \<Rightarrow> nat \<Rightarrow> bool" where
  "slot_ok n t i \<longleftrightarrow>
     (\<exists>k d j. e_key (s_entry (t ! i)) = Some k \<and> e_data (s_entry (t ! i)) = Some d \<and> 0 \<notin> set k \<and>
        s_used (t ! i) = int (hash_index n k) \<and> j < n \<and> i = probe n k j \<and>
        (\<forall>j'<j. s_used (t ! probe n k j') \<noteq> 0))"

definition tab_ok :: "nat \<Rightarrow> slot list \<Rightarrow> bool" where
  "tab_ok n t \<longleftrightarrow> prime_size n \<and> length t = Suc n \<and>
     (\<forall>i. - 1 \<le> s_used (t ! i) \<or> i \<notin> {1..n}) \<and>
     (\<forall>i. i \<in> {1..n} \<and> live t i \<longrightarrow> slot_ok n t i) \<and>
     (\<forall>i j. i \<in> {1..n} \<and> j \<in> {1..n} \<and> live t i \<and> live t j \<and>
        e_key (s_entry (t ! i)) = e_key (s_entry (t ! j)) \<longrightarrow> i = j)"

definition htab_ok :: "hsearch_data \<Rightarrow> bool" where
  "htab_ok h \<longleftrightarrow> (\<exists>t. ht_table h = Some t \<and> tab_ok (ht_size h) t \<and>
     ht_filled h = card {i \<in> {1..ht_size h}. live t i})"

definition tab_find :: "nat \<Rightarrow> slot list \<Rightarrow> chars \<Rightarrow> nat option" where
  "tab_find n t k = find (\<lambda>i. live t i \<and> e_key (s_entry (t ! i)) = Some k) [1..<Suc n]"

text \<open>The variables a table holds.\<close>

definition env_map :: "hsearch_data \<Rightarrow> chars \<Rightarrow> chars option" where
  "env_map h k = (case ht_table h of None \<Rightarrow> None
     | Some t \<Rightarrow> (case tab_find (ht_size h) t k of None \<Rightarrow> None | Some i \<Rightarrow> e_data (s_entry (t ! i))))"

definition hit :: "nat \<Rightarrow> slot list \<Rightarrow> chars \<Rightarrow> nat \<Rightarrow> bool" where
  "hit n t k i \<longleftrightarrow> s_used (t ! i) = int (hash_index n k) \<and> e_key (s_entry (t ! i)) = Some k"

lemma tab_okD:
  assumes "tab_ok n t"
  shows "prime_size n" "4 < n" "n < 2 ^ 31" "length t = Suc n"
    "i \<in> {1..n} \<Longrightarrow> - 1 \<le> s_used (t ! i)"
    "i \<in> {1..n} \<Longrightarrow> live t i \<Longrightarrow> slot_ok n t i"
    "i \<in> {1..n} \<Longrightarrow> j \<in> {1..n} \<Longrightarrow> live t i \<Longrightarrow> live t j \<Longrightarrow>
       e_key (s_entry (t ! i)) = e_key (s_entry (t ! j)) \<Longrightarrow> i = j"
  using assms by (auto simp: tab_ok_def prime_size_def)

lemma cstr_append_0: "0 \<notin> set a \<Longrightarrow> cstr (m @ a @ 0 # r) (length m) a"
proof (induction a arbitrary: m)
  case (Cons x a)
  then show ?case using Cons.IH [of "m @ [x]"] by simp
qed simp

lemma str_cmp_0: "0 \<notin> set a \<Longrightarrow> 0 \<notin> set b \<Longrightarrow> \<exists>r. str_cmp a b = Some r \<and> (r = 0 \<longleftrightarrow> a = b)"
  using strcmp_spec [of "a @ 0 # b @ [0]" 0 a "Suc (length a)" b]
    cstr_append_0 [of a "[]" "b @ [0]"] cstr_append_0 [of b "a @ [0]" "[]"]
  by (simp add: str_cmp_def)

lemma hit_live:
  assumes "tab_ok n t" "i \<in> {1..n}"
  shows "hit n t k i \<longleftrightarrow> live t i \<and> e_key (s_entry (t ! i)) = Some k"
  using tab_okD(6) [OF assms] hash_index_bounds [of n k] tab_okD(2) [OF assms(1)]
  by (auto simp: hit_def live_def slot_ok_def)

lemma find_SomeD: "find P xs = Some x \<Longrightarrow> x \<in> set xs \<and> P x"
  by (induction xs) (auto split: if_splits)

lemma tab_find_Some:
  assumes "tab_ok n t"
  shows "tab_find n t k = Some i \<longleftrightarrow> i \<in> {1..n} \<and> hit n t k i"
proof
  assume "tab_find n t k = Some i"
  then show "i \<in> {1..n} \<and> hit n t k i"
    using hit_live [OF assms, of i k] by (auto simp: tab_find_def dest!: find_SomeD)
next
  assume i: "i \<in> {1..n} \<and> hit n t k i"
  then have l: "live t i" "e_key (s_entry (t ! i)) = Some k" using hit_live [OF assms] by auto
  then obtain i' where i': "tab_find n t k = Some i'"
    using i by (cases "tab_find n t k") (auto simp: tab_find_def find_None_iff)
  then have "i' \<in> {1..n}" "live t i'" "e_key (s_entry (t ! i')) = Some k"
    by (auto simp: tab_find_def dest!: find_SomeD)
  then show "tab_find n t k = Some i" using tab_okD(7) [OF assms, of i i'] i i' l by simp
qed

lemma tab_find_None:
  assumes "tab_ok n t"
  shows "tab_find n t k = None \<longleftrightarrow> (\<forall>i\<in>{1..n}. \<not> hit n t k i)"
  using tab_find_Some [OF assms, of k] by (metis not_Some_eq)

section \<open>Searching follows the probe sequence\<close>

definition hit_result ::
  "env_hooks \<Rightarrow> chars \<Rightarrow> chars option \<Rightarrow> hsearch_action \<Rightarrow> hsearch_data \<Rightarrow> u32 \<Rightarrow> slot list \<Rightarrow> nat \<Rightarrow> hresult" where
  "hit_result E k d act h flag t i =
     (if act = FIND \<or> d = None then (i, Some i, None, h)
      else if \<exists>change_ok. ht_change_ok h = Some change_ok \<and> change_ok (s_entry (t ! i)) d env_op_overwrite flag
      then (0, None, Some EPERM, h)
      else if \<exists>cb. e_callback (s_entry (t ! i)) = Some cb \<and> cb k d env_op_overwrite flag
      then (0, None, Some EINVAL, h)
      else let h' = h\<lparr>ht_table := Some (t[i := (t ! i)\<lparr>s_entry := (s_entry (t ! i))\<lparr>e_data := str_dup E d\<rparr>\<rparr>])\<rparr>
           in if str_dup E d = None then (0, None, Some ENOMEM, h') else (i, Some i, None, h'))"

lemma get_slot_table: "ht_table h = Some t \<Longrightarrow> i < length t \<Longrightarrow> get_slot h i = Some (t ! i)"
  by (simp add: get_slot_def aget_simps)

lemma put_slot_table:
  "ht_table h = Some t \<Longrightarrow> i < length t \<Longrightarrow> put_slot h i s = Some (h\<lparr>ht_table := Some (t[i := s])\<rparr>)"
  by (simp add: put_slot_def aget_simps)

lemmas slot_simps = get_slot_table put_slot_table

lemma compare_spec:
  assumes "ht_table h = Some t" "tab_ok n t" "i \<in> {1..n}" "0 \<notin> set k"
  shows "compare_and_overwrite_entry E k d act h flag (hash_index n k) i =
     Some (if hit n t k i then Some (hit_result E k d act h flag t i) else None)"
proof -
  have i: "i < length t" using assms(3) tab_okD(4) [OF assms(2)] by simp
  show ?thesis
  proof (cases "s_used (t ! i) = int (hash_index n k)")
    case True
    then have "live t i" using hash_index_bounds [of n k] tab_okD(2) [OF assms(2)] by (simp add: live_def)
    then obtain k' where k': "e_key (s_entry (t ! i)) = Some k'" "0 \<notin> set k'"
      using tab_okD(6) [OF assms(2,3)] by (auto simp: slot_ok_def)
    then obtain r where r: "str_cmp k k' = Some r" "r = 0 \<longleftrightarrow> k = k'" using str_cmp_0 assms(4) by blast
    show ?thesis
      using True k' r assms(1) i
      by (cases act)
        (auto simp: compare_and_overwrite_entry_def hit_def hit_result_def slot_simps Let_def split: option.splits)
  qed (use assms(1) i in \<open>simp add: compare_and_overwrite_entry_def hit_def slot_simps\<close>)
qed

definition stops :: "nat \<Rightarrow> slot list \<Rightarrow> chars \<Rightarrow> nat \<Rightarrow> bool" where
  "stops n t k i \<longleftrightarrow> hit n t k i \<or> s_used (t ! i) = 0"

lemma probe_loop_find:
  assumes "ht_table h = Some t" "ht_size h = n" "tab_ok n t" "0 \<notin> set k" "j < n"
  shows "probe_loop E k d act h flag (hash_index n k) (hval2_of n k) (probe n k j) =
    Some (case find (stops n t k) (map (probe n k) [Suc j..<n]) of
       None \<Rightarrow> Inr (hash_index n k)
     | Some i \<Rightarrow> if hit n t k i then Inl (hit_result E k d act h flag t i) else Inr i)"
  using assms(5)
proof (induction "n - j" arbitrary: j)
  case (Suc m)
  note n = tab_okD(1,2) [OF assms(3)]
  note next_p = probe_next_probe [OF n(2), of k j]
  show ?case
  proof (cases "Suc j = n")
    case True
    then have "probe n k (Suc j) = hash_index n k" using probe_cycle [OF n(1), of "Suc j" k] by simp
    then show ?thesis using assms(2) True next_p by (subst probe_loop.simps) (simp add: Let_def)
  next
    case False
    let ?i = "probe n k (Suc j)"
    have ne: "?i \<noteq> hash_index n k" using probe_cycle [OF n(1), of "Suc j" k] False Suc.prems by simp
    have i: "?i \<in> {1..n}" "?i < length t"
      using probe_bounds [OF n(2), of k "Suc j"] tab_okD(4) [OF assms(3)] by auto
    have IH: "probe_loop E k d act h flag (hash_index n k) (hval2_of n k) ?i =
      Some (case find (stops n t k) (map (probe n k) [Suc (Suc j)..<n]) of
         None \<Rightarrow> Inr (hash_index n k)
       | Some i \<Rightarrow> if hit n t k i then Inl (hit_result E k d act h flag t i) else Inr i)"
      using Suc.hyps(1) [of "Suc j"] Suc.hyps(2) Suc.prems False by simp
    have upt: "[Suc j..<n] = Suc j # [Suc (Suc j)..<n]" using Suc.prems False by (simp add: upt_conv_Cons)
    show ?thesis
      using ne IH compare_spec [OF assms(1,3) i(1) assms(4)] slot_simps(1) [OF assms(1) i(2)]
      by (subst probe_loop.simps) (simp add: assms(2) next_p upt Let_def stops_def)
  qed
qed simp


definition first_del :: "nat \<Rightarrow> slot list \<Rightarrow> chars \<Rightarrow> nat" where
  "first_del n t k = (if s_used (t ! hash_index n k) = - 1 then hash_index n k else 0)"

definition locate :: "nat \<Rightarrow> slot list \<Rightarrow> chars \<Rightarrow> nat option" where
  "locate n t k = find (stops n t k) (map (probe n k) [0..<n])"

lemma hsearch_r_locate:
  assumes "ht_table h = Some t" "ht_size h = n" "tab_ok n t" "0 \<notin> set k"
  shows "hsearch_r E k d act h flag =
    (case locate n t k of
       None \<Rightarrow> hsearch_enter E k d act h flag (hash_index n k) (first_del n t k) (hash_index n k)
     | Some i \<Rightarrow> if hit n t k i then Some (hit_result E k d act h flag t i)
                 else hsearch_enter E k d act h flag (hash_index n k) (first_del n t k) i)"
proof -
  let ?i = "hash_index n k"
  note n = tab_okD(1,2,3) [OF assms(3)]
  have i: "?i \<in> {1..n}" "?i < length t"
    using hash_index_bounds [of n k] n(2) tab_okD(4) [OF assms(3)] by auto
  have m: "unat (of_nat n - 2 :: u32) = n - 2"
    using n(2,3) by (subst unat_sub_nowrap) (simp_all add: unat_of_nat_small)
  have upt: "[0..<n] = 0 # [Suc 0..<n]" using n(2) by (simp add: upt_conv_Cons)
  have loop: "probe_loop E k d act h flag ?i (Suc (?i mod (n - 2))) ?i = probe_loop E k d act h flag ?i (hval2_of n k) (probe n k 0)"
    using probe_0 [OF n(2)] by (simp add: hval2_of_def)
  note p0 = probe_0 [OF n(2), of k]
  note run = hsearch_r_def assms(2) slot_simps(1) [OF assms(1) i(2)] compare_spec [OF assms(1,3) i(1) assms(4)] Let_def
  consider (free) "s_used (t ! ?i) = 0" | (first) "hit n t k ?i" "s_used (t ! ?i) \<noteq> 0"
    | (later) "\<not> stops n t k ?i" "\<not> hit n t k ?i" "s_used (t ! ?i) \<noteq> 0" by (auto simp: stops_def)
  then show ?thesis
  proof cases
    case free
    then have "\<not> hit n t k ?i" using i(1) by (simp add: hit_def)
    then show ?thesis using free n(2) by (simp add: run locate_def upt p0 stops_def first_del_def)
  next
    case first
    then show ?thesis using n(2) by (simp add: run locate_def upt p0 stops_def)
  next
    case later
    have "locate n t k = find (stops n t k) (map (probe n k) [Suc 0..<n])"
      using later(1) by (simp add: locate_def upt p0)
    then show ?thesis
      using later(2,3) n(2) probe_loop_find [OF assms, of 0 E d act flag]
      by (simp add: run m loop first_del_def split: option.split)
  qed
qed

lemma locate_hit:
  assumes "tab_ok n t" "i \<in> {1..n}" "hit n t k i"
  shows "locate n t k = Some i"
proof -
  note n = tab_okD(1,2) [OF assms(1)]
  obtain j where j: "j < n" "i = probe n k j" "\<And>j'. j' < j \<Longrightarrow> s_used (t ! probe n k j') \<noteq> 0"
    using tab_okD(6) [OF assms(1,2)] assms hit_live [OF assms(1,2), of k] by (auto simp: slot_ok_def)
  have "\<not> stops n t k (probe n k j')" if j': "j' < j" for j'
  proof -
    have "probe n k j' \<noteq> i" using inj_onD [OF inj_probe [OF n(1), of k], of j' j] j' j(1,2) by auto
    moreover have p: "probe n k j' \<in> {1..n}" using probe_bounds [OF n(2), of k j'] by auto
    ultimately have "\<not> hit n t k (probe n k j')"
      using tab_okD(7) [OF assms(1,2) p] hit_live [OF assms(1)] assms(2,3) p by auto
    then show ?thesis using j(3) [OF j'] by (simp add: stops_def)
  qed
  then show ?thesis
    unfolding locate_def find_Some_iff using j(1,2) assms(3) by (auto simp: stops_def intro!: exI [of _ j])
qed

text \<open>Without a hit the search ends at the first free slot of the probe sequence, if there is one.\<close>

lemma locate_free:
  assumes "tab_ok n t" "tab_find n t k = None"
  shows "locate n t k = Some i \<Longrightarrow>
      i \<in> {1..n} \<and> s_used (t ! i) = 0 \<and> \<not> hit n t k i \<and>
      (\<exists>j<n. i = probe n k j \<and> (\<forall>j'<j. s_used (t ! probe n k j') \<noteq> 0))"
    "locate n t k = None \<Longrightarrow> i \<in> {1..n} \<Longrightarrow> s_used (t ! i) \<noteq> 0"
proof -
  note n = tab_okD(1,2) [OF assms(1)]
  have no: "\<not> hit n t k (probe n k j)" for j
    using assms probe_bounds [OF n(2), of k j] by (auto simp: tab_find_None)
  then have st: "stops n t k (probe n k j) \<longleftrightarrow> s_used (t ! probe n k j) = 0" for j by (simp add: stops_def)
  show "locate n t k = Some i \<Longrightarrow>
      i \<in> {1..n} \<and> s_used (t ! i) = 0 \<and> \<not> hit n t k i \<and>
      (\<exists>j<n. i = probe n k j \<and> (\<forall>j'<j. s_used (t ! probe n k j') \<noteq> 0))"
    using probe_bounds [OF n(2), of k] no st by (auto simp: locate_def find_Some_iff Suc_le_eq)
  assume "locate n t k = None" "i \<in> {1..n}"
  moreover obtain j where "j < n" "probe n k j = i" using probe_surj [OF n(1), of i k] calculation(2) by auto
  ultimately show "s_used (t ! i) \<noteq> 0" using st by (auto simp: locate_def find_None_iff)
qed

section \<open>Changing a slot\<close>

lemma slot_ok_mono:
  assumes "slot_ok n t i" "t' ! i = t ! i" "\<And>j. s_used (t ! j) \<noteq> 0 \<Longrightarrow> s_used (t' ! j) \<noteq> 0"
  shows "slot_ok n t' i"
  using assms unfolding slot_ok_def by (metis (no_types, lifting))

lemma tab_ok_update:
  assumes "tab_ok n t" "i \<in> {1..n}" "- 1 \<le> s_used s" "s_used s \<noteq> 0"
    and "0 < s_used s \<Longrightarrow> slot_ok n (t[i := s]) i"
    and "\<And>j. 0 < s_used s \<Longrightarrow> j \<in> {1..n} \<Longrightarrow> live t j \<Longrightarrow> e_key (s_entry (t ! j)) = e_key (s_entry s) \<Longrightarrow> j = i"
  shows "tab_ok n (t[i := s])"
proof -
  have i: "i < length t" using assms(2) tab_okD(4) [OF assms(1)] by simp
  have mono: "s_used (t ! j) \<noteq> 0 \<Longrightarrow> s_used (t[i := s] ! j) \<noteq> 0" for j
    using assms(4) i by (cases "j = i") simp_all
  have ok: "slot_ok n (t[i := s]) j" if j: "j \<in> {1..n}" "live (t[i := s]) j" for j
  proof (cases "j = i")
    case True
    then show ?thesis using assms(5) j(2) i by (simp add: live_def)
  next
    case False
    then show ?thesis using slot_ok_mono [OF tab_okD(6) [OF assms(1) j(1)] _ mono] j(2) by (simp add: live_def)
  qed
  have key: "e_key (s_entry (t[i := s] ! j)) = e_key (s_entry (t[i := s] ! j')) \<Longrightarrow> j = j'"
    if "j \<in> {1..n}" "j' \<in> {1..n}" "live (t[i := s]) j" "live (t[i := s]) j'" for j j'
  proof (cases "j = i"; cases "j' = i")
    assume "j = i" "j' \<noteq> i" "e_key (s_entry (t[i := s] ! j)) = e_key (s_entry (t[i := s] ! j'))"
    then show "j = j'" using that assms(6) [of j'] i by (simp add: live_def)
  next
    assume "j \<noteq> i" "j' = i" "e_key (s_entry (t[i := s] ! j)) = e_key (s_entry (t[i := s] ! j'))"
    then show "j = j'" using that assms(6) [of j] i by (simp add: live_def)
  next
    assume "j \<noteq> i" "j' \<noteq> i" "e_key (s_entry (t[i := s] ! j)) = e_key (s_entry (t[i := s] ! j'))"
    then show "j = j'" using that tab_okD(7) [OF assms(1), of j j'] by (simp add: live_def)
  qed simp
  have "- 1 \<le> s_used (t[i := s] ! j) \<or> j \<notin> {1..n}" for j
    using tab_okD(5) [OF assms(1), of j] assms(3) i by (cases "j = i") auto
  then show ?thesis
    unfolding tab_ok_def using tab_okD(1,4) [OF assms(1)] ok key by simp
qed

lemma card_live_update:
  assumes "i \<in> {1..n}" "i < length t"
  shows "card {j \<in> {1..n}. live (t[i := s]) j} =
    card {j \<in> {1..n}. live t j} - (if live t i then 1 else 0) + (if 0 < s_used s then 1 else 0)"
proof -
  let ?A = "{j \<in> {1..n}. live t j}"
  have "{j \<in> {1..n}. live (t[i := s]) j} = (if 0 < s_used s then insert i ?A else ?A - {i})"
    using assms by (auto simp: live_def nth_list_update split: if_splits)
  moreover have "finite ?A" by simp
  moreover have "i \<in> ?A \<longleftrightarrow> live t i" using assms by simp
  moreover have "0 < card ?A" if "live t i" using that assms(1) by (auto simp: card_gt_0_iff)
  ultimately show ?thesis
    by (cases "live t i"; cases "0 < s_used s")
      (simp_all add: card_insert_if card_Diff_singleton_if del: mem_Collect_eq)
qed


section \<open>What each operation does\<close>

definition put_at :: "hsearch_data \<Rightarrow> slot list \<Rightarrow> nat \<Rightarrow> slot \<Rightarrow> nat \<Rightarrow> hsearch_data" where
  "put_at h t i s f = h\<lparr>ht_table := Some (t[i := s]), ht_filled := f\<rparr>"

lemma htab_ok_put:
  assumes "htab_ok h" "ht_table h = Some t" "tab_ok (ht_size h) (t[i := s])" "i \<in> {1..ht_size h}"
    "f = ht_filled h - (if live t i then 1 else 0) + (if 0 < s_used s then 1 else 0)"
  shows "htab_ok (put_at h t i s f)"
proof -
  have "i < length t" using assms(3,4) tab_okD(4) [OF assms(3)] by simp
  then show ?thesis
    using assms card_live_update [OF assms(4), of t s] by (simp add: htab_ok_def put_at_def)
qed

text \<open>Writing slot \<open>i\<close> changes the variable held there before and the one put there, nothing else.\<close>

lemma env_map_put:
  assumes "ht_table h = Some t" "tab_ok (ht_size h) t" "tab_ok (ht_size h) (t[i := s])" "i \<in> {1..ht_size h}"
    and "0 < s_used s \<Longrightarrow> e_key (s_entry s) = Some k"
    and "live t i \<Longrightarrow> e_key (s_entry (t ! i)) = Some k"
    and "tab_find (ht_size h) t k = None \<or> tab_find (ht_size h) t k = Some i"
  shows "env_map (put_at h t i s f) = (env_map h)(k := (if 0 < s_used s then e_data (s_entry s) else None))"
proof
  fix x
  let ?n = "ht_size h" and ?t = "t[i := s]"
  have i: "i < length t" using assms(2,4) tab_okD(4) [OF assms(2)] by simp
  have other: "hit ?n ?t x j \<longleftrightarrow> hit ?n t x j" if "j \<noteq> i" for j using that by (simp add: hit_def)
  show "env_map (put_at h t i s f) x = ((env_map h)(k := (if 0 < s_used s then e_data (s_entry s) else None))) x"
  proof (cases "x = k")
    case True
    show ?thesis
    proof (cases "0 < s_used s")
      case pos: True
      then have "hit ?n ?t k i" using hit_live [OF assms(3,4), of k] assms(5) i by (simp add: live_def)
      then have "tab_find ?n ?t k = Some i" using tab_find_Some [OF assms(3)] assms(4) by simp
      then show ?thesis using True pos i by (simp add: env_map_def put_at_def)
    next
      case False
      then have "\<not> hit ?n ?t k i" using hit_live [OF assms(3,4), of k] i by (simp add: live_def)
      moreover have "\<not> hit ?n t k j" if "j \<in> {1..?n}" "j \<noteq> i" for j
        using assms(7) that tab_find_Some [OF assms(2), of k j] by auto
      ultimately have "tab_find ?n ?t k = None" using tab_find_None [OF assms(3), of k] other True by metis
      then show ?thesis using True False by (simp add: env_map_def put_at_def)
    qed
  next
    case False
    then have no: "\<not> hit ?n ?t x i" "\<not> hit ?n t x i"
      using hit_live [OF assms(3,4), of x] hit_live [OF assms(2,4), of x] assms(5,6) i by (auto simp: live_def)
    then have "tab_find ?n ?t x = Some j \<longleftrightarrow> tab_find ?n t x = Some j" for j
      using tab_find_Some [OF assms(3), of x j] tab_find_Some [OF assms(2), of x j] other [of j] by (cases "j = i") auto
    then have eq: "tab_find ?n ?t x = tab_find ?n t x" by (metis option.exhaust)
    show ?thesis
    proof (cases "tab_find ?n t x")
      case (Some j)
      then have "j \<noteq> i" using no(2) tab_find_Some [OF assms(2), of x j] by auto
      then show ?thesis using False eq Some assms(1) by (simp add: env_map_def put_at_def)
    qed (use False eq assms(1) in \<open>simp add: env_map_def put_at_def\<close>)
  qed
qed


definition free_slots :: "hsearch_data \<Rightarrow> nat" where
  "free_slots h = (case ht_table h of None \<Rightarrow> 0
     | Some t \<Rightarrow> card {i \<in> {1..ht_size h}. s_used (t ! i) = 0})"

definition mem_for :: "env_hooks \<Rightarrow> chars \<Rightarrow> bool" where
  "mem_for E s \<longleftrightarrow> malloc_ok E (length s + 1)"

lemma free_slots_put:
  assumes "ht_table h = Some t" "length t = Suc (ht_size h)" "i \<in> {1..ht_size h}" "s_used s \<noteq> 0"
  shows "free_slots (put_at h t i s f) = free_slots h - (if s_used (t ! i) = 0 then 1 else 0)"
proof -
  let ?A = "{j \<in> {1..ht_size h}. s_used (t ! j) = 0}"
  have "{j \<in> {1..ht_size h}. s_used (t[i := s] ! j) = 0} = ?A - {i}"
    using assms by (auto simp: nth_list_update split: if_splits)
  moreover have "i \<in> ?A \<longleftrightarrow> s_used (t ! i) = 0" using assms(3) by simp
  ultimately show ?thesis
    using assms(1) by (simp add: free_slots_def put_at_def card_Diff_singleton_if del: mem_Collect_eq)
qed

lemma free_slotsE:
  assumes "0 < free_slots h"
  obtains t i where "ht_table h = Some t" "i \<in> {1..ht_size h}" "s_used (t ! i) = 0"
  using assms by (auto simp: free_slots_def card_gt_0_iff split: option.splits)

lemma free_not_full:
  assumes "htab_ok h" "0 < free_slots h"
  shows "ht_filled h < ht_size h"
proof -
  obtain t i where t: "ht_table h = Some t" "i \<in> {1..ht_size h}" "s_used (t ! i) = 0"
    using free_slotsE [OF assms(2)] by metis
  have "i \<notin> {i \<in> {1..ht_size h}. live t i}" using t(3) by (simp add: live_def)
  then have "{i \<in> {1..ht_size h}. live t i} \<subset> {1..ht_size h}" using t(2) by blast
  then have "card {i \<in> {1..ht_size h}. live t i} < card {1..ht_size h}" by (intro psubset_card_mono) auto
  then show ?thesis using assms(1) t(1) by (simp add: htab_ok_def)
qed

lemma htab_okE:
  assumes "htab_ok h"
  obtains t where "ht_table h = Some t" "tab_ok (ht_size h) t"
  using assms by (auto simp: htab_ok_def)

lemma env_map_find:
  assumes "ht_table h = Some t" "tab_ok (ht_size h) t"
  shows "env_map h k = None \<longleftrightarrow> tab_find (ht_size h) t k = None"
proof (cases "tab_find (ht_size h) t k")
  case (Some i)
  then have "i \<in> {1..ht_size h}" "live t i"
    using tab_find_Some [OF assms(2), of k i] hit_live [OF assms(2), of i k] by auto
  then show ?thesis using tab_okD(6) [OF assms(2), of i] Some assms(1) by (auto simp: env_map_def slot_ok_def)
qed (simp add: env_map_def assms(1))

lemma hsearch_find_spec:
  assumes "ht_table h = Some t" "tab_ok (ht_size h) t" "0 \<notin> set k"
  shows "hsearch_r E k d FIND h flag =
    Some (case tab_find (ht_size h) t k of None \<Rightarrow> (0, None, Some ESRCH, h) | Some i \<Rightarrow> (i, Some i, None, h))"
proof (cases "tab_find (ht_size h) t k")
  case (Some i)
  then have i: "i \<in> {1..ht_size h}" "hit (ht_size h) t k i" using tab_find_Some [OF assms(2)] by auto
  then show ?thesis
    using hsearch_r_locate [OF assms(1) refl assms(2,3), of E d FIND flag] locate_hit [OF assms(2) i] Some
    by (simp add: hit_result_def)
next
  case None
  then show ?thesis
    using hsearch_r_locate [OF assms(1) refl assms(2,3), of E d FIND flag] locate_free(1) [OF assms(2) None]
    by (cases "locate (ht_size h) t k") (auto simp: hsearch_enter_def)
qed

lemma hdelete_slot_put:
  assumes "ht_table h = Some t" "i < length t" "0 < ht_filled h" "ht_filled h < 2 ^ 32"
  shows "hdelete_slot h i = Some (put_at h t i
    \<lparr>s_used = - 1, s_entry = \<lparr>e_key = None, e_data = None, e_callback = None, e_flags = 0\<rparr>\<rparr> (ht_filled h - 1))"
proof -
  have "unat (of_nat (ht_filled h) - 1 :: u32) = ht_filled h - 1"
    using assms(3,4) by (subst unat_sub_nowrap) (simp_all add: unat_of_nat_small)
  then show ?thesis using assms(1,2) by (simp add: hdelete_slot_def slot_simps put_at_def)
qed


text \<open>Nothing in the table or its hooks refuses a change.\<close>

definition permissive :: "env_hooks \<Rightarrow> hsearch_data \<Rightarrow> bool" where
  "permissive E h \<longleftrightarrow> ht_change_ok h = None \<and> (\<forall>h k. env_callback_init E h k = None) \<and>
     (\<forall>t i. ht_table h = Some t \<and> i \<in> {1..ht_size h} \<and> live t i \<longrightarrow> e_callback (s_entry (t ! i)) = None)"

lemma permissive_put:
  assumes "permissive E h" "ht_table h = Some t" "i < length t" "0 < s_used s \<Longrightarrow> e_callback (s_entry s) = None"
  shows "permissive E (put_at h t i s f)"
proof -
  have "e_callback (s_entry (t[i := s] ! j)) = None" if "j \<in> {1..ht_size h}" "live (t[i := s]) j" for j
    using assms that by (cases "j = i") (auto simp: permissive_def live_def)
  then show ?thesis using assms(1) by (simp add: permissive_def put_at_def)
qed

definition set_outcome :: "env_hooks \<Rightarrow> hsearch_data \<Rightarrow> chars \<Rightarrow> chars \<Rightarrow> hresult \<Rightarrow> bool" where
  "set_outcome E h k d r = (case r of (ret, rv, err, h') \<Rightarrow>
     htab_ok h' \<and> ht_size h' = ht_size h \<and> ht_change_ok h' = ht_change_ok h \<and>
     free_slots h \<le> Suc (free_slots h') \<and> (permissive E h \<longrightarrow> err = None \<and> permissive E h') \<and>
     (if err = None then 0 < ret \<and> rv \<noteq> None \<and> env_map h' = (env_map h)(k \<mapsto> d)
      else (err = Some EPERM \<or> err = Some EINVAL) \<and> ret = 0 \<and> rv = None \<and> env_map h' = env_map h))"

text \<open>A slot that holds no variable is filled, with a new variable or with the mark of a deleted one.\<close>

lemma put_fresh:
  assumes "htab_ok h" "ht_table h = Some t" "tab_find (ht_size h) t k = None" "0 \<notin> set k"
    "i \<in> {1..ht_size h}" "\<not> live t i"
    "j < ht_size h" "i = probe (ht_size h) k j" "\<forall>j'<j. s_used (t ! probe (ht_size h) k j') \<noteq> 0"
    and s: "s_used s = - 1 \<or> s_used s = int (hash_index (ht_size h) k) \<and> e_key (s_entry s) = Some k \<and>
      e_data (s_entry s) = Some d"
    and h': "h' = put_at h t i s (ht_filled h + (if 0 < s_used s then 1 else 0))"
  shows "htab_ok h'" "env_map h' = (if 0 < s_used s then (env_map h)(k \<mapsto> d) else env_map h)"
    "free_slots h \<le> Suc (free_slots h')"
proof -
  let ?n = "ht_size h"
  have t: "tab_ok ?n t" using assms(1,2) by (simp add: htab_ok_def)
  have i: "i < length t" using assms(5) tab_okD(4) [OF t] by simp
  have pos: "0 < hash_index ?n k" using hash_index_bounds [of ?n k] tab_okD(2) [OF t] by simp
  have t': "tab_ok ?n (t[i := s])"
  proof (rule tab_ok_update [OF t assms(5)])
    assume "0 < s_used s"
    then show "slot_ok ?n (t[i := s]) i"
      unfolding slot_ok_def using s assms(4,7-9) i pos
      by (intro exI [of _ k] exI [of _ d] exI [of _ j]) (auto simp: nth_list_update)
  next
    fix j' assume "0 < s_used s" "j' \<in> {1..?n}" "live t j'" "e_key (s_entry (t ! j')) = e_key (s_entry s)"
    then have "hit ?n t k j'" "j' \<in> {1..?n}" using s hit_live [OF t, of j' k] by auto
    then show "j' = i" using assms(3) tab_find_None [OF t] by auto
  qed (use s pos in auto)
  show "htab_ok h'" using htab_ok_put [OF assms(1,2) t' assms(5)] assms(6) h' by simp
  have "env_map h k = None" using env_map_find [OF assms(2) t] assms(3) by simp
  then show "env_map h' = (if 0 < s_used s then (env_map h)(k \<mapsto> d) else env_map h)"
    using env_map_put [OF assms(2) t t' assms(5), of k] s assms(3,6) pos h' by (auto simp: fun_upd_idem)
  show "free_slots h \<le> Suc (free_slots h')"
    using free_slots_put [OF assms(2) _ assms(5), of s] tab_okD(4) [OF t] s pos h' by auto
qed

lemma put_at_twice:
  "put_at (put_at h t i s f) (t[i := s]) i s' f' = put_at h t i s' f'"
  by (simp add: put_at_def)

lemma put_at_steps:
  "ht_table h = Some t \<Longrightarrow> i < length t \<Longrightarrow> put_slot h i s = Some (put_at h t i s (ht_filled h))"
  "i < length t \<Longrightarrow> put_slot (put_at h t i s f) i s' = Some (put_at h t i s' f)"
  "put_at h t i s f\<lparr>ht_filled := f'\<rparr> = put_at h t i s f'"
  "ht_filled (put_at h t i s f) = f" "ht_size (put_at h t i s f) = ht_size h"
  "ht_change_ok (put_at h t i s f) = ht_change_ok h"
  by (simp_all add: put_slot_def put_at_def aget_simps)

lemma hsearch_enter_fresh:
  assumes "htab_ok h" "ht_table h = Some t" "tab_find (ht_size h) t k = None" "0 \<notin> set k"
    "i \<in> {1..ht_size h}" "\<not> live t i"
    "j < ht_size h" "i = probe (ht_size h) k j" "\<forall>j'<j. s_used (t ! probe (ht_size h) k j') \<noteq> 0"
    and "ht_filled h < ht_size h" "mem_for E k" "mem_for E d" "i = (if fd \<noteq> 0 then fd else idx)"
  shows "\<exists>r. hsearch_enter E k (Some d) ENTER h flag (hash_index (ht_size h) k) fd idx = Some r \<and> set_outcome E h k d r"
proof -
  let ?n = "ht_size h"
  have t: "tab_ok ?n t" using assms(1,2) by (simp add: htab_ok_def)
  have i: "i < length t" using assms(5) tab_okD(4) [OF t] by simp
  have f: "ht_filled h + 1 < 2 ^ 32" using assms(10) tab_okD(3) [OF t] by simp
  have bump: "unat (of_nat (ht_filled h) + 1 :: u32) = ht_filled h + 1"
    using f by (subst unat_add_nowrap) (simp_all add: unat_of_nat_small)
  have dup: "str_dup E (Some k) = Some k" "str_dup E (Some d) = Some d"
    using assms(11,12) by (simp_all add: str_dup_def mem_for_def)
  have pos: "0 < hash_index ?n k" using hash_index_bounds [of ?n k] tab_okD(2) [OF t] by simp
  note fresh = put_fresh [OF assms(1-9), of _ d, OF _ refl]
  define e where "e = (s_entry (t ! i))\<lparr>e_key := Some k, e_data := Some d\<rparr>"
  define h1 where "h1 = put_at h t i \<lparr>s_used = int (hash_index ?n k), s_entry = e\<rparr> (ht_filled h + 1)"
  define e1 where "e1 = e\<lparr>e_callback := env_callback_init E h1 k\<rparr>"
  define h2 where "h2 = put_at h t i \<lparr>s_used = int (hash_index ?n k), s_entry = e1\<rparr> (ht_filled h + 1)"
  define e2 where "e2 = e1\<lparr>e_flags := env_flags_init E h2 k\<rparr>"
  define s where "s = \<lparr>s_used = int (hash_index ?n k), s_entry = e2\<rparr>"
  define h3 where "h3 = put_at h t i s (ht_filled h + 1)"
  define tomb where "tomb = \<lparr>s_used = - 1, s_entry = \<lparr>e_key = None, e_data = None, e_callback = None, e_flags = 0\<rparr>\<rparr>"
  have perm: "permissive E h \<longrightarrow> e_callback e2 = None \<and> permissive E h3"
  proof
    assume p: "permissive E h"
    then have "e_callback e2 = None" by (simp add: e2_def e1_def permissive_def)
    then show "e_callback e2 = None \<and> permissive E h3" using permissive_put [OF p assms(2) i, of s] by (simp add: h3_def s_def)
  qed
  have "s_used s = int (hash_index ?n k)" "e_key (s_entry s) = Some k" "e_data (s_entry s) = Some d"
    by (simp_all add: s_def e2_def e1_def e_def)
  then have ok: "set_outcome E h k d (1, Some i, None, h3)"
    using fresh [of s] pos perm by (simp add: set_outcome_def put_at_steps h3_def)
  have refused: "set_outcome E h k d (0, None, Some er, put_at h t i tomb (ht_filled h))"
    if "er = EPERM \<or> er = EINVAL" "\<not> permissive E h" for er
    using fresh [of tomb] that by (simp add: set_outcome_def put_at_steps tomb_def)
  have del: "hdelete_slot h3 i = Some (put_at h t i tomb (ht_filled h))"
    using hdelete_slot_put [of h3 "t[i := s]" i] i f put_at_twice [of h t i s]
    by (simp add: h3_def tomb_def) (simp add: put_at_def)
  have nn: "i \<noteq> 0" using assms(5) by simp
  let ?c1 = "case ht_change_ok h of None \<Rightarrow> False | Some change_ok \<Rightarrow> change_ok e2 (Some d) env_op_create flag"
  let ?c2 = "case e_callback e2 of None \<Rightarrow> False | Some cb \<Rightarrow> cb k (Some d) env_op_create flag"
  have no1: "?c1 \<Longrightarrow> \<not> permissive E h" by (auto simp: permissive_def)
  have no2: "?c2 \<Longrightarrow> \<not> permissive E h" using perm by auto
  have run: "hsearch_enter E k (Some d) ENTER h flag (hash_index ?n k) fd idx =
    (if ?c1 then do { h \<leftarrow> hdelete_slot h3 i; Some (0, None, Some EPERM, h) }
     else if ?c2 then do { h \<leftarrow> hdelete_slot h3 i; Some (0, None, Some EINVAL, h) }
     else Some (1, Some i, None, h3))"
    using assms(2,10,13) i f nn
    by (cases "fd = 0")
      (simp_all add: hsearch_enter_def dup bump Let_def get_slot_table put_at_steps h3_def s_def e2_def h2_def e1_def h1_def e_def
        cong: option.case_cong if_cong)
  show ?thesis
  proof (cases ?c1)
    case True
    then show ?thesis using run del refused [of EPERM] no1 by simp
  next
    case c1: False
    show ?thesis
    proof (cases ?c2)
      case True
      then show ?thesis using run c1 del refused [of EINVAL] no2 by simp
    next
      case False
      then show ?thesis using run c1 ok by simp
    qed
  qed
qed


lemma hit_result_outcome:
  assumes "htab_ok h" "ht_table h = Some t" "tab_find (ht_size h) t k = Some i" "mem_for E d"
  shows "set_outcome E h k d (hit_result E k (Some d) ENTER h flag t i)"
proof -
  let ?n = "ht_size h"
  have t: "tab_ok ?n t" using assms(1,2) by (simp add: htab_ok_def)
  have i: "i \<in> {1..?n}" "hit ?n t k i" using tab_find_Some [OF t] assms(3) by auto
  then have l: "i < length t" "live t i" "e_key (s_entry (t ! i)) = Some k" "s_used (t ! i) \<noteq> 0"
    using hit_live [OF t i(1), of k] tab_okD(4) [OF t] by (auto simp: live_def)
  define s where "s = (t ! i)\<lparr>s_entry := (s_entry (t ! i))\<lparr>e_data := Some d\<rparr>\<rparr>"
  have s: "0 < s_used s" "e_key (s_entry s) = Some k" "e_data (s_entry s) = Some d" "s_used s = s_used (t ! i)"
    using l by (simp_all add: s_def live_def)
  have t': "tab_ok ?n (t[i := s])"
  proof (rule tab_ok_update [OF t i(1)])
    obtain j where "j < ?n" "i = probe ?n k j" "\<forall>j'<j. s_used (t ! probe ?n k j') \<noteq> 0" "0 \<notin> set k"
      using tab_okD(6) [OF t i(1) l(2)] l(3) by (auto simp: slot_ok_def)
    then show "slot_ok ?n (t[i := s]) i"
      unfolding slot_ok_def using s l i(2)
      by (intro exI [of _ k] exI [of _ d] exI [of _ j]) (auto simp: nth_list_update hit_def)
  next
    fix j assume "j \<in> {1..?n}" "live t j" "e_key (s_entry (t ! j)) = e_key (s_entry s)"
    then show "j = i" using tab_okD(7) [OF t _ i(1), of j] l(2,3) s(2) by simp
  qed (use s(1) in simp_all)
  let ?h = "put_at h t i s (ht_filled h)"
  have "ht_filled h \<noteq> 0"
    using assms(1,2) i(1) l(2) by (auto simp: htab_ok_def)
  then have ok: "htab_ok ?h" using htab_ok_put [OF assms(1,2) t' i(1)] l(2) s(1) by simp
  have "env_map ?h = (env_map h)(k \<mapsto> d)"
    using env_map_put [OF assms(2) t t' i(1), of k] l(3) s assms(3) by simp
  moreover have "free_slots ?h = free_slots h"
    using free_slots_put [OF assms(2) tab_okD(4) [OF t] i(1), of s] s(4) l(4) by simp
  moreover have "?h = h\<lparr>ht_table := Some (t[i := s])\<rparr>" by (simp add: put_at_def)
  moreover have "str_dup E (Some d) = Some d" using assms(4) by (simp add: str_dup_def mem_for_def)
  moreover have "permissive E h \<longrightarrow> permissive E ?h \<and> ht_change_ok h = None \<and> e_callback (s_entry (t ! i)) = None"
    using permissive_put [OF _ assms(2) l(1), of E s] i(1) l(2) assms(2) by (auto simp: permissive_def s_def)
  ultimately show ?thesis
    using ok i(1) assms(1) by (auto simp: hit_result_def set_outcome_def Let_def s_def)
qed

text \<open>
  Entering a variable needs a slot that was never used, or a deleted one at the first place
  probed: the search does not remember deleted slots it meets later.
\<close>

lemma hsearch_set_spec:
  assumes "htab_ok h" "0 \<notin> set k" "mem_for E k" "mem_for E d" "0 < free_slots h \<or> env_map h k \<noteq> None"
  shows "\<exists>r. hsearch_r E k (Some d) ENTER h flag = Some r \<and> set_outcome E h k d r"
proof -
  let ?n = "ht_size h"
  obtain t where t: "ht_table h = Some t" "tab_ok ?n t" using htab_okE [OF assms(1)] .
  note n = tab_okD(1,2) [OF t(2)]
  note search = hsearch_r_locate [OF t(1) refl t(2) assms(2), of E "Some d" ENTER flag]
  show ?thesis
  proof (cases "tab_find ?n t k")
    case (Some i)
    then have "i \<in> {1..?n}" "hit ?n t k i" using tab_find_Some [OF t(2)] by auto
    then show ?thesis
      using search locate_hit [OF t(2), of i k] hit_result_outcome [OF assms(1) t(1) Some assms(4)] by simp
  next
    case None
    then have free: "0 < free_slots h" using assms(5) env_map_find [OF t] by simp
    then obtain i0 where "i0 \<in> {1..?n}" "s_used (t ! i0) = 0" using t(1) by (auto elim: free_slotsE)
    then obtain i where "locate ?n t k = Some i"
      using locate_free(2) [OF t(2) None, of i0] by (cases "locate ?n t k") auto
    then have i: "i \<in> {1..?n}" "s_used (t ! i) = 0" "\<not> hit ?n t k i" "locate ?n t k = Some i"
      and "\<exists>j<?n. i = probe ?n k j \<and> (\<forall>j'<j. s_used (t ! probe ?n k j') \<noteq> 0)"
      using locate_free(1) [OF t(2) None] by auto
    then obtain j where j: "j < ?n" "i = probe ?n k j" "\<forall>j'<j. s_used (t ! probe ?n k j') \<noteq> 0" by blast
    note enter = hsearch_enter_fresh [OF assms(1) t(1) None assms(2) _ _ _ _ _ free_not_full [OF assms(1) free] assms(3,4)]
    have v0: "hash_index ?n k \<in> {1..?n}" using hash_index_bounds [of ?n k] n(2) by auto
    have "\<exists>r. hsearch_enter E k (Some d) ENTER h flag (hash_index ?n k) (first_del ?n t k) i = Some r \<and> set_outcome E h k d r"
    proof (cases "s_used (t ! hash_index ?n k) = - 1")
      case True
      then have "\<not> live t (hash_index ?n k)" "hash_index ?n k = (if first_del ?n t k \<noteq> 0 then first_del ?n t k else i)"
        using v0 by (simp_all add: live_def first_del_def)
      then show ?thesis using enter [OF v0, of 0 "first_del ?n t k" i flag] probe_0 [OF n(2), of k] n(2) by simp
    next
      case False
      then have "\<not> live t i" "i = (if first_del ?n t k \<noteq> 0 then first_del ?n t k else i)"
        using i(2) by (simp_all add: live_def first_del_def)
      then show ?thesis using enter [OF i(1) _ j] by blast
    qed
    then show ?thesis using search i by simp
  qed
qed

definition unset_outcome :: "env_hooks \<Rightarrow> hsearch_data \<Rightarrow> chars \<Rightarrow> hresult \<Rightarrow> bool" where
  "unset_outcome E h k r = (case r of (ret, rv, err, h') \<Rightarrow>
     htab_ok h' \<and> ht_size h' = ht_size h \<and> ht_change_ok h' = ht_change_ok h \<and> free_slots h' = free_slots h \<and>
     (permissive E h \<longrightarrow> (err = None \<or> err = Some ESRCH) \<and> permissive E h') \<and>
     (if err = None then ret = 1 \<and> env_map h k \<noteq> None \<and> env_map h' = (env_map h)(k := None)
      else ret = 0 \<and> h' = h \<and> (err = Some ESRCH \<longleftrightarrow> env_map h k = None)))"

lemma hdelete_r_spec:
  assumes "htab_ok h" "0 \<notin> set k"
  shows "\<exists>r. hdelete_r k h flag E = Some r \<and> unset_outcome E h k r"
proof -
  let ?n = "ht_size h"
  obtain t where t: "ht_table h = Some t" "tab_ok ?n t" using htab_okE [OF assms(1)] .
  note search = hsearch_find_spec [OF t assms(2), of E None 0]
  show ?thesis
  proof (cases "tab_find ?n t k")
    case None
    then show ?thesis
      using search env_map_find [OF t, of k] assms(1) by (simp add: hdelete_r_def unset_outcome_def)
  next
    case (Some i)
    then have i: "i \<in> {1..?n}" "hit ?n t k i" using tab_find_Some [OF t(2)] by auto
    then have l: "i < length t" "live t i" "e_key (s_entry (t ! i)) = Some k" "i \<noteq> 0"
      using hit_live [OF t(2) i(1), of k] tab_okD(4) [OF t(2)] by auto
    define s where "s = \<lparr>s_used = - 1, s_entry = \<lparr>e_key = None, e_data = None, e_callback = None, e_flags = 0\<rparr>\<rparr>"
    let ?h = "put_at h t i s (ht_filled h - 1)"
    have t': "tab_ok ?n (t[i := s])" by (rule tab_ok_update [OF t(2) i(1)]) (simp_all add: s_def)
    have f: "0 < ht_filled h" "ht_filled h < 2 ^ 32"
    proof -
      show "0 < ht_filled h" using assms(1) t(1) i(1) l(2) by (auto simp: htab_ok_def card_gt_0_iff)
      have "card {i \<in> {1..?n}. live t i} \<le> card {1..?n}" by (intro card_mono) auto
      then show "ht_filled h < 2 ^ 32" using assms(1) t(1) tab_okD(3) [OF t(2)] by (simp add: htab_ok_def)
    qed
    have "htab_ok ?h" using htab_ok_put [OF assms(1) t(1) t' i(1)] l(2) by (simp add: s_def)
    moreover have "env_map ?h = (env_map h)(k := None)"
      using env_map_put [OF t t' i(1), of k] l(3) Some by (simp add: s_def)
    moreover have "free_slots ?h = free_slots h"
      using free_slots_put [OF t(1) tab_okD(4) [OF t(2)] i(1), of s] l(2) by (simp add: s_def live_def)
    moreover have "env_map h k \<noteq> None" using env_map_find [OF t, of k] Some by simp
    moreover have "ht_size ?h = ht_size h" "ht_change_ok ?h = ht_change_ok h" by (simp_all add: put_at_def)
    moreover have perm: "permissive E h \<longrightarrow> permissive E ?h \<and> ht_change_ok h = None \<and> e_callback (s_entry (t ! i)) = None"
      using permissive_put [OF _ t(1) l(1), of E s] i(1) l(2) t(1) by (auto simp: permissive_def s_def)
    ultimately have ok: "unset_outcome E h k (1, None, None, ?h)"
      and no: "\<not> permissive E h \<Longrightarrow> unset_outcome E h k (0, None, Some EPERM, h)"
        "\<not> permissive E h \<Longrightarrow> unset_outcome E h k (0, None, Some EINVAL, h)"
      using assms(1) by (simp_all add: unset_outcome_def)
    have "hdelete_slot h i = Some ?h" using hdelete_slot_put [OF t(1) l(1) f] by (simp add: s_def)
    then show ?thesis
      using search Some l(1,4) ok no perm t(1) by (auto simp: hdelete_r_def slot_simps split: option.splits)
  qed
qed


section \<open>Creating a table\<close>

definition odd_free :: "nat \<Rightarrow> nat \<Rightarrow> bool" where
  "odd_free n d \<longleftrightarrow> (\<forall>m. odd m \<and> 3 \<le> m \<and> m < d \<longrightarrow> \<not> m dvd n)"

lemma of_nat_mod_0:
  assumes "d < 46350" "n < 2 ^ 31"
  shows "(of_nat n mod of_nat d :: u32) = 0 \<longleftrightarrow> n mod d = 0"
proof -
  have "unat (of_nat n mod of_nat d :: u32) = n mod d"
    using assms unat_of_nat_small [of n, where 'a = 32] unat_of_nat_small [of d, where 'a = 32]
    by (simp add: unat_mod_distrib)
  then show ?thesis by (metis unat_0 unat_eq_iff)
qed

lemma isprime_loop_spec:
  assumes "n < 2 ^ 31" "odd d" "3 \<le> d" "d < 46350" "odd_free n d" "d = 3 \<or> d < n"
  shows "\<exists>d'. isprime_loop (of_nat n) (of_nat d) = Some (of_nat d') \<and> odd d' \<and> 3 \<le> d' \<and> d' < 46350 \<and>
    odd_free n d' \<and> (d' = 3 \<or> d' < n) \<and> (n mod d' \<noteq> 0 \<longrightarrow> n \<le> d' * d')"
  using assms(2-)
proof (induction "46350 - d" arbitrary: d rule: less_induct)
  case less
  have sq: "d * d < 2 ^ 32" using mult_strict_mono [of d 46350 d 46350] less.prems(3) by simp
  have cond: "(of_nat d * of_nat d :: u32) < of_nat n \<longleftrightarrow> d * d < n"
    using sq assms(1) unat_of_nat_small [of "d * d", where 'a = 32] unat_of_nat_small [of n, where 'a = 32]
    by (simp add: word_less_nat_alt)
  have dvd: "(of_nat n mod of_nat d :: u32) = 0 \<longleftrightarrow> n mod d = 0"
    using less.prems(3) assms(1) by (rule of_nat_mod_0)
  show ?case
  proof (cases "d * d < n \<and> n mod d \<noteq> 0")
    case True
    have "d < 46348"
    proof (rule ccontr)
      assume "\<not> d < 46348"
      then have "46348 * 46348 \<le> d * d" by (intro mult_le_mono) simp_all
      then show False using True assms(1) by simp
    qed
    moreover have "odd_free n (d + 2)"
      unfolding odd_free_def
    proof (intro allI impI notI)
      fix m assume m: "odd m \<and> 3 \<le> m \<and> m < d + 2" "m dvd n"
      then have "m \<noteq> d + 1" using less.prems(1) by auto
      then have "m < d \<or> m = d" using m(1) by linarith
      then show False using m less.prems(4) True by (auto simp: odd_free_def dvd_eq_mod_eq_0)
    qed
    moreover have "d + 2 < n"
    proof -
      have "3 * d \<le> d * d" using less.prems(2) by simp
      then show ?thesis using True less.prems(2) by linarith
    qed
    ultimately show ?thesis
      using less.hyps [of "d + 2"] less.prems True cond dvd by (subst isprime_loop.simps) (simp add: add.commute)
  next
    case False
    then have "isprime_loop (of_nat n) (of_nat d) = Some (of_nat d)"
      using cond dvd by (subst isprime_loop.simps) auto
    then show ?thesis using False less.prems by (intro exI [of _ d]) auto
  qed
qed

lemma odd_free_3: "odd_free n 3"
  by (auto simp: odd_free_def)

definition is_prime :: "nat \<Rightarrow> bool" where
  "is_prime n \<longleftrightarrow> 1 < n \<and> (\<forall>m. m dvd n \<longrightarrow> m = 1 \<or> m = n)"

lemma isprime_spec:
  assumes "n < 2 ^ 31" "odd n" "4 < n"
  shows "isprime (of_nat n) = Some (is_prime n)"
proof -
  have "\<exists>d'. isprime_loop (of_nat n) (of_nat 3) = Some (of_nat d') \<and> odd d' \<and> 3 \<le> d' \<and> d' < 46350 \<and>
    odd_free n d' \<and> (d' = 3 \<or> d' < n) \<and> (n mod d' \<noteq> 0 \<longrightarrow> n \<le> d' * d')"
    by (rule isprime_loop_spec [OF assms(1)]) (simp_all add: odd_free_3)
  then obtain d where d: "isprime_loop (of_nat n) (of_nat 3) = Some (of_nat d)" "odd d" "3 \<le> d" "odd_free n d" "d = 3 \<or> d < n"
    "n mod d \<noteq> 0 \<longrightarrow> n \<le> d * d" "d < 46350"
    by blast
  have "n mod d \<noteq> 0 \<longleftrightarrow> is_prime n"
  proof
    assume "is_prime n"
    then show "n mod d \<noteq> 0" using d(3,5) assms(3) by (auto simp: is_prime_def mod_eq_0_iff_dvd)
  next
    assume nd: "n mod d \<noteq> 0"
    have small: False if m: "m dvd n" "1 < m" "m \<le> d" for m
    proof -
      have "odd m" using m(1) assms(2) dvd_trans by blast
      moreover have "m \<noteq> 2" using \<open>odd m\<close> by auto
      moreover have "m \<noteq> d" using nd m(1) by (auto simp: mod_eq_0_iff_dvd)
      ultimately show False using d(4) m by (auto simp: odd_free_def)
    qed
    have "m = 1 \<or> m = n" if m: "m dvd n" for m
    proof (rule ccontr)
      assume c: "\<not> (m = 1 \<or> m = n)"
      obtain q where q: "n = m * q" using m by (elim dvdE)
      moreover have "m \<noteq> 0 \<and> q \<noteq> 0" using q assms(3) by (metis mult_is_0 not_less_zero)
      ultimately have "m \<noteq> 0" "q \<noteq> 0" "m \<noteq> 1" "q \<noteq> 1" using c by auto
      then have "1 < m" "1 < q" by linarith+
      then have "d < m" "d < q" using small [of m] small [of q] m q by (auto simp: not_le intro: ccontr)
      then have "d * d < m * q" by (intro mult_strict_mono) simp_all
      then show False using d(6) nd q by simp
    qed
    then show "is_prime n" using assms(3) by (simp add: is_prime_def)
  qed
  then show ?thesis using d(1) of_nat_mod_0 [OF d(7) assms(1)] by (simp add: isprime_def)
qed

lemma prime_521: "is_prime 521"
proof -
  have "isprime 521 = Some True" by code_simp
  then show ?thesis using isprime_spec [of 521] by simp
qed

lemma hcreate_loop_spec:
  assumes "odd n" "4 < n" "n \<le> 521"
  shows "\<exists>p. hcreate_loop n = Some p \<and> prime_size p \<and> n \<le> p \<and> p \<le> 521"
  using assms
proof (induction "521 - n" arbitrary: n rule: less_induct)
  case less
  have s: "isprime (of_nat n) = Some (is_prime n)"
    using isprime_spec [of n] less.prems by simp
  show ?case
  proof (cases "is_prime n")
    case True
    then show ?thesis
      using s less.prems by (subst hcreate_loop.simps) (simp add: is_prime_def prime_size_def)
  next
    case False
    then have "n \<noteq> 521" using prime_521 by auto
    moreover have "n \<noteq> 520" using less.prems(1) by auto
    ultimately have "n + 2 \<le> 521" using less.prems(3) by linarith
    then obtain p where "hcreate_loop (n + 2) = Some p" "prime_size p" "n + 2 \<le> p" "p \<le> 521"
      using less.hyps [of "n + 2"] less.prems(1,2) \<open>n + 2 \<le> 521\<close> diff_less_mono2 [of n "n + 2" 521] by auto
    then show ?thesis using s False by (subst hcreate_loop.simps) auto
  qed
qed

lemma hcreate_r_spec:
  assumes "ht_table h = None" "4 < nel" "nel \<le> 521" "\<forall>n\<le>521. malloc_ok E (Suc n * sizeof_ENTRY)"
  shows "\<exists>h'. hcreate_r E nel h = Some (1, h') \<and> htab_ok h' \<and> env_map h' = Map.empty \<and>
    free_slots h' = ht_size h' \<and> nel \<le> ht_size h' \<and> ht_size h' \<le> 521 \<and> ht_change_ok h' = ht_change_ok h"
proof -
  have "nel OR 1 = nel + of_bool (even nel)" by (rule or_one_eq)
  then have o: "odd (nel OR 1)" "nel \<le> nel OR 1" "nel OR 1 \<le> 521"
    using assms(3) by (auto simp: le_less)
  obtain p where p: "hcreate_loop (nel OR 1) = Some p" "prime_size p" "nel OR 1 \<le> p" "p \<le> 521"
    using hcreate_loop_spec [OF o(1) _ o(3)] assms(2) o(2) by auto
  let ?t = "replicate (Suc p) null_slot"
  let ?h = "h\<lparr>ht_size := p, ht_filled := 0, ht_table := Some ?t\<rparr>"
  have free: "s_used (?t ! i) = 0" if "i \<le> p" for i
    using that nth_replicate [of i "Suc p" null_slot] by (simp add: null_slot_def del: replicate.simps nth_replicate)
  have "tab_ok p ?t"
    unfolding tab_ok_def using p(2) free by (auto simp: live_def simp del: replicate.simps)
  moreover have "{i \<in> {1..p}. live ?t i} = {}" "{i \<in> {1..p}. s_used (?t ! i) = 0} = {1..p}"
    using free by (auto simp: live_def simp del: replicate.simps)
  moreover have "find (\<lambda>i. live ?t i \<and> Q i) [1..<Suc p] = None" for Q
    using free by (auto simp: find_None_iff live_def less_Suc_eq_le simp del: replicate.simps nth_replicate upt_Suc)
  ultimately have "htab_ok ?h" "env_map ?h = Map.empty" "free_slots ?h = p"
    by (auto simp: htab_ok_def env_map_def tab_find_def free_slots_def simp del: upt_Suc replicate.simps)
  moreover have "hcreate_r E nel h = Some (1, ?h)"
    using p assms(1,4) unat_of_nat_small [of p, where 'a = 32] by (auto simp: hcreate_r_def Let_def simp del: replicate.simps)
  ultimately show ?thesis using p o(2) by (intro exI [of _ ?h]) simp
qed


section \<open>The table as a store of variables\<close>

definition answer :: "hresult option \<Rightarrow> (bool \<times> hsearch_data) option" where
  "answer r = map_option (\<lambda>(ret, rv, err, h). (ret \<noteq> 0, h)) r"

definition set_variable :: "env_hooks \<Rightarrow> u32 \<Rightarrow> chars \<Rightarrow> chars \<Rightarrow> hsearch_data \<Rightarrow> (bool \<times> hsearch_data) option" where
  "set_variable E flag k d h = answer (hsearch_r E k (Some d) ENTER h flag)"

definition unset_variable :: "env_hooks \<Rightarrow> u32 \<Rightarrow> chars \<Rightarrow> hsearch_data \<Rightarrow> (bool \<times> hsearch_data) option" where
  "unset_variable E flag k h = answer (hdelete_r k h flag E)"

text \<open>The value of a variable, as a caller of \<open>hsearch_r\<close> reads it through the entry it gets.\<close>

definition get_variable :: "env_hooks \<Rightarrow> chars \<Rightarrow> hsearch_data \<Rightarrow> chars option option" where
  "get_variable E k h = do {
     (ret, ep, err, h) \<leftarrow> hsearch_r E k None FIND h 0;
     case ep of None \<Rightarrow> Some None | Some i \<Rightarrow> do { s \<leftarrow> get_slot h i; Some (e_data (s_entry s)) }
   }"

definition name_fits :: "env_hooks \<Rightarrow> chars \<Rightarrow> bool" where
  "name_fits E k \<longleftrightarrow> 0 \<notin> set k \<and> mem_for E k"

interpretation env: variable_store htab_ok env_map free_slots "permissive E" "name_fits E" "mem_for E"
  "set_variable E flag" "unset_variable E flag" for E flag
proof unfold_locales
  fix h k d assume "htab_ok h" "name_fits E k" "mem_for E d" "0 < free_slots h \<or> env_map h k \<noteq> None"
  then obtain r where "hsearch_r E k (Some d) ENTER h flag = Some r" "set_outcome E h k d r"
    using hsearch_set_spec [of h k E d flag] by (auto simp: name_fits_def)
  then show "\<exists>ok h'. set_variable E flag k d h = Some (ok, h') \<and> htab_ok h' \<and> free_slots h \<le> Suc (free_slots h') \<and>
      env_map h' = (if ok then (env_map h)(k \<mapsto> d) else env_map h) \<and> (permissive E h \<longrightarrow> ok \<and> permissive E h')"
    by (auto simp: set_variable_def answer_def set_outcome_def split: prod.splits if_splits)
next
  fix h k assume "htab_ok h" "name_fits E k"
  then obtain r where "hdelete_r k h flag E = Some r" "unset_outcome E h k r"
    using hdelete_r_spec [of h k flag E] by (auto simp: name_fits_def)
  then show "\<exists>ok h'. unset_variable E flag k h = Some (ok, h') \<and> htab_ok h' \<and> free_slots h' = free_slots h \<and>
      env_map h' = (if ok then (env_map h)(k := None) else env_map h) \<and>
      (permissive E h \<longrightarrow> (ok \<longleftrightarrow> env_map h k \<noteq> None) \<and> permissive E h')"
    by (auto simp: unset_variable_def answer_def unset_outcome_def split: prod.splits if_splits)
qed

lemma get_variable_spec:
  assumes "htab_ok h" "0 \<notin> set k"
  shows "get_variable E k h = Some (env_map h k)"
proof -
  obtain t where t: "ht_table h = Some t" "tab_ok (ht_size h) t" using htab_okE [OF assms(1)] .
  show ?thesis
  proof (cases "tab_find (ht_size h) t k")
    case (Some i)
    then have "i < length t" using tab_find_Some [OF t(2), of k i] tab_okD(4) [OF t(2)] by auto
    then show ?thesis
      using hsearch_find_spec [OF t assms(2), of E None 0] Some t(1) by (simp add: get_variable_def env_map_def slot_simps)
  qed (use hsearch_find_spec [OF t assms(2), of E None 0] t(1) in \<open>simp add: get_variable_def env_map_def\<close>)
qed

text \<open>With no slot left that was never used, a new variable replaces the one its probing starts at.\<close>

lemma enter_without_free_slot:
  assumes "htab_ok h" "ht_table h = Some t" "free_slots h = 0" "env_map h k = None" "0 \<notin> set k"
    "mem_for E k" "mem_for E d" "ht_filled h < ht_size h"
    "s_used (t ! hash_index (ht_size h) k) \<noteq> - 1"
    "ht_change_ok h = None" "\<And>h k. env_callback_init E h k = None"
  shows "\<exists>k' h'. hsearch_r E k (Some d) ENTER h flag = Some (1, Some (hash_index (ht_size h) k), None, h') \<and>
    k' \<noteq> k \<and> env_map h k' \<noteq> None \<and> get_variable E k' h' = Some None \<and> get_variable E k h' = Some (Some d)"
proof -
  let ?n = "ht_size h" and ?i = "hash_index (ht_size h) k"
  have t: "tab_ok ?n t" using assms(1,2) by (simp add: htab_ok_def)
  note n = tab_okD(1,2) [OF t]
  have i: "?i \<in> {1..?n}" "?i < length t" using hash_index_bounds [of ?n k] n(2) tab_okD(4) [OF t] by auto
  have none: "tab_find ?n t k = None" using env_map_find [OF assms(2) t] assms(4) by simp
  have nz: "s_used (t ! j) \<noteq> 0" if "j \<in> {1..?n}" for j
    using assms(2,3) that by (auto simp: free_slots_def)
  then have "locate ?n t k = None" using locate_free(1) [OF t none] by (cases "locate ?n t k") auto
  then have run: "hsearch_r E k (Some d) ENTER h flag = hsearch_enter E k (Some d) ENTER h flag ?i 0 ?i"
    using hsearch_r_locate [OF assms(2) refl t assms(5), of E "Some d" ENTER flag] assms(9) by (simp add: first_del_def)
  have live: "live t ?i" using nz [OF i(1)] tab_okD(5) [OF t i(1)] assms(9) by (simp add: live_def)
  then obtain k' d' where k': "e_key (s_entry (t ! ?i)) = Some k'" "e_data (s_entry (t ! ?i)) = Some d'" "0 \<notin> set k'"
    using tab_okD(6) [OF t i(1)] by (auto simp: slot_ok_def)
  have hit: "hit ?n t k' ?i" using hit_live [OF t i(1)] live k'(1) by simp
  then have find': "tab_find ?n t k' = Some ?i" using tab_find_Some [OF t] i(1) by simp
  then have ne: "k' \<noteq> k" using none by auto
  have f: "unat (of_nat (ht_filled h) + 1 :: u32) = ht_filled h + 1"
    using assms(8) tab_okD(3) [OF t] by (subst unat_add_nowrap) (simp_all add: unat_of_nat_small)
  have dup: "str_dup E (Some k) = Some k" "str_dup E (Some d) = Some d"
    using assms(6,7) by (simp_all add: str_dup_def mem_for_def)
  obtain fl where h': "hsearch_enter E k (Some d) ENTER h flag ?i 0 ?i = Some (1, Some ?i, None, put_at h t ?i
    \<lparr>s_used = int ?i, s_entry = (s_entry (t ! ?i))\<lparr>e_key := Some k, e_data := Some d, e_callback := None, e_flags := fl\<rparr>\<rparr>
    (ht_filled h + 1))"
    using assms(2,8,10,11) i(2) by (simp add: hsearch_enter_def dup f Let_def get_slot_table put_at_steps)
  define s where "s = \<lparr>s_used = int ?i, s_entry = (s_entry (t ! ?i))\<lparr>e_key := Some k, e_data := Some d, e_callback := None, e_flags := fl\<rparr>\<rparr>"
  have s: "0 < s_used s" "e_key (s_entry s) = Some k" "e_data (s_entry s) = Some d" using i(1) by (auto simp: s_def)
  have t': "tab_ok ?n (t[?i := s])"
  proof (rule tab_ok_update [OF t i(1)])
    show "slot_ok ?n (t[?i := s]) ?i"
      unfolding slot_ok_def using i(2) n(2) probe_0 [OF n(2), of k] assms(5)
      by (intro exI [of _ k] exI [of _ d] exI [of _ 0]) (simp add: s_def)
    fix j assume "j \<in> {1..?n}" "live t j" "e_key (s_entry (t ! j)) = e_key (s_entry s)"
    then show "j = ?i" using none hit_live [OF t, of j k] s(2) by (auto simp: tab_find_None [OF t])
  qed (use s(1) in simp_all)
  have new: "tab_find ?n (t[?i := s]) k = Some ?i"
    using tab_find_Some [OF t'] hit_live [OF t' i(1), of k] i s by (simp add: live_def)
  have gone: "tab_find ?n (t[?i := s]) k' = None"
    unfolding tab_find_None [OF t']
  proof
    fix j assume j: "j \<in> {1..?n}"
    show "\<not> hit ?n (t[?i := s]) k' j"
    proof (cases "j = ?i")
      case True
      then show ?thesis using s(2) i(2) ne by (simp add: hit_def)
    next
      case False
      then show ?thesis using j find' tab_find_Some [OF t, of k' j] by (auto simp: hit_def)
    qed
  qed
  let ?h = "put_at h t ?i s (ht_filled h + 1)"
  have tab: "ht_table ?h = Some (t[?i := s])" "ht_size ?h = ?n" by (simp_all add: put_at_def)
  have get: "get_variable E x ?h = Some (case tab_find ?n (t[?i := s]) x of None \<Rightarrow> None
      | Some j \<Rightarrow> e_data (s_entry (t[?i := s] ! j)))" if "0 \<notin> set x" for x
  proof -
    have "j < length (t[?i := s])" if "tab_find ?n (t[?i := s]) x = Some j" for j
      using that tab_find_Some [OF t', of x j] tab_okD(4) [OF t'] by auto
    then show ?thesis
      using hsearch_find_spec [of ?h "t[?i := s]" x E None 0] tab t' that
      by (auto simp: get_variable_def get_slot_table split: option.splits)
  qed
  have "env_map h k' \<noteq> None" using find' assms(2) k'(2) by (simp add: env_map_def)
  then show ?thesis
    using run h' ne get [OF k'(3)] get [OF assms(5)] new gone s(3) i(2) by (auto simp: s_def)
qed


lemma empty_table_permissive:
  assumes "htab_ok h" "free_slots h = ht_size h" "ht_change_ok h = None" "\<forall>h k. env_callback_init E h k = None"
  shows "permissive E h"
proof -
  have "\<not> live t i" if t: "ht_table h = Some t" "i \<in> {1..ht_size h}" for t i
  proof -
    have "card {i \<in> {1..ht_size h}. s_used (t ! i) = 0} = card {1..ht_size h}"
      using assms(2) t(1) by (simp add: free_slots_def)
    then have "{i \<in> {1..ht_size h}. s_used (t ! i) = 0} = {1..ht_size h}" by (intro card_subset_eq) auto
    then have "i \<in> {i \<in> {1..ht_size h}. s_used (t ! i) = 0}" using t(2) by blast
    then show ?thesis by (simp add: live_def)
  qed
  then show ?thesis using assms(3,4) by (auto simp: permissive_def)
qed

section \<open>Properties\<close>

definition plain_hooks :: env_hooks where
  "plain_hooks = \<lparr>malloc_ok = (\<lambda>_. True), env_callback_init = (\<lambda>_ _. None), env_flags_init = (\<lambda>_ _. 0)\<rparr>"

definition no_table :: hsearch_data where
  "no_table = \<lparr>ht_table = None, ht_size = 0, ht_filled = 0, ht_change_ok = None\<rparr>"

lemma plain_hooks_fit: "mem_for plain_hooks s" "name_fits plain_hooks k \<longleftrightarrow> 0 \<notin> set k"
  "malloc_ok plain_hooks n" "env_callback_init plain_hooks h k = None"
  by (simp_all add: mem_for_def name_fits_def plain_hooks_def)

text \<open>
  C4. The hash table is a map. From a table created by \<open>hcreate_r\<close> for \<open>nel\<close> entries (5 to 512, the
  range \<open>himport_r\<close> asks for), every list of changes that sets variables at most \<open>nel\<close> times runs
  without leaving the table, without endless probing and without dereferencing a null pointer, and
  afterwards \<open>hsearch_r\<close> finds for every name exactly what the accepted changes make of an empty map.
  If no permission check and no callback is installed, every change is accepted, apart from the
  deletion of unknown variables.
\<close>

theorem hash_table_is_map:
  assumes "ht_table h = None" "4 < nel" "nel \<le> 512"
    and "\<forall>n\<le>521. malloc_ok E (Suc n * sizeof_ENTRY)"
    and "\<forall>c\<in>set cs. change_fits (name_fits E) (mem_for E) c" "puts cs \<le> nel"
  shows "\<exists>h0 oks h'. hcreate_r E nel h = Some (1, h0) \<and>
    run_changes (set_variable E flag) (unset_variable E flag) cs h0 = Some (oks, h') \<and> length oks = length cs \<and>
    (\<forall>k. 0 \<notin> set k \<longrightarrow> get_variable E k h' = Some (apply_changes cs oks Map.empty k)) \<and>
    (ht_change_ok h = None \<and> (\<forall>h k. env_callback_init E h k = None) \<longrightarrow> oks = open_answers cs Map.empty)"
proof -
  obtain h0 where h0: "hcreate_r E nel h = Some (1, h0)" "htab_ok h0" "env_map h0 = Map.empty"
    "free_slots h0 = ht_size h0" "nel \<le> ht_size h0" "ht_change_ok h0 = ht_change_ok h"
    using hcreate_r_spec [OF assms(1,2) _ assms(4)] assms(3) by auto
  then have "ht_change_ok h = None \<and> (\<forall>h k. env_callback_init E h k = None) \<longrightarrow> permissive E h0"
    using empty_table_permissive by simp
  then show ?thesis
    using env.run_law [OF h0(2) assms(5), of flag] h0 assms(6) get_variable_spec [of _ _ E] by fastforce
qed

theorem hash_table_is_map_witness:
  "\<exists>h0 oks h'. hcreate_r plain_hooks 64 no_table = Some (1, h0) \<and>
    run_changes (set_variable plain_hooks 0) (unset_variable plain_hooks 0) [Put [97] [49], Put [98] [50], Drop [97]] h0 = Some (oks, h') \<and>
    length oks = 3 \<and>
    (\<forall>k. 0 \<notin> set k \<longrightarrow> get_variable plain_hooks k h' = Some (apply_changes [Put [97] [49], Put [98] [50], Drop [97]] oks Map.empty k)) \<and>
    oks = [True, True, True]"
  using hash_table_is_map [of no_table 64 plain_hooks "[Put [97] [49], Put [98] [50], Drop [97]]" 0]
  by (simp add: no_table_def plain_hooks_fit change_fits_def change_map_def)


text \<open>
  A table of five slots after the variables a, b, c, e and d were set and d was deleted again: no
  slot is free any more, slot 5 (where d was) is marked as deleted.
\<close>

definition var_slot :: "int \<Rightarrow> u8 \<Rightarrow> slot" where
  "var_slot u c = \<lparr>s_used = u, s_entry = \<lparr>e_key = Some [c], e_data = Some [49], e_callback = None, e_flags = 0\<rparr>\<rparr>"

definition worn_slots :: "slot list" where
  "worn_slots = [null_slot, var_slot 1 99, var_slot 2 101, var_slot 3 97, var_slot 4 98, null_slot\<lparr>s_used := - 1\<rparr>]"

definition worn_table :: hsearch_data where
  "worn_table = \<lparr>ht_table = Some worn_slots, ht_size = 5, ht_filled = 4, ht_change_ok = None\<rparr>"

lemma prime_size_5: "prime_size 5"
proof -
  have "m = 1 \<or> m = 5" if "m dvd 5" for m :: nat
  proof -
    have "m \<le> 5" using that by (auto dest: dvd_imp_le)
    then have "m \<in> {0, 1, 2, 3, 4, 5}" by auto
    then show ?thesis using that by (auto simp: dvd_eq_mod_eq_0)
  qed
  then show ?thesis by (simp add: prime_size_def)
qed

lemma worn_slot_ok:
  assumes "worn_slots ! i = var_slot (int (hash_index 5 [c])) c" "c \<noteq> 0" "hash_index 5 [c] = i"
  shows "slot_ok 5 worn_slots i"
  unfolding slot_ok_def using assms probe_0 [of 5 "[c]"]
  by (intro exI [of _ "[c]"] exI [of _ "[49]"] exI [of _ 0]) (simp add: var_slot_def)

lemma worn_hash: "hash_index 5 [99] = 1" "hash_index 5 [101] = 2" "hash_index 5 [97] = 3" "hash_index 5 [98] = 4"
  by code_simp+

lemma five: "i \<in> {1..5} \<longleftrightarrow> i = 1 \<or> i = 2 \<or> i = 3 \<or> i = 4 \<or> i = (5 :: nat)"
  by auto

lemma worn_live: "{i \<in> {1..5}. live worn_slots i} = {1, 2, 3, 4}" "{i \<in> {1..5}. s_used (worn_slots ! i) = 0} = {}"
  unfolding five by (auto simp: live_def worn_slots_def var_slot_def null_slot_def)

lemma worn_table_ok: "htab_ok worn_table"
proof -
  have "slot_ok 5 worn_slots 1"
    using worn_slot_ok [of 1 99] worn_hash by (simp add: worn_slots_def)
  moreover have "slot_ok 5 worn_slots 2"
    using worn_slot_ok [of 2 101] worn_hash by (simp add: worn_slots_def)
  moreover have "slot_ok 5 worn_slots 3"
    using worn_slot_ok [of 3 97] worn_hash by (simp add: worn_slots_def)
  moreover have "slot_ok 5 worn_slots 4"
    using worn_slot_ok [of 4 98] worn_hash by (simp add: worn_slots_def)
  moreover have "\<not> live worn_slots 5" by (simp add: live_def worn_slots_def)
  ultimately have "tab_ok 5 worn_slots"
    unfolding tab_ok_def five using prime_size_5
    by (auto simp: worn_slots_def var_slot_def null_slot_def live_def)
  then show ?thesis using worn_live by (simp add: htab_ok_def worn_table_def)
qed

text \<open>
  C37. A variable can be lost. When every slot has been used once and the first slot probed for a
  new name is occupied, \<open>hsearch_r\<close> does not reuse the deleted slots it passes: it stores the new
  variable over the one in the first slot and reports success. The overwritten variable, which
  nobody deleted, is gone.
\<close>

theorem worn_table_loses_variable:
  assumes "htab_ok h" "ht_table h = Some t" "free_slots h = 0" "env_map h k = None" "0 \<notin> set k"
    "mem_for E k" "mem_for E d" "ht_filled h < ht_size h"
    "s_used (t ! hash_index (ht_size h) k) \<noteq> - 1"
    "ht_change_ok h = None" "\<forall>h k. env_callback_init E h k = None"
  shows "\<exists>k' h'. hsearch_r E k (Some d) ENTER h flag = Some (1, Some (hash_index (ht_size h) k), None, h') \<and>
    k' \<noteq> k \<and> env_map h k' \<noteq> None \<and> get_variable E k' h' = Some None \<and> get_variable E k h' = Some (Some d)"
  using enter_without_free_slot [OF assms(1-10)] assms(11) by blast

theorem worn_table_loses_variable_witness:
  "\<exists>k' h'. hsearch_r plain_hooks [102] (Some [50]) ENTER worn_table 0 = Some (1, Some 3, None, h') \<and>
    k' \<noteq> [102] \<and> env_map worn_table k' \<noteq> None \<and> get_variable plain_hooks k' h' = Some None \<and>
    get_variable plain_hooks [102] h' = Some (Some [50])"
proof -
  have k: "hash_index 5 [102] = 3" by code_simp
  have none: "env_map worn_table [102] = None"
    by (simp add: env_map_def worn_table_def tab_find_def worn_slots_def var_slot_def null_slot_def live_def upt_rec)
  have "free_slots worn_table = 0" using worn_live(2) by (simp add: free_slots_def worn_table_def)
  then show ?thesis
    using worn_table_loses_variable [OF worn_table_ok, of worn_slots "[102]" plain_hooks "[50]" 0] k none
    by (simp add: plain_hooks_fit) (simp add: worn_table_def worn_slots_def var_slot_def null_slot_def)
qed

end
