(* ===== verification/Qsort.thy ===== *)
theory Qsort
  imports Prelude "HOL-Library.Multiset"
begin

text \<open>
  The Shell sort of \<^verbatim>\<open>lib/qsort.c\<close>. The array is a list of elements and offsets count elements: in
  the code every offset is a multiple of \<open>width\<close>, and its innermost loop exchanges two elements byte
  by byte. The comparison function may fail (\<open>None\<close>), as one that dereferences its arguments can.
\<close>

section \<open>Model\<close>

text \<open>The gap: 1, 4, 13, ... up to a third of the array.\<close>

partial_function (option) gap_loop :: "nat \<Rightarrow> nat \<Rightarrow> nat option" where
  "gap_loop nel wgap =
     (let wgap = 3 * wgap + 1 in if wgap < (nel - 1) div 3 then gap_loop nel wgap else Some wgap)"

text \<open>The inner do-while loop, which moves the element at \<open>j\<close> down in steps of the gap.\<close>

partial_function (option) sift_loop :: "('a \<Rightarrow> 'a \<Rightarrow> int option) \<Rightarrow> nat \<Rightarrow> nat \<Rightarrow> 'a list \<Rightarrow> 'a list option" where
  "sift_loop cmp wgap j xs = do {
     let j = j - wgap;
     a \<leftarrow> aget xs j;
     b \<leftarrow> aget xs (j + wgap);
     c \<leftarrow> cmp a b;
     if c \<le> 0 then Some xs
     else do {
       let xs = xs[j := b, j + wgap := a];
       if j \<ge> wgap then sift_loop cmp wgap j xs else Some xs
     }
   }"

partial_function (option) pass_loop ::
  "('a \<Rightarrow> 'a \<Rightarrow> int option) \<Rightarrow> nat \<Rightarrow> nat \<Rightarrow> nat \<Rightarrow> 'a list \<Rightarrow> 'a list option" where
  "pass_loop cmp nel wgap i xs = do {
     xs \<leftarrow> sift_loop cmp wgap i xs;
     if i + 1 < nel then pass_loop cmp nel wgap (i + 1) xs else Some xs
   }"

partial_function (option) gaps_loop :: "('a \<Rightarrow> 'a \<Rightarrow> int option) \<Rightarrow> nat \<Rightarrow> nat \<Rightarrow> 'a list \<Rightarrow> 'a list option" where
  "gaps_loop cmp nel wgap xs = do {
     xs \<leftarrow> pass_loop cmp nel wgap wgap xs;
     let wgap = (wgap - 1) div 3;
     if wgap \<noteq> 0 then gaps_loop cmp nel wgap xs else Some xs
   }"

definition qsort :: "('a \<Rightarrow> 'a \<Rightarrow> int option) \<Rightarrow> 'a list \<Rightarrow> 'a list option" where
  "qsort cmp xs =
     (if length xs > 1 then do { wgap \<leftarrow> gap_loop (length xs) 0; gaps_loop cmp (length xs) wgap xs }
      else Some xs)"

declare gap_loop.simps [code] sift_loop.simps [code] pass_loop.simps [code] gaps_loop.simps [code]

section \<open>The gap sequence\<close>

inductive shell_gap :: "nat \<Rightarrow> bool" where
  one: "shell_gap 1"
| more: "shell_gap w \<Longrightarrow> shell_gap (3 * w + 1)"

lemma gap_loop_spec:
  assumes "w = 0 \<or> shell_gap w" "w = 0 \<or> w < (n - 1) div 3" "1 < n"
  shows "\<exists>g. gap_loop n w = Some g \<and> shell_gap g \<and> g < n"
  using assms
proof (induction "n - w" arbitrary: w rule: less_induct)
  case less
  have g: "shell_gap (3 * w + 1)" using less.prems(1) shell_gap.intros by auto
  show ?case
  proof (cases "3 * w + 1 < (n - 1) div 3")
    case True
    moreover from True have "3 * w + 1 < n" by linarith
    ultimately show ?thesis
      using less.hyps [of "3 * w + 1"] g less.prems(3) by (subst gap_loop.simps) (auto simp: Let_def)
  next
    case False
    moreover have "3 * w + 1 < n" using less.prems(2,3) by auto
    ultimately show ?thesis using g by (subst gap_loop.simps) (simp add: Let_def)
  qed
qed


section \<open>Sorting\<close>

text \<open>The comparison function decides the order \<open>le\<close> on the elements of the array.\<close>

definition decides :: "('a \<Rightarrow> 'a \<Rightarrow> int option) \<Rightarrow> ('a \<Rightarrow> 'a \<Rightarrow> bool) \<Rightarrow> 'a set \<Rightarrow> bool" where
  "decides cmp le S \<longleftrightarrow>
     (\<forall>x\<in>S. \<forall>y\<in>S. \<exists>c. cmp x y = Some c \<and> (c \<le> 0 \<longleftrightarrow> le x y)) \<and>
     (\<forall>x\<in>S. \<forall>y\<in>S. le x y \<or> le y x) \<and>
     (\<forall>x\<in>S. \<forall>y\<in>S. \<forall>z\<in>S. le x y \<and> le y z \<longrightarrow> le x z)"

lemma decidesD:
  assumes "decides cmp le S" "x \<in> S" "y \<in> S"
  shows "\<exists>c. cmp x y = Some c \<and> (c \<le> 0 \<longleftrightarrow> le x y)" "le x y \<or> le y x"
    "z \<in> S \<Longrightarrow> le x y \<Longrightarrow> le y z \<Longrightarrow> le x z"
  using assms unfolding decides_def by blast+

lemma mset_exchange:
  "i < length xs \<Longrightarrow> j < length xs \<Longrightarrow> mset (xs[i := xs ! j, j := xs ! i]) = mset xs"
  by (rule mset_swap)

text \<open>Every pass keeps the elements; a pass with gap 1 sorts.\<close>

lemma sift_loop_perm:
  assumes "decides cmp le (set xs)" "0 < g" "g \<le> j" "j < length xs"
  shows "\<exists>ys. sift_loop cmp g j xs = Some ys \<and> mset ys = mset xs"
  using assms
proof (induction j arbitrary: xs rule: less_induct)
  case (less j)
  let ?a = "xs ! (j - g)" and ?b = "xs ! j"
  obtain c where c: "cmp ?a ?b = Some c" using decidesD(1) [OF less.prems(1), of ?a ?b] less.prems(2-) by auto
  let ?xs = "xs[j - g := ?b, j := ?a]"
  have m: "mset ?xs = mset xs" using mset_exchange [of "j - g" xs j] less.prems by simp
  then have s: "set ?xs = set xs" by (metis set_mset_mset)
  have "\<exists>ys. sift_loop cmp g (j - g) ?xs = Some ys \<and> mset ys = mset xs" if "g \<le> j - g"
    using less.IH [of "j - g" ?xs] less.prems that s m by simp
  then show ?case
    using c less.prems m by (subst sift_loop.simps) (auto simp: Let_def aget_simps)
qed

lemma sorted_wrt_snoc: "sorted_wrt le (xs @ [x]) \<longleftrightarrow> sorted_wrt le xs \<and> (\<forall>y\<in>set xs. le y x)"
  by (simp add: sorted_wrt_append)

lemma sift_loop_insert:
  assumes "decides cmp le (set xs)" "0 < j" "j < length xs" "sorted_wrt le (take j xs)"
  shows "\<exists>ys. sift_loop cmp 1 j xs = Some ys \<and> mset ys = mset xs \<and>
    sorted_wrt le (take (Suc j) ys) \<and> drop (Suc j) ys = drop (Suc j) xs"
  using assms
proof (induction j arbitrary: xs)
  case (Suc j)
  let ?a = "xs ! j" and ?b = "xs ! Suc j"
  let ?S = "set xs"
  have ab: "?a \<in> ?S" "?b \<in> ?S" using Suc.prems(3) by simp_all
  have tk: "take (Suc j) xs = take j xs @ [?a]" "take (Suc (Suc j)) xs = take (Suc j) xs @ [?b]"
    using Suc.prems(3) by (simp_all add: take_Suc_conv_app_nth)
  have srt: "sorted_wrt le (take j xs)" "\<forall>y\<in>set (take j xs). le y ?a"
    using Suc.prems(4) tk(1) by (simp_all add: sorted_wrt_snoc)
  obtain c where c: "cmp ?a ?b = Some c" "c \<le> 0 \<longleftrightarrow> le ?a ?b" using decidesD(1) [OF Suc.prems(1) ab] by blast
  show ?case
  proof (cases "le ?a ?b")
    case True
    have "\<forall>y\<in>set (take (Suc j) xs). le y ?b"
      using srt(2) True decidesD(3) [OF Suc.prems(1) _ ab(1), of _ ?b] ab in_set_takeD tk(1) by fastforce
    then have "sorted_wrt le (take (Suc (Suc j)) xs)" using Suc.prems(4) tk(2) by (simp add: sorted_wrt_snoc)
    moreover have "sift_loop cmp 1 (Suc j) xs = Some xs"
      using c True Suc.prems(3) by (subst sift_loop.simps) (simp add: Let_def aget_simps)
    ultimately show ?thesis by blast
  next
    case False
    then have ba: "le ?b ?a" using decidesD(2) [OF Suc.prems(1) ab] by blast
    let ?xs = "xs[j := ?b, Suc j := ?a]"
    have m: "mset ?xs = mset xs" using mset_exchange [of j xs "Suc j"] Suc.prems(3) by simp
    then have s: "set ?xs = ?S" by (metis set_mset_mset)
    have run: "sift_loop cmp 1 (Suc j) xs = (if 1 \<le> j then sift_loop cmp 1 j ?xs else Some ?xs)"
      using c False Suc.prems(3) by (subst sift_loop.simps) (simp add: Let_def aget_simps)
    obtain ys where ys: "sift_loop cmp 1 (Suc j) xs = Some ys" "mset ys = mset xs"
      "sorted_wrt le (take (Suc j) ys)" "drop (Suc j) ys = drop (Suc j) ?xs"
    proof (cases "j = 0")
      case True
      then show ?thesis using that [of ?xs] run m Suc.prems(3) by (cases xs) (auto simp: take_Suc)
    next
      case False
      then show ?thesis
        using that run m s Suc.IH [of ?xs] Suc.prems srt(1) by auto
    qed
    have len: "length ys = length xs" using ys(2) by (metis size_mset)
    have rest: "ys ! Suc j = ?a" "drop (Suc (Suc j)) ys = drop (Suc (Suc j)) xs"
    proof -
      have d: "drop (Suc j) ?xs = ?a # drop (Suc (Suc j)) xs"
        using Suc.prems(3) by (simp add: Cons_nth_drop_Suc [symmetric])
      have "drop (Suc j) ys = ys ! Suc j # drop (Suc (Suc j)) ys"
        using len Suc.prems(3) by (simp add: Cons_nth_drop_Suc)
      then show "ys ! Suc j = ?a" "drop (Suc (Suc j)) ys = drop (Suc (Suc j)) xs" using ys(4) d by simp_all
    qed
    have "mset (take (Suc j) ys) + mset (drop (Suc j) ys) = mset (take (Suc j) ?xs) + mset (drop (Suc j) ?xs)"
      using ys(2) m by (metis append_take_drop_id mset_append)
    then have "mset (take (Suc j) ys) = mset (take (Suc j) ?xs)" using ys(4) by simp
    then have "set (take (Suc j) ys) = set (take (Suc j) ?xs)" by (metis set_mset_mset)
    also have "take (Suc j) ?xs = take j xs @ [?b]" using Suc.prems(3) by (simp add: take_Suc_conv_app_nth)
    finally have "\<forall>y\<in>set (take (Suc j) ys). le y ?a" using srt(2) ba by auto
    then have "sorted_wrt le (take (Suc (Suc j)) ys)"
      using ys(3) rest(1) len Suc.prems(3) take_Suc_conv_app_nth [of "Suc j" ys] by (simp add: sorted_wrt_snoc)
    then show ?thesis using ys(1,2) rest(2) by blast
  qed
qed simp

lemma pass_loop_spec:
  assumes "decides cmp le (set xs)" "0 < g" "g \<le> i" "i < length xs"
    "g = 1 \<Longrightarrow> sorted_wrt le (take i xs)"
  shows "\<exists>ys. pass_loop cmp (length xs) g i xs = Some ys \<and> mset ys = mset xs \<and> (g = 1 \<longrightarrow> sorted_wrt le ys)"
  using assms
proof (induction "length xs - i" arbitrary: i xs rule: less_induct)
  case less
  obtain ys where ys: "sift_loop cmp g i xs = Some ys" "mset ys = mset xs"
    "g = 1 \<longrightarrow> sorted_wrt le (take (Suc i) ys)"
    using sift_loop_perm [OF less.prems(1-4)] sift_loop_insert [OF less.prems(1) _ less.prems(4)] less.prems(2,3,5)
    by (cases "g = 1") auto
  have eq: "set ys = set xs" "length ys = length xs" using ys(2) by (metis set_mset_mset, metis size_mset)
  show ?case
  proof (cases "Suc i < length xs")
    case True
    then obtain zs where "pass_loop cmp (length xs) g (Suc i) ys = Some zs" "mset zs = mset xs" "g = 1 \<longrightarrow> sorted_wrt le zs"
      using less.hyps [of ys "Suc i"] eq ys(2,3) less.prems(1-4) diff_less_mono2 [OF lessI less.prems(4)] by auto
    then show ?thesis using ys(1) True by (subst pass_loop.simps) simp
  next
    case False
    then have "take (Suc i) ys = ys" using eq(2) by simp
    then show ?thesis using ys False by (subst pass_loop.simps) auto
  qed
qed

lemma gaps_loop_spec:
  assumes "shell_gap g" "decides cmp le (set xs)" "g < length xs"
  shows "\<exists>ys. gaps_loop cmp (length xs) g xs = Some ys \<and> mset ys = mset xs \<and> sorted_wrt le ys"
  using assms
proof (induction arbitrary: xs rule: shell_gap.induct)
  case one
  have "sorted_wrt le (take 1 xs)" by (cases xs) simp_all
  then show ?case
    using pass_loop_spec [OF one(1), of 1 1] one(2) by (subst gaps_loop.simps) (auto simp: Let_def)
next
  case (more w)
  have w: "0 < w" using more.hyps by (induction rule: shell_gap.induct) simp_all
  obtain ys where ys: "pass_loop cmp (length xs) (3 * w + 1) (3 * w + 1) xs = Some ys" "mset ys = mset xs"
    using pass_loop_spec [OF more.prems(1), of "3 * w + 1" "3 * w + 1"] more.prems(2) w by auto
  have eq: "set ys = set xs" "length ys = length xs" using ys(2) by (metis set_mset_mset, metis size_mset)
  obtain zs where "gaps_loop cmp (length xs) w ys = Some zs" "mset zs = mset xs" "sorted_wrt le zs"
    using more.IH [of ys] more.prems eq ys(2) by auto
  then show ?case using ys(1) w by (subst gaps_loop.simps) (simp add: Let_def)
qed

lemma qsort_spec:
  assumes "decides cmp le (set xs)"
  shows "\<exists>ys. qsort cmp xs = Some ys \<and> mset ys = mset xs \<and> sorted_wrt le ys"
proof (cases "1 < length xs")
  case True
  then obtain g where "gap_loop (length xs) 0 = Some g" "shell_gap g" "g < length xs"
    using gap_loop_spec [of 0 "length xs"] by auto
  then show ?thesis using gaps_loop_spec [OF _ assms] True by (simp add: qsort_def)
next
  case False
  then have "sorted_wrt le xs" by (cases xs) (auto simp: Suc_le_eq)
  then show ?thesis using False by (simp add: qsort_def)
qed

section \<open>Properties\<close>

text \<open>
  C20. \<open>qsort\<close> sorts. Whenever the comparison function decides a total preorder on the elements of
  the array, the Shell sort terminates, accesses only the array, and leaves the same elements in
  ascending order.
\<close>

theorem qsort_correct:
  assumes "decides cmp le (set xs)"
  shows "\<exists>ys. qsort cmp xs = Some ys \<and> mset ys = mset xs \<and> sorted_wrt le ys"
  using assms by (rule qsort_spec)

theorem qsort_correct_witness:
  "\<exists>ys. qsort (\<lambda>x y. Some (x - y)) [5, 3, 9, 1, 7 :: int] = Some ys \<and> mset ys = mset [5, 3, 9, 1, 7] \<and>
     sorted_wrt (\<le>) ys"
  by (rule qsort_correct) (auto simp: decides_def)

end
