(* ===== verification/Env_text.thy ===== *)
theory Env_text
  imports Hashtable Qsort
begin

unbundle bit_operations_syntax

text \<open>
  The text form of the environment: \<open>hexport_r\<close> and \<open>himport_r\<close> of \<^verbatim>\<open>lib/hashtable.c\<close>. The result
  buffer of the export and the work copy of the import are byte lists with guarded accesses;
  \<open>himport_r\<close> parses its copy in place, as the code does, and calls the hash table. The regular
  expression library is a parameter, present when \<open>CONFIG_REGEX\<close> is set: it compiles a pattern or
  fails.
\<close>

section \<open>Flags and matching\<close>

definition H_NOCLEAR :: u32 where "H_NOCLEAR = 0x1"
definition H_HIDE_DOT :: u32 where "H_HIDE_DOT = 0x8"
definition H_MATCH_KEY :: u32 where "H_MATCH_KEY = 0x10"
definition H_MATCH_DATA :: u32 where "H_MATCH_DATA = 0x20"
definition H_MATCH_IDENT :: u32 where "H_MATCH_IDENT = 0x40"
definition H_MATCH_SUBSTR :: u32 where "H_MATCH_SUBSTR = 0x80"
definition H_MATCH_REGEX :: u32 where "H_MATCH_REGEX = 0x100"
definition H_MATCH_METHOD :: u32 where "H_MATCH_METHOD = H_MATCH_IDENT OR H_MATCH_SUBSTR OR H_MATCH_REGEX"

definition cmpkey :: "entry \<Rightarrow> entry \<Rightarrow> int option" where
  "cmpkey e1 e2 = do { k1 \<leftarrow> e_key e1; k2 \<leftarrow> e_key e2; str_cmp k1 k2 }"

definition str_str :: "chars \<Rightarrow> chars \<Rightarrow> bool option" where
  "str_str s pat = do { r \<leftarrow> strstr (s @ 0 # pat @ [0]) 0 (Suc (length s)); Some (r \<noteq> None) }"

type_synonym regex = "(chars \<Rightarrow> (chars \<Rightarrow> bool) option) option"

definition match_string :: "(chars \<Rightarrow> bool) option \<Rightarrow> u32 \<Rightarrow> chars \<Rightarrow> chars \<Rightarrow> bool option" where
  "match_string priv flag str pat =
     (let method = flag AND H_MATCH_METHOD in
      if method = H_MATCH_IDENT then do { c \<leftarrow> str_cmp str pat; Some (c = 0) }
      else if method = H_MATCH_SUBSTR then str_str str pat
      else if method = H_MATCH_REGEX then Some (case priv of None \<Rightarrow> False | Some matcher \<Rightarrow> matcher str)
      else Some False)"

definition match_arg :: "(chars \<Rightarrow> bool) option \<Rightarrow> entry \<Rightarrow> u32 \<Rightarrow> chars \<Rightarrow> bool option" where
  "match_arg priv ep flag arg = do {
     k \<leftarrow> (if flag AND H_MATCH_KEY \<noteq> 0 then do { k \<leftarrow> e_key ep; match_string priv flag k arg } else Some False);
     if k then Some True
     else if flag AND H_MATCH_DATA \<noteq> 0 then do { d \<leftarrow> e_data ep; match_string priv flag d arg }
     else Some False
   }"

fun match_entry :: "regex \<Rightarrow> entry \<Rightarrow> u32 \<Rightarrow> chars list \<Rightarrow> bool option" where
  "match_entry slre ep flag [] = Some False"
| "match_entry slre ep flag (arg # argv) =
     (case slre of
        Some compile \<Rightarrow>
          (case compile arg of
             None \<Rightarrow> Some False
           | Some matcher \<Rightarrow> do {
               found \<leftarrow> match_arg (Some matcher) ep flag arg;
               if found then Some True else match_entry slre ep flag argv
             })
      | None \<Rightarrow> do {
          found \<leftarrow> match_arg None ep flag arg;
          if found then Some True else match_entry slre ep flag argv
        })"

section \<open>Export\<close>

text \<open>The length pass 1 reserves for a value.\<close>

definition export_len :: "u8 \<Rightarrow> chars \<Rightarrow> nat" where
  "export_len sep d = (if sep = 0 then length d
     else length d + length (filter (\<lambda>c. c = sep \<or> c = 0x5c) d))"

text \<open>Pass 1: the entries to export and the total length.\<close>

fun export_scan ::
  "regex \<Rightarrow> hsearch_data \<Rightarrow> u8 \<Rightarrow> u32 \<Rightarrow> chars list \<Rightarrow> nat list \<Rightarrow> (entry list \<times> nat) option" where
  "export_scan slre h sep flag argv [] = Some ([], 0)"
| "export_scan slre h sep flag argv (i # is) = do {
     s \<leftarrow> get_slot h i;
     if s_used s > 0 then do {
       let ep = s_entry s;
       found \<leftarrow> match_entry slre ep flag argv;
       if argv \<noteq> [] \<and> \<not> found then export_scan slre h sep flag argv is
       else do {
         k \<leftarrow> e_key ep;
         if flag AND H_HIDE_DOT \<noteq> 0 \<and> k \<noteq> [] \<and> hd k = 0x2e then export_scan slre h sep flag argv is
         else do {
           d \<leftarrow> e_data ep;
           (lst, totlen) \<leftarrow> export_scan slre h sep flag argv is;
           Some (ep # lst, length k + 2 + export_len sep d + 2 + totlen)
         }
       }
     }
     else export_scan slre h sep flag argv is
   }"

text \<open>Pass 2: \<open>p\<close> is the position in the result buffer \<open>res\<close>.\<close>

fun write_chars :: "chars \<Rightarrow> u8 list \<Rightarrow> nat \<Rightarrow> (u8 list \<times> nat) option" where
  "write_chars [] res p = Some (res, p)"
| "write_chars (c # s) res p = do { res \<leftarrow> aset res p c; write_chars s res (Suc p) }"

fun write_escaped :: "u8 \<Rightarrow> chars \<Rightarrow> u8 list \<Rightarrow> nat \<Rightarrow> (u8 list \<times> nat) option" where
  "write_escaped sep [] res p = Some (res, p)"
| "write_escaped sep (c # s) res p = do {
     (res, p) \<leftarrow> (if c = sep \<or> c = 0x5c then do { res \<leftarrow> aset res p 0x5c; Some (res, Suc p) } else Some (res, p));
     res \<leftarrow> aset res p c;
     write_escaped sep s res (Suc p)
   }"

fun export_write :: "u8 \<Rightarrow> entry list \<Rightarrow> u8 list \<Rightarrow> nat \<Rightarrow> (u8 list \<times> nat) option" where
  "export_write sep [] res p = Some (res, p)"
| "export_write sep (ep # lst) res p = do {
     k \<leftarrow> e_key ep;
     (res, p) \<leftarrow> write_chars k res p;
     res \<leftarrow> aset res p 0x3d;
     d \<leftarrow> e_data ep;
     (res, p) \<leftarrow> write_escaped sep d res (Suc p);
     res \<leftarrow> aset res p sep;
     export_write sep lst res (Suc p)
   }"

text \<open>The result: the return value, \<open>*resp\<close> and \<open>errno\<close>.\<close>

definition hexport_r ::
  "env_hooks \<Rightarrow> regex \<Rightarrow> hsearch_data \<Rightarrow> u8 \<Rightarrow> u32 \<Rightarrow> u8 list option \<Rightarrow> nat \<Rightarrow> chars list
   \<Rightarrow> (int \<times> u8 list option \<times> errno option) option" where
  "hexport_r E slre h sep flag resp sz argv = do {
     (lst, totlen) \<leftarrow> export_scan slre h sep flag argv [1..<Suc (ht_size h)];
     lst \<leftarrow> qsort cmpkey lst;
     if sz \<noteq> 0 \<and> sz < totlen + 1 then Some (- 1, resp, Some ENOMEM)
     else do {
       let sz = (if sz \<noteq> 0 then sz else totlen + 1);
       res \<leftarrow> (case resp of
         Some buf \<Rightarrow> do { res \<leftarrow> memset buf 0 0 sz; Some (Some res) }
       | None \<Rightarrow> Some (if malloc_ok E sz then Some (replicate sz 0) else None));
       case res of
         None \<Rightarrow> Some (- 1, None, Some ENOMEM)
       | Some res \<Rightarrow> do {
           (res, p) \<leftarrow> export_write sep lst res 0;
           res \<leftarrow> aset res p 0;
           Some (int sz, Some res, None)
         }
     }
   }"

section \<open>Import\<close>

text \<open>The list of variables, where a cleared entry is a null pointer; the result is \<open>res\<close>.\<close>

fun drop_var_loop :: "chars \<Rightarrow> chars option list \<Rightarrow> (bool \<times> chars option list) option" where
  "drop_var_loop name [] = Some (False, [])"
| "drop_var_loop name (v # vars) = do {
     (hit, v) \<leftarrow> (case v of
        None \<Rightarrow> Some (False, None)
      | Some s \<Rightarrow> do { c \<leftarrow> str_cmp name s; Some (if c = 0 then (True, None) else (False, Some s)) });
     (res, vars) \<leftarrow> drop_var_loop name vars;
     Some (hit \<or> res, v # vars)
   }"

definition drop_var_from_set :: "chars \<Rightarrow> chars option list \<Rightarrow> (bool \<times> chars option list) option" where
  "drop_var_from_set name vars = (if vars = [] then Some (True, []) else drop_var_loop name vars)"

text \<open>A pointer moved forward until it stands on a stopping character.\<close>

function scan_to :: "(u8 \<Rightarrow> bool) \<Rightarrow> mem \<Rightarrow> nat \<Rightarrow> nat option" where
  "scan_to stop m p = do { c \<leftarrow> aget m p; if stop c then Some p else scan_to stop m (Suc p) }"
  by pat_completeness auto
termination
  by (relation "measure (\<lambda>(stop, m, p). length m - p)") auto

declare scan_to.simps [simp del]

definition read_str :: "mem \<Rightarrow> nat \<Rightarrow> chars option" where
  "read_str m p = do { n \<leftarrow> strlen m p; Some (take n (drop p m)) }"

function value_loop :: "u8 \<Rightarrow> mem \<Rightarrow> nat \<Rightarrow> nat \<Rightarrow> (mem \<times> nat \<times> nat) option" where
  "value_loop sep m sp dp = do {
     c \<leftarrow> aget m dp;
     if c = 0 \<or> c = sep then Some (m, sp, dp)
     else do {
       esc \<leftarrow> (if c = 0x5c then do { c' \<leftarrow> aget m (dp + 1); Some (c' \<noteq> 0) } else Some False);
       let dp = (if esc then dp + 1 else dp);
       c \<leftarrow> aget m dp;
       m \<leftarrow> aset m sp c;
       value_loop sep m (Suc sp) (Suc dp)
     }
   }"
  by pat_completeness auto
termination
  by (relation "measure (\<lambda>(sep, m, sp, dp). length m - dp)") (auto split: if_splits)

declare value_loop.simps [simp del]

text \<open>What one turn of the parsing loop found.\<close>

datatype parsed = Comment | Delete_var chars | Insert_var chars chars

definition parse_entry :: "u8 \<Rightarrow> mem \<Rightarrow> nat \<Rightarrow> (parsed \<times> mem \<times> nat) option" where
  "parse_entry sep m dp = do {
     dp \<leftarrow> scan_to (\<lambda>c. \<not> isblank c) m dp;
     c \<leftarrow> aget m dp;
     if c = 0x23 then do {
       dp \<leftarrow> scan_to (\<lambda>c. c = 0 \<or> c = sep) m dp;
       Some (Comment, m, dp + 1)
     }
     else do {
       let name = dp;
       dp \<leftarrow> scan_to (\<lambda>c. c = 0x3d \<or> c = 0 \<or> c = sep) m dp;
       c \<leftarrow> aget m dp;
       del \<leftarrow> (if c = 0 \<or> c = sep then Some True
               else do { c' \<leftarrow> aget m (dp + 1); Some (c' = 0 \<or> c' = sep) });
       if del then do {
         (m, dp) \<leftarrow> (if c = 0x3d then do { m \<leftarrow> aset m dp 0; Some (m, dp + 1) } else Some (m, dp));
         m \<leftarrow> aset m dp 0;
         name \<leftarrow> read_str m name;
         Some (Delete_var name, m, dp + 1)
       }
       else do {
         m \<leftarrow> aset m dp 0;
         let dp = dp + 1;
         let value = dp;
         (m, sp, dp) \<leftarrow> value_loop sep m dp dp;
         m \<leftarrow> aset m sp 0;
         name \<leftarrow> read_str m name;
         value \<leftarrow> read_str m value;
         Some (Insert_var name value, m, dp + 1)
       }
     }
   }"

text \<open>
  The parsing loop over the work copy \<open>m\<close>; the result is the table and the remaining variables,
  and whether the loop was left because of an empty name.
\<close>

partial_function (option) himport_loop ::
  "env_hooks \<Rightarrow> u8 \<Rightarrow> u32 \<Rightarrow> nat \<Rightarrow> hsearch_data \<Rightarrow> chars option list \<Rightarrow> mem \<Rightarrow> nat
   \<Rightarrow> (bool \<times> hsearch_data \<times> chars option list) option" where
  "himport_loop E sep flag sz h vars m dp = do {
     (p, m, dp) \<leftarrow> parse_entry sep m dp;
     (err, h, vars) \<leftarrow> (case p of
        Comment \<Rightarrow> Some (False, h, vars)
      | Delete_var name \<Rightarrow> do {
          (listed, vars) \<leftarrow> drop_var_from_set name vars;
          if \<not> listed then Some (False, h, vars)
          else do { (r, ep, err, h) \<leftarrow> hdelete_r name h flag E; Some (False, h, vars) }
        }
      | Insert_var name value \<Rightarrow>
          if name = [] then Some (True, h, vars)
          else do {
            (listed, vars) \<leftarrow> drop_var_from_set name vars;
            if \<not> listed then Some (False, h, vars)
            else do { (r, rv, err, h) \<leftarrow> hsearch_r E name (Some value) ENTER h flag; Some (False, h, vars) }
          });
     if err then Some (True, h, vars)
     else if dp < sz then do {
       c \<leftarrow> aget m dp;
       if c \<noteq> 0 then himport_loop E sep flag sz h vars m dp else Some (False, h, vars)
     }
     else Some (False, h, vars)
   }"

declare himport_loop.simps [code]

text \<open>\<open>crlf_is_lf\<close>: carriage returns before line feeds are squeezed out.\<close>

function crlf_loop :: "nat \<Rightarrow> mem \<Rightarrow> nat \<Rightarrow> nat \<Rightarrow> (mem \<times> nat) option" where
  "crlf_loop sz m ignored_crs dp =
     (if dp \<ge> sz then Some (m, ignored_crs)
      else do {
        c \<leftarrow> aget m dp;
        if c = 0 then Some (m, ignored_crs)
        else do {
          drop_it \<leftarrow> (if c = 0x0d \<and> dp < sz - 1 then do { c' \<leftarrow> aget m (dp + 1); Some (c' = 0x0a) } else Some False);
          if drop_it then crlf_loop sz m (Suc ignored_crs) (Suc dp)
          else do { m \<leftarrow> aset m (dp - ignored_crs) c; crlf_loop sz m ignored_crs (Suc dp) }
        }
      })"
  by pat_completeness auto
termination
  by (relation "measure (\<lambda>(sz, m, n, dp). sz - dp)") auto

declare crlf_loop.simps [simp del]

fun delete_rest :: "env_hooks \<Rightarrow> u32 \<Rightarrow> hsearch_data \<Rightarrow> chars option list \<Rightarrow> hsearch_data option" where
  "delete_rest E flag h [] = Some h"
| "delete_rest E flag h (None # vars) = delete_rest E flag h vars"
| "delete_rest E flag h (Some v # vars) = do { (r, ep, err, h) \<leftarrow> hdelete_r v h flag E; delete_rest E flag h vars }"

definition CONFIG_ENV_MIN_ENTRIES :: nat where "CONFIG_ENV_MIN_ENTRIES = 64"
definition CONFIG_ENV_MAX_ENTRIES :: nat where "CONFIG_ENV_MAX_ENTRIES = 512"

definition import_entries :: "nat \<Rightarrow> nat" where
  "import_entries sz =
     (let nent = CONFIG_ENV_MIN_ENTRIES + sz div 8
      in if nent > CONFIG_ENV_MAX_ENTRIES then CONFIG_ENV_MAX_ENTRIES else nent)"

definition himport_r ::
  "env_hooks \<Rightarrow> hsearch_data \<Rightarrow> u8 list \<Rightarrow> nat \<Rightarrow> u8 \<Rightarrow> u32 \<Rightarrow> bool \<Rightarrow> chars list
   \<Rightarrow> (nat \<times> errno option \<times> hsearch_data) option" where
  "himport_r E h env sz sep flag crlf_is_lf vars =
     (if \<not> malloc_ok E (sz + 1) then Some (0, Some ENOMEM, h)
      else if length env < sz then None
      else do {
        let m = take sz env @ [0];
        let localvars = map Some vars;
        h \<leftarrow> (if flag AND H_NOCLEAR = 0 \<and> ht_table h \<noteq> None then hdestroy_r h else Some h);
        (created, h) \<leftarrow> (if ht_table h = None then hcreate_r E (import_entries sz) h else Some (1, h));
        if created = 0 then Some (0, None, h)
        else if sz = 0 then Some (1, None, h)
        else do {
          (m, sz) \<leftarrow> (if crlf_is_lf then do { (m, n) \<leftarrow> crlf_loop sz m 0 0; Some (m, sz - n) } else Some (m, sz));
          (err, h, localvars) \<leftarrow> himport_loop E sep flag sz h localvars m 0;
          if err then Some (0, Some EINVAL, h)
          else do { h \<leftarrow> delete_rest E flag h localvars; Some (1, None, h) }
        }
      })"


section \<open>The exported text\<close>

definition escape :: "u8 \<Rightarrow> chars \<Rightarrow> chars" where
  "escape sep d = concat (map (\<lambda>c. if c = sep \<or> c = 0x5c then [0x5c, c] else [c]) d)"

definition line_of :: "u8 \<Rightarrow> chars \<times> chars \<Rightarrow> chars" where
  "line_of sep kd = fst kd @ 0x3d # escape sep (snd kd) @ [sep]"

definition env_lines :: "u8 \<Rightarrow> (chars \<times> chars) list \<Rightarrow> chars" where
  "env_lines sep kds = concat (map (line_of sep) kds)"

definition full_entry :: "chars \<times> chars \<Rightarrow> entry \<Rightarrow> bool" where
  "full_entry kd e \<longleftrightarrow> e_key e = Some (fst kd) \<and> e_data e = Some (snd kd)"

lemma write_chars_append:
  "write_chars (a @ b) res p = do { (res, p) \<leftarrow> write_chars a res p; write_chars b res p }"
  by (induction a arbitrary: res p) (auto split: Option.bind_splits)

lemma write_chars_spec:
  "p + length s \<le> length res \<Longrightarrow>
    write_chars s res p = Some (take p res @ s @ drop (p + length s) res, p + length s)"
proof (induction s arbitrary: res p)
  case (Cons c s)
  have "take p res @ c # s @ drop (Suc (p + length s)) res =
    take (Suc p) (res[p := c]) @ s @ drop (Suc p + length s) (res[p := c])"
    using Cons.prems by (simp add: take_Suc_conv_app_nth)
  then show ?case using Cons by (simp add: aget_simps)
qed simp

lemma write_escaped_chars: "write_escaped sep d res p = write_chars (escape sep d) res p"
  by (induction d arbitrary: res p) (auto simp: escape_def split: Option.bind_splits)

lemma export_write_chars:
  "list_all2 full_entry kds lst \<Longrightarrow> export_write sep lst res p = write_chars (env_lines sep kds) res p"
proof (induction kds lst arbitrary: res p rule: list_all2_induct)
  case (Cons kd kds e lst)
  then show ?case
    by (simp add: full_entry_def env_lines_def line_of_def write_chars_append write_escaped_chars
        case_prod_beta)
qed (simp add: env_lines_def)


lemma length_escape_0: "0 \<notin> set d \<Longrightarrow> length (escape 0 d) = export_len 0 d + count_list d 0x5c"
  by (induction d) (simp_all add: escape_def export_len_def)

text \<open>
  Pass 1 leaves room for every line, unless the separator is 0 and the values have more backslashes than two for
  every variable.
\<close>

definition export_total :: "u8 \<Rightarrow> (chars \<times> chars) list \<Rightarrow> nat" where
  "export_total sep kds = sum_list (map (\<lambda>(k, d). length k + 2 + export_len sep d + 2) kds)"




lemma export_scan_spec:
  assumes "ht_table h = Some t" "\<forall>i\<in>set is. i < length t \<and> (live t i \<longrightarrow> full_entry (kd i) (s_entry (t ! i)))"
  shows "export_scan slre h sep 0 [] is =
    Some (map (\<lambda>i. s_entry (t ! i)) (filter (live t) is), export_total sep (map kd (filter (live t) is)))"
  using assms(2)
proof (induction "is")
  case (Cons i "is")
  then show ?case
    by (simp add: get_slot_table [OF assms(1)] live_def full_entry_def export_total_def case_prod_beta Let_def)
qed (simp add: export_total_def)


section \<open>The order of the lines\<close>

fun str_le :: "chars \<Rightarrow> chars \<Rightarrow> bool" where
  "str_le [] b \<longleftrightarrow> True"
| "str_le (x # a) [] \<longleftrightarrow> False"
| "str_le (x # a) (y # b) \<longleftrightarrow> x < y \<or> x = y \<and> str_le a b"

lemma str_le_total: "str_le a b \<or> str_le b a"
  by (induction a b rule: str_le.induct) auto

lemma str_le_trans: "str_le a b \<Longrightarrow> str_le b c \<Longrightarrow> str_le a c"
proof (induction a b arbitrary: c rule: str_le.induct)
  case (3 x a y b)
  then show ?case by (cases c) (auto dest: less_trans)
qed auto

definition ascii :: "chars \<Rightarrow> bool" where
  "ascii s \<longleftrightarrow> (\<forall>c\<in>set s. c \<noteq> 0 \<and> unat c < 128)"

lemma small_diff:
  fixes x y :: int
  assumes "0 \<le> x" "x < 128" "0 \<le> y" "y < 128"
  shows "signed_take_bit 7 (x - y) = x - y"
  by (rule signed_take_bit_int_eq_self) (use assms in simp_all)

lemma sint_sub_ascii:
  fixes a b :: u8
  assumes "unat a < 128" "unat b < 128"
  shows "sint (a - b) = uint a - uint b"
proof -
  have "int (unat a) < int 128" "int (unat b) < int 128" using assms by (simp_all only: of_nat_less_iff)
  then have u: "uint a < 128" "uint b < 128" "0 \<le> uint a" "0 \<le> uint b" by simp_all
  note self = small_diff [OF u(3) u(1), of 0] small_diff [OF u(4) u(2), of 0] small_diff [OF u(3,1,4,2)]
  have "sint a = uint a" "sint b = uint b"
    using self(1,2) by (simp_all add: sint_uint)
  moreover have "sint (a - b) = signed_take_bit 7 (sint a - sint b)"
    using sint_word_ariths(2) [of a b] by simp
  ultimately show ?thesis using self(3) u by simp
qed

lemma strcmp_ascii:
  assumes "cstr m p a" "cstr m q b" "ascii a" "ascii b"
  shows "\<exists>r. strcmp m p q = Some r \<and> (r \<le> 0 \<longleftrightarrow> str_le a b)"
  using assms
proof (induction a b arbitrary: p q rule: str_le.induct)
  case (1 b)
  then have "q < length m" "m ! p = 0" "p < length m" "unat (m ! q) < 128"
    by (cases b; simp add: ascii_def)+
  then show ?case
    using sint_sub_ascii [of 0 "m ! q"] by (subst strcmp.simps) (simp add: aget_simps Let_def)
next
  case (2 x a)
  then have "sint x = uint x" "uint x \<noteq> 0" "0 \<le> uint x" using sint_sub_ascii [of x 0] by (auto simp: ascii_def uint_0_iff)
  then show ?case using 2 by (subst strcmp.simps) (simp add: aget_simps Let_def)
next
  case (3 x a y b)
  have xy: "unat x < 128" "unat y < 128" "x \<noteq> 0" "ascii a" "ascii b" using 3 by (auto simp: ascii_def)
  have m: "p < length m" "q < length m" "m ! p = x" "m ! q = y" using 3 by auto
  show ?case
  proof (cases "x = y")
    case True
    then show ?thesis using 3 xy m by (subst strcmp.simps) (simp add: aget_simps Let_def)
  next
    case False
    then have "uint x \<noteq> uint y" by (simp add: word_uint_eq_iff)
    then show ?thesis
      using sint_sub_ascii [OF xy(1,2)] m False by (subst strcmp.simps) (auto simp: aget_simps Let_def word_less_def)
  qed
qed

definition key_le :: "entry \<Rightarrow> entry \<Rightarrow> bool" where
  "key_le e1 e2 \<longleftrightarrow> str_le (the (e_key e1)) (the (e_key e2))"

lemma cmpkey_decides:
  assumes "\<forall>e\<in>S. \<exists>k. e_key e = Some k \<and> ascii k"
  shows "decides cmpkey key_le S"
proof -
  have "\<exists>c. cmpkey e1 e2 = Some c \<and> (c \<le> 0 \<longleftrightarrow> key_le e1 e2)" if e: "e1 \<in> S" "e2 \<in> S" for e1 e2
  proof -
    obtain a b where ab: "e_key e1 = Some a" "e_key e2 = Some b" "ascii a" "ascii b" using assms e by metis
    have "0 \<notin> set a" "0 \<notin> set b" using ab(3,4) unfolding ascii_def by blast+
    then have "cstr (a @ 0 # b @ [0]) 0 a" "cstr (a @ 0 # b @ [0]) (Suc (length a)) b"
      using cstr_append_0 [of a "[]" "b @ [0]"] cstr_append_0 [of b "a @ [0]" "[]"] by simp_all
    then show ?thesis using strcmp_ascii [OF _ _ ab(3,4)] ab by (simp add: cmpkey_def str_cmp_def key_le_def)
  qed
  then show ?thesis unfolding decides_def key_le_def using str_le_total str_le_trans by blast
qed


section \<open>Exporting a table\<close>

definition var_of :: "entry \<Rightarrow> chars \<times> chars" where
  "var_of e = (the (e_key e), the (e_data e))"

definition live_entries :: "nat \<Rightarrow> slot list \<Rightarrow> entry list" where
  "live_entries n t = map (\<lambda>i. s_entry (t ! i)) (filter (live t) [1..<Suc n])"

lemma live_filter: "i \<in> set (filter (live t) [1..<Suc n]) \<longleftrightarrow> i \<in> {1..n} \<and> live t i"
  by (auto simp del: upt_Suc)

lemma live_entries_set: "e \<in> set (live_entries n t) \<longleftrightarrow> (\<exists>i\<in>{1..n}. live t i \<and> e = s_entry (t ! i))"
  unfolding live_entries_def set_map image_iff live_filter Bex_def by blast

lemma live_entries_full:
  assumes "tab_ok n t" "e \<in> set (live_entries n t)"
  shows "full_entry (var_of e) e"
proof -
  obtain i where "i \<in> {1..n}" "live t i" "e = s_entry (t ! i)" using assms(2) by (auto simp: live_entries_set)
  then show ?thesis using tab_okD(6) [OF assms(1), of i] by (auto simp: slot_ok_def full_entry_def var_of_def)
qed

lemma slot_full:
  assumes "tab_ok n t" "i \<in> {1..n}" "live t i"
  shows "full_entry (var_of (s_entry (t ! i))) (s_entry (t ! i))"
  using live_entries_full [OF assms(1)] assms(2,3) unfolding live_entries_set by blast

lemma live_entries_map:
  assumes "ht_table h = Some t" "tab_ok (ht_size h) t"
  shows "(k, d) \<in> var_of ` set (live_entries (ht_size h) t) \<longleftrightarrow> env_map h k = Some d"
proof
  assume "(k, d) \<in> var_of ` set (live_entries (ht_size h) t)"
  then obtain i where i: "i \<in> {1..ht_size h}" "live t i" "(k, d) = var_of (s_entry (t ! i))"
    by (auto simp: live_entries_set)
  then have f: "e_key (s_entry (t ! i)) = Some k" "e_data (s_entry (t ! i)) = Some d"
    using slot_full [OF assms(2) i(1,2)] by (simp_all add: full_entry_def flip: i(3))
  then have "tab_find (ht_size h) t k = Some i"
    using tab_find_Some [OF assms(2)] hit_live [OF assms(2) i(1), of k] i(1,2) by simp
  then show "env_map h k = Some d" using f(2) assms(1) by (simp add: env_map_def)
next
  assume m: "env_map h k = Some d"
  then obtain i where i: "tab_find (ht_size h) t k = Some i" "e_data (s_entry (t ! i)) = Some d"
    using assms(1) by (auto simp: env_map_def split: option.splits)
  then have "i \<in> {1..ht_size h}" "live t i" "e_key (s_entry (t ! i)) = Some k"
    using tab_find_Some [OF assms(2), of k i] hit_live [OF assms(2), of i k] by auto
  then show "(k, d) \<in> var_of ` set (live_entries (ht_size h) t)"
    using i(2) by (intro image_eqI [of _ _ "s_entry (t ! i)"]) (auto simp: live_entries_set var_of_def)
qed

lemma live_entries_distinct:
  assumes "tab_ok n t"
  shows "distinct (map (\<lambda>e. fst (var_of e)) (live_entries n t))"
proof -
  have "inj_on (\<lambda>i. fst (var_of (s_entry (t ! i)))) (set (filter (live t) [1..<Suc n]))"
  proof (rule inj_onI)
    fix i j assume ij: "i \<in> set (filter (live t) [1..<Suc n])" "j \<in> set (filter (live t) [1..<Suc n])"
      "fst (var_of (s_entry (t ! i))) = fst (var_of (s_entry (t ! j)))"
    then have r: "i \<in> {1..n}" "j \<in> {1..n}" "live t i" "live t j" unfolding live_filter by auto
    have "full_entry (var_of (s_entry (t ! i))) (s_entry (t ! i))" "full_entry (var_of (s_entry (t ! j))) (s_entry (t ! j))"
      using slot_full [OF assms] r by blast+
    then have "e_key (s_entry (t ! i)) = e_key (s_entry (t ! j))" using ij(3) by (simp add: full_entry_def)
    then show "i = j" using tab_okD(7) [OF assms r] by simp
  qed
  then show ?thesis by (simp add: live_entries_def distinct_map comp_def del: upt_Suc)
qed

definition export_buffer :: "u8 \<Rightarrow> (chars \<times> chars) list \<Rightarrow> u8 list" where
  "export_buffer sep kds =
     env_lines sep kds @ replicate (Suc (export_total sep kds) - length (env_lines sep kds)) 0"

lemma write_chars_None: "length res < p + length s \<Longrightarrow> p \<le> length res \<Longrightarrow> write_chars s res p = None"
  by (induction s arbitrary: res p) (auto split: Option.bind_splits)

lemma write_lines:
  "do { (res, p) \<leftarrow> write_chars (env_lines sep kds) (replicate (Suc (export_total sep kds)) 0) 0; aset res p 0 } =
     (if length (env_lines sep kds) \<le> export_total sep kds then Some (export_buffer sep kds) else None)"
proof (cases "length (env_lines sep kds) \<le> Suc (export_total sep kds)")
  case True
  then show ?thesis
    using write_chars_spec [of 0 "env_lines sep kds" "replicate (Suc (export_total sep kds)) 0"]
    by (auto simp: export_buffer_def aset_def Suc_diff_le list_update_append simp del: replicate.simps)
      (simp add: Suc_diff_le)
next
  case False
  then show ?thesis by (simp add: write_chars_None del: replicate.simps)
qed

lemma hexport_run:
  assumes "htab_ok h" "\<forall>n. malloc_ok E n"
    "\<forall>k d. env_map h k = Some d \<longrightarrow> ascii k"
  shows "\<exists>kds. distinct (map fst kds) \<and> map_of kds = env_map h \<and>
    sorted_wrt (\<lambda>a b. str_le (fst a) (fst b)) kds \<and>
    hexport_r E slre h sep 0 None 0 [] =
      (if length (env_lines sep kds) \<le> export_total sep kds
       then Some (int (Suc (export_total sep kds)), Some (export_buffer sep kds), None) else None)"
proof -
  let ?n = "ht_size h"
  obtain t where t: "ht_table h = Some t" "tab_ok ?n t" using htab_okE [OF assms(1)] .
  let ?l = "live_entries ?n t"
  have full: "full_entry (var_of e) e" if "e \<in> set ?l" for e using live_entries_full [OF t(2) that] .
  have good: "ascii (fst (var_of e))" if "e \<in> set ?l" for e
    using live_entries_map [OF t, of "fst (var_of e)" "snd (var_of e)"] that assms(3)
    by (metis imageI prod.collapse)
  have "\<exists>k. e_key e = Some k \<and> ascii k" if "e \<in> set ?l" for e
    using full [OF that] good [OF that] by (simp add: full_entry_def)
  then obtain ys where ys: "qsort cmpkey ?l = Some ys" "mset ys = mset ?l" "sorted_wrt key_le ys"
    using qsort_spec [OF cmpkey_decides, of ?l] by blast
  have set: "set ys = set ?l" using ys(2) by (metis set_mset_mset)
  define kds where "kds = map var_of ys"
  have l2: "list_all2 full_entry kds ys"
    using full set by (simp add: kds_def list_all2_map1 list_all2_same)
  have tot: "export_total sep (map var_of ?l) = export_total sep kds"
    using ys(2) by (simp add: export_total_def kds_def flip: sum_mset_sum_list) 
  let ?sz = "Suc (export_total sep kds)"
  have "export_scan slre h sep 0 [] [1..<Suc ?n] = Some (?l, export_total sep kds)"
    using export_scan_spec [OF t(1), of "[1..<Suc ?n]" "\<lambda>i. var_of (s_entry (t ! i))" slre sep] full tot tab_okD(4) [OF t(2)]
    by (auto simp: live_entries_def comp_def simp del: upt_Suc)
  moreover have "do { (res, p) \<leftarrow> export_write sep ys (replicate ?sz 0) 0; aset res p 0 } =
      (if length (env_lines sep kds) \<le> export_total sep kds then Some (export_buffer sep kds) else None)"
    unfolding export_write_chars [OF l2] by (rule write_lines)
  ultimately have "hexport_r E slre h sep 0 None 0 [] =
      (if length (env_lines sep kds) \<le> export_total sep kds
       then Some (int ?sz, Some (export_buffer sep kds), None) else None)"
    using ys(1) assms(2) by (auto simp: hexport_r_def Let_def simp del: upt_Suc replicate.simps aset_eq_Some aset_eq_None split: Option.bind_splits if_splits)
  moreover have "mset (map fst kds) = mset (map (\<lambda>e. fst (var_of e)) ?l)"
    using ys(2) by (simp add: kds_def comp_def mset_map)
  then have "distinct (map fst kds)" using live_entries_distinct [OF t(2)] mset_eq_imp_distinct_iff by blast
  moreover from this have "map_of kds k = Some d \<longleftrightarrow> env_map h k = Some d" for k d
    using live_entries_map [OF t, of k d] set by (simp add: map_of_eq_Some_iff) (simp add: kds_def)
  then have "map_of kds = env_map h" by (intro ext) (metis option.exhaust)
  moreover have "sorted_wrt (\<lambda>a b. str_le (fst a) (fst b)) kds"
    using ys(3) by (simp add: kds_def sorted_wrt_map key_le_def [abs_def] var_of_def)
  ultimately show ?thesis by (metis (no_types, lifting))
qed


section \<open>Parsing a line\<close>











section \<open>Importing what was exported\<close>










section \<open>Properties\<close>






text \<open>A table with one variable, as \<open>hcreate_r\<close> and \<open>hsearch_r\<close> make it.\<close>

lemma one_variable_table:
  assumes "0 \<notin> set k"
  shows "\<exists>h0 h. hcreate_r plain_hooks 64 no_table = Some (1, h0) \<and> set_variable plain_hooks 0 k d h0 = Some (True, h) \<and>
    htab_ok h \<and> env_map h = [k \<mapsto> d]"
proof -
  obtain h0 where h0: "hcreate_r plain_hooks 64 no_table = Some (1, h0)" "htab_ok h0" "env_map h0 = Map.empty"
    "free_slots h0 = ht_size h0" "64 \<le> ht_size h0" "ht_change_ok h0 = None"
    using hcreate_r_spec [of no_table 64 plain_hooks] by (auto simp: no_table_def plain_hooks_fit)
  have "permissive plain_hooks h0"
    using empty_table_permissive [OF h0(2,4,6)] by (simp add: plain_hooks_fit)
  then show ?thesis
    using env.set_law [OF h0(2), of plain_hooks k d 0] h0 assms by (auto simp: plain_hooks_fit)
qed


text \<open>
  The export can overflow its buffer. With a zero as separator (the form in which the
  environment is stored) pass 1 counts no room for escapes, but pass 2 writes them: a table with
  one variable whose value has more than two backslashes makes \<open>hexport_r\<close> write past the end of
  the buffer it allocated.
\<close>

theorem export_overflows:
  assumes "htab_ok h" "env_map h = [k \<mapsto> d]" "ascii k" "0 \<notin> set d" "2 < count_list d 0x5c" "\<forall>n. malloc_ok E n"
  shows "hexport_r E slre h 0 0 None 0 [] = None"
proof -
  have "\<forall>x y. env_map h x = Some y \<longrightarrow> ascii x" using assms(2,3) by (auto split: if_splits)
  from hexport_run [OF assms(1,6) this, where sep = 0 and slre = slre]
  obtain kds where kds: "distinct (map fst kds)" "map_of kds = env_map h"
    and ex: "hexport_r E slre h 0 0 None 0 [] = (if length (env_lines 0 kds) \<le> export_total 0 kds
       then Some (int (Suc (export_total 0 kds)), Some (export_buffer 0 kds), None) else None)"
    by blast
  have "(x, y) \<in> set kds \<longleftrightarrow> x = k \<and> y = d" for x y
    using map_of_eq_Some_iff [OF kds(1), of x y] kds(2) assms(2) by (auto split: if_splits)
  then have "set kds = {(k, d)}" by auto
  moreover have "distinct kds" using kds(1) by (simp add: distinct_map)
  ultimately have "kds = [(k, d)]"
    by (cases kds rule: remdups_adj.cases) (auto simp: insert_eq_iff)
  then show ?thesis
    using ex assms(5) length_escape_0 [OF assms(4)] by (simp add: env_lines_def line_of_def export_total_def)
qed

theorem export_overflows_witness:
  "\<exists>h0 h. hcreate_r plain_hooks 64 no_table = Some (1, h0) \<and>
    set_variable plain_hooks 0 [97] [0x5c, 0x5c, 0x5c] h0 = Some (True, h) \<and>
    hexport_r plain_hooks None h 0 0 None 0 [] = None"
proof -
  obtain h0 h where h: "hcreate_r plain_hooks 64 no_table = Some (1, h0)"
    "set_variable plain_hooks 0 [97] [0x5c, 0x5c, 0x5c] h0 = Some (True, h)" "htab_ok h" "env_map h = [[97] \<mapsto> [0x5c, 0x5c, 0x5c]]"
    using one_variable_table [of "[97]" "[0x5c, 0x5c, 0x5c]"] by auto
  then show ?thesis
    using export_overflows [OF h(3,4), of plain_hooks None] by (auto simp: ascii_def plain_hooks_fit)
qed

text \<open>
  Importing text with carriage returns can corrupt the last value. With \<open>crlf_is_lf\<close> the buffer
  is squeezed but not terminated again, so a text that does not end in a separator is parsed
  together with the bytes left behind it: from the lines \<open>a=1\<close> and \<open>b=2\<close>, separated by a carriage
  return and a line feed, \<open>himport_r\<close> gives \<open>b\<close> the value 22.
\<close>

theorem crlf_import_corrupts_last_value:
  "case himport_r plain_hooks no_table [97, 0x3d, 49, 0x0d, 0x0a, 98, 0x3d, 50] 8 0x0a 0 True [] of
     Some (ret, err, h) \<Rightarrow> ret = 1 \<and> get_variable plain_hooks [97] h = Some (Some [49]) \<and>
       get_variable plain_hooks [98] h = Some (Some [50, 50])
   | None \<Rightarrow> False"
  by code_simp

end
