(* ===== verification/Watchdog.thy ===== *)
theory Watchdog
  imports Prelude
begin

text \<open>
  The watchdog core of the Linux drivers in \<^verbatim>\<open>src/kernel/driver\<close>: \<^verbatim>\<open>watchdog_dev.c\<close> (the character
  device, the worker that feeds the hardware) and the registration part of \<^verbatim>\<open>watchdog_core.c\<close>.
  One record holds a \<open>struct watchdog_device\<close>, the \<open>struct watchdog_core_data\<close> that belongs to it
  and the clock. The driver's operations are functions on that record, collected in \<open>wops\<close>; what the
  kernel headers and services contribute (the tests on the status word, the limits on timeouts, the
  answers of registration calls) is the record \<open>kapi\<close>. The result \<open>None\<close> is a null pointer that is
  dereferenced. Times are nanoseconds of \<open>ktime_get\<close>; timeouts are 32-bit words as in the code.
  Every operation runs under the lock of the core data, so operations are atomic steps.
\<close>

section \<open>Data\<close>

datatype wdog_bit = WDOG_ACTIVE | WDOG_NO_WAY_OUT | WDOG_STOP_ON_REBOOT | WDOG_HW_RUNNING | WDOG_STOP_ON_UNREGISTER

datatype core_bit = WDOG_DEV_OPEN | WDOG_ALLOW_RELEASE | WDOG_KEEPALIVE

datatype wdiof = WDIOF_OVERHEAT | WDIOF_FANFAULT | WDIOF_EXTERN1 | WDIOF_EXTERN2 | WDIOF_POWERUNDER
  | WDIOF_CARDRESET | WDIOF_POWEROVER | WDIOF_SETTIMEOUT | WDIOF_MAGICCLOSE | WDIOF_PRETIMEOUT | WDIOF_KEEPALIVEPING

text \<open>
  \<open>struct watchdog_core_data\<close>: the timer holds the time it expires at; \<open>wdd\<close> says whether the pointer
  to the device is set; \<open>dev_refs\<close> counts the references on \<open>dev\<close> this file takes and drops.
\<close>

record watchdog_core_data =
  last_keepalive :: int
  last_hw_keepalive :: int
  timer :: "int option"
  work :: bool
  core_status :: "core_bit set"
  wdd :: bool
  dev_refs :: int

text \<open>
  \<open>struct watchdog_device\<close>; \<open>wd_data\<close> says whether its pointer to the core data is set, \<open>core\<close> is the
  core data itself once it is allocated, \<open>hw\<close> is what the driver keeps about the hardware.
\<close>

record 'h watchdog_device =
  id_nr :: int
  options :: "wdiof set"
  bootstatus :: "wdiof set"
  timeout :: u32
  pretimeout :: u32
  min_timeout :: u32
  max_timeout :: u32
  min_hw_heartbeat_ms :: u32
  max_hw_heartbeat_ms :: u32
  status :: "wdog_bit set"
  wd_data :: bool
  core :: "watchdog_core_data option"
  module_refs :: int
  hw :: 'h
  now :: int

type_synonym 'h wd_op = "'h watchdog_device \<Rightarrow> int \<times> 'h watchdog_device"

datatype wd_ioctl = WDIOC_GETSUPPORT | WDIOC_GETSTATUS | WDIOC_GETBOOTSTATUS | WDIOC_SETOPTIONS | WDIOC_KEEPALIVE
  | WDIOC_SETTIMEOUT | WDIOC_GETTIMEOUT | WDIOC_GETTIMELEFT | WDIOC_SETPRETIMEOUT | WDIOC_GETPRETIMEOUT | WDIOC_OTHER

text \<open>\<open>struct watchdog_ops\<close>\<close>

record 'h wops =
  op_start :: "'h wd_op"
  op_stop :: "'h wd_op option"
  op_ping :: "'h wd_op option"
  op_status :: "('h watchdog_device \<Rightarrow> wdiof set) option"
  op_set_timeout :: "(u32 \<Rightarrow> 'h wd_op) option"
  op_set_pretimeout :: "(u32 \<Rightarrow> 'h wd_op) option"
  op_get_timeleft :: "('h watchdog_device \<Rightarrow> u32) option"
  op_restart :: "'h wd_op option"
  op_ioctl :: "(wd_ioctl \<Rightarrow> 'h wd_op) option"

text \<open>From \<^verbatim>\<open>linux/watchdog.h\<close> and the kernel's registration services.\<close>

record 'h kapi =
  watchdog_active :: "wdog_bit set \<Rightarrow> bool"
  watchdog_hw_running :: "wdog_bit set \<Rightarrow> bool"
  watchdog_timeout_invalid :: "'h watchdog_device \<Rightarrow> u32 \<Rightarrow> bool"
  watchdog_pretimeout_invalid :: "'h watchdog_device \<Rightarrow> u32 \<Rightarrow> bool"
  WDIOS_DISABLECARD :: u32
  WDIOS_ENABLECARD :: u32
  try_module_get :: bool
  kzalloc :: bool
  watchdog_kworker :: bool
  misc_register :: int
  cdev_device_add :: int
  watchdog_register_pretimeout :: int
  handle_boot_enabled :: bool

text \<open>What the header documents of the two tests.\<close>

definition kapi_ok :: "'h kapi \<Rightarrow> bool" where
  "kapi_ok K \<longleftrightarrow> watchdog_active K = (\<lambda>s. WDOG_ACTIVE \<in> s) \<and> watchdog_hw_running K = (\<lambda>s. WDOG_HW_RUNNING \<in> s)"

definition LINUX_EFAULT :: int where "LINUX_EFAULT = 14"
definition LINUX_EBUSY :: int where "LINUX_EBUSY = 16"
definition LINUX_ENODEV :: int where "LINUX_ENODEV = 19"
definition LINUX_EINVAL :: int where "LINUX_EINVAL = 22"
definition LINUX_ENOMEM :: int where "LINUX_ENOMEM = 12"
definition LINUX_ENOTTY :: int where "LINUX_ENOTTY = 25"
definition LINUX_EOPNOTSUPP :: int where "LINUX_EOPNOTSUPP = 95"
definition LINUX_ENOIOCTLCMD :: int where "LINUX_ENOIOCTLCMD = 515"

definition ms_to_ktime :: "u32 \<Rightarrow> int" where
  "ms_to_ktime ms = uint ms * 1000000"

definition min_not_zero :: "u32 \<Rightarrow> u32 \<Rightarrow> u32" where
  "min_not_zero x y = (if x = 0 then y else if y = 0 then x else min x y)"

text \<open>Access to the core data through \<open>wdd->wd_data\<close>, and through \<open>file->private_data\<close>.\<close>

definition get_core :: "'h watchdog_device \<Rightarrow> watchdog_core_data option" where
  "get_core w = (if wd_data w then core w else None)"

definition upd_core :: "(watchdog_core_data \<Rightarrow> watchdog_core_data) \<Rightarrow> 'h watchdog_device \<Rightarrow> 'h watchdog_device option" where
  "upd_core f w = do { c \<leftarrow> get_core w; Some (w\<lparr>core := Some (f c)\<rparr>) }"

definition upd_file :: "(watchdog_core_data \<Rightarrow> watchdog_core_data) \<Rightarrow> 'h watchdog_device \<Rightarrow> 'h watchdog_device option" where
  "upd_file f w = do { c \<leftarrow> core w; Some (w\<lparr>core := Some (f c)\<rparr>) }"

definition set_core_bit :: "core_bit \<Rightarrow> watchdog_core_data \<Rightarrow> watchdog_core_data" where
  "set_core_bit b c = c\<lparr>core_status := insert b (core_status c)\<rparr>"

definition clear_core_bit :: "core_bit \<Rightarrow> watchdog_core_data \<Rightarrow> watchdog_core_data" where
  "clear_core_bit b c = c\<lparr>core_status := core_status c - {b}\<rparr>"

definition active :: "'h kapi \<Rightarrow> 'h watchdog_device \<Rightarrow> bool" where
  "active K w = watchdog_active K (status w)"

definition hw_running :: "'h kapi \<Rightarrow> 'h watchdog_device \<Rightarrow> bool" where
  "hw_running K w = watchdog_hw_running K (status w)"

section \<open>The worker\<close>

definition watchdog_need_worker :: "'h kapi \<Rightarrow> 'h watchdog_device \<Rightarrow> bool" where
  "watchdog_need_worker K w =
     (let hm = max_hw_heartbeat_ms w; t = timeout w * 1000
      in (hm \<noteq> 0 \<and> active K w \<and> t > hm) \<or> (t \<noteq> 0 \<and> \<not> active K w \<and> hw_running K w))"

definition watchdog_next_keepalive :: "'h kapi \<Rightarrow> 'h watchdog_device \<Rightarrow> int option" where
  "watchdog_next_keepalive K w = do {
     c \<leftarrow> get_core w;
     let timeout_ms = timeout w * 1000;
     let virt_timeout = last_keepalive c + ms_to_ktime timeout_ms;
     let hw_heartbeat_ms = min_not_zero timeout_ms (max_hw_heartbeat_ms w);
     let keepalive_interval = ms_to_ktime (hw_heartbeat_ms div 2);
     if \<not> active K w then Some keepalive_interval
     else do {
       let last_heartbeat = virt_timeout - ms_to_ktime hw_heartbeat_ms;
       let latest_heartbeat = last_heartbeat - now w;
       Some (if latest_heartbeat < keepalive_interval then latest_heartbeat else keepalive_interval)
     }
   }"

definition hrtimer_start :: "int \<Rightarrow> 'h watchdog_device \<Rightarrow> 'h watchdog_device option" where
  "hrtimer_start t w = upd_core (\<lambda>c. c\<lparr>timer := Some (now w + t)\<rparr>) w"

definition hrtimer_cancel :: "'h watchdog_device \<Rightarrow> 'h watchdog_device option" where
  "hrtimer_cancel w = upd_core (\<lambda>c. c\<lparr>timer := None\<rparr>) w"

definition watchdog_update_worker :: "'h kapi \<Rightarrow> 'h watchdog_device \<Rightarrow> 'h watchdog_device option" where
  "watchdog_update_worker K w =
     (if watchdog_need_worker K w then do {
        t \<leftarrow> watchdog_next_keepalive K w;
        if t > 0 then hrtimer_start t w else Some w
      }
      else hrtimer_cancel w)"

section \<open>Pinging, starting and stopping\<close>

text \<open>\<open>__watchdog_ping\<close>\<close>

definition watchdog_ping_hw :: "'h kapi \<Rightarrow> 'h wops \<Rightarrow> 'h watchdog_device \<Rightarrow> (int \<times> 'h watchdog_device) option" where
  "watchdog_ping_hw K ops w = do {
     c \<leftarrow> get_core w;
     let earliest_keepalive = last_hw_keepalive c + ms_to_ktime (min_hw_heartbeat_ms w);
     if earliest_keepalive > now w then do {
       w \<leftarrow> hrtimer_start (earliest_keepalive - now w) w;
       Some (0, w)
     }
     else do {
       w \<leftarrow> upd_core (\<lambda>c. c\<lparr>last_hw_keepalive := now w\<rparr>) w;
       let (err, w) = (case op_ping ops of Some ping \<Rightarrow> ping w | None \<Rightarrow> op_start ops w);
       w \<leftarrow> watchdog_update_worker K w;
       Some (err, w)
     }
   }"

definition watchdog_ping :: "'h kapi \<Rightarrow> 'h wops \<Rightarrow> 'h watchdog_device \<Rightarrow> (int \<times> 'h watchdog_device) option" where
  "watchdog_ping K ops w =
     (if \<not> active K w \<and> \<not> hw_running K w then Some (0, w)
      else do {
        w \<leftarrow> upd_core (\<lambda>c. set_core_bit WDOG_KEEPALIVE (c\<lparr>last_keepalive := now w\<rparr>)) w;
        watchdog_ping_hw K ops w
      })"

definition watchdog_worker_should_ping :: "'h kapi \<Rightarrow> watchdog_core_data \<Rightarrow> 'h watchdog_device \<Rightarrow> bool" where
  "watchdog_worker_should_ping K c w \<longleftrightarrow> wdd c \<and> (active K w \<or> hw_running K w)"

text \<open>
  The worker runs the queued work. Its two trace messages read \<open>wd_data->wdd->timeout\<close>, before
  and after the lock is taken.
\<close>

definition watchdog_ping_work :: "'h kapi \<Rightarrow> 'h wops \<Rightarrow> 'h watchdog_device \<Rightarrow> 'h watchdog_device option" where
  "watchdog_ping_work K ops w = do {
     w \<leftarrow> upd_file (\<lambda>c. c\<lparr>work := False\<rparr>) w;
     c \<leftarrow> core w;
     if \<not> wdd c then None
     else if watchdog_worker_should_ping K c w then do { (err, w) \<leftarrow> watchdog_ping_hw K ops w; Some w }
     else Some w
   }"

definition watchdog_timer_expired :: "'h watchdog_device \<Rightarrow> 'h watchdog_device option" where
  "watchdog_timer_expired w = upd_file (\<lambda>c. c\<lparr>timer := None, work := True\<rparr>) w"

definition watchdog_start :: "'h kapi \<Rightarrow> 'h wops \<Rightarrow> 'h watchdog_device \<Rightarrow> (int \<times> 'h watchdog_device) option" where
  "watchdog_start K ops w =
     (if active K w then Some (0, w)
      else do {
        w \<leftarrow> upd_core (set_core_bit WDOG_KEEPALIVE) w;
        let started_at = now w;
        let (err, w) = (case op_ping ops of
            Some ping \<Rightarrow> if hw_running K w then ping w else op_start ops w
          | None \<Rightarrow> op_start ops w);
        if err = 0 then do {
          let w = w\<lparr>status := insert WDOG_ACTIVE (status w)\<rparr>;
          w \<leftarrow> upd_core (\<lambda>c. c\<lparr>last_keepalive := started_at, last_hw_keepalive := started_at\<rparr>) w;
          w \<leftarrow> watchdog_update_worker K w;
          Some (err, w)
        }
        else Some (err, w)
      })"

definition watchdog_stop :: "'h kapi \<Rightarrow> 'h wops \<Rightarrow> 'h watchdog_device \<Rightarrow> (int \<times> 'h watchdog_device) option" where
  "watchdog_stop K ops w =
     (if \<not> active K w then Some (0, w)
      else if WDOG_NO_WAY_OUT \<in> status w then Some (- LINUX_EBUSY, w)
      else do {
        let (err, w) = (case op_stop ops of
            Some stop \<Rightarrow> stop (w\<lparr>status := status w - {WDOG_HW_RUNNING}\<rparr>)
          | None \<Rightarrow> (0, w\<lparr>status := insert WDOG_HW_RUNNING (status w)\<rparr>));
        if err = 0 then do {
          w \<leftarrow> watchdog_update_worker K (w\<lparr>status := status w - {WDOG_ACTIVE}\<rparr>);
          Some (err, w)
        }
        else Some (err, w)
      })"

section \<open>Status and timeouts\<close>

definition boot_mask :: "wdiof set" where
  "boot_mask = {WDIOF_CARDRESET, WDIOF_OVERHEAT, WDIOF_FANFAULT, WDIOF_EXTERN1, WDIOF_EXTERN2, WDIOF_POWERUNDER, WDIOF_POWEROVER}"

definition watchdog_get_status :: "'h wops \<Rightarrow> 'h watchdog_device \<Rightarrow> (wdiof set \<times> 'h watchdog_device) option" where
  "watchdog_get_status ops w = do {
     c \<leftarrow> get_core w;
     let st = (case op_status ops of Some f \<Rightarrow> f w | None \<Rightarrow> bootstatus w \<inter> boot_mask);
     let st = (if WDOG_ALLOW_RELEASE \<in> core_status c then insert WDIOF_MAGICCLOSE st else st);
     let st = (if WDOG_KEEPALIVE \<in> core_status c then insert WDIOF_KEEPALIVEPING st else st);
     w \<leftarrow> upd_core (clear_core_bit WDOG_KEEPALIVE) w;
     Some (st, w)
   }"

definition watchdog_set_timeout ::
  "'h kapi \<Rightarrow> 'h wops \<Rightarrow> u32 \<Rightarrow> 'h watchdog_device \<Rightarrow> (int \<times> 'h watchdog_device) option" where
  "watchdog_set_timeout K ops t w =
     (if WDIOF_SETTIMEOUT \<notin> options w then Some (- LINUX_EOPNOTSUPP, w)
      else if watchdog_timeout_invalid K w t then Some (- LINUX_EINVAL, w)
      else do {
        let (err, w) = (case op_set_timeout ops of
            Some set_timeout \<Rightarrow> set_timeout t w
          | None \<Rightarrow> (0, w\<lparr>timeout := t, pretimeout := (if pretimeout w \<ge> t then 0 else pretimeout w)\<rparr>));
        w \<leftarrow> watchdog_update_worker K w;
        Some (err, w)
      })"

definition watchdog_set_pretimeout ::
  "'h kapi \<Rightarrow> 'h wops \<Rightarrow> u32 \<Rightarrow> 'h watchdog_device \<Rightarrow> int \<times> 'h watchdog_device" where
  "watchdog_set_pretimeout K ops t w =
     (if WDIOF_PRETIMEOUT \<notin> options w then (- LINUX_EOPNOTSUPP, w)
      else if watchdog_pretimeout_invalid K w t then (- LINUX_EINVAL, w)
      else (case op_set_pretimeout ops of
          Some set_pretimeout \<Rightarrow> set_pretimeout t w
        | None \<Rightarrow> (0, w\<lparr>pretimeout := t\<rparr>)))"

definition watchdog_get_timeleft :: "'h wops \<Rightarrow> 'h watchdog_device \<Rightarrow> int \<times> u32" where
  "watchdog_get_timeleft ops w =
     (case op_get_timeleft ops of None \<Rightarrow> (- LINUX_EOPNOTSUPP, 0) | Some f \<Rightarrow> (0, f w))"


section \<open>Attributes in sysfs\<close>

text \<open>The values the attribute files show, before they are printed; a negative number is the error code.\<close>

definition nowayout_show :: "'h watchdog_device \<Rightarrow> int" where
  "nowayout_show w = (if WDOG_NO_WAY_OUT \<in> status w then 1 else 0)"

definition status_show :: "'h wops \<Rightarrow> 'h watchdog_device \<Rightarrow> (wdiof set \<times> 'h watchdog_device) option" where
  "status_show ops w = watchdog_get_status ops w"

definition timeleft_show :: "'h wops \<Rightarrow> 'h watchdog_device \<Rightarrow> int" where
  "timeleft_show ops w = (let (st, val) = watchdog_get_timeleft ops w in if st = 0 then uint val else st)"

definition state_show :: "'h kapi \<Rightarrow> 'h watchdog_device \<Rightarrow> string" where
  "state_show K w = (if active K w then ''active'' else ''inactive'')"

datatype wdt_attr = State | Identity | Timeout | Pretimeout | Timeleft | Bootstatus | Status | Nowayout
  | Pretimeout_governor | Pretimeout_available_governors

text \<open>\<open>gov\<close> is the configuration \<open>CONFIG_WATCHDOG_PRETIMEOUT_GOV\<close>; \<open>False\<close> stands for mode 0.\<close>

definition wdt_is_visible :: "bool \<Rightarrow> 'h wops \<Rightarrow> 'h watchdog_device \<Rightarrow> wdt_attr \<Rightarrow> bool" where
  "wdt_is_visible gov ops w attr \<longleftrightarrow>
     (if attr = Timeleft \<and> op_get_timeleft ops = None then False
      else if attr = Pretimeout \<and> WDIOF_PRETIMEOUT \<notin> options w then False
      else if (attr = Pretimeout_governor \<or> attr = Pretimeout_available_governors) \<and> (WDIOF_PRETIMEOUT \<notin> options w \<or> \<not> gov)
      then False else True)"

section \<open>File operations\<close>

text \<open>A write: the bytes as user space gives them, where \<open>None\<close> is an address that faults.\<close>

fun write_scan :: "u8 option list \<Rightarrow> 'h watchdog_device \<Rightarrow> (bool \<times> 'h watchdog_device) option" where
  "write_scan [] w = Some (True, w)"
| "write_scan (None # data) w = Some (False, w)"
| "write_scan (Some c # data) w = do {
     w \<leftarrow> (if c = 0x56 then upd_file (set_core_bit WDOG_ALLOW_RELEASE) w else Some w);
     write_scan data w
   }"

definition watchdog_write :: "'h kapi \<Rightarrow> 'h wops \<Rightarrow> u8 option list \<Rightarrow> 'h watchdog_device \<Rightarrow> (int \<times> 'h watchdog_device) option" where
  "watchdog_write K ops data w =
     (if data = [] then Some (0, w)
      else do {
        w \<leftarrow> upd_file (clear_core_bit WDOG_ALLOW_RELEASE) w;
        (ok, w) \<leftarrow> write_scan data w;
        if \<not> ok then Some (- LINUX_EFAULT, w)
        else do {
          c \<leftarrow> core w;
          (err, w) \<leftarrow> (if wdd c then watchdog_ping K ops w else Some (- LINUX_ENODEV, w));
          Some (if err < 0 then err else int (length data), w)
        }
      })"

datatype user_value = User_info | User_flags "wdiof set" | User_num u32

text \<open>
  \<open>watchdog_ioctl\<close>: \<open>user\<close> is what \<open>get_user\<close> reads (or a fault), \<open>out_ok\<close> whether the copy to user space
  succeeds; the result has the value copied.
\<close>

definition put_user :: "bool \<Rightarrow> user_value \<Rightarrow> int \<times> user_value option" where
  "put_user out_ok v = (if out_ok then (0, Some v) else (- LINUX_EFAULT, None))"

definition ioctl_gettimeout :: "bool \<Rightarrow> 'h watchdog_device \<Rightarrow> int \<times> user_value option" where
  "ioctl_gettimeout out_ok w = (if timeout w = 0 then (- LINUX_EOPNOTSUPP, None) else put_user out_ok (User_num (timeout w)))"

definition watchdog_ioctl_op :: "'h wops \<Rightarrow> wd_ioctl \<Rightarrow> 'h watchdog_device \<Rightarrow> int \<times> 'h watchdog_device" where
  "watchdog_ioctl_op ops cmd w = (case op_ioctl ops of None \<Rightarrow> (- LINUX_ENOIOCTLCMD, w) | Some f \<Rightarrow> f cmd w)"

definition ioctl_setoptions :: "'h kapi \<Rightarrow> 'h wops \<Rightarrow> u32 option \<Rightarrow> int \<Rightarrow> 'h watchdog_device \<Rightarrow> (int \<times> 'h watchdog_device) option" where
  "ioctl_setoptions K ops user err w =
     (case user of
        None \<Rightarrow> Some (- LINUX_EFAULT, w)
      | Some val \<Rightarrow> do {
          (err, w) \<leftarrow> (if and val (WDIOS_DISABLECARD K) \<noteq> 0 then watchdog_stop K ops w else Some (err, w));
          if and val (WDIOS_DISABLECARD K) \<noteq> 0 \<and> err < 0 then Some (err, w)
          else if and val (WDIOS_ENABLECARD K) \<noteq> 0 then watchdog_start K ops w
          else Some (err, w)
        })"

definition ioctl_settimeout ::
  "'h kapi \<Rightarrow> 'h wops \<Rightarrow> u32 option \<Rightarrow> bool \<Rightarrow> 'h watchdog_device \<Rightarrow> (int \<times> user_value option \<times> 'h watchdog_device) option" where
  "ioctl_settimeout K ops user out_ok w =
     (case user of
        None \<Rightarrow> Some (- LINUX_EFAULT, None, w)
      | Some val \<Rightarrow> do {
          (err, w) \<leftarrow> watchdog_set_timeout K ops val w;
          if err < 0 then Some (err, None, w)
          else do {
            (err, w) \<leftarrow> watchdog_ping K ops w;
            if err < 0 then Some (err, None, w)
            else let (err, out) = ioctl_gettimeout out_ok w in Some (err, out, w)
          }
        })"

definition watchdog_ioctl ::
  "'h kapi \<Rightarrow> 'h wops \<Rightarrow> wd_ioctl \<Rightarrow> u32 option \<Rightarrow> bool \<Rightarrow> 'h watchdog_device
   \<Rightarrow> (int \<times> user_value option \<times> 'h watchdog_device) option" where
  "watchdog_ioctl K ops cmd user out_ok w = do {
     c \<leftarrow> core w;
     if \<not> wdd c then Some (- LINUX_ENODEV, None, w)
     else do {
       let (err, w) = watchdog_ioctl_op ops cmd w;
       if err \<noteq> - LINUX_ENOIOCTLCMD then Some (err, None, w)
       else (case cmd of
           WDIOC_GETSUPPORT \<Rightarrow> let (err, out) = put_user out_ok User_info in Some (err, out, w)
         | WDIOC_GETSTATUS \<Rightarrow> do {
             (st, w) \<leftarrow> watchdog_get_status ops w;
             let (err, out) = put_user out_ok (User_flags st);
             Some (err, out, w)
           }
         | WDIOC_GETBOOTSTATUS \<Rightarrow> let (err, out) = put_user out_ok (User_flags (bootstatus w)) in Some (err, out, w)
         | WDIOC_SETOPTIONS \<Rightarrow> do { (err, w) \<leftarrow> ioctl_setoptions K ops user err w; Some (err, None, w) }
         | WDIOC_KEEPALIVE \<Rightarrow>
             if WDIOF_KEEPALIVEPING \<notin> options w then Some (- LINUX_EOPNOTSUPP, None, w)
             else do { (err, w) \<leftarrow> watchdog_ping K ops w; Some (err, None, w) }
         | WDIOC_SETTIMEOUT \<Rightarrow> ioctl_settimeout K ops user out_ok w
         | WDIOC_GETTIMEOUT \<Rightarrow> let (err, out) = ioctl_gettimeout out_ok w in Some (err, out, w)
         | WDIOC_GETTIMELEFT \<Rightarrow>
             let (err, val) = watchdog_get_timeleft ops w
             in if err < 0 then Some (err, None, w)
                else let (err, out) = put_user out_ok (User_num val) in Some (err, out, w)
         | WDIOC_SETPRETIMEOUT \<Rightarrow>
             (case user of
                None \<Rightarrow> Some (- LINUX_EFAULT, None, w)
              | Some val \<Rightarrow> let (err, w) = watchdog_set_pretimeout K ops val w in Some (err, None, w))
         | WDIOC_GETPRETIMEOUT \<Rightarrow> let (err, out) = put_user out_ok (User_num (pretimeout w)) in Some (err, out, w)
         | WDIOC_OTHER \<Rightarrow> Some (- LINUX_ENOTTY, None, w))
     }
   }"

definition watchdog_open :: "'h kapi \<Rightarrow> 'h wops \<Rightarrow> 'h watchdog_device \<Rightarrow> (int \<times> 'h watchdog_device) option" where
  "watchdog_open K ops w = do {
     c \<leftarrow> core w;
     if WDOG_DEV_OPEN \<in> core_status c then Some (- LINUX_EBUSY, w)
     else do {
       w \<leftarrow> upd_file (set_core_bit WDOG_DEV_OPEN) w;
       if \<not> wdd c then None
       else do {
         let running = hw_running K w;
         if \<not> running \<and> \<not> try_module_get K then do {
           w \<leftarrow> upd_file (clear_core_bit WDOG_DEV_OPEN) w;
           Some (- LINUX_EBUSY, w)
         }
         else do {
           let w = (if \<not> running then w\<lparr>module_refs := module_refs w + 1\<rparr> else w);
           (err, w) \<leftarrow> watchdog_start K ops w;
           if err < 0 then do {
             w \<leftarrow> upd_file (clear_core_bit WDOG_DEV_OPEN) (w\<lparr>module_refs := module_refs w - 1\<rparr>);
             Some (err, w)
           }
           else do {
             w \<leftarrow> (if \<not> running then upd_file (\<lambda>c. c\<lparr>dev_refs := dev_refs c + 1\<rparr>) w else Some w);
             Some (0, w)
           }
         }
       }
     }
   }"

text \<open>Closing the device: first the attempt to stop it, then the rest of \<open>watchdog_release\<close>.\<close>

definition release_stop :: "'h kapi \<Rightarrow> 'h wops \<Rightarrow> 'h watchdog_device \<Rightarrow> (int \<times> 'h watchdog_device) option" where
  "release_stop K ops w =
     (if WDOG_ACTIVE \<notin> status w then Some (0, w)
      else do {
        c \<leftarrow> core w;
        w \<leftarrow> upd_file (clear_core_bit WDOG_ALLOW_RELEASE) w;
        if WDOG_ALLOW_RELEASE \<in> core_status c \<or> WDIOF_MAGICCLOSE \<notin> options w then watchdog_stop K ops w
        else Some (- LINUX_EBUSY, w)
      })"

definition watchdog_release :: "'h kapi \<Rightarrow> 'h wops \<Rightarrow> 'h watchdog_device \<Rightarrow> (int \<times> 'h watchdog_device) option" where
  "watchdog_release K ops w = do {
     c \<leftarrow> core w;
     (running, w) \<leftarrow> (if \<not> wdd c then Some (False, w)
       else do {
         (err, w) \<leftarrow> release_stop K ops w;
         w \<leftarrow> (if err < 0 then do { (e, w) \<leftarrow> watchdog_ping K ops w; Some w } else Some w);
         w \<leftarrow> watchdog_update_worker K w;
         w \<leftarrow> upd_file (clear_core_bit WDOG_DEV_OPEN) w;
         Some (hw_running K w, w)
       });
     w \<leftarrow> (if running then Some w
       else upd_file (\<lambda>c. c\<lparr>dev_refs := dev_refs c - 1\<rparr>) (w\<lparr>module_refs := module_refs w - 1\<rparr>));
     Some (0, w)
   }"


section \<open>Registration of the character device\<close>

text \<open>
  The core data is freed when the only reference, that of \<open>device_initialize\<close>, is dropped before the
  device is added.
\<close>

definition new_core_data :: watchdog_core_data where
  "new_core_data = \<lparr>last_keepalive = 0, last_hw_keepalive = 0, timer = None, work = False,
     core_status = {}, wdd = True, dev_refs = 1\<rparr>"

definition watchdog_cdev_register :: "'h kapi \<Rightarrow> 'h watchdog_device \<Rightarrow> (int \<times> 'h watchdog_device) option" where
  "watchdog_cdev_register K w =
     (if \<not> kzalloc K then Some (- LINUX_ENOMEM, w)
      else do {
        let w = w\<lparr>wd_data := True, core := Some new_core_data\<rparr>;
        if \<not> watchdog_kworker K then Some (- LINUX_ENODEV, w\<lparr>core := None\<rparr>)
        else if id_nr w = 0 \<and> misc_register K \<noteq> 0 then Some (misc_register K, w\<lparr>core := None\<rparr>)
        else if cdev_device_add K \<noteq> 0
        then Some (cdev_device_add K, if id_nr w = 0 then w\<lparr>core := None\<rparr> else w)
        else do {
          w \<leftarrow> upd_core (\<lambda>c. c\<lparr>last_hw_keepalive := now w - 1\<rparr>) w;
          if hw_running K w then do {
            w \<leftarrow> upd_core (\<lambda>c. c\<lparr>dev_refs := dev_refs c + 1\<rparr>) (w\<lparr>module_refs := module_refs w + 1\<rparr>);
            w \<leftarrow> (if handle_boot_enabled K then hrtimer_start 0 w else Some w);
            Some (0, w)
          }
          else Some (0, w)
        }
      })"

text \<open>
  \<open>watchdog_cdev_unregister\<close> in two steps, since the lock is released between them: the device is
  detached from the core data, then the timer and the work are cancelled.
\<close>

definition unregister_detach :: "'h kapi \<Rightarrow> 'h wops \<Rightarrow> 'h watchdog_device \<Rightarrow> 'h watchdog_device option" where
  "unregister_detach K ops w = do {
     w \<leftarrow> (if active K w \<and> WDOG_STOP_ON_UNREGISTER \<in> status w
          then do { (err, w) \<leftarrow> watchdog_stop K ops w; Some w } else Some w);
     w \<leftarrow> upd_core (\<lambda>c. c\<lparr>wdd := False\<rparr>) w;
     Some (w\<lparr>wd_data := False\<rparr>)
   }"

definition unregister_cancel :: "'h watchdog_device \<Rightarrow> 'h watchdog_device option" where
  "unregister_cancel w = upd_file (\<lambda>c. c\<lparr>timer := None, work := False, dev_refs := dev_refs c - 1\<rparr>) w"

definition watchdog_cdev_unregister :: "'h kapi \<Rightarrow> 'h wops \<Rightarrow> 'h watchdog_device \<Rightarrow> 'h watchdog_device option" where
  "watchdog_cdev_unregister K ops w = do { w \<leftarrow> unregister_detach K ops w; unregister_cancel w }"

definition watchdog_dev_register :: "'h kapi \<Rightarrow> 'h wops \<Rightarrow> 'h watchdog_device \<Rightarrow> (int \<times> 'h watchdog_device) option" where
  "watchdog_dev_register K ops w = do {
     (ret, w) \<leftarrow> watchdog_cdev_register K w;
     if ret \<noteq> 0 then Some (ret, w)
     else do {
       let ret = watchdog_register_pretimeout K;
       w \<leftarrow> (if ret \<noteq> 0 then watchdog_cdev_unregister K ops w else Some w);
       let w = w\<lparr>status := insert WDOG_HW_RUNNING (status w)\<rparr>;
       let (err, w) = op_start ops w;
       w \<leftarrow> upd_core (\<lambda>c. c\<lparr>last_keepalive := now w, last_hw_keepalive := now w\<rparr>) w;
       w \<leftarrow> watchdog_update_worker K w;
       Some (ret, w)
     }
   }"

definition watchdog_dev_unregister :: "'h kapi \<Rightarrow> 'h wops \<Rightarrow> 'h watchdog_device \<Rightarrow> 'h watchdog_device option" where
  "watchdog_dev_unregister K ops w = watchdog_cdev_unregister K ops w"

section \<open>Core registration\<close>

definition watchdog_check_min_max_timeout :: "'h watchdog_device \<Rightarrow> 'h watchdog_device" where
  "watchdog_check_min_max_timeout w =
     (if max_hw_heartbeat_ms w = 0 \<and> min_timeout w > max_timeout w then w\<lparr>min_timeout := 0, max_timeout := 0\<rparr> else w)"

text \<open>\<open>of_timeout\<close> is the property \<open>timeout-sec\<close> of the device's node: \<open>None\<close> without a node, 0 without the property.\<close>

definition watchdog_init_timeout :: "'h kapi \<Rightarrow> u32 \<Rightarrow> u32 option \<Rightarrow> 'h watchdog_device \<Rightarrow> int \<times> 'h watchdog_device" where
  "watchdog_init_timeout K timeout_parm of_timeout w =
     (let w = watchdog_check_min_max_timeout w in
      if \<not> watchdog_timeout_invalid K w timeout_parm \<and> timeout_parm \<noteq> 0 then (0, w\<lparr>timeout := timeout_parm\<rparr>)
      else let ret = (if timeout_parm \<noteq> 0 then - LINUX_EINVAL else 0) in
           case of_timeout of
             None \<Rightarrow> (ret, w)
           | Some t \<Rightarrow> if \<not> watchdog_timeout_invalid K w t \<and> t \<noteq> 0 then (ret, w\<lparr>timeout := t\<rparr>) else (- LINUX_EINVAL, w))"

text \<open>The notifiers answer \<open>NOTIFY_BAD\<close> (\<open>False\<close>) or \<open>NOTIFY_DONE\<close>.\<close>

datatype reboot_code = SYS_DOWN | SYS_HALT | SYS_OTHER

definition watchdog_reboot_notifier ::
  "'h kapi \<Rightarrow> 'h wops \<Rightarrow> reboot_code \<Rightarrow> 'h watchdog_device \<Rightarrow> (bool \<times> 'h watchdog_device) option" where
  "watchdog_reboot_notifier K ops code w =
     (if (code = SYS_DOWN \<or> code = SYS_HALT) \<and> active K w
      then do { stop \<leftarrow> op_stop ops; let (ret, w) = stop w; Some (ret = 0, w) }
      else Some (True, w))"

definition watchdog_restart_notifier :: "'h wops \<Rightarrow> 'h watchdog_device \<Rightarrow> (bool \<times> 'h watchdog_device) option" where
  "watchdog_restart_notifier ops w = do { restart \<leftarrow> op_restart ops; let (ret, w) = restart w; Some (ret = 0, w) }"

text \<open>What \<open>__watchdog_register_device\<close> asks for: the alias, identifiers, the reboot notifier.\<close>

record reg_env =
  MAX_DOGS :: int
  of_alias_get_id :: "int option"
  ida_simple_get :: "int \<Rightarrow> int \<Rightarrow> int"
  register_reboot_notifier :: int

definition choose_id :: "reg_env \<Rightarrow> int" where
  "choose_id R =
     (let id = (case of_alias_get_id R of
          Some ret \<Rightarrow> if ret \<ge> 0 then ida_simple_get R ret (ret + 1) else - 1
        | None \<Rightarrow> - 1)
      in if id < 0 then ida_simple_get R 0 (MAX_DOGS R) else id)"

definition register_notifiers ::
  "'h kapi \<Rightarrow> 'h wops \<Rightarrow> reg_env \<Rightarrow> 'h watchdog_device \<Rightarrow> (int \<times> 'h watchdog_device) option" where
  "register_notifiers K ops R w =
     (if WDOG_STOP_ON_REBOOT \<in> status w \<and> register_reboot_notifier R \<noteq> 0
      then do { w \<leftarrow> watchdog_dev_unregister K ops w; Some (register_reboot_notifier R, w) }
      else Some (0, w))"

text \<open>\<open>__watchdog_register_device\<close>\<close>

definition register_device ::
  "'h kapi \<Rightarrow> 'h wops \<Rightarrow> reg_env \<Rightarrow> 'h watchdog_device \<Rightarrow> (int \<times> 'h watchdog_device) option" where
  "register_device K ops R w =
     (if op_stop ops = None \<and> max_hw_heartbeat_ms w = 0 then Some (- LINUX_EINVAL, w)
      else do {
        let w = watchdog_check_min_max_timeout w;
        let id = choose_id R;
        if id < 0 then Some (id, w)
        else do {
          (ret, w) \<leftarrow> watchdog_dev_register K ops (w\<lparr>id_nr := id\<rparr>);
          if ret = 0 then register_notifiers K ops R w
          else if \<not> (id = 0 \<and> ret = - LINUX_EBUSY) then Some (ret, w)
          else do {
            let id = ida_simple_get R 1 (MAX_DOGS R);
            if id < 0 then Some (id, w)
            else do {
              (ret, w) \<leftarrow> watchdog_dev_register K ops (w\<lparr>id_nr := id\<rparr>);
              if ret \<noteq> 0 then Some (ret, w) else register_notifiers K ops R w
            }
          }
        }
      })"

definition unregister_device :: "'h kapi \<Rightarrow> 'h wops \<Rightarrow> 'h watchdog_device \<Rightarrow> 'h watchdog_device option" where
  "unregister_device K ops w = watchdog_dev_unregister K ops w"

section \<open>Deferred registration\<close>

text \<open>
  Devices registered before \<open>watchdog_init\<close> wait in a list. \<open>reg\<close> stands for
  \<open>__watchdog_register_device\<close> on the devices of the system \<open>devs\<close>.
\<close>

record ('d, 's) wd_subsys =
  wtd_deferred_reg_list :: "'d list"
  wtd_deferred_reg_done :: bool
  devs :: 's

definition watchdog_register_device :: "('d \<Rightarrow> 's \<Rightarrow> int \<times> 's) \<Rightarrow> 'd \<Rightarrow> ('d, 's) wd_subsys \<Rightarrow> int \<times> ('d, 's) wd_subsys" where
  "watchdog_register_device reg d s =
     (if wtd_deferred_reg_done s then let (ret, x) = reg d (devs s) in (ret, s\<lparr>devs := x\<rparr>)
      else (0, s\<lparr>wtd_deferred_reg_list := wtd_deferred_reg_list s @ [d]\<rparr>))"

definition watchdog_unregister_device :: "('d \<Rightarrow> 's \<Rightarrow> 's) \<Rightarrow> 'd \<Rightarrow> ('d, 's) wd_subsys \<Rightarrow> ('d, 's) wd_subsys" where
  "watchdog_unregister_device unreg d s =
     (if wtd_deferred_reg_done s then s\<lparr>devs := unreg d (devs s)\<rparr>
      else s\<lparr>wtd_deferred_reg_list := remove1 d (wtd_deferred_reg_list s)\<rparr>)"

fun deferred_loop :: "('d \<Rightarrow> 's \<Rightarrow> int \<times> 's) \<Rightarrow> 'd list \<Rightarrow> 's \<Rightarrow> 's" where
  "deferred_loop reg [] x = x"
| "deferred_loop reg (d # ds) x = deferred_loop reg ds (snd (reg d x))"

definition watchdog_deferred_registration :: "('d \<Rightarrow> 's \<Rightarrow> int \<times> 's) \<Rightarrow> ('d, 's) wd_subsys \<Rightarrow> ('d, 's) wd_subsys" where
  "watchdog_deferred_registration reg s =
     s\<lparr>wtd_deferred_reg_done := True, devs := deferred_loop reg (wtd_deferred_reg_list s) (devs s),
       wtd_deferred_reg_list := []\<rparr>"


section \<open>Runs\<close>

text \<open>
  What can happen to a registered device: calls from user space, the timer, the worker, the passing
  of time. The timer fires only when it has expired, the worker runs only when work is queued.
\<close>

datatype wd_event = Open | Write "u8 option list" | Ioctl wd_ioctl "u32 option" bool | Release | Timer | Worker | Tick nat

definition wd_step :: "'h kapi \<Rightarrow> 'h wops \<Rightarrow> wd_event \<Rightarrow> 'h watchdog_device \<Rightarrow> 'h watchdog_device option" where
  "wd_step K ops e w = (case e of
     Open \<Rightarrow> do { (r, w) \<leftarrow> watchdog_open K ops w; Some w }
   | Write data \<Rightarrow> do { (r, w) \<leftarrow> watchdog_write K ops data w; Some w }
   | Ioctl cmd user ok \<Rightarrow> do { (r, v, w) \<leftarrow> watchdog_ioctl K ops cmd user ok w; Some w }
   | Release \<Rightarrow> do { (r, w) \<leftarrow> watchdog_release K ops w; Some w }
   | Timer \<Rightarrow> do { c \<leftarrow> core w; case timer c of Some t \<Rightarrow> if t \<le> now w then watchdog_timer_expired w else Some w | None \<Rightarrow> Some w }
   | Worker \<Rightarrow> do { c \<leftarrow> core w; if work c then watchdog_ping_work K ops w else Some w }
   | Tick d \<Rightarrow> Some (w\<lparr>now := now w + int d\<rparr>))"

fun wd_run :: "'h kapi \<Rightarrow> 'h wops \<Rightarrow> wd_event list \<Rightarrow> 'h watchdog_device \<Rightarrow> 'h watchdog_device option" where
  "wd_run K ops [] w = Some w"
| "wd_run K ops (e # es) w = do { w \<leftarrow> wd_step K ops e w; wd_run K ops es w }"

end
