(* ===== verification/Dw_wdt.thy ===== *)
theory Dw_wdt
  imports Watchdog
begin

unbundle bit_operations_syntax

text \<open>
  The DesignWare watchdog driver, \<^verbatim>\<open>src/kernel/driver/dw_wdt.c\<close>. The device registers are a map from
  offsets to values; \<open>kick_time\<close> is the time of the last write that restarts the counter. Clock, reset
  and platform services answer through \<open>probe_env\<close>.
\<close>

definition WDOG_CONTROL_REG_OFFSET :: u32 where "WDOG_CONTROL_REG_OFFSET = 0x00"
definition WDOG_CONTROL_REG_WDT_EN_MASK :: u32 where "WDOG_CONTROL_REG_WDT_EN_MASK = 0x01"
definition WDOG_CONTROL_REG_RESP_MODE_MASK :: u32 where "WDOG_CONTROL_REG_RESP_MODE_MASK = 0x02"
definition WDOG_TIMEOUT_RANGE_REG_OFFSET :: u32 where "WDOG_TIMEOUT_RANGE_REG_OFFSET = 0x04"
definition WDOG_TIMEOUT_RANGE_TOPINIT_SHIFT :: nat where "WDOG_TIMEOUT_RANGE_TOPINIT_SHIFT = 4"
definition WDOG_CURRENT_COUNT_REG_OFFSET :: u32 where "WDOG_CURRENT_COUNT_REG_OFFSET = 0x08"
definition WDOG_COUNTER_RESTART_REG_OFFSET :: u32 where "WDOG_COUNTER_RESTART_REG_OFFSET = 0x0c"
definition WDOG_COUNTER_RESTART_KICK_VALUE :: u32 where "WDOG_COUNTER_RESTART_KICK_VALUE = 0x76"
definition DW_WDT_MAX_TOP :: nat where "DW_WDT_MAX_TOP = 15"
definition DW_WDT_DEFAULT_SECONDS :: u32 where "DW_WDT_DEFAULT_SECONDS = 30"

text \<open>
  \<open>struct dw_wdt\<close>: \<open>rst\<close> is the reset line, if there is one, as what a reset makes of the registers;
  \<open>clk_on\<close> and \<open>pclk_on\<close> count the calls that enable the two clocks less those that disable them.
\<close>

record dw_wdt =
  regs :: "u32 \<Rightarrow> u32"
  rate :: u64
  rst :: "((u32 \<Rightarrow> u32) \<Rightarrow> u32 \<Rightarrow> u32) option"
  saved_control :: u32
  saved_timeout :: u32
  kick_time :: int
  clk_on :: int
  pclk_on :: int

type_synonym dw_device = "dw_wdt watchdog_device"

definition readl :: "u32 \<Rightarrow> dw_device \<Rightarrow> u32" where
  "readl off w = regs (hw w) off"

definition writel :: "u32 \<Rightarrow> u32 \<Rightarrow> dw_device \<Rightarrow> dw_device" where
  "writel v off w = w\<lparr>hw := (hw w)\<lparr>regs := (regs (hw w))(off := v),
     kick_time := (if off = WDOG_COUNTER_RESTART_REG_OFFSET \<and> v = WDOG_COUNTER_RESTART_KICK_VALUE then now w else kick_time (hw w))\<rparr>\<rparr>"

definition clk_adj :: "int \<Rightarrow> dw_device \<Rightarrow> dw_device" where
  "clk_adj n w = w\<lparr>hw := (hw w)\<lparr>clk_on := clk_on (hw w) + n\<rparr>\<rparr>"

definition pclk_adj :: "int \<Rightarrow> dw_device \<Rightarrow> dw_device" where
  "pclk_adj n w = w\<lparr>hw := (hw w)\<lparr>pclk_on := pclk_on (hw w) + n\<rparr>\<rparr>"

definition dw_wdt_is_enabled :: "dw_device \<Rightarrow> bool" where
  "dw_wdt_is_enabled w \<longleftrightarrow> readl WDOG_CONTROL_REG_OFFSET w AND WDOG_CONTROL_REG_WDT_EN_MASK \<noteq> 0"

text \<open>An \<open>int\<close> in the code; its 32 bits are what the callers compare and store as unsigned values.\<close>

definition dw_wdt_top_in_seconds :: "dw_device \<Rightarrow> nat \<Rightarrow> u32" where
  "dw_wdt_top_in_seconds w top_val = ucast (ucast (push_bit (16 + top_val) (1 :: u32)) div rate (hw w))"

definition dw_wdt_get_top :: "dw_device \<Rightarrow> u32" where
  "dw_wdt_get_top w = dw_wdt_top_in_seconds w (unat (readl WDOG_TIMEOUT_RANGE_REG_OFFSET w AND 0xF))"

definition dw_wdt_ping :: "dw_wdt wd_op" where
  "dw_wdt_ping w = (0, writel WDOG_COUNTER_RESTART_KICK_VALUE WDOG_COUNTER_RESTART_REG_OFFSET w)"

definition find_top :: "dw_device \<Rightarrow> u32 \<Rightarrow> nat" where
  "find_top w top_s =
     (case find (\<lambda>i. dw_wdt_top_in_seconds w i \<ge> top_s) [0..<Suc DW_WDT_MAX_TOP] of
        Some i \<Rightarrow> i | None \<Rightarrow> DW_WDT_MAX_TOP)"

definition dw_wdt_set_timeout :: "u32 \<Rightarrow> dw_wdt wd_op" where
  "dw_wdt_set_timeout top_s w =
     (let top_val = find_top w top_s;
          w = writel (of_nat top_val OR push_bit WDOG_TIMEOUT_RANGE_TOPINIT_SHIFT (of_nat top_val))
                WDOG_TIMEOUT_RANGE_REG_OFFSET w
      in (0, w\<lparr>timeout := dw_wdt_top_in_seconds w top_val\<rparr>))"

definition dw_wdt_arm_system_reset :: "dw_device \<Rightarrow> dw_device" where
  "dw_wdt_arm_system_reset w =
     (let val = readl WDOG_CONTROL_REG_OFFSET w;
          val = val AND NOT WDOG_CONTROL_REG_RESP_MODE_MASK;
          val = val OR WDOG_CONTROL_REG_WDT_EN_MASK
      in writel val WDOG_CONTROL_REG_OFFSET w)"

definition dw_wdt_start :: "dw_wdt wd_op" where
  "dw_wdt_start w =
     (let (e, w) = dw_wdt_set_timeout (timeout w) w;
          (e, w) = dw_wdt_ping w
      in (0, dw_wdt_arm_system_reset w))"

definition dw_wdt_stop :: "dw_wdt wd_op" where
  "dw_wdt_stop w =
     (case rst (hw w) of
        None \<Rightarrow> (0, w\<lparr>status := insert WDOG_HW_RUNNING (status w)\<rparr>)
      | Some reset \<Rightarrow> (0, w\<lparr>hw := (hw w)\<lparr>regs := reset (regs (hw w))\<rparr>\<rparr>))"

definition dw_wdt_restart :: "dw_wdt wd_op" where
  "dw_wdt_restart w =
     (let w = writel 0 WDOG_TIMEOUT_RANGE_REG_OFFSET w;
          w = (if dw_wdt_is_enabled w then writel WDOG_COUNTER_RESTART_KICK_VALUE WDOG_COUNTER_RESTART_REG_OFFSET w
               else dw_wdt_arm_system_reset w)
      in (0, w\<lparr>now := now w + 500000000\<rparr>))"

definition dw_wdt_get_timeleft :: "dw_device \<Rightarrow> u32" where
  "dw_wdt_get_timeleft w = ucast ((ucast (readl WDOG_CURRENT_COUNT_REG_OFFSET w) :: u64) div rate (hw w))"

definition dw_wdt_ident :: "wdiof set" where
  "dw_wdt_ident = {WDIOF_KEEPALIVEPING, WDIOF_SETTIMEOUT, WDIOF_MAGICCLOSE}"

definition dw_wdt_ops :: "dw_wdt wops" where
  "dw_wdt_ops = \<lparr>op_start = dw_wdt_start, op_stop = Some dw_wdt_stop, op_ping = Some dw_wdt_ping, op_status = None,
     op_set_timeout = Some dw_wdt_set_timeout, op_set_pretimeout = None, op_get_timeleft = Some dw_wdt_get_timeleft,
     op_restart = Some dw_wdt_restart, op_ioctl = None\<rparr>"

definition dw_wdt_suspend :: "dw_device \<Rightarrow> dw_device" where
  "dw_wdt_suspend w =
     (let w = w\<lparr>hw := (hw w)\<lparr>saved_control := readl WDOG_CONTROL_REG_OFFSET w,
            saved_timeout := readl WDOG_TIMEOUT_RANGE_REG_OFFSET w\<rparr>\<rparr>
      in clk_adj (- 1) (pclk_adj (- 1) w))"

text \<open>\<open>clk\<close> and \<open>pclk\<close> are the answers of \<open>clk_prepare_enable\<close>.\<close>

definition dw_wdt_resume :: "int \<Rightarrow> int \<Rightarrow> dw_wdt wd_op" where
  "dw_wdt_resume clk pclk w =
     (if clk \<noteq> 0 then (clk, w)
      else let w = clk_adj 1 w in
      if pclk \<noteq> 0 then (pclk, clk_adj (- 1) w)
      else let w = pclk_adj 1 w;
               w = writel (saved_timeout (hw w)) WDOG_TIMEOUT_RANGE_REG_OFFSET w;
               w = writel (saved_control (hw w)) WDOG_CONTROL_REG_OFFSET w
           in (0, snd (dw_wdt_ping w)))"

text \<open>What the services called by the probe answer, 0 where they succeed.\<close>

record probe_env =
  devm_kzalloc :: bool
  ioremap_err :: int
  tclk_get_err :: int
  clk_get_err :: int
  clk_enable_err :: int
  clk_rate :: u64
  pclk_get_err :: int
  pclk_enable_err :: int
  rst_get_err :: int
  rst_line :: "((u32 \<Rightarrow> u32) \<Rightarrow> u32 \<Rightarrow> u32) option"
  boot_regs :: "u32 \<Rightarrow> u32"
  of_timeout :: "u32 option"
  nowayout :: bool
  probe_time :: int

text \<open>The device as \<open>devm_kzalloc\<close> zeroes it, with its registers mapped, and its watchdog device filled in.\<close>

definition mapped_device :: "probe_env \<Rightarrow> dw_device" where
  "mapped_device P =
     \<lparr>id_nr = 0, options = {}, bootstatus = {}, timeout = 0, pretimeout = 0, min_timeout = 0, max_timeout = 0,
      min_hw_heartbeat_ms = 0, max_hw_heartbeat_ms = 0, status = {}, wd_data = False, core = None, module_refs = 0,
      hw = \<lparr>regs = boot_regs P, rate = 0, rst = None, saved_control = 0, saved_timeout = 0, kick_time = 0, clk_on = 0, pclk_on = 0\<rparr>,
      now = probe_time P\<rparr>"

definition probe_device :: "probe_env \<Rightarrow> dw_device \<Rightarrow> dw_device" where
  "probe_device P w =
     w\<lparr>options := dw_wdt_ident, min_timeout := 1, max_hw_heartbeat_ms := dw_wdt_top_in_seconds w DW_WDT_MAX_TOP * 1000,
       status := (if nowayout P then insert WDOG_NO_WAY_OUT (status w) else status w)\<rparr>"

definition probe_timeout :: "dw_wdt kapi \<Rightarrow> probe_env \<Rightarrow> dw_device \<Rightarrow> dw_device" where
  "probe_timeout K P w =
     (let (e, w) = watchdog_init_timeout K 0 (of_timeout P) w
      in if dw_wdt_is_enabled w
         then w\<lparr>timeout := dw_wdt_get_top w, status := insert WDOG_HW_RUNNING (status w)\<rparr>
         else snd (watchdog_init_timeout K 0 (of_timeout P) (w\<lparr>timeout := DW_WDT_DEFAULT_SECONDS\<rparr>)))"

definition dw_wdt_drv_probe :: "dw_wdt kapi \<Rightarrow> reg_env \<Rightarrow> probe_env \<Rightarrow> (int \<times> dw_device option) option" where
  "dw_wdt_drv_probe K R P =
     (if \<not> devm_kzalloc P then Some (- LINUX_ENOMEM, None)
      else let w = mapped_device P in
      if ioremap_err P \<noteq> 0 then Some (ioremap_err P, Some w)
      else if tclk_get_err P \<noteq> 0 \<and> clk_get_err P \<noteq> 0 then Some (clk_get_err P, Some w)
      else if clk_enable_err P \<noteq> 0 then Some (clk_enable_err P, Some w)
      else let w = clk_adj 1 w; w = w\<lparr>hw := (hw w)\<lparr>rate := clk_rate P\<rparr>\<rparr> in
      if rate (hw w) = 0 then Some (- LINUX_EINVAL, Some (clk_adj (- 1) w))
      else if pclk_get_err P \<noteq> 0 then Some (pclk_get_err P, Some (clk_adj (- 1) w))
      else if pclk_enable_err P \<noteq> 0 then Some (pclk_enable_err P, Some (clk_adj (- 1) w))
      else let w = pclk_adj 1 w in
      if rst_get_err P \<noteq> 0 then Some (rst_get_err P, Some (clk_adj (- 1) (pclk_adj (- 1) w)))
      else do {
        let w = w\<lparr>hw := (hw w)\<lparr>rst := rst_line P\<rparr>\<rparr>;
        (ret, w) \<leftarrow> register_device K dw_wdt_ops R (probe_timeout K P (probe_device P w));
        Some (ret, Some (if ret \<noteq> 0 then clk_adj (- 1) (pclk_adj (- 1) w) else w))
      })"

definition dw_wdt_drv_remove :: "dw_wdt kapi \<Rightarrow> dw_device \<Rightarrow> dw_device option" where
  "dw_wdt_drv_remove K w = do {
     w \<leftarrow> unregister_device K dw_wdt_ops w;
     let w = (case rst (hw w) of None \<Rightarrow> w | Some reset \<Rightarrow> w\<lparr>hw := (hw w)\<lparr>regs := reset (regs (hw w))\<rparr>\<rparr>);
     Some (clk_adj (- 1) (pclk_adj (- 1) w))
   }"

end
