(* ===== verification/Watchdog_safe.thy ===== *)
theory Watchdog_safe
  imports Watchdog
begin

text \<open>
  What the watchdog core guarantees whatever driver it runs: the locale \<open>watchdog_driver\<close> has the
  contract of a driver's operations, and its lemmas show that a registered device stays registered
  through every operation and every run, that a device that may not be stopped stays active, and
  what closing the device does.
\<close>

section \<open>Weakest preconditions\<close>

definition safe :: "('a \<Rightarrow> bool) \<Rightarrow> 'a option \<Rightarrow> bool" where
  "safe P r \<longleftrightarrow> (case r of None \<Rightarrow> False | Some x \<Rightarrow> P x)"

named_theorems safe_simps \<open>weakest preconditions of the option monad\<close>

lemma safe_Some [safe_simps]: "safe P (Some x) \<longleftrightarrow> P x"
  by (simp add: safe_def)

lemma safe_bind [safe_simps]: "safe P (Option.bind r f) \<longleftrightarrow> safe (\<lambda>x. safe P (f x)) r"
  by (cases r) (simp_all add: safe_def)

lemma safe_if [safe_simps]: "safe P (if b then r else s) \<longleftrightarrow> (b \<longrightarrow> safe P r) \<and> (\<not> b \<longrightarrow> safe P s)"
  by simp

lemma safe_let [safe_simps]: "safe P (let x = a in f x) \<longleftrightarrow> safe P (f a)"
  by simp

lemma safe_prod [safe_simps]: "safe P (case p of (x, y) \<Rightarrow> f x y) \<longleftrightarrow> (case p of (x, y) \<Rightarrow> safe P (f x y))"
  by (cases p) simp

lemma safe_mono: "safe P r \<Longrightarrow> (\<And>x. P x \<Longrightarrow> Q x) \<Longrightarrow> safe Q r"
  by (cases r) (auto simp: safe_def)

lemma safe_ex: "safe P r \<longleftrightarrow> (\<exists>x. r = Some x \<and> P x)"
  by (cases r) (auto simp: safe_def)

section \<open>What every step keeps\<close>

definition registered :: "'h watchdog_device \<Rightarrow> bool" where
  "registered w \<longleftrightarrow> wd_data w \<and> (\<exists>c. core w = Some c \<and> wdd c)"

definition holds :: "'h watchdog_device \<Rightarrow> 'h watchdog_device \<Rightarrow> bool" where
  "holds w w' \<longleftrightarrow> registered w' \<and> options w' = options w \<and>
     (WDOG_NO_WAY_OUT \<in> status w' \<longleftrightarrow> WDOG_NO_WAY_OUT \<in> status w) \<and>
     (WDOG_NO_WAY_OUT \<in> status w \<and> WDOG_ACTIVE \<in> status w \<longrightarrow> WDOG_ACTIVE \<in> status w')"

lemma holds_refl: "registered w \<Longrightarrow> holds w w"
  by (simp add: holds_def)

lemma holds_trans: "holds a b \<Longrightarrow> holds b c \<Longrightarrow> holds a c"
  by (auto simp: holds_def)

lemma holds_registered: "holds w w' \<Longrightarrow> registered w'"
  by (simp add: holds_def)

text \<open>A driver may change the timeout, its hardware and whether the hardware runs.\<close>

definition frame :: "'h watchdog_device \<Rightarrow> 'h watchdog_device \<Rightarrow> bool" where
  "frame w w' \<longleftrightarrow> wd_data w' = wd_data w \<and> core w' = core w \<and> now w' = now w \<and> options w' = options w \<and>
     module_refs w' = module_refs w \<and> min_hw_heartbeat_ms w' = min_hw_heartbeat_ms w \<and>
     max_hw_heartbeat_ms w' = max_hw_heartbeat_ms w \<and> status w' - {WDOG_HW_RUNNING} = status w - {WDOG_HW_RUNNING}"

lemma frame_bit: "frame w w' \<Longrightarrow> b \<noteq> WDOG_HW_RUNNING \<Longrightarrow> b \<in> status w' \<longleftrightarrow> b \<in> status w"
  by (auto simp: frame_def)

lemma frame_holds: "registered w \<Longrightarrow> frame w w' \<Longrightarrow> holds w w'"
  using frame_bit [of w w'] by (auto simp: holds_def registered_def frame_def)

text \<open>
  A step that neither starts nor stops the device: a driver's operation, the worker, a ping.
\<close>

definition core_bits :: "'h watchdog_device \<Rightarrow> core_bit set" where
  "core_bits w = (case core w of None \<Rightarrow> {} | Some c \<Rightarrow> core_status c - {WDOG_KEEPALIVE})"

definition quiet :: "'h watchdog_device \<Rightarrow> 'h watchdog_device \<Rightarrow> bool" where
  "quiet w w' \<longleftrightarrow> registered w' \<and> options w' = options w \<and> core_bits w' = core_bits w \<and>
     status w' - {WDOG_HW_RUNNING} = status w - {WDOG_HW_RUNNING}"

lemma core_bits_status [simp]: "core_bits (w\<lparr>status := s\<rparr>) = core_bits w" "core_bits (w\<lparr>now := t\<rparr>) = core_bits w"
  "core_bits (w\<lparr>module_refs := m\<rparr>) = core_bits w"
  by (simp_all add: core_bits_def)

lemma quiet_refl: "registered w \<Longrightarrow> quiet w w"
  by (simp add: quiet_def)

lemma quiet_trans: "quiet a b \<Longrightarrow> quiet b c \<Longrightarrow> quiet a c"
  by (simp add: quiet_def)

lemma quiet_registered: "quiet w w' \<Longrightarrow> registered w'"
  by (simp add: quiet_def)

lemma quiet_bit: "quiet w w' \<Longrightarrow> b \<noteq> WDOG_HW_RUNNING \<Longrightarrow> b \<in> status w' \<longleftrightarrow> b \<in> status w"
  by (auto simp: quiet_def)

lemma quiet_holds: "quiet w w' \<Longrightarrow> holds w w'"
  using quiet_bit [of w w'] by (auto simp: holds_def quiet_def)

lemma started_holds: "quiet (w\<lparr>status := insert WDOG_ACTIVE (status w)\<rparr>) w' \<Longrightarrow> holds w w' \<and> core_bits w' = core_bits w"
  using quiet_bit [of "w\<lparr>status := insert WDOG_ACTIVE (status w)\<rparr>" w'] by (auto simp: holds_def quiet_def)

lemma stopped_holds:
  "WDOG_NO_WAY_OUT \<notin> status w \<Longrightarrow> quiet (w\<lparr>status := status w - {WDOG_ACTIVE}\<rparr>) w' \<Longrightarrow> holds w w' \<and> core_bits w' = core_bits w"
  using quiet_bit [of "w\<lparr>status := status w - {WDOG_ACTIVE}\<rparr>" w' WDOG_NO_WAY_OUT] by (auto simp: holds_def quiet_def)

lemma quiet_keeps: "quiet w w' \<Longrightarrow> holds w w' \<and> core_bits w' = core_bits w"
  using quiet_holds by (simp add: quiet_def)

lemma frame_quiet: "registered w \<Longrightarrow> frame w w' \<Longrightarrow> quiet w w'"
  by (auto simp: quiet_def registered_def frame_def core_bits_def)

lemma upd_core_safe:
  "registered w \<Longrightarrow> (\<And>c. core w = Some c \<Longrightarrow> P (w\<lparr>core := Some (f c)\<rparr>)) \<Longrightarrow> safe P (upd_core f w)"
  by (auto simp: upd_core_def get_core_def registered_def safe_def)

lemma upd_file_safe:
  "registered w \<Longrightarrow> (\<And>c. core w = Some c \<Longrightarrow> P (w\<lparr>core := Some (f c)\<rparr>)) \<Longrightarrow> safe P (upd_file f w)"
  by (auto simp: upd_file_def registered_def safe_def)

lemma quiet_core:
  "registered w \<Longrightarrow> core w = Some c \<Longrightarrow> wdd c' \<Longrightarrow> core_status c' - {WDOG_KEEPALIVE} = core_status c - {WDOG_KEEPALIVE} \<Longrightarrow>
   quiet w (w\<lparr>core := Some c'\<rparr>)"
  by (simp add: quiet_def registered_def core_bits_def)

lemma holds_core: "registered w \<Longrightarrow> core w = Some c \<Longrightarrow> wdd c' \<Longrightarrow> holds w (w\<lparr>core := Some c'\<rparr>)"
  by (simp add: holds_def registered_def)

lemma bit_wdd [simp]: "wdd (set_core_bit b c) = wdd c" "wdd (clear_core_bit b c) = wdd c"
  by (simp_all add: set_core_bit_def clear_core_bit_def)

lemma core_wdd: "registered w \<Longrightarrow> core w = Some c \<Longrightarrow> wdd c"
  by (auto simp: registered_def)

text \<open>The magic character, before the first address that faults.\<close>

definition magic :: "u8 option list \<Rightarrow> bool" where
  "magic data \<longleftrightarrow> Some 0x56 \<in> set (takeWhile (\<lambda>b. b \<noteq> None) data)"

lemma set_core_bit_twice [simp]: "set_core_bit b (set_core_bit b c) = set_core_bit b c"
  by (simp add: set_core_bit_def)

lemma write_scan_spec:
  "core w = Some c \<Longrightarrow> write_scan data w = Some (None \<notin> set data,
     if magic data then w\<lparr>core := Some (set_core_bit WDOG_ALLOW_RELEASE c)\<rparr> else w)"
proof (induction data w arbitrary: c rule: write_scan.induct)
  case (3 b data w)
  show ?case
  proof (cases "b = 0x56")
    case True
    then have u: "upd_file (set_core_bit WDOG_ALLOW_RELEASE) w = Some (w\<lparr>core := Some (set_core_bit WDOG_ALLOW_RELEASE c)\<rparr>)"
      using 3(2) by (simp add: upd_file_def)
    show ?thesis
      using True u 3(1) [of "w\<lparr>core := Some (set_core_bit WDOG_ALLOW_RELEASE c)\<rparr>" "set_core_bit WDOG_ALLOW_RELEASE c"]
      by (simp add: magic_def)
  next
    case False
    then show ?thesis
      using 3 by (simp add: magic_def)
  qed
qed (simp_all add: magic_def)

text \<open>Closing the device: \<open>may_stop\<close> says when the code tries to stop it.\<close>

definition may_stop :: "'h watchdog_device \<Rightarrow> bool" where
  "may_stop w \<longleftrightarrow> WDOG_ACTIVE \<in> status w \<and> (WDOG_ALLOW_RELEASE \<in> core_bits w \<or> WDIOF_MAGICCLOSE \<notin> options w) \<and>
     WDOG_NO_WAY_OUT \<notin> status w"

definition closes :: "bool \<Rightarrow> 'h watchdog_device \<Rightarrow> 'h watchdog_device \<Rightarrow> bool" where
  "closes stopped w w' \<longleftrightarrow> registered w' \<and> options w' = options w \<and>
     status w' - {WDOG_HW_RUNNING} = status w - (if stopped then {WDOG_ACTIVE} else {}) - {WDOG_HW_RUNNING}"

lemma closes_refl: "registered w \<Longrightarrow> closes False w w"
  by (simp add: closes_def)

lemma closes_quiet: "closes b w v \<Longrightarrow> quiet v w' \<Longrightarrow> closes b w w'"
  by (auto simp: closes_def quiet_def)

lemma closes_bit: "closes b w w' \<Longrightarrow> x \<noteq> WDOG_HW_RUNNING \<Longrightarrow> x \<in> status w' \<longleftrightarrow> x \<in> status w \<and> \<not> (b \<and> x = WDOG_ACTIVE)"
  by (auto simp: closes_def split: if_splits)

lemma closes_holds: "closes b w w' \<Longrightarrow> (b \<Longrightarrow> may_stop w) \<Longrightarrow> holds w w'"
  using closes_bit [of b w w'] by (auto simp: holds_def closes_def may_stop_def)

fun background :: "wd_event \<Rightarrow> bool" where
  "background Timer = True"
| "background Worker = True"
| "background (Tick d) = True"
| "background _ = False"

lemma wd_run_append: "wd_run K ops (es @ fs) w = do { w \<leftarrow> wd_run K ops es w; wd_run K ops fs w }"
  by (induction es arbitrary: w) (simp_all cong: Option.bind_cong)

lemma cdev_unregister_wd_data: "watchdog_cdev_unregister K ops w = Some w' \<Longrightarrow> \<not> wd_data w'"
  by (auto simp: watchdog_cdev_unregister_def unregister_detach_def unregister_cancel_def upd_file_def split: bind_splits)

locale watchdog_driver =
  fixes ops :: "'h wops" and K :: "'h kapi"
  assumes kapi: "kapi_ok K"
    and start_frame: "\<And>w. frame w (snd (op_start ops w))"
    and stop_frame: "\<And>f w. op_stop ops = Some f \<Longrightarrow> frame w (snd (f w))"
    and ping_frame: "\<And>f w. op_ping ops = Some f \<Longrightarrow> frame w (snd (f w))"
    and set_timeout_frame: "\<And>f w t. op_set_timeout ops = Some f \<Longrightarrow> frame w (snd (f t w))"
    and set_pretimeout_frame: "\<And>f w t. op_set_pretimeout ops = Some f \<Longrightarrow> frame w (snd (f t w))"
    and ioctl_frame: "\<And>f w cmd. op_ioctl ops = Some f \<Longrightarrow> frame w (snd (f cmd w))"
begin

lemma tests: "active K w \<longleftrightarrow> WDOG_ACTIVE \<in> status w" "hw_running K w \<longleftrightarrow> WDOG_HW_RUNNING \<in> status w"
  using kapi by (simp_all add: kapi_ok_def active_def hw_running_def)

lemma update_worker_safe:
  assumes "registered w" "\<And>w'. quiet w w' \<Longrightarrow> status w' = status w \<Longrightarrow> P w'"
  shows "safe P (watchdog_update_worker K w)"
proof -
  have c: "P (w\<lparr>core := Some (c\<lparr>timer := t\<rparr>)\<rparr>)" if "core w = Some c" for c t
    using assms(2) quiet_core [OF assms(1) that, of "c\<lparr>timer := t\<rparr>"] core_wdd [OF assms(1) that] by simp
  then show ?thesis
    using assms(1) assms(2) [OF quiet_refl [OF assms(1)]]
    by (auto simp: watchdog_update_worker_def watchdog_next_keepalive_def hrtimer_start_def hrtimer_cancel_def
        get_core_def registered_def Let_def safe_simps intro!: upd_core_safe)
qed

lemma driver_ping_quiet:
  "registered w \<Longrightarrow> quiet w (snd (case op_ping ops of Some ping \<Rightarrow> ping w | None \<Rightarrow> op_start ops w))"
  using ping_frame start_frame frame_quiet by (fastforce split: option.split)

lemma ping_hw_safe:
  assumes r: "registered w" and P: "\<And>e w'. quiet w w' \<Longrightarrow> P (e, w')"
  shows "safe P (watchdog_ping_hw K ops w)"
proof -
  obtain c where c: "get_core w = Some c" "core w = Some c" "wdd c"
    using r by (auto simp: registered_def get_core_def)
  have t: "P (e, w\<lparr>core := Some (c\<lparr>timer := t\<rparr>)\<rparr>)" for e t
    by (rule P, rule quiet_core) (use r c in auto)
  let ?w = "w\<lparr>core := Some (c\<lparr>last_hw_keepalive := now w\<rparr>)\<rparr>"
  let ?p = "case op_ping ops of Some ping \<Rightarrow> ping ?w | None \<Rightarrow> op_start ops ?w"
  have q: "quiet w ?w"
    by (rule quiet_core) (use r c in auto)
  have p: "quiet w (snd ?p)"
    using driver_ping_quiet [OF quiet_registered [OF q]] quiet_trans [OF q] by blast
  have u: "safe (\<lambda>w'. P (fst ?p, w')) (watchdog_update_worker K (snd ?p))"
    using p by (auto intro!: update_worker_safe P dest: quiet_registered intro: quiet_trans)
  show ?thesis
    using t u c by (simp add: watchdog_ping_hw_def hrtimer_start_def upd_core_def safe_simps Let_def split_beta)
qed

lemma ping_safe:
  assumes r: "registered w" and P: "\<And>e w'. quiet w w' \<Longrightarrow> P (e, w')"
  shows "safe P (watchdog_ping K ops w)"
proof -
  have q: "quiet w (w\<lparr>core := Some (set_core_bit WDOG_KEEPALIVE (c\<lparr>last_keepalive := t\<rparr>))\<rparr>)" if "core w = Some c" for c t
    by (rule quiet_core [OF r that]) (use r that in \<open>auto simp: registered_def set_core_bit_def\<close>)
  show ?thesis
    using r q by (auto simp: watchdog_ping_def safe_simps intro!: upd_core_safe ping_hw_safe P
        intro: quiet_refl dest: quiet_registered quiet_trans)
qed

lemma ping_work_safe:
  assumes r: "registered w" and P: "\<And>w'. quiet w w' \<Longrightarrow> P w'"
  shows "safe P (watchdog_ping_work K ops w)"
proof -
  have q: "quiet w (w\<lparr>core := Some (c\<lparr>work := False\<rparr>)\<rparr>)" "wdd c" if "core w = Some c" for c
    using quiet_core [OF r that, of "c\<lparr>work := False\<rparr>"] r that by (auto simp: registered_def)
  show ?thesis
    using r q by (auto simp: watchdog_ping_work_def safe_simps intro!: upd_file_safe ping_hw_safe P
        dest: quiet_registered quiet_trans)
qed

lemma set_status_quiet:
  "frame w w' \<Longrightarrow> registered w \<Longrightarrow> b \<noteq> WDOG_HW_RUNNING \<Longrightarrow>
   quiet (w\<lparr>status := insert b (status w)\<rparr>) (w'\<lparr>status := insert b (status w')\<rparr>)"
  "frame w w' \<Longrightarrow> registered w \<Longrightarrow> quiet (w\<lparr>status := status w - {b}\<rparr>) (w'\<lparr>status := status w' - {b}\<rparr>)"
  by (auto simp: quiet_def frame_def registered_def core_bits_def)

lemma start_safe:
  assumes r: "registered w"
    and A: "WDOG_ACTIVE \<in> status w \<Longrightarrow> P (0, w)"
    and F: "\<And>e w'. e \<noteq> 0 \<Longrightarrow> quiet w w' \<Longrightarrow> P (e, w')"
    and S: "\<And>w'. quiet (w\<lparr>status := insert WDOG_ACTIVE (status w)\<rparr>) w' \<Longrightarrow> P (0, w')"
  shows "safe P (watchdog_start K ops w)"
proof (cases "active K w")
  case True
  then show ?thesis
    using A by (simp add: watchdog_start_def safe_simps tests)
next
  case False
  obtain c where c: "get_core w = Some c" "core w = Some c" "wdd c"
    using r by (auto simp: registered_def get_core_def)
  let ?w = "w\<lparr>core := Some (set_core_bit WDOG_KEEPALIVE c)\<rparr>"
  obtain e v where p: "(case op_ping ops of
        Some ping \<Rightarrow> if hw_running K ?w then ping ?w else op_start ops ?w
      | None \<Rightarrow> op_start ops ?w) = (e, v)"
    by fastforce
  have q: "quiet w ?w"
    by (rule quiet_core [OF r c(2)]) (use c in \<open>auto simp: set_core_bit_def\<close>)
  have f: "frame ?w v"
    using p ping_frame [of _ ?w] start_frame [of ?w] by (fastforce split: option.splits if_splits)
  have g: "quiet w v"
    using frame_quiet [OF quiet_registered [OF q] f] quiet_trans [OF q] by blast
  have cv: "upd_core (\<lambda>c. c\<lparr>last_keepalive := now w, last_hw_keepalive := now w\<rparr>) (v\<lparr>status := insert WDOG_ACTIVE (status v)\<rparr>) =
      Some (v\<lparr>status := insert WDOG_ACTIVE (status v), core := Some ((set_core_bit WDOG_KEEPALIVE c)
      \<lparr>last_keepalive := now w, last_hw_keepalive := now w\<rparr>)\<rparr>)" (is "_ = Some ?u")
    using f r by (simp add: frame_def get_core_def upd_core_def registered_def)
  have a: "quiet (w\<lparr>status := insert WDOG_ACTIVE (status w)\<rparr>) ?u"
    using f r c by (auto simp: quiet_def frame_def registered_def core_bits_def set_core_bit_def)
  have u: "safe (\<lambda>w'. P (0, w')) (watchdog_update_worker K ?u)"
    by (rule update_worker_safe [OF quiet_registered [OF a]]) (rule S, rule quiet_trans [OF a])
  have w: "upd_core (set_core_bit WDOG_KEEPALIVE) w = Some ?w"
    using c by (simp add: upd_core_def)
  show ?thesis
    using False u F [OF _ g] p by (simp add: watchdog_start_def w cv safe_simps Let_def)
qed

lemma stop_safe:
  assumes r: "registered w"
    and A: "WDOG_ACTIVE \<notin> status w \<Longrightarrow> P (0, w)"
    and N: "WDOG_ACTIVE \<in> status w \<Longrightarrow> WDOG_NO_WAY_OUT \<in> status w \<Longrightarrow> P (- LINUX_EBUSY, w)"
    and F: "\<And>e f w'. op_stop ops = Some f \<Longrightarrow> WDOG_ACTIVE \<in> status w \<Longrightarrow> WDOG_NO_WAY_OUT \<notin> status w \<Longrightarrow> e \<noteq> 0 \<Longrightarrow>
         e = fst (f (w\<lparr>status := status w - {WDOG_HW_RUNNING}\<rparr>)) \<Longrightarrow> quiet w w' \<Longrightarrow> P (e, w')"
    and S: "\<And>w'. WDOG_ACTIVE \<in> status w \<Longrightarrow> WDOG_NO_WAY_OUT \<notin> status w \<Longrightarrow>
         quiet (w\<lparr>status := status w - {WDOG_ACTIVE}\<rparr>) w' \<Longrightarrow> P (0, w')"
  shows "safe P (watchdog_stop K ops w)"
proof (cases "active K w \<and> WDOG_NO_WAY_OUT \<notin> status w")
  case False
  then show ?thesis
    using A N by (auto simp: watchdog_stop_def safe_simps tests)
next
  case True
  then have act: "WDOG_ACTIVE \<in> status w" "WDOG_NO_WAY_OUT \<notin> status w"
    by (simp_all add: tests)
  let ?p = "case op_stop ops of Some stop \<Rightarrow> stop (w\<lparr>status := status w - {WDOG_HW_RUNNING}\<rparr>)
    | None \<Rightarrow> (0, w\<lparr>status := insert WDOG_HW_RUNNING (status w)\<rparr>)"
  have f: "frame w (snd ?p)"
    using stop_frame [of _ "w\<lparr>status := status w - {WDOG_HW_RUNNING}\<rparr>"] by (auto simp: frame_def split: option.split)
  have q: "quiet w (snd ?p)"
    by (rule frame_quiet [OF r f])
  have fe: "P ?p" if "fst ?p \<noteq> 0"
    using that q F [OF _ act that, of _ "snd ?p"] by (auto split: option.splits)
  have a: "quiet (w\<lparr>status := status w - {WDOG_ACTIVE}\<rparr>) ((snd ?p)\<lparr>status := status (snd ?p) - {WDOG_ACTIVE}\<rparr>)"
    by (rule set_status_quiet(2) [OF f r])
  have u: "safe (\<lambda>w'. P (0, w')) (watchdog_update_worker K ((snd ?p)\<lparr>status := status (snd ?p) - {WDOG_ACTIVE}\<rparr>))"
    by (rule update_worker_safe [OF quiet_registered [OF a]]) (rule S [OF act], rule quiet_trans [OF a])
  show ?thesis
    using True u fe by (simp add: watchdog_stop_def safe_simps Let_def split_beta)
qed

lemma start_holds: "registered w \<Longrightarrow> (\<And>e w'. holds w w' \<Longrightarrow> core_bits w' = core_bits w \<Longrightarrow> P (e, w')) \<Longrightarrow> safe P (watchdog_start K ops w)"
  by (rule start_safe) (auto intro: holds_refl dest: started_holds quiet_keeps)

lemma stop_holds: "registered w \<Longrightarrow> (\<And>e w'. holds w w' \<Longrightarrow> core_bits w' = core_bits w \<Longrightarrow> P (e, w')) \<Longrightarrow> safe P (watchdog_stop K ops w)"
  by (rule stop_safe) (auto intro: holds_refl dest: stopped_holds quiet_keeps)

lemma set_timeout_safe:
  assumes r: "registered w" and P: "\<And>e w'. quiet w w' \<Longrightarrow> P (e, w')"
  shows "safe P (watchdog_set_timeout K ops t w)"
proof -
  have q: "quiet w (snd (case op_set_timeout ops of
      Some set_timeout \<Rightarrow> set_timeout t w
    | None \<Rightarrow> (0, w\<lparr>timeout := t, pretimeout := (if pretimeout w \<ge> t then 0 else pretimeout w)\<rparr>)))"
    using r set_timeout_frame [of _ w t]
    by (auto intro!: frame_quiet simp: frame_def split: option.split)
  show ?thesis
    using P [OF quiet_refl [OF r]] update_worker_safe [OF quiet_registered [OF q]] P quiet_trans [OF q]
    by (simp add: watchdog_set_timeout_def safe_simps Let_def split_beta)
qed

lemma set_pretimeout_quiet: "registered w \<Longrightarrow> quiet w (snd (watchdog_set_pretimeout K ops t w))"
  using set_pretimeout_frame [of _ w t]
  by (auto simp: watchdog_set_pretimeout_def intro!: frame_quiet quiet_refl simp: frame_def split: option.split)

lemma ioctl_op_quiet: "registered w \<Longrightarrow> quiet w (snd (watchdog_ioctl_op ops cmd w))"
  using ioctl_frame [of _ w cmd] by (auto simp: watchdog_ioctl_op_def intro!: frame_quiet quiet_refl split: option.split)

lemma get_status_safe:
  assumes r: "registered w" and P: "\<And>e w'. quiet w w' \<Longrightarrow> P (e, w')"
  shows "safe P (watchdog_get_status ops w)"
proof -
  obtain c where c: "get_core w = Some c" "core w = Some c" "wdd c"
    using r by (auto simp: registered_def get_core_def)
  have "P (e, w\<lparr>core := Some (clear_core_bit WDOG_KEEPALIVE c)\<rparr>)" for e
    by (rule P, rule quiet_core [OF r c(2)]) (use c in \<open>auto simp: clear_core_bit_def\<close>)
  then show ?thesis
    using c by (simp add: watchdog_get_status_def upd_core_def safe_simps Let_def)
qed

lemma ioctl_settimeout_safe:
  assumes r: "registered w" and P: "\<And>e v w'. quiet w w' \<Longrightarrow> P (e, v, w')"
  shows "safe P (ioctl_settimeout K ops user ok w)"
proof (cases user)
  case None
  then show ?thesis
    using P [OF quiet_refl [OF r]] by (simp add: ioctl_settimeout_def safe_simps)
next
  case (Some val)
  have q: "quiet w w'' \<and> registered w''" if "quiet w w'" "quiet w' w''" for w' w''
    using quiet_trans [OF that] quiet_registered [OF that(2)] by simp
  show ?thesis
    using Some by (auto simp: ioctl_settimeout_def safe_simps Let_def split_beta
        intro!: set_timeout_safe [OF r] ping_safe P dest: q quiet_registered)
qed

lemma setoptions_holds:
  assumes r: "registered w" and P: "\<And>e w'. holds w w' \<Longrightarrow> P (e, w')"
  shows "safe P (ioctl_setoptions K ops user err w)"
proof (cases user)
  case None
  then show ?thesis
    using P [OF holds_refl [OF r]] by (simp add: ioctl_setoptions_def safe_simps)
next
  case (Some val)
  have s: "safe P (watchdog_start K ops w')" if "holds w w'" for w'
    by (rule start_holds [OF holds_registered [OF that]]) (rule P, rule holds_trans [OF that])
  show ?thesis
    using Some s P holds_refl [OF r]
    by (auto simp: ioctl_setoptions_def safe_simps Let_def split_beta intro!: stop_holds [OF r])
qed

lemma ioctl_holds:
  assumes r: "registered w" and P: "\<And>e v w'. holds w w' \<Longrightarrow> P (e, v, w')"
  shows "safe P (watchdog_ioctl K ops cmd user ok w)"
proof -
  obtain c where c: "core w = Some c" "wdd c"
    using r by (auto simp: registered_def)
  obtain e v where op: "watchdog_ioctl_op ops cmd w = (e, v)"
    by fastforce
  have v: "quiet w v" "registered v" "holds w v"
    using ioctl_op_quiet [OF r, of cmd] by (simp_all add: op quiet_registered quiet_holds)
  have h: "P (e, x, w')" if "quiet v w'" for e x w'
    by (rule P) (rule quiet_holds [OF quiet_trans [OF v(1) that]])
  have g: "safe (\<lambda>x. P (fst (put_user ok (User_flags (fst x))), snd (put_user ok (User_flags (fst x))), snd x)) (watchdog_get_status ops v)"
    using h by (auto intro!: get_status_safe [OF v(2)])
  have s: "safe (\<lambda>x. P (fst x, None, snd x)) (ioctl_setoptions K ops user e v)" for e
    using P holds_trans [OF v(3)] by (auto intro!: setoptions_holds [OF v(2)])
  have p: "safe (\<lambda>x. P (fst x, None, snd x)) (watchdog_ping K ops v)"
    using h by (auto intro!: ping_safe [OF v(2)])
  have t: "safe P (ioctl_settimeout K ops user ok v)"
    by (rule ioctl_settimeout_safe [OF v(2)]) (rule h)
  have u: "P (fst (watchdog_set_pretimeout K ops t v), None, snd (watchdog_set_pretimeout K ops t v))" for t
    by (rule h) (rule set_pretimeout_quiet [OF v(2)])
  show ?thesis
    using op c g s p t u h [OF quiet_refl [OF v(2)]]
    by (cases cmd; cases user) (simp_all add: watchdog_ioctl_def safe_simps Let_def split_beta)
qed

lemma write_safe:
  assumes r: "registered w" and P: "\<And>e w'. data = [] \<Longrightarrow> w' = w \<Longrightarrow> P (e, w')"
    and Q: "\<And>c e w'. data \<noteq> [] \<Longrightarrow> core w = Some c \<Longrightarrow>
      quiet (w\<lparr>core := Some (c\<lparr>core_status := core_status c - {WDOG_ALLOW_RELEASE} \<union> (if magic data then {WDOG_ALLOW_RELEASE} else {})\<rparr>)\<rparr>) w'
      \<Longrightarrow> P (e, w')"
  shows "safe P (watchdog_write K ops data w)"
proof (cases "data = []")
  case True
  then show ?thesis
    using P by (simp add: watchdog_write_def safe_simps)
next
  case False
  obtain c where c: "core w = Some c" "wdd c"
    using r by (auto simp: registered_def)
  let ?c = "c\<lparr>core_status := core_status c - {WDOG_ALLOW_RELEASE} \<union> (if magic data then {WDOG_ALLOW_RELEASE} else {})\<rparr>"
  define v where "v = w\<lparr>core := Some ?c\<rparr>"
  have s: "do { w \<leftarrow> upd_file (clear_core_bit WDOG_ALLOW_RELEASE) w; write_scan data w } = Some (None \<notin> set data, v)"
    using c by (simp add: upd_file_def write_scan_spec clear_core_bit_def set_core_bit_def v_def)
  have v: "registered v" "core v = Some ?c"
    using r c by (simp_all add: registered_def v_def)
  have q: "P (e, w')" if "quiet v w'" for e w'
    using Q [OF False c(1)] that by (simp add: v_def)
  have p: "safe (\<lambda>x. P (if fst x < 0 then fst x else int (length data), snd x)) (watchdog_ping K ops v)"
    by (rule ping_safe [OF v(1)]) (simp add: q)
  have "watchdog_write K ops data w = do { (ok, w) \<leftarrow> Some (None \<notin> set data, v);
        if \<not> ok then Some (- LINUX_EFAULT, w)
        else do {
          c \<leftarrow> core w;
          (err, w) \<leftarrow> (if wdd c then watchdog_ping K ops w else Some (- LINUX_ENODEV, w));
          Some (if err < 0 then err else int (length data), w)
        } }"
    unfolding s [symmetric] using False by (simp add: watchdog_write_def bind_assoc)
  then show ?thesis
    using p q [OF quiet_refl [OF v(1)]] v(2) c(2) by (simp add: safe_simps split_beta)
qed

lemma release_stop_safe:
  assumes r: "registered w"
    and N: "\<And>w' e. may_stop w \<longrightarrow> (\<exists>f v. op_stop ops = Some f \<and> fst (f v) \<noteq> 0) \<Longrightarrow> closes False w w' \<Longrightarrow> P (e, w')"
    and S: "\<And>w'. may_stop w \<Longrightarrow> closes True w w' \<Longrightarrow> P (0, w')"
  shows "safe P (release_stop K ops w)"
proof (cases "WDOG_ACTIVE \<in> status w")
  case False
  then show ?thesis
    using N closes_refl [OF r] by (simp add: release_stop_def safe_simps may_stop_def)
next
  case True
  obtain c where c: "core w = Some c" "wdd c"
    using r by (auto simp: registered_def)
  let ?w = "w\<lparr>core := Some (clear_core_bit WDOG_ALLOW_RELEASE c)\<rparr>"
  have w: "registered ?w" "upd_file (clear_core_bit WDOG_ALLOW_RELEASE) w = Some ?w" "closes False w ?w"
    using r c by (simp_all add: registered_def upd_file_def closes_def)
  have cb: "WDOG_ALLOW_RELEASE \<in> core_status c \<longleftrightarrow> WDOG_ALLOW_RELEASE \<in> core_bits w"
    using c by (simp add: core_bits_def)
  have stop: "safe P (watchdog_stop K ops ?w)" if a: "WDOG_ALLOW_RELEASE \<in> core_bits w \<or> WDIOF_MAGICCLOSE \<notin> options w"
  proof (rule stop_safe [OF w(1)])
    show "P (0, ?w)" if "WDOG_ACTIVE \<notin> status ?w"
      using that True by simp
    show "P (- LINUX_EBUSY, ?w)" if "WDOG_NO_WAY_OUT \<in> status ?w"
      by (rule N [OF _ w(3)]) (use that in \<open>simp add: may_stop_def\<close>)
    show "P (e, w')" if "op_stop ops = Some f" "e \<noteq> 0" "e = fst (f (?w\<lparr>status := status ?w - {WDOG_HW_RUNNING}\<rparr>))" "quiet ?w w'" for e f w'
      by (rule N [OF _ closes_quiet [OF w(3) that(4)]]) (use that in auto)
    show "P (0, w')" if "WDOG_NO_WAY_OUT \<notin> status ?w" "quiet (?w\<lparr>status := status ?w - {WDOG_ACTIVE}\<rparr>) w'" for w'
      by (rule S) (use that True a in \<open>simp_all add: quiet_def closes_def may_stop_def\<close>)
  qed
  have no: "P (- LINUX_EBUSY, ?w)" if "\<not> (WDOG_ALLOW_RELEASE \<in> core_bits w \<or> WDIOF_MAGICCLOSE \<notin> options w)"
    by (rule N [OF _ w(3)]) (use that in \<open>simp add: may_stop_def\<close>)
  show ?thesis
    using True stop no w(2) c cb by (simp add: release_stop_def safe_simps)
qed

lemma release_tail:
  assumes b: "closes b w v" and P: "\<And>w'. closes b w w' \<Longrightarrow> WDOG_DEV_OPEN \<notin> core_bits w' \<Longrightarrow> P w'"
  shows "safe (\<lambda>v. safe (\<lambda>v. safe (\<lambda>v. (hw_running K v \<longrightarrow> P v) \<and>
      (\<not> hw_running K v \<longrightarrow> safe P (upd_file (\<lambda>c. c\<lparr>dev_refs := dev_refs c - 1\<rparr>) (v\<lparr>module_refs := module_refs v - 1\<rparr>))))
    (upd_file (clear_core_bit WDOG_DEV_OPEN) v)) (watchdog_update_worker K v))
    (if e < 0 then do { (e, w) \<leftarrow> watchdog_ping K ops v; Some w } else Some v)"
proof -
  have last: "safe (\<lambda>v. (hw_running K v \<longrightarrow> P v) \<and>
      (\<not> hw_running K v \<longrightarrow> safe P (upd_file (\<lambda>c. c\<lparr>dev_refs := dev_refs c - 1\<rparr>) (v\<lparr>module_refs := module_refs v - 1\<rparr>))))
    (upd_file (clear_core_bit WDOG_DEV_OPEN) v)" if "closes b w v" for v
    using that by (auto simp: closes_def registered_def upd_file_def clear_core_bit_def core_bits_def safe_simps intro!: P)
  have mid: "safe (\<lambda>v. safe (\<lambda>v. (hw_running K v \<longrightarrow> P v) \<and>
      (\<not> hw_running K v \<longrightarrow> safe P (upd_file (\<lambda>c. c\<lparr>dev_refs := dev_refs c - 1\<rparr>) (v\<lparr>module_refs := module_refs v - 1\<rparr>))))
    (upd_file (clear_core_bit WDOG_DEV_OPEN) v)) (watchdog_update_worker K v)" if "closes b w v" for v
    by (rule update_worker_safe) (use that in \<open>simp add: closes_def\<close>, rule last, rule closes_quiet [OF that])
  have r: "registered v"
    using b by (simp add: closes_def)
  show ?thesis
    using b mid by (auto simp: safe_simps intro!: ping_safe [OF r] dest: closes_quiet)
qed

lemma release_safe:
  assumes r: "registered w"
    and N: "\<And>w'. may_stop w \<longrightarrow> (\<exists>f v. op_stop ops = Some f \<and> fst (f v) \<noteq> 0) \<Longrightarrow> closes False w w' \<Longrightarrow>
        WDOG_DEV_OPEN \<notin> core_bits w' \<Longrightarrow> P (0, w')"
    and S: "\<And>w'. may_stop w \<Longrightarrow> closes True w w' \<Longrightarrow> WDOG_DEV_OPEN \<notin> core_bits w' \<Longrightarrow> P (0, w')"
  shows "safe P (watchdog_release K ops w)"
proof -
  obtain c where c: "core w = Some c" "wdd c"
    using r by (auto simp: registered_def)
  let ?t = "\<lambda>x. safe (\<lambda>v. safe (\<lambda>v. safe (\<lambda>v. (hw_running K v \<longrightarrow> P (0, v)) \<and>
      (\<not> hw_running K v \<longrightarrow> safe (\<lambda>v. P (0, v)) (upd_file (\<lambda>c. c\<lparr>dev_refs := dev_refs c - 1\<rparr>) (v\<lparr>module_refs := module_refs v - 1\<rparr>))))
    (upd_file (clear_core_bit WDOG_DEV_OPEN) v)) (watchdog_update_worker K v))
    (if fst x < 0 then do { (e, w) \<leftarrow> watchdog_ping K ops (snd x); Some w } else Some (snd x))"
  have "safe ?t (release_stop K ops w)"
  proof (rule release_stop_safe [OF r])
    show "?t (e, w')" if "may_stop w \<longrightarrow> (\<exists>f v. op_stop ops = Some f \<and> fst (f v) \<noteq> 0)" "closes False w w'" for e w'
      unfolding fst_conv snd_conv by (rule release_tail [OF that(2)]) (rule N [OF that(1)])
    show "?t (0, w')" if "may_stop w" "closes True w w'" for w'
      unfolding fst_conv snd_conv by (rule release_tail [OF that(2)]) (rule S [OF that(1)])
  qed
  then show ?thesis
    using c by (simp add: watchdog_release_def safe_simps split_beta cong: if_cong)
qed

lemma open_holds:
  assumes r: "registered w" and P: "\<And>e w'. holds w w' \<Longrightarrow> P (e, w')"
  shows "safe P (watchdog_open K ops w)"
proof -
  have f: "safe (\<lambda>v. P (e, v)) (upd_file g v)" if "holds w v" "\<And>c. wdd (g c) = wdd c" for g v e
  proof (rule upd_file_safe [OF holds_registered [OF that(1)]])
    fix c
    assume c: "core v = Some c"
    show "P (e, v\<lparr>core := Some (g c)\<rparr>)"
      using holds_core [OF holds_registered [OF that(1)] c, of "g c"] that(2) c core_wdd [OF holds_registered [OF that(1)] c]
      by (auto intro: P holds_trans [OF that(1)])
  qed
  have m: "holds w (v\<lparr>module_refs := m\<rparr>)" if "holds w v" for v m
    using that by (simp add: holds_def registered_def)
  obtain c where c: "core w = Some c" "wdd c"
    using r by (auto simp: registered_def)
  define v where "v = w\<lparr>core := Some (set_core_bit WDOG_DEV_OPEN c)\<rparr>"
  have v: "holds w v" "upd_file (set_core_bit WDOG_DEV_OPEN) w = Some v"
    using r c by (simp_all add: v_def upd_file_def holds_def registered_def)
  have h: "holds w (if b then v\<lparr>module_refs := n\<rparr> else v)" for b n
    using v(1) m by simp
  have s: "safe (\<lambda>x. (fst x < 0 \<longrightarrow> safe (\<lambda>v. P (fst x, v)) (upd_file (clear_core_bit WDOG_DEV_OPEN) ((snd x)\<lparr>module_refs := module_refs (snd x) - 1\<rparr>))) \<and>
      (\<not> fst x < 0 \<longrightarrow> (q \<longrightarrow> safe (\<lambda>v. P (0, v)) (upd_file (\<lambda>c. c\<lparr>dev_refs := dev_refs c + 1\<rparr>) (snd x))) \<and> (\<not> q \<longrightarrow> P (0, snd x))))
    (watchdog_start K ops (if b then v\<lparr>module_refs := n\<rparr> else v))" for b n q
    by (rule start_holds [OF holds_registered [OF h]])
      (use f m P holds_trans [OF h] in \<open>simp\<close>)
  show ?thesis
    using c v(2) s [where b = True and n = "module_refs v + 1" and q = True] s [where b = False and q = False] f [OF v(1)] P [OF holds_refl [OF r]] by (simp add: watchdog_open_def safe_simps Let_def split_beta)
qed

lemma step_holds:
  assumes r: "registered w"
  shows "safe (holds w) (wd_step K ops e w)"
proof -
  obtain c where c: "core w = Some c" "wdd c"
    using r by (auto simp: registered_def)
  have w: "safe (\<lambda>x. holds w (snd x)) (watchdog_write K ops data w)" for data
  proof (rule write_safe [OF r])
    show "holds w (snd (e, w'))" if "w' = w" for e w'
      using that holds_refl [OF r] by simp
    fix c e w'
    assume "core w = Some c"
    then show "holds w (snd (e, w'))"
      if "quiet (w\<lparr>core := Some (c\<lparr>core_status := core_status c - {WDOG_ALLOW_RELEASE} \<union> (if magic data then {WDOG_ALLOW_RELEASE} else {})\<rparr>)\<rparr>) w'"
      using quiet_holds [OF that] by (simp add: holds_def)
  qed
  have k: "safe (\<lambda>x. holds w (snd (snd x))) (watchdog_ioctl K ops cmd user ok w)" for cmd user ok
    by (rule ioctl_holds [OF r]) simp
  have l: "safe (\<lambda>x. holds w (snd x)) (watchdog_release K ops w)"
    by (rule release_safe [OF r]) (auto intro: closes_holds)
  have o: "safe (\<lambda>x. holds w (snd x)) (watchdog_open K ops w)"
    by (rule open_holds [OF r]) simp
  have p: "safe (holds w) (watchdog_ping_work K ops w)"
    by (rule ping_work_safe [OF r]) (rule quiet_holds)
  have t: "safe (holds w) (watchdog_timer_expired w)"
    using r c by (simp add: watchdog_timer_expired_def upd_file_def safe_simps holds_def registered_def)
  show ?thesis
    using w k l o p t c r holds_refl [OF r]
    by (cases e) (simp_all add: wd_step_def safe_simps split_beta holds_def registered_def split: option.split)
qed

lemma run_holds: "registered w \<Longrightarrow> safe (holds w) (wd_run K ops es w)"
proof (induction es arbitrary: w)
  case Nil
  then show ?case
    by (simp add: safe_simps holds_refl)
next
  case (Cons e es)
  show ?case
    using step_holds [OF Cons.prems, of e]
    by (auto simp: safe_simps elim!: safe_mono intro!: safe_mono [OF Cons.IH] dest: holds_registered holds_trans)
qed

text \<open>The timer, the worker and the passing of time neither start nor stop the device.\<close>

lemma background_step:
  assumes r: "registered w" and e: "background e"
  shows "safe (quiet w) (wd_step K ops e w)"
proof -
  obtain c where c: "core w = Some c" "wdd c"
    using r by (auto simp: registered_def)
  have t: "safe (quiet w) (watchdog_timer_expired w)"
    using r c by (simp add: watchdog_timer_expired_def upd_file_def safe_simps quiet_def registered_def core_bits_def)
  show ?thesis
    using e t c ping_work_safe [OF r, of "quiet w"] quiet_refl [OF r] r
    by (cases e) (auto simp: wd_step_def safe_simps quiet_def registered_def split: option.split)
qed

lemma background_run: "registered w \<Longrightarrow> \<forall>e\<in>set es. background e \<Longrightarrow> safe (quiet w) (wd_run K ops es w)"
proof (induction es arbitrary: w)
  case Nil
  then show ?case
    by (simp add: safe_simps quiet_refl)
next
  case (Cons e es)
  have "safe (quiet w) (wd_step K ops e w)"
    using background_step Cons.prems by simp
  then show ?case
    using Cons.prems(2)
    by (auto simp: safe_simps elim!: safe_mono intro!: safe_mono [OF Cons.IH] dest: quiet_registered quiet_trans)
qed

text \<open>After a failed registration of the pretimeout governor the code goes on with a null pointer.\<close>

lemma failed_pretimeout_null:
  assumes "watchdog_register_pretimeout K \<noteq> 0" "watchdog_cdev_register K w = Some (0, v)"
  shows "watchdog_dev_register K ops w = None"
proof (cases "watchdog_cdev_unregister K ops v")
  case None
  then show ?thesis
    using assms by (simp add: watchdog_dev_register_def)
next
  case (Some u)
  have "\<not> wd_data (snd (op_start ops (u\<lparr>status := s\<rparr>)))" for s
    using cdev_unregister_wd_data [OF Some] start_frame [of "u\<lparr>status := s\<rparr>"] by (simp add: frame_def)
  then show ?thesis
    using assms Some by (simp add: watchdog_dev_register_def Let_def split_beta upd_core_def get_core_def)
qed

end

text \<open>A driver whose stop operation never fails.\<close>

locale stoppable_driver = watchdog_driver +
  assumes stop_ok: "\<And>f w. op_stop ops = Some f \<Longrightarrow> fst (f w) = 0"
begin

lemma release_decides:
  assumes r: "registered w"
  shows "safe (\<lambda>w'. registered w' \<and> WDOG_DEV_OPEN \<notin> core_bits w' \<and>
      (WDOG_ACTIVE \<in> status w' \<longleftrightarrow> WDOG_ACTIVE \<in> status w \<and> \<not> may_stop w)) (wd_step K ops Release w)"
    (is "safe ?P _")
proof -
  have "safe (\<lambda>x. ?P (snd x)) (watchdog_release K ops w)"
    by (rule release_safe [OF r]) (use stop_ok in \<open>auto simp: closes_bit, auto simp: closes_def\<close>)
  then show ?thesis
    by (simp add: wd_step_def safe_simps split_beta)
qed

lemma magic_close_run:
  assumes r: "registered w" and a: "WDOG_ACTIVE \<in> status w" and m: "WDIOF_MAGICCLOSE \<in> options w"
    and d: "data \<noteq> []" and b: "\<forall>e\<in>set es. background e"
  shows "safe (\<lambda>w'. registered w' \<and> WDOG_DEV_OPEN \<notin> core_bits w' \<and>
      (WDOG_ACTIVE \<in> status w' \<longleftrightarrow> WDOG_NO_WAY_OUT \<in> status w \<or> \<not> magic data)) (wd_run K ops (Write data # es @ [Release]) w)"
    (is "safe ?P _")
proof -
  let ?Q = "\<lambda>v :: 'a watchdog_device. registered v \<and> options v = options w \<and> status v - {WDOG_HW_RUNNING} = status w - {WDOG_HW_RUNNING} \<and>
      (WDOG_ALLOW_RELEASE \<in> core_bits v \<longleftrightarrow> magic data)"
  have "safe (\<lambda>x. ?Q (snd x)) (watchdog_write K ops data w)"
    by (rule write_safe [OF r]) (use d in \<open>auto simp: quiet_def core_bits_def split: if_splits\<close>)
  then have w: "safe ?Q (wd_step K ops (Write data) w)"
    by (simp add: wd_step_def safe_simps split_beta)
  have q: "?Q v'" if "?Q v" "quiet v v'" for v v'
    using that by (auto simp: quiet_def)
  have l: "safe ?P (wd_run K ops [Release] v)" if v: "?Q v" for v
  proof -
    have bits: "x \<noteq> WDOG_HW_RUNNING \<Longrightarrow> x \<in> status v \<longleftrightarrow> x \<in> status w" for x
      using v by auto
    have "safe ?P (wd_step K ops Release v)"
      by (rule safe_mono [OF release_decides]) (use v a m bits in \<open>auto simp: may_stop_def\<close>)
    then show ?thesis
      by (auto simp: safe_simps safe_ex)
  qed
  have "safe (\<lambda>v. safe ?P (wd_run K ops (es @ [Release]) v)) (wd_step K ops (Write data) w)"
  proof (rule safe_mono [OF w])
    fix v :: "'a watchdog_device"
    assume v: "?Q v"
    show "safe ?P (wd_run K ops (es @ [Release]) v)"
      unfolding wd_run_append safe_bind
      by (rule safe_mono [OF background_run [OF _ b]]) (use v l [OF q [OF v]] in simp_all)
  qed
  then show ?thesis
    by (simp add: safe_simps)
qed

end

end
