(* ===== verification/Dw_wdt_props.thy ===== *)
theory Dw_wdt_props
  imports Dw_wdt Watchdog_safe
begin

text \<open>
  The DesignWare driver under the watchdog core: the interpretation of the driver's contract and the
  properties of the whole stack.
\<close>

section \<open>The timeout range\<close>

definition period :: "dw_device \<Rightarrow> nat \<Rightarrow> nat" where
  "period w i = 2 ^ (16 + i) div unat (rate (hw w))"

lemma top_in_seconds: "i \<le> 15 \<Longrightarrow> unat (dw_wdt_top_in_seconds w i) = period w i"
proof -
  assume i: "i \<le> 15"
  have e: "(2 :: nat) ^ (16 + i) \<le> 2 ^ 31"
    using i by (intro power_increasing) simp_all
  have p: "unat (push_bit (16 + i) (1 :: u32)) = 2 ^ (16 + i)"
    using e unat_of_nat [of "2 ^ (16 + i)", where ?'a = 32] by (simp add: push_bit_eq_mult)
  have u: "unat (ucast (push_bit (16 + i) (1 :: u32)) :: u64) = 2 ^ (16 + i)"
    using p e i by (simp add: unsigned_ucast_eq take_bit_nat_eq_self)
  have q: "2 ^ (16 + i) div unat (rate (hw w)) < 2 ^ 32"
    by (rule le_less_trans [OF div_le_dividend], rule le_less_trans [OF e]) simp
  show ?thesis
    using u q by (simp add: dw_wdt_top_in_seconds_def unsigned_ucast_eq take_bit_nat_eq_self unat_div_distrib period_def)
qed

lemma period_mono: "i \<le> j \<Longrightarrow> period w i \<le> period w j"
  by (simp add: period_def div_le_mono power_increasing)

lemma find_top_spec:
  "find_top w t \<le> 15" "\<And>j. j < find_top w t \<Longrightarrow> period w j < unat t"
  "unat t \<le> period w 15 \<Longrightarrow> unat t \<le> period w (find_top w t)"
  "period w 15 < unat t \<Longrightarrow> find_top w t = 15"
proof -
  have c: "dw_wdt_top_in_seconds w i \<ge> t \<longleftrightarrow> unat t \<le> period w i" if "i \<le> 15" for i
    using top_in_seconds [OF that, of w] by (simp add: word_le_nat_alt)
  let ?f = "find (\<lambda>i. dw_wdt_top_in_seconds w i \<ge> t) [0..<16]"
  have f: "find_top w t = (case ?f of Some i \<Rightarrow> i | None \<Rightarrow> 15)"
    by (simp add: find_top_def DW_WDT_MAX_TOP_def del: upt_Suc cong: option.case_cong)
  have s: "i \<le> 15 \<and> unat t \<le> period w i \<and> (\<forall>j<i. period w j < unat t)" if "?f = Some i" for i
    using that c by (auto simp: find_Some_iff simp flip: not_le)
  have n: "period w j < unat t" if "?f = None" "j \<le> 15" for j
    using that c [OF that(2)] by (auto simp: find_None_iff simp flip: not_le dest!: spec [of _ j])
  show "find_top w t \<le> 15"
    using f s by (cases ?f) simp_all
  show "period w j < unat t" if "j < find_top w t" for j
    using f s n that by (cases ?f) auto
  show "unat t \<le> period w (find_top w t)" if "unat t \<le> period w 15"
    using f s n [of 15] that by (cases ?f) auto
  show "find_top w t = 15" if "period w 15 < unat t"
    using f s that period_mono [of _ 15 w] by (cases ?f) fastforce+
qed

lemma top_register: "n \<le> 15 \<Longrightarrow> (of_nat n OR push_bit 4 (of_nat n)) AND 0xF = (of_nat n :: u32)"
proof -
  assume n: "n \<le> 15"
  have m: "(0xF :: u32) = mask 4"
    by (simp add: mask_eq_exp_minus_1)
  show ?thesis
    using n unfolding m take_bit_eq_mask [symmetric]
    by (simp add: take_bit_push_bit take_bit_of_nat take_bit_nat_eq_self)
qed

text \<open>The programmed timeout period of the hardware, as an exponent.\<close>

definition hw_top :: "dw_device \<Rightarrow> nat" where
  "hw_top w = unat (readl WDOG_TIMEOUT_RANGE_REG_OFFSET w AND 0xF)"

lemma hw_writel [simp]:
  "now (writel v off w) = now w" "status (writel v off w) = status w" "core (writel v off w) = core w"
  "wd_data (writel v off w) = wd_data w" "timeout (writel v off w) = timeout w" "options (writel v off w) = options w"
  "rate (hw (writel v off w)) = rate (hw w)" "rst (hw (writel v off w)) = rst (hw w)"
  "module_refs (writel v off w) = module_refs w" "min_hw_heartbeat_ms (writel v off w) = min_hw_heartbeat_ms w"
  "max_hw_heartbeat_ms (writel v off w) = max_hw_heartbeat_ms w"
  by (simp_all add: writel_def)

lemma readl_writel: "readl off (writel v off' w) = (if off = off' then v else readl off w)"
  by (simp add: readl_def writel_def)

lemma readl_timeout [simp]: "readl off (w\<lparr>timeout := t\<rparr>) = readl off w"
  by (simp add: readl_def)

lemma period_cong: "rate (hw w') = rate (hw w) \<Longrightarrow> period w' = period w"
  by (rule ext) (simp add: period_def)

lemma set_timeout_spec:
  assumes "snd (dw_wdt_set_timeout t w) = w'"
  shows "hw_top w' = find_top w t" "unat (timeout w') = period w (find_top w t)" "period w' = period w"
proof -
  note f = find_top_spec(1) [of w t]
  have m: "(of_nat (find_top w t) OR push_bit 4 (of_nat (find_top w t))) AND 0xF = (of_nat (find_top w t) :: u32)"
    by (rule top_register [OF f])
  have "unat (of_nat (find_top w t) :: u32) = find_top w t"
    using f by (simp add: unat_of_nat)
  then show "hw_top w' = find_top w t"
    using assms m by (auto simp: dw_wdt_set_timeout_def Let_def hw_top_def readl_writel WDOG_TIMEOUT_RANGE_TOPINIT_SHIFT_def)
  show p: "period w' = period w"
    by (rule period_cong) (use assms in \<open>auto simp: dw_wdt_set_timeout_def Let_def\<close>)
  have "period (writel v off w) = period w" for v off
    by (rule period_cong) simp
  then show "unat (timeout w') = period w (find_top w t)"
    using assms by (auto simp: dw_wdt_set_timeout_def Let_def top_in_seconds [OF f])
qed

section \<open>The driver's contract\<close>

text \<open>The tests on the status word as the header documents them.\<close>

definition kapi_std :: "'h kapi \<Rightarrow> 'h kapi" where
  "kapi_std K = K\<lparr>watchdog_active := \<lambda>s. WDOG_ACTIVE \<in> s, watchdog_hw_running := \<lambda>s. WDOG_HW_RUNNING \<in> s\<rparr>"

lemma kapi_std_id: "kapi_ok K \<Longrightarrow> kapi_std K = K"
  by (cases K) (simp add: kapi_std_def kapi_ok_def)

lemma frame_writel: "frame w (writel v off w)"
  by (simp add: frame_def)

lemma frame_trans: "frame a b \<Longrightarrow> frame b c \<Longrightarrow> frame a c"
  by (simp add: frame_def)

lemma dw_set_timeout_frame: "frame w (snd (dw_wdt_set_timeout t w))"
  by (simp add: dw_wdt_set_timeout_def Let_def frame_def)

lemma dw_start_frame: "frame w (snd (dw_wdt_start w))"
  using dw_set_timeout_frame [of w "timeout w"]
  by (simp add: dw_wdt_start_def dw_wdt_ping_def dw_wdt_arm_system_reset_def Let_def split_beta frame_def)

lemma dw_stop_frame: "frame w (snd (dw_wdt_stop w))"
  by (auto simp: dw_wdt_stop_def frame_def split: option.split)

interpretation dw: stoppable_driver dw_wdt_ops "kapi_std K" for K
  by unfold_locales
    (auto simp: dw_wdt_ops_def kapi_ok_def kapi_std_def dw_start_frame dw_stop_frame dw_set_timeout_frame
      dw_wdt_ping_def frame_writel, auto simp: dw_wdt_stop_def split: option.split)

section \<open>Properties\<close>

lemma nowayout_spec:
  "kapi_ok K \<Longrightarrow> registered w \<Longrightarrow> \<exists>w'. wd_run K dw_wdt_ops es w = Some w' \<and> registered w' \<and>
     (WDOG_NO_WAY_OUT \<in> status w' \<longleftrightarrow> WDOG_NO_WAY_OUT \<in> status w) \<and>
     (WDOG_NO_WAY_OUT \<in> status w \<and> WDOG_ACTIVE \<in> status w \<longrightarrow> WDOG_ACTIVE \<in> status w')"
  using dw.run_holds [of w K es] by (auto simp: kapi_std_id safe_ex holds_def)

end
