(* ===== verification/Dw_wdt_feed.thy ===== *)
theory Dw_wdt_feed
  imports Dw_wdt_props
begin

text \<open>
  Feeding: from the moment the driver has registered a device until user space opens it, the worker of
  the watchdog core restarts the counter in time.
\<close>

section \<open>What it means to be fed\<close>

text \<open>The hardware has not run out: less time has passed since the last restart than the programmed period.\<close>

definition alive :: "dw_device \<Rightarrow> bool" where
  "alive w \<longleftrightarrow> (now w - kick_time (hw w)) * int (unat (rate (hw w))) < 2 ^ (16 + hw_top w) * 1000000000"

text \<open>
  A run in which the timer is at most \<open>L\<close> nanoseconds late and queued work runs at once: time does not
  pass beyond that.
\<close>

fun on_time :: "nat \<Rightarrow> wd_event \<Rightarrow> dw_device \<Rightarrow> bool" where
  "on_time L (Tick d) w = (case core w of None \<Rightarrow> True | Some c \<Rightarrow> \<not> work c \<and>
     (case timer c of None \<Rightarrow> True | Some t \<Rightarrow> now w + int d \<le> t + int L))"
| "on_time L _ w = True"

fun prompt :: "nat \<Rightarrow> dw_wdt kapi \<Rightarrow> wd_event list \<Rightarrow> dw_device \<Rightarrow> bool" where
  "prompt L K [] w = True"
| "prompt L K (e # es) w = (background e \<and> on_time L e w \<and>
     (case wd_step K dw_wdt_ops e w of None \<Rightarrow> True | Some w' \<Rightarrow> prompt L K es w'))"

definition ivl :: "dw_device \<Rightarrow> int" where
  "ivl w = ms_to_ktime (min_not_zero (timeout w * 1000) (max_hw_heartbeat_ms w) div 2)"

text \<open>A device that is not open, with a timeout the arithmetic of the code can handle.\<close>

definition feeding :: "dw_device \<Rightarrow> bool" where
  "feeding w \<longleftrightarrow> WDOG_ACTIVE \<notin> status w \<and> WDOG_HW_RUNNING \<in> status w \<and> 0 < unat (timeout w) \<and> unat (timeout w) * 1000 < 2 ^ 32 \<and>
     (max_hw_heartbeat_ms w = 0 \<or> 2 \<le> unat (max_hw_heartbeat_ms w))"

definition idle :: "dw_device \<Rightarrow> bool" where
  "idle w \<longleftrightarrow> feeding w \<and> min_hw_heartbeat_ms w = 0 \<and> unat (timeout w) \<le> period w (hw_top w) \<and> dw_wdt_is_enabled w"

definition fed :: "nat \<Rightarrow> dw_device \<Rightarrow> bool" where
  "fed L w \<longleftrightarrow> idle w \<and> wd_data w \<and> (\<exists>c. core w = Some c \<and> wdd c \<and> kick_time (hw w) = last_hw_keepalive c \<and>
     last_hw_keepalive c \<le> now w \<and> (work c \<or> timer c \<noteq> None) \<and>
     (work c \<longrightarrow> now w \<le> last_hw_keepalive c + ivl w + int L) \<and>
     (\<forall>t. timer c = Some t \<longrightarrow> t \<le> last_hw_keepalive c + ivl w \<and> now w \<le> t + int L))"

lemma timeout_ms: "unat (t :: u32) * 1000 < 2 ^ 32 \<Longrightarrow> unat (t * 1000) = unat t * 1000"
  by (simp add: unat_mult_lem [THEN iffD1])

lemma ivl_bounds:
  assumes "feeding w"
  shows "0 < ivl w" "ivl w \<le> int (unat (timeout w)) * 500000000"
proof -
  let ?t = "timeout w * 1000" let ?h = "min_not_zero ?t (max_hw_heartbeat_ms w)"
  have t: "unat ?t = unat (timeout w) * 1000" "?t \<noteq> 0"
    using assms timeout_ms [of "timeout w"] by (auto simp: feeding_def unat_eq_0 [symmetric])
  have h: "2 \<le> unat ?h" "unat ?h \<le> unat ?t"
    using assms t by (auto simp: min_not_zero_def feeding_def min_def word_le_nat_alt)
  have i: "ivl w = uint ?h div 2 * 1000000"
    by (simp add: ivl_def ms_to_ktime_def uint_div)
  have u: "uint ?h = int (unat ?h)"
    by simp
  show "0 < ivl w"
    using h(1) unfolding i u by linarith
  show "ivl w \<le> int (unat (timeout w)) * 500000000"
    using h(2) t(1) unfolding i u by linarith
qed

lemma idle_feeding: "idle w \<Longrightarrow> feeding w"
  by (simp add: idle_def)

lemma fed_alive:
  assumes f: "fed L w" and L: "L < 500000000"
  shows "alive w"
proof -
  let ?T = "unat (timeout w)" let ?r = "unat (rate (hw w))"
  have i: "idle w"
    using f by (simp add: fed_def)
  obtain c where c: "core w = Some c" "kick_time (hw w) = last_hw_keepalive c" "work c \<or> timer c \<noteq> None"
    "work c \<longrightarrow> now w \<le> last_hw_keepalive c + ivl w + int L"
    "\<And>t. timer c = Some t \<Longrightarrow> t \<le> last_hw_keepalive c + ivl w \<and> now w \<le> t + int L"
    using f by (auto simp: fed_def)
  have "now w \<le> kick_time (hw w) + ivl w + int L"
    using c by fastforce
  then have d: "now w - kick_time (hw w) < int ?T * 1000000000"
    using ivl_bounds(2) [OF idle_feeding [OF i]] L i unfolding idle_def feeding_def by linarith
  have T: "0 < ?T" "?T \<le> period w (hw_top w)"
    using i by (simp_all add: idle_def feeding_def)
  then have r: "0 < ?r"
    by (auto simp: period_def intro: gr0I)
  have p: "?T * ?r \<le> 2 ^ (16 + hw_top w)"
    using T(2) by (metis period_def div_times_less_eq_dividend le_trans mult_le_mono1)
  have "(now w - kick_time (hw w)) * int ?r < int ?T * 1000000000 * int ?r"
    by (rule mult_strict_right_mono [OF d of_nat_0_less_iff [THEN iffD2, OF r]])
  also have "\<dots> = int (?T * ?r) * 1000000000"
    by simp
  also have "\<dots> \<le> 2 ^ (16 + hw_top w) * 1000000000"
    using p by (metis mult_right_mono of_nat_le_iff of_nat_numeral of_nat_power zero_le_numeral)
  finally show ?thesis
    by (simp add: alive_def)
qed

section \<open>The worker feeds the hardware\<close>

lemma idle_cong:
  "status w' = status w \<Longrightarrow> min_hw_heartbeat_ms w' = min_hw_heartbeat_ms w \<Longrightarrow> timeout w' = timeout w \<Longrightarrow>
   max_hw_heartbeat_ms w' = max_hw_heartbeat_ms w \<Longrightarrow> rate (hw w') = rate (hw w) \<Longrightarrow>
   (\<And>off. off \<noteq> 0xC \<Longrightarrow> readl off w' = readl off w) \<Longrightarrow> idle w' = idle w \<and> ivl w' = ivl w"
  using period_cong [of w' w]
  by (simp add: idle_def feeding_def ivl_def hw_top_def dw_wdt_is_enabled_def WDOG_TIMEOUT_RANGE_REG_OFFSET_def WDOG_CONTROL_REG_OFFSET_def)

lemma update_worker_feeding:
  assumes K: "kapi_ok K" and i: "feeding w" and c: "wd_data w" "core w = Some c"
  shows "watchdog_update_worker K w = Some (w\<lparr>core := Some (c\<lparr>timer := Some (now w + ivl w)\<rparr>)\<rparr>)"
proof -
  have t: "timeout w * 1000 \<noteq> 0"
    using i timeout_ms [of "timeout w"] by (auto simp: feeding_def unat_eq_0 [symmetric])
  have a: "\<not> active K w" "hw_running K w"
    using K i by (simp_all add: kapi_ok_def active_def hw_running_def feeding_def)
  have n: "watchdog_need_worker K w"
    using t a by (simp add: watchdog_need_worker_def)
  have k: "watchdog_next_keepalive K w = Some (ivl w)"
    using a c by (simp add: watchdog_next_keepalive_def get_core_def Let_def ivl_def)
  show ?thesis
    using n k ivl_bounds(1) [OF i] c
    by (simp add: watchdog_update_worker_def hrtimer_start_def upd_core_def get_core_def)
qed

lemma worker_fed:
  assumes K: "kapi_ok K" and f: "fed L w"
  shows "\<exists>w'. watchdog_ping_work K dw_wdt_ops w = Some w' \<and> fed L w'"
proof -
  obtain c where i: "idle w" and c: "wd_data w" "core w = Some c" "wdd c" "last_hw_keepalive c \<le> now w"
    using f by (auto simp: fed_def)
  have a: "hw_running K w"
    using K i by (simp add: kapi_ok_def hw_running_def idle_def feeding_def)
  let ?c = "c\<lparr>work := False, last_hw_keepalive := now w\<rparr>"
  let ?w = "writel WDOG_COUNTER_RESTART_KICK_VALUE WDOG_COUNTER_RESTART_REG_OFFSET (w\<lparr>core := Some ?c\<rparr>)"
  have j: "idle ?w = idle w \<and> ivl ?w = ivl w"
    by (rule idle_cong) (simp_all add: readl_writel WDOG_COUNTER_RESTART_REG_OFFSET_def, simp add: readl_def)
  have u: "watchdog_update_worker K ?w = Some (?w\<lparr>core := Some (?c\<lparr>timer := Some (now ?w + ivl ?w)\<rparr>)\<rparr>)"
    by (rule update_worker_feeding [OF K idle_feeding]) (use i j c in simp_all)
  let ?v = "?w\<lparr>core := Some (?c\<lparr>timer := Some (now ?w + ivl ?w)\<rparr>)\<rparr>"
  have "watchdog_ping_work K dw_wdt_ops w = Some ?v"
    using c a i u
    by (simp add: watchdog_ping_work_def upd_file_def watchdog_worker_should_ping_def watchdog_ping_hw_def get_core_def upd_core_def
        dw_wdt_ops_def dw_wdt_ping_def idle_def feeding_def ms_to_ktime_def hw_running_def Let_def)
  moreover have "idle ?v = idle ?w \<and> ivl ?v = ivl ?w"
    by (rule idle_cong) (simp_all add: readl_def)
  then have "fed L ?v"
    using i j c ivl_bounds(1) [OF idle_feeding [OF i]] by (simp add: fed_def) (simp add: writel_def)
  ultimately show ?thesis
    by blast
qed

lemma fed_core:
  "fed L w \<Longrightarrow> \<exists>c. core w = Some c"
  by (auto simp: fed_def)

lemma tick_fed:
  assumes f: "fed L w" and t: "on_time L (Tick d) w"
  shows "fed L (w\<lparr>now := now w + int d\<rparr>)"
proof -
  have i: "idle (w\<lparr>now := now w + int d\<rparr>) = idle w \<and> ivl (w\<lparr>now := now w + int d\<rparr>) = ivl w"
    by (rule idle_cong) (simp_all add: readl_def)
  show ?thesis
    using f t i by (auto simp: fed_def)
qed

lemma timer_fed:
  assumes f: "fed L w" and c: "core w = Some c" "timer c = Some t"
  shows "\<exists>w'. watchdog_timer_expired w = Some w' \<and> fed L w'"
proof -
  let ?w = "w\<lparr>core := Some (c\<lparr>timer := None, work := True\<rparr>)\<rparr>"
  have "idle ?w = idle w \<and> ivl ?w = ivl w"
    by (rule idle_cong) (simp_all add: readl_def)
  then have "fed L ?w"
    using f c by (auto simp: fed_def)
  then show ?thesis
    using c by (simp add: watchdog_timer_expired_def upd_file_def)
qed

lemma step_fed:
  assumes K: "kapi_ok K" and f: "fed L w" and e: "background e" "on_time L e w"
  shows "\<exists>w'. wd_step K dw_wdt_ops e w = Some w' \<and> fed L w'"
proof -
  obtain c where c: "core w = Some c"
    using fed_core [OF f] by blast
  show ?thesis
    using e c f worker_fed [OF K f] timer_fed [OF f c] tick_fed [OF f]
    by (cases e) (auto simp: wd_step_def split: option.split)
qed

lemma run_fed: "kapi_ok K \<Longrightarrow> fed L w \<Longrightarrow> prompt L K es w \<Longrightarrow> \<exists>w'. wd_run K dw_wdt_ops es w = Some w' \<and> fed L w'"
proof (induction es arbitrary: w)
  case (Cons e es)
  then obtain w' where "wd_step K dw_wdt_ops e w = Some w'" "fed L w'"
    using step_fed [of K L w e] by auto
  then show ?case
    using Cons by simp
qed simp

section \<open>Registration starts the feeding\<close>

text \<open>The device as the probe hands it to the watchdog core, and as a failed registration leaves it.\<close>

definition probed :: "dw_device \<Rightarrow> bool" where
  "probed w \<longleftrightarrow> WDOG_ACTIVE \<notin> status w \<and> min_hw_heartbeat_ms w = 0 \<and> 0 < unat (timeout w) \<and>
     1000 \<le> unat (rate (hw w)) \<and> unat (rate (hw w)) \<le> 2 ^ 31 \<and>
     max_hw_heartbeat_ms w = dw_wdt_top_in_seconds w DW_WDT_MAX_TOP * 1000"

lemma period_bounds:
  assumes "1000 \<le> unat (rate (hw w))" "unat (rate (hw w)) \<le> 2 ^ 31"
  shows "1 \<le> period w 15" "i \<le> 15 \<Longrightarrow> period w i * 1000 < 2 ^ 32"
proof -
  show "1 \<le> period w 15"
    using div_le_mono [OF assms(2), of "unat (rate (hw w))"] assms(1) by (simp add: period_def div_greater_zero_iff)
  show "period w i * 1000 < 2 ^ 32" if i: "i \<le> 15"
  proof -
    have "period w i \<le> period w 15"
      by (rule period_mono [OF i])
    also have "\<dots> \<le> 2 ^ 31 div 1000"
      using div_le_mono2 [OF _ assms(1), of "2 ^ 31"] by (simp add: period_def)
    finally show ?thesis
      by simp
  qed
qed

lemma enable_bit: "(x OR 1) AND 1 \<noteq> (0 :: u32)"
proof -
  have "bit ((x OR 1) AND 1) 0"
    by (simp add: bit_simps)
  then show ?thesis
    by force
qed

lemma start_spec:
  assumes "snd (dw_wdt_start w) = w'"
  shows "unat (timeout w') = period w (find_top w (timeout w))" "hw_top w' = find_top w (timeout w)"
    "rate (hw w') = rate (hw w)" "kick_time (hw w') = now w" "dw_wdt_is_enabled w'"
proof -
  let ?v = "snd (dw_wdt_set_timeout (timeout w) w)"
  have r: "rate (hw ?v) = rate (hw w)" "now ?v = now w"
    by (simp_all add: dw_wdt_set_timeout_def Let_def)
  have w': "w' = dw_wdt_arm_system_reset (snd (dw_wdt_ping ?v))"
    using assms by (simp add: dw_wdt_start_def dw_wdt_ping_def Let_def split_beta)
  note regs = dw_wdt_arm_system_reset_def dw_wdt_ping_def Let_def readl_writel WDOG_CONTROL_REG_OFFSET_def
    WDOG_TIMEOUT_RANGE_REG_OFFSET_def WDOG_COUNTER_RESTART_REG_OFFSET_def
  show "unat (timeout w') = period w (find_top w (timeout w))"
    using set_timeout_spec(2) [of "timeout w" w ?v] by (simp add: w' regs)
  show "hw_top w' = find_top w (timeout w)"
    using set_timeout_spec(1) [of "timeout w" w ?v] by (simp add: w' regs hw_top_def)
  show "rate (hw w') = rate (hw w)"
    using r by (simp add: w' regs)
  show "kick_time (hw w') = now w"
    using r by (simp add: w' regs writel_def)
  show "dw_wdt_is_enabled w'"
    using enable_bit by (simp add: w' regs dw_wdt_is_enabled_def WDOG_CONTROL_REG_WDT_EN_MASK_def)
qed

lemma start_idle:
  assumes p: "probed w" and h: "WDOG_HW_RUNNING \<in> status w" and s: "snd (dw_wdt_start w) = w'"
  shows "idle w'"
proof -
  note st = start_spec [OF s]
  have f: "frame w w'"
    using dw_start_frame [of w] s by simp
  have r: "1000 \<le> unat (rate (hw w))" "unat (rate (hw w)) \<le> 2 ^ 31" "0 < unat (timeout w)"
    using p by (simp_all add: probed_def)
  have b: "find_top w (timeout w) \<le> 15"
    by (rule find_top_spec)
  have pos: "0 < period w (find_top w (timeout w))"
    using find_top_spec(3,4) [where w = w and t = "timeout w"] period_bounds(1) [OF r(1,2)] r(3) by (cases "unat (timeout w) \<le> period w 15") auto
  have hm: "2 \<le> unat (max_hw_heartbeat_ms w)"
  proof -
    have "unat (dw_wdt_top_in_seconds w 15) * 1000 < 2 ^ 32"
      unfolding top_in_seconds [OF order.refl] by (rule period_bounds(2) [OF r(1,2)]) simp
    then show ?thesis
      using p timeout_ms [of "dw_wdt_top_in_seconds w 15"] period_bounds(1) [OF r(1,2)] top_in_seconds [of 15 w]
      by (simp add: probed_def DW_WDT_MAX_TOP_def)
  qed
  have hr: "WDOG_HW_RUNNING \<in> status w'"
    using s h by (auto simp: dw_wdt_start_def dw_wdt_set_timeout_def dw_wdt_ping_def dw_wdt_arm_system_reset_def Let_def)
  show ?thesis
    using st f p b pos hm hr period_bounds(2) [OF r(1,2) b] period_cong [of w' w] frame_bit [OF f, of WDOG_ACTIVE]
    by (simp add: idle_def feeding_def probed_def frame_def)
qed

lemma probed_cong:
  "status w' = status w \<Longrightarrow> min_hw_heartbeat_ms w' = min_hw_heartbeat_ms w \<Longrightarrow> timeout w' = timeout w \<Longrightarrow>
   max_hw_heartbeat_ms w' = max_hw_heartbeat_ms w \<Longrightarrow> rate (hw w') = rate (hw w) \<Longrightarrow> probed w' = probed w"
  by (simp add: probed_def dw_wdt_top_in_seconds_def)

text \<open>Registering the character device leaves everything else of the device alone.\<close>

lemma cdev_register_spec:
  assumes "watchdog_cdev_register K w = Some (ret, w')"
  shows "status w' = status w \<and> min_hw_heartbeat_ms w' = min_hw_heartbeat_ms w \<and> timeout w' = timeout w \<and>
    max_hw_heartbeat_ms w' = max_hw_heartbeat_ms w \<and> hw w' = hw w \<and> now w' = now w \<and>
    (ret = 0 \<longrightarrow> wd_data w' \<and> (\<exists>c. core w' = Some c \<and> wdd c \<and> \<not> work c))"
  using assms
  by (auto simp: watchdog_cdev_register_def upd_core_def get_core_def hrtimer_start_def new_core_data_def Let_def LINUX_ENOMEM_def LINUX_ENODEV_def
      split: if_splits)

lemma dev_register_fed:
  assumes K: "kapi_ok K" and p: "probed w" and d: "watchdog_dev_register K dw_wdt_ops w = Some (ret, w')"
  shows "if ret = 0 then fed 0 w' else probed w'"
proof -
  have "watchdog_cdev_register K w \<noteq> None"
  proof
    assume "watchdog_cdev_register K w = None"
    with d show False
      by (simp add: watchdog_dev_register_def)
  qed
  then obtain r v where v: "watchdog_cdev_register K w = Some (r, v)"
    by auto
  note cs = cdev_register_spec [OF v]
  have pv: "probed v"
    using cs p by (simp add: probed_cong [of v w])
  show ?thesis
  proof (cases "r = 0 \<and> watchdog_register_pretimeout K = 0")
    case True
    then obtain c where c: "wd_data v" "core v = Some c" "wdd c" "\<not> work c"
      using cs by auto
    let ?u = "v\<lparr>status := insert WDOG_HW_RUNNING (status v)\<rparr>" let ?s = "snd (dw_wdt_start ?u)"
    have pu: "probed ?u"
      using pv by (simp add: probed_def dw_wdt_top_in_seconds_def)
    have i: "idle ?s"
      by (rule start_idle [OF pu]) simp_all
    have f: "frame ?u ?s"
      by (rule dw_start_frame)
    let ?c = "c\<lparr>last_keepalive := now v, last_hw_keepalive := now v\<rparr>"
    have j: "idle (?s\<lparr>core := x\<rparr>) = idle ?s \<and> ivl (?s\<lparr>core := x\<rparr>) = ivl ?s" for x
      by (rule idle_cong) (simp_all add: readl_def)
    have "watchdog_update_worker K (?s\<lparr>core := Some ?c\<rparr>) = Some (?s\<lparr>core := Some (?c\<lparr>timer := Some (now v + ivl ?s)\<rparr>)\<rparr>)"
      using update_worker_feeding [OF K idle_feeding, of "?s\<lparr>core := Some ?c\<rparr>" ?c] i j f c by (simp add: frame_def)
    then have w': "w' = ?s\<lparr>core := Some (?c\<lparr>timer := Some (now v + ivl ?s)\<rparr>)\<rparr>" "ret = 0"
      using d v True f c by (auto simp: watchdog_dev_register_def dw_wdt_ops_def Let_def split_beta upd_core_def get_core_def frame_def)
    have "fed 0 w'"
      unfolding w'(1) fed_def using i j f c start_spec(4) [of ?u ?s] ivl_bounds(1) [OF idle_feeding [OF i]] by (simp add: frame_def)
    then show ?thesis
      using w'(2) by simp
  next
    case False
    show ?thesis
    proof (cases "r = 0")
      case True
      then have "watchdog_register_pretimeout K \<noteq> 0"
        using False by simp
      then show ?thesis
        using d v True dw.failed_pretimeout_null [of K w v] K by (simp add: kapi_std_id)
    qed (use d v pv in \<open>simp add: watchdog_dev_register_def\<close>)
  qed
qed

lemma fed_mono: "fed L w \<Longrightarrow> L \<le> M \<Longrightarrow> fed M w"
  unfolding fed_def by fastforce

lemma notifiers_fed:
  "register_notifiers K dw_wdt_ops R w = Some (0, w') \<Longrightarrow> fed 0 w \<Longrightarrow> fed 0 w'"
  by (auto simp: register_notifiers_def split: if_splits bind_splits)

lemma register_fed:
  assumes K: "kapi_ok K" and p: "probed w" and d: "register_device K dw_wdt_ops R w = Some (0, w')"
  shows "fed 0 w'"
proof -
  let ?w = "\<lambda>i. (watchdog_check_min_max_timeout w)\<lparr>id_nr := i\<rparr>"
  have pw: "probed (?w i)" for i
    using p by (simp add: watchdog_check_min_max_timeout_def probed_def dw_wdt_top_in_seconds_def)
  have nn: "\<not> choose_id R < 0" and s: "op_stop dw_wdt_ops \<noteq> None"
    using d by (auto simp: register_device_def dw_wdt_ops_def Let_def split: if_splits)
  have "watchdog_dev_register K dw_wdt_ops (?w (choose_id R)) \<noteq> None"
  proof
    assume "watchdog_dev_register K dw_wdt_ops (?w (choose_id R)) = None"
    with d nn s show False
      by (simp add: register_device_def Let_def)
  qed
  then obtain ret v where v: "watchdog_dev_register K dw_wdt_ops (?w (choose_id R)) = Some (ret, v)"
    by auto
  note pv = dev_register_fed [OF K pw v]
  show ?thesis
  proof (cases "ret = 0")
    case True
    then show ?thesis
      using d nn s v pv notifiers_fed by (simp add: register_device_def Let_def)
  next
    case False
    let ?i = "ida_simple_get R 1 (MAX_DOGS R)"
    have pi: "probed (v\<lparr>id_nr := ?i\<rparr>)"
      using pv False by (simp add: probed_def dw_wdt_top_in_seconds_def)
    have r: "(if ?i < 0 then Some (?i, v) else do { (ret, w) \<leftarrow> watchdog_dev_register K dw_wdt_ops (v\<lparr>id_nr := ?i\<rparr>);
        if ret \<noteq> 0 then Some (ret, w) else register_notifiers K dw_wdt_ops R w }) = Some (0, w')"
      using d nn s v False by (simp add: register_device_def Let_def split: if_splits)
    then obtain u where "watchdog_dev_register K dw_wdt_ops (v\<lparr>id_nr := ?i\<rparr>) = Some (0, u)" "register_notifiers K dw_wdt_ops R u = Some (0, w')"
      by (auto split: if_splits bind_splits)
    then show ?thesis
      using dev_register_fed [OF K pi] notifiers_fed by fastforce
  qed
qed

text \<open>A watchdog that the boot loader left running must count at least a second.\<close>

definition boot_ok :: "probe_env \<Rightarrow> bool" where
  "boot_ok P \<longleftrightarrow> 1000 \<le> unat (clk_rate P) \<and> unat (clk_rate P) \<le> 2 ^ 31 \<and>
     (boot_regs P 0 AND 1 \<noteq> 0 \<longrightarrow> 1 \<le> 2 ^ (16 + unat (boot_regs P 4 AND 0xF)) div unat (clk_rate P))"

lemma init_timeout_spec:
  "\<exists>t a b. snd (watchdog_init_timeout K 0 p w) =
     w\<lparr>timeout := t, min_timeout := a, max_timeout := b\<rparr> \<and> (t = timeout w \<or> 0 < unat t)"
proof -
  define a b where "a = min_timeout (watchdog_check_min_max_timeout w)" and "b = max_timeout (watchdog_check_min_max_timeout w)"
  have m: "watchdog_check_min_max_timeout w = w\<lparr>min_timeout := a, max_timeout := b\<rparr>"
    by (simp add: watchdog_check_min_max_timeout_def a_def b_def)
  define v where "v = w\<lparr>min_timeout := a, max_timeout := b\<rparr>"
  show ?thesis
  proof (cases "\<exists>t. p = Some t \<and> \<not> watchdog_timeout_invalid K v t \<and> t \<noteq> 0")
    case True
    then obtain t where t: "p = Some t" "\<not> watchdog_timeout_invalid K v t" "t \<noteq> 0"
      by blast
    have "snd (watchdog_init_timeout K 0 p w) = w\<lparr>timeout := t, min_timeout := a, max_timeout := b\<rparr>"
      using t by (simp add: watchdog_init_timeout_def m v_def [symmetric] Let_def) (simp add: v_def)
    then show ?thesis
      using t(3) by (metis unat_gt_0)
  next
    case False
    have "snd (watchdog_init_timeout K 0 p w) = v"
      using False by (auto simp: watchdog_init_timeout_def m v_def [symmetric] Let_def split: option.split)
    also have "\<dots> = w\<lparr>timeout := timeout w, min_timeout := a, max_timeout := b\<rparr>"
      by (simp add: v_def)
    finally show ?thesis
      by blast
  qed
qed

lemma probe_timeout_probed:
  assumes b: "boot_ok P" and w: "status w = {}" "min_hw_heartbeat_ms w = 0" "rate (hw w) = clk_rate P" "regs (hw w) = boot_regs P"
  shows "probed (probe_timeout K P (probe_device P w))"
proof -
  let ?d = "probe_device P w"
  obtain t a c where i: "snd (watchdog_init_timeout K 0 (of_timeout P) ?d) = ?d\<lparr>timeout := t, min_timeout := a, max_timeout := c\<rparr>"
    using init_timeout_spec by blast
  let ?e = "?d\<lparr>timeout := t, min_timeout := a, max_timeout := c\<rparr>"
  obtain t' a' c' where j: "snd (watchdog_init_timeout K 0 (of_timeout P) (?e\<lparr>timeout := DW_WDT_DEFAULT_SECONDS\<rparr>)) =
      ?e\<lparr>timeout := t', min_timeout := a', max_timeout := c'\<rparr>" and t': "t' = DW_WDT_DEFAULT_SECONDS \<or> 0 < unat t'"
    using init_timeout_spec [of K "of_timeout P" "?e\<lparr>timeout := DW_WDT_DEFAULT_SECONDS\<rparr>"] by auto
  have pt: "probe_timeout K P ?d = (if dw_wdt_is_enabled ?e
      then ?e\<lparr>timeout := dw_wdt_get_top ?e, status := insert WDOG_HW_RUNNING (status ?e)\<rparr>
      else ?e\<lparr>timeout := t', min_timeout := a', max_timeout := c'\<rparr>)"
    by (simp only: probe_timeout_def Let_def split_beta i j)
  have en: "dw_wdt_is_enabled ?e \<longleftrightarrow> boot_regs P 0 AND 1 \<noteq> 0"
    using w by (simp add: dw_wdt_is_enabled_def readl_def probe_device_def WDOG_CONTROL_REG_OFFSET_def WDOG_CONTROL_REG_WDT_EN_MASK_def)
  have top: "unat (boot_regs P 4 AND 0xF) \<le> 15"
    using word_and_le1 [of "boot_regs P 4" "0xF"] by (simp add: word_le_nat_alt)
  have gt: "unat (dw_wdt_get_top ?e) = 2 ^ (16 + unat (boot_regs P 4 AND 0xF)) div unat (clk_rate P)"
    using w by (simp add: dw_wdt_get_top_def readl_def probe_device_def WDOG_TIMEOUT_RANGE_REG_OFFSET_def top_in_seconds [OF top] period_def)
  have t0: "0 < unat t'"
    using t' by (auto simp: DW_WDT_DEFAULT_SECONDS_def)
  have d: "WDOG_ACTIVE \<notin> status ?d" "min_hw_heartbeat_ms ?d = 0" "rate (hw ?d) = clk_rate P"
      "max_hw_heartbeat_ms ?d = ucast (ucast (push_bit (16 + DW_WDT_MAX_TOP) (1 :: u32)) div clk_rate P) * 1000"
    using w by (simp_all add: probe_device_def dw_wdt_top_in_seconds_def)
  have "0 < unat (dw_wdt_get_top ?e)" if "dw_wdt_is_enabled ?e"
    using that b en unfolding gt boot_ok_def by linarith
  then show ?thesis
    unfolding pt using b d t0 by (simp add: probed_def boot_ok_def dw_wdt_top_in_seconds_def del: push_bit_of_1)
qed

lemma probe_fed:
  assumes K: "kapi_ok K" and b: "boot_ok P" and p: "dw_wdt_drv_probe K R P = Some (0, Some w)"
  shows "fed 0 w"
proof -
  let ?w = "(pclk_adj 1 ((clk_adj 1 (mapped_device P))\<lparr>hw := (hw (clk_adj 1 (mapped_device P)))\<lparr>rate := clk_rate P\<rparr>\<rparr>))"
  let ?v = "?w\<lparr>hw := (hw ?w)\<lparr>rst := rst_line P\<rparr>\<rparr>"
  have v: "probed (probe_timeout K P (probe_device P ?v))"
    by (rule probe_timeout_probed [OF b]) (simp_all add: mapped_device_def clk_adj_def pclk_adj_def)
  have "register_device K dw_wdt_ops R (probe_timeout K P (probe_device P ?v)) = Some (0, w)"
    using p by (auto simp: dw_wdt_drv_probe_def Let_def LINUX_EINVAL_def LINUX_ENOMEM_def split: if_splits bind_splits)
  then show ?thesis
    by (rule register_fed [OF K v])
qed

lemma boot_feeding_spec:
  assumes "kapi_ok K" "boot_ok P" "dw_wdt_drv_probe K R P = Some (0, Some w)" "L < 500000000" "prompt L K es w"
  shows "\<exists>w'. wd_run K dw_wdt_ops es w = Some w' \<and> alive w'"
  using run_fed [OF assms(1) fed_mono [OF probe_fed [OF assms(1-3)]] assms(5)] fed_alive [OF _ assms(4)] by auto

end
