(* ===== verification/Watchdog_props.thy ===== *)
theory Watchdog_props
  imports Dw_wdt_feed
begin

text \<open>
  The properties of the watchdog stack: the DesignWare driver under the watchdog core. The example
  device has a clock of 65536 Hz, a timeout of one second and no reset line.
\<close>

section \<open>An example\<close>

definition example_K :: "dw_wdt kapi" where
  "example_K = \<lparr>watchdog_active = \<lambda>s. WDOG_ACTIVE \<in> s, watchdog_hw_running = \<lambda>s. WDOG_HW_RUNNING \<in> s,
     watchdog_timeout_invalid = \<lambda>w t. t < min_timeout w, watchdog_pretimeout_invalid = \<lambda>w t. timeout w \<noteq> 0 \<and> timeout w \<le> t,
     WDIOS_DISABLECARD = 1, WDIOS_ENABLECARD = 2, try_module_get = True, kzalloc = True, watchdog_kworker = True,
     misc_register = 0, cdev_device_add = 0, watchdog_register_pretimeout = 0, handle_boot_enabled = True\<rparr>"

definition example_R :: reg_env where
  "example_R = \<lparr>MAX_DOGS = 32, of_alias_get_id = None, ida_simple_get = \<lambda>a b. a, register_reboot_notifier = 0\<rparr>"

definition example_P :: probe_env where
  "example_P = \<lparr>devm_kzalloc = True, ioremap_err = 0, tclk_get_err = 0, clk_get_err = 0, clk_enable_err = 0, clk_rate = 65536,
     pclk_get_err = 0, pclk_enable_err = 0, rst_get_err = 0, rst_line = None, boot_regs = \<lambda>_. 0, of_timeout = Some 1,
     nowayout = False, probe_time = 0\<rparr>"

definition example_device :: "probe_env \<Rightarrow> dw_device" where
  "example_device P = (case dw_wdt_drv_probe example_K example_R P of Some (r, Some w) \<Rightarrow> w | _ \<Rightarrow> mapped_device P)"

definition probe_result :: "probe_env \<Rightarrow> int option" where
  "probe_result P = (case dw_wdt_drv_probe example_K example_R P of Some (r, Some w) \<Rightarrow> Some r | _ \<Rightarrow> None)"

lemma example_ok: "kapi_ok example_K"
  by (simp add: kapi_ok_def example_K_def)

lemma example_probe: "probe_result P = Some r \<Longrightarrow> dw_wdt_drv_probe example_K example_R P = Some (r, Some (example_device P))"
  by (auto simp: probe_result_def example_device_def split: option.splits)

lemma example_probed: "dw_wdt_drv_probe example_K example_R example_P = Some (0, Some (example_device example_P))"
  by (rule example_probe) code_simp

lemma example_registered: "registered (example_device example_P)"
  using dw.run_holds [of "example_device example_P"] probe_fed [OF example_ok _ example_probed]
  by (auto simp: fed_def registered_def boot_ok_def example_P_def)

section \<open>Claims\<close>

text \<open>
  C6. Once a registered watchdog is active and may not be stopped, it stays active through every sequence
  of file operations, timer interrupts, worker runs and time, and none of them dereferences a null
  pointer: each run returns, the device stays registered, and nothing changes the no-way-out setting.
\<close>

theorem nowayout_keeps_running:
  assumes "kapi_ok K" "registered w"
  shows "\<exists>w'. wd_run K dw_wdt_ops es w = Some w' \<and> registered w' \<and>
    (WDOG_NO_WAY_OUT \<in> status w' \<longleftrightarrow> WDOG_NO_WAY_OUT \<in> status w) \<and>
    (WDOG_NO_WAY_OUT \<in> status w \<and> WDOG_ACTIVE \<in> status w \<longrightarrow> WDOG_ACTIVE \<in> status w')"
  using assms by (rule nowayout_spec)

theorem nowayout_keeps_running_witness:
  "\<exists>w'. wd_run example_K dw_wdt_ops [Open, Write [Some 0x56], Release] (example_device example_P) = Some w' \<and> registered w'"
  using nowayout_keeps_running [OF example_ok example_registered] by blast

text \<open>
  C25. Writing data and closing an active device, with any timer interrupts, worker runs and time in
  between, stops it exactly when the data holds the magic character before its first unreadable byte
  and the device may be stopped; in every case the device can be opened again.
\<close>

theorem magic_close_decides:
  assumes "kapi_ok K" "registered w" "WDOG_ACTIVE \<in> status w" "WDIOF_MAGICCLOSE \<in> options w" "data \<noteq> []"
    "\<forall>e\<in>set es. background e"
  shows "\<exists>w'. wd_run K dw_wdt_ops (Write data # es @ [Release]) w = Some w' \<and> registered w' \<and> WDOG_DEV_OPEN \<notin> core_bits w' \<and>
    (WDOG_ACTIVE \<in> status w' \<longleftrightarrow> WDOG_NO_WAY_OUT \<in> status w \<or> \<not> magic data)"
  using dw.magic_close_run [OF assms(2-6), of K] kapi_std_id [OF assms(1)] by (simp add: safe_ex)

theorem magic_close_decides_witness:
  "\<exists>w. (\<exists>w'. wd_run example_K dw_wdt_ops (Write [Some 0x41, Some 0x56, None] # [Tick 5] @ [Release]) w = Some w' \<and> registered w' \<and>
     WDOG_DEV_OPEN \<notin> core_bits w' \<and> (WDOG_ACTIVE \<in> status w' \<longleftrightarrow> WDOG_NO_WAY_OUT \<in> status w \<or> \<not> magic [Some 0x41, Some 0x56, None])) \<and>
     WDOG_ACTIVE \<in> status w"
proof -
  obtain w where w: "wd_run example_K dw_wdt_ops [Open] (example_device example_P) = Some w" "registered w"
    using nowayout_spec [OF example_ok example_registered, of "[Open]"] by blast
  have "case wd_run example_K dw_wdt_ops [Open] (example_device example_P) of None \<Rightarrow> False
      | Some w \<Rightarrow> WDOG_ACTIVE \<in> status w \<and> WDIOF_MAGICCLOSE \<in> options w"
    by code_simp
  then have "WDOG_ACTIVE \<in> status w" "WDIOF_MAGICCLOSE \<in> options w"
    using w by simp_all
  then show ?thesis
    using magic_close_decides [OF example_ok w(2), where data = "[Some 0x41, Some 0x56, None]" and es = "[Tick 5]"] by force
qed

text \<open>
  C8. After the driver has registered a device whose clock runs between 1 kHz and 2 GHz, and until user
  space opens it, the kernel keeps the hardware from running out: in every run in which queued work
  runs at once and the timer is less than half a second late, the time since the last restart of the
  counter is below the programmed period.
\<close>

theorem boot_feeding:
  assumes "kapi_ok K" "boot_ok P" "dw_wdt_drv_probe K R P = Some (0, Some w)" "L < 500000000" "prompt L K es w"
  shows "\<exists>w'. wd_run K dw_wdt_ops es w = Some w' \<and> alive w'"
  using assms by (rule boot_feeding_spec)

theorem boot_feeding_witness:
  "\<exists>w'. wd_run example_K dw_wdt_ops [Tick 500000000, Timer, Worker] (example_device example_P) = Some w' \<and> alive w'"
proof (rule boot_feeding [OF example_ok _ example_probed])
  show "boot_ok example_P"
    by (simp add: boot_ok_def example_P_def)
  have "case core (example_device example_P) of None \<Rightarrow> False
      | Some c \<Rightarrow> \<not> work c \<and> timer c = Some 500000000 \<and> now (example_device example_P) = 0"
    by code_simp
  then have "on_time 0 (Tick 500000000) (example_device example_P)"
    by (auto split: option.splits)
  then show "prompt 0 example_K [Tick 500000000, Timer, Worker] (example_device example_P)"
    by (simp del: on_time.simps add: on_time.simps(2-7) split: option.split)
qed simp

text \<open>
  C38. Setting a timeout programs the smallest of the sixteen periods that is at least as long as the
  request, or the longest one when the request is longer than all of them, in both fields of the range
  register, and records the whole seconds of that period as the timeout.
\<close>

theorem dw_wdt_set_timeout_correct:
  assumes "rate (hw w) \<noteq> 0" and "dw_wdt_set_timeout t w = (e, w')"
  shows "e = 0 \<and> unat (timeout w') = 2 ^ (16 + hw_top w') div unat (rate (hw w)) \<and>
    (\<forall>j < hw_top w'. 2 ^ (16 + j) div unat (rate (hw w)) < unat t) \<and>
    (if unat t \<le> 2 ^ 31 div unat (rate (hw w)) then t \<le> timeout w' else hw_top w' = 15)"
proof -
  have s: "snd (dw_wdt_set_timeout t w) = w'" "e = 0"
    using assms(2) by (auto simp: dw_wdt_set_timeout_def Let_def)
  note st = set_timeout_spec [OF s(1)]
  show ?thesis
    using s(2) st(1,2) find_top_spec(2-4) [where w = w and t = t] by (auto simp: period_def word_le_nat_alt)
qed

theorem dw_wdt_set_timeout_correct_witness:
  "\<exists>w e w'. rate (hw w) \<noteq> 0 \<and> dw_wdt_set_timeout 7 w = (e, w') \<and> e = 0 \<and>
    unat (timeout w') = 2 ^ (16 + hw_top w') div unat (rate (hw w))"
proof -
  have r: "rate (hw (example_device example_P)) \<noteq> 0"
    by code_simp
  show ?thesis
    using dw_wdt_set_timeout_correct [OF r, of 7] r by (metis surj_pair)
qed

text \<open>
  C39. When the pretimeout governor cannot be registered, \<open>watchdog_dev_register\<close> does not return its
  error: it unregisters the character device and then writes through the pointer it has just cleared.
\<close>

theorem failed_pretimeout_crashes:
  assumes "kapi_ok K" "watchdog_register_pretimeout K \<noteq> 0" "watchdog_cdev_register K w = Some (0, v)"
  shows "watchdog_dev_register K dw_wdt_ops w = None"
  using dw.failed_pretimeout_null [of K w v] assms kapi_std_id [OF assms(1)] by simp

theorem failed_pretimeout_crashes_witness:
  "watchdog_dev_register (example_K\<lparr>watchdog_register_pretimeout := - 12\<rparr>) dw_wdt_ops (mapped_device example_P) = None"
proof -
  have "kapi_ok (example_K\<lparr>watchdog_register_pretimeout := - 12\<rparr>)"
    by (simp add: kapi_ok_def example_K_def)
  then show ?thesis
    using failed_pretimeout_crashes [of "example_K\<lparr>watchdog_register_pretimeout := - 12\<rparr>" "mapped_device example_P"]
    by (simp add: watchdog_cdev_register_def example_K_def upd_core_def get_core_def hw_running_def mapped_device_def Let_def)
qed

text \<open>
  The worker reads the device's timeout for its trace message before it checks that the device is
  still there: when its work is queued at the moment a device is unregistered, it dereferences a null
  pointer.
\<close>

lemma worker_races_unregister:
  assumes "registered w" "core w = Some c" "work c" "\<not> (active K w \<and> WDOG_STOP_ON_UNREGISTER \<in> status w)"
  shows "\<exists>w'. unregister_detach K ops w = Some w' \<and> wd_step K ops Worker w' = None \<and> watchdog_cdev_unregister K ops w \<noteq> None"
  using assms
  by (auto simp: unregister_detach_def watchdog_cdev_unregister_def unregister_cancel_def upd_core_def upd_file_def get_core_def
      registered_def wd_step_def watchdog_ping_work_def)

text \<open>The worker's timer is all that \<open>watchdog_update_worker\<close> changes.\<close>

lemma update_worker_timer:
  assumes "wd_data w" "core w = Some c"
  shows "\<exists>t. watchdog_update_worker K w = Some (w\<lparr>core := Some (c\<lparr>timer := t\<rparr>)\<rparr>)"
proof (cases "watchdog_need_worker K w")
  case True
  obtain t where t: "watchdog_next_keepalive K w = Some t"
    using assms by (cases "active K w") (simp_all add: watchdog_next_keepalive_def get_core_def Let_def)
  have "watchdog_update_worker K w = Some (w\<lparr>core := Some (c\<lparr>timer := if t > 0 then Some (now w + t) else timer c\<rparr>)\<rparr>)"
    using True t assms by (simp add: watchdog_update_worker_def hrtimer_start_def upd_core_def get_core_def)
  then show ?thesis
    by blast
next
  case False
  then have "watchdog_update_worker K w = Some (w\<lparr>core := Some (c\<lparr>timer := None\<rparr>)\<rparr>)"
    using assms by (simp add: watchdog_update_worker_def hrtimer_cancel_def upd_core_def get_core_def)
  then show ?thesis
    by blast
qed

text \<open>
  Closing a device without a reset line after the magic character leaves the hardware running
  without restarting its counter: the next restart is due a full interval after the close, however
  long ago the last one was.
\<close>

theorem soft_stop_does_not_feed:
  assumes K: "kapi_ok K" and r: "registered w" and m: "may_stop w" "rst (hw w) = None"
    and t: "0 < unat (timeout w)" "unat (timeout w) * 1000 < 2 ^ 32" "max_hw_heartbeat_ms w = 0 \<or> 2 \<le> unat (max_hw_heartbeat_ms w)"
  shows "\<exists>w' c. wd_step K dw_wdt_ops Release w = Some w' \<and> kick_time (hw w') = kick_time (hw w) \<and> now w' = now w \<and>
    core w' = Some c \<and> timer c = Some (now w + ivl w)"
proof -
  obtain c where c: "wd_data w" "core w = Some c" "wdd c"
    using r by (auto simp: registered_def)
  define c' where "c' = clear_core_bit WDOG_ALLOW_RELEASE c"
  define v where "v = w\<lparr>core := Some c', status := insert WDOG_HW_RUNNING (status w - {WDOG_HW_RUNNING}) - {WDOG_ACTIVE}\<rparr>"
  have v: "wd_data v" "core v = Some c'" "now v = now w" "ivl v = ivl w"
    using c by (simp_all add: v_def ivl_def)
  have f: "feeding v"
    using t by (simp add: v_def feeding_def)
  define u where "u = v\<lparr>core := Some (c'\<lparr>timer := Some (now w + ivl w)\<rparr>)\<rparr>"
  have u: "watchdog_update_worker K v = Some u"
    using update_worker_feeding [OF K f v(1,2)] v by (simp add: u_def)
  have fu: "feeding u" "wd_data u" "core u = Some (c'\<lparr>timer := Some (now w + ivl w)\<rparr>)" "now u = now w" "ivl u = ivl w"
    using f v by (simp_all add: u_def feeding_def ivl_def)
  have u2: "watchdog_update_worker K u = Some u"
    using update_worker_feeding [OF K fu(1-3)] fu(4,5) v by (simp add: u_def)
  have s: "release_stop K dw_wdt_ops w = Some (0, u)"
    using K m c u unfolding release_stop_def may_stop_def
    by (simp add: core_bits_def upd_file_def watchdog_stop_def dw_wdt_ops_def dw_wdt_stop_def kapi_ok_def active_def
        c'_def [symmetric] v_def)
  have h: "hw_running K (u\<lparr>core := x\<rparr>)" for x
    using K fu(1) by (simp add: kapi_ok_def hw_running_def feeding_def)
  show ?thesis
    using c s u2 fu h by (simp add: wd_step_def watchdog_release_def upd_file_def clear_core_bit_def)
      (simp add: u_def v_def)
qed

theorem soft_stop_does_not_feed_witness:
  "\<exists>w w' c. 0 < unat (timeout w) \<and> wd_step example_K dw_wdt_ops Release w = Some w' \<and> kick_time (hw w') = kick_time (hw w) \<and>
     core w' = Some c \<and> timer c = Some (now w + ivl w)"
proof -
  define w where "w = (mapped_device example_P)\<lparr>wd_data := True, core := Some new_core_data, status := {WDOG_ACTIVE}, timeout := 44, now := 30000000000\<rparr>"
  have w: "registered w" "may_stop w" "rst (hw w) = None" "0 < unat (timeout w)" "unat (timeout w) * 1000 < 2 ^ 32"
      "max_hw_heartbeat_ms w = 0 \<or> 2 \<le> unat (max_hw_heartbeat_ms w)"
    by (simp_all add: w_def registered_def new_core_data_def mapped_device_def may_stop_def)
  show ?thesis
    using soft_stop_does_not_feed [OF example_ok w] w(4) by blast
qed

text \<open>References while a device with a reset line is opened, fed and closed.\<close>

definition refs :: "int \<Rightarrow> int \<Rightarrow> wdog_bit set \<Rightarrow> dw_device \<Rightarrow> bool" where
  "refs m d st w \<longleftrightarrow> wd_data w \<and> module_refs w = m \<and> status w = st \<and> min_hw_heartbeat_ms w = 0 \<and> \<not> Option.is_none (rst (hw w)) \<and>
     (case core w of None \<Rightarrow> False | Some c \<Rightarrow> wdd c \<and> dev_refs c = d \<and> last_hw_keepalive c \<le> now w)"

lemma refs_iff: "refs m d st w \<longleftrightarrow> wd_data w \<and> module_refs w = m \<and> status w = st \<and> min_hw_heartbeat_ms w = 0 \<and> rst (hw w) \<noteq> None \<and>
   (\<exists>c. core w = Some c \<and> wdd c \<and> dev_refs c = d \<and> last_hw_keepalive c \<le> now w)"
  by (auto simp: refs_def Option.is_none_def split: option.split)

lemmas step_defs = active_def hw_running_def upd_file_def upd_core_def get_core_def set_core_bit_def clear_core_bit_def
  dw_wdt_ops_def dw_wdt_ping_def Let_def wd_step_def

lemma open_refs:
  assumes K: "kapi_ok K" and r: "refs m d {WDOG_HW_RUNNING} w" and o: "WDOG_DEV_OPEN \<notin> core_bits w"
  shows "\<exists>w'. wd_step K dw_wdt_ops Open w = Some w' \<and> refs m d {WDOG_ACTIVE, WDOG_HW_RUNNING} w'"
proof -
  obtain c where c: "core w = Some c" "wdd c" "dev_refs c = d"
    using r by (auto simp: refs_iff)
  let ?b = "insert WDOG_KEEPALIVE (insert WDOG_DEV_OPEN (core_status c))"
  let ?c = "c\<lparr>core_status := ?b, last_keepalive := now w, last_hw_keepalive := now w\<rparr>"
  let ?w = "(writel WDOG_COUNTER_RESTART_KICK_VALUE WDOG_COUNTER_RESTART_REG_OFFSET (w\<lparr>core := Some (c\<lparr>core_status := ?b\<rparr>)\<rparr>))
      \<lparr>status := {WDOG_ACTIVE, WDOG_HW_RUNNING}, core := Some ?c\<rparr>"
  obtain t where "watchdog_update_worker K ?w = Some (?w\<lparr>core := Some (?c\<lparr>timer := t\<rparr>)\<rparr>)"
    using update_worker_timer [of ?w ?c K] r by (auto simp: refs_iff)
  then show ?thesis
    using K r o c by (simp add: watchdog_open_def watchdog_start_def kapi_ok_def refs_iff core_bits_def step_defs)
qed

lemma write_refs:
  assumes K: "kapi_ok K" and r: "refs m d {WDOG_ACTIVE, WDOG_HW_RUNNING} w"
  shows "\<exists>w'. wd_step K dw_wdt_ops (Write [Some 0x56]) w = Some w' \<and> refs m d {WDOG_ACTIVE, WDOG_HW_RUNNING} w' \<and>
    WDOG_ALLOW_RELEASE \<in> core_bits w'"
proof -
  obtain c where c: "core w = Some c" "wdd c" "dev_refs c = d" "last_hw_keepalive c \<le> now w"
    using r by (auto simp: refs_iff)
  let ?c = "c\<lparr>last_keepalive := now w, core_status := insert WDOG_KEEPALIVE (insert WDOG_ALLOW_RELEASE (core_status c)), last_hw_keepalive := now w\<rparr>"
  let ?w = "writel WDOG_COUNTER_RESTART_KICK_VALUE WDOG_COUNTER_RESTART_REG_OFFSET (w\<lparr>core := Some ?c\<rparr>)"
  obtain t where "watchdog_update_worker K ?w = Some (?w\<lparr>core := Some (?c\<lparr>timer := t\<rparr>)\<rparr>)"
    using update_worker_timer [of ?w ?c K] r by (auto simp: refs_iff)
  then show ?thesis
    using K r c by (simp add: watchdog_write_def watchdog_ping_def watchdog_ping_hw_def kapi_ok_def refs_iff core_bits_def
        ms_to_ktime_def step_defs)
qed

lemma release_refs:
  assumes K: "kapi_ok K" and r: "refs m d {WDOG_ACTIVE, WDOG_HW_RUNNING} w" and a: "WDOG_ALLOW_RELEASE \<in> core_bits w"
  shows "\<exists>w'. wd_step K dw_wdt_ops Release w = Some w' \<and> refs (m - 1) (d - 1) {} w'"
proof -
  obtain c f where c: "core w = Some c" "wdd c" "dev_refs c = d" "rst (hw w) = Some f"
    using r by (auto simp: refs_iff)
  let ?c = "c\<lparr>core_status := core_status c - {WDOG_ALLOW_RELEASE}\<rparr>"
  let ?w = "w\<lparr>core := Some ?c, hw := (hw w)\<lparr>regs := f (regs (hw w))\<rparr>, status := {}\<rparr>"
  obtain t where t: "watchdog_update_worker K ?w = Some (?w\<lparr>core := Some (?c\<lparr>timer := t\<rparr>)\<rparr>)"
    using update_worker_timer [of ?w ?c K] r by (auto simp: refs_iff)
  obtain t' where t': "watchdog_update_worker K (?w\<lparr>core := Some (?c\<lparr>timer := t\<rparr>)\<rparr>) =
      Some (?w\<lparr>core := Some (?c\<lparr>timer := t'\<rparr>)\<rparr>)"
    using update_worker_timer [of "?w\<lparr>core := Some (?c\<lparr>timer := t\<rparr>)\<rparr>" "?c\<lparr>timer := t\<rparr>" K] r by (auto simp: refs_iff)
  have s: "release_stop K dw_wdt_ops w = Some (0, ?w\<lparr>core := Some (?c\<lparr>timer := t\<rparr>)\<rparr>)"
    using K r a c t by (simp add: release_stop_def watchdog_stop_def dw_wdt_stop_def kapi_ok_def refs_iff core_bits_def step_defs insert_Diff_if)
  show ?thesis
    using K r c s t' by (simp add: watchdog_release_def kapi_ok_def refs_iff step_defs)
qed

text \<open>
  A device that is registered while its hardware does not run takes no reference when it is opened,
  because registration marks the hardware as running afterwards; closing it after the magic character
  stops it and drops one reference of the module and one of the device that nobody took.
\<close>

theorem open_close_drops_reference:
  assumes "kapi_ok K" "refs m d {WDOG_HW_RUNNING} w" "WDOG_DEV_OPEN \<notin> core_bits w"
  shows "\<exists>w'. wd_run K dw_wdt_ops [Open, Write [Some 0x56], Release] w = Some w' \<and> refs (m - 1) (d - 1) {} w'"
  using open_refs [OF assms] write_refs [OF assms(1)] release_refs [OF assms(1)] by fastforce

theorem open_close_drops_reference_witness:
  "\<exists>w'. wd_run example_K dw_wdt_ops [Open, Write [Some 0x56], Release]
     (example_device (example_P\<lparr>rst_line := Some id\<rparr>)) = Some w' \<and> refs (- 1) 0 {} w'"
proof -
  let ?P = "example_P\<lparr>rst_line := Some id\<rparr>"
  have "case dw_wdt_drv_probe example_K example_R ?P of
      Some (r, Some w) \<Rightarrow> refs 0 1 {WDOG_HW_RUNNING} w \<and> WDOG_DEV_OPEN \<notin> core_bits w | _ \<Rightarrow> False"
    by code_simp
  then have "refs 0 1 {WDOG_HW_RUNNING} (example_device ?P)" "WDOG_DEV_OPEN \<notin> core_bits (example_device ?P)"
    by (auto simp: example_device_def split: option.splits)
  then show ?thesis
    using open_close_drops_reference [OF example_ok, of 0 1 "example_device ?P"] by simp
qed

end
