(* ===== verification/Xlat.thy ===== *)
theory Xlat
  imports Prelude
begin

unbundle bit_operations_syntax

text \<open>
  The translation table library of the trusted firmware, \<^verbatim>\<open>lib/xlat_tables_v2/xlat_tables_internal.c\<close>
  with its headers, for AArch64 and 4 KB pages. The record \<open>xlat_ctx\<close> is \<open>struct xlat_ctx\<close>: the
  subtables are an array of arrays at the address \<open>tables_addr\<close>, so that table descriptors hold the
  addresses the code stores in them; the base table is separate. \<open>None\<close> is a failed assertion or an
  access outside an array. The argument \<open>dyn\<close> is the build option \<open>PLAT_XLAT_TABLES_DYNAMIC\<close>. TLB
  invalidations are a trace; barriers and the printing of tables are left out.
\<close>

section \<open>Constants\<close>

definition INVALID_DESC :: u64 where "INVALID_DESC = 0x0"
definition BLOCK_DESC :: u64 where "BLOCK_DESC = 0x1"
definition TABLE_DESC :: u64 where "TABLE_DESC = 0x3"
definition PAGE_DESC :: u64 where "PAGE_DESC = 0x3"
definition DESC_MASK :: u64 where "DESC_MASK = 0x3"

definition XN :: u64 where "XN = 0x4"
definition UXN :: u64 where "UXN = 0x4"
definition PXN :: u64 where "PXN = 0x2"

definition UPPER_ATTRS :: "u64 \<Rightarrow> u64" where
  "UPPER_ATTRS x = push_bit 52 (x AND 0x7)"

definition ACCESS_FLAG :: u64 where "ACCESS_FLAG = 0x100"
definition OSH :: u64 where "OSH = 0x80"
definition ISH :: u64 where "ISH = 0xC0"
definition TABLE_ADDR_MASK :: u64 where "TABLE_ADDR_MASK = 0x0000FFFFFFFFF000"
definition PAGE_SIZE :: u64 where "PAGE_SIZE = 0x1000"
definition PAGE_SIZE_MASK :: u64 where "PAGE_SIZE_MASK = PAGE_SIZE - 1"

definition IS_PAGE_ALIGNED :: "u64 \<Rightarrow> bool" where
  "IS_PAGE_ALIGNED addr \<longleftrightarrow> addr AND PAGE_SIZE_MASK = 0"

definition XLAT_TABLE_LEVEL_MAX :: nat where "XLAT_TABLE_LEVEL_MAX = 3"
definition XLAT_TABLE_ENTRIES :: nat where "XLAT_TABLE_ENTRIES = 512"

definition XLAT_ADDR_SHIFT :: "nat \<Rightarrow> nat" where
  "XLAT_ADDR_SHIFT level = 12 + (XLAT_TABLE_LEVEL_MAX - level) * 9"

definition XLAT_BLOCK_SIZE :: "nat \<Rightarrow> u64" where
  "XLAT_BLOCK_SIZE level = push_bit (XLAT_ADDR_SHIFT level) 1"

definition XLAT_BLOCK_MASK :: "nat \<Rightarrow> u64" where
  "XLAT_BLOCK_MASK level = XLAT_BLOCK_SIZE level - 1"

definition XLAT_TABLE_IDX :: "u64 \<Rightarrow> nat \<Rightarrow> nat" where
  "XLAT_TABLE_IDX va level = unat (drop_bit (XLAT_ADDR_SHIFT level) va AND 0x1FF)"

definition AP_RO :: u64 where "AP_RO = 0x20"
definition AP_RW :: u64 where "AP_RW = 0x0"
definition AP_ACCESS_UNPRIVILEGED :: u64 where "AP_ACCESS_UNPRIVILEGED = 0x10"
definition AP_NO_ACCESS_UNPRIVILEGED :: u64 where "AP_NO_ACCESS_UNPRIVILEGED = 0x0"
definition NS :: u64 where "NS = 0x8"
definition ATTR_NON_CACHEABLE_INDEX :: u64 where "ATTR_NON_CACHEABLE_INDEX = 0x2"
definition ATTR_DEVICE_INDEX :: u64 where "ATTR_DEVICE_INDEX = 0x1"
definition ATTR_IWBWA_OWBWA_NTR_INDEX :: u64 where "ATTR_IWBWA_OWBWA_NTR_INDEX = 0x0"

definition LOWER_ATTRS :: "u64 \<Rightarrow> u64" where
  "LOWER_ATTRS x = push_bit 2 (x AND 0xfff)"

definition ATTR_INDEX_MASK :: u64 where "ATTR_INDEX_MASK = 0x3"
definition ATTR_INDEX_SHIFT :: nat where "ATTR_INDEX_SHIFT = 2"
definition NS_SHIFT :: nat where "NS_SHIFT = 5"
definition AP2_SHIFT :: nat where "AP2_SHIFT = 7"
definition AP1_SHIFT :: nat where "AP1_SHIFT = 6"
definition MIN_LVL_BLOCK_DESC :: nat where "MIN_LVL_BLOCK_DESC = 1"

definition MT_DEVICE :: u32 where "MT_DEVICE = 0"
definition MT_NON_CACHEABLE :: u32 where "MT_NON_CACHEABLE = 1"
definition MT_MEMORY :: u32 where "MT_MEMORY = 2"
definition MT_RW :: u32 where "MT_RW = 0x8"
definition MT_NS :: u32 where "MT_NS = 0x10"
definition MT_EXECUTE_NEVER :: u32 where "MT_EXECUTE_NEVER = 0x20"
definition MT_USER :: u32 where "MT_USER = 0x40"
definition MT_DYNAMIC :: u32 where "MT_DYNAMIC = 0x40000000"

definition MT_TYPE :: "u32 \<Rightarrow> u32" where
  "MT_TYPE attr = attr AND 0x7"

definition XLAT_EINVAL :: int where "XLAT_EINVAL = 22"
definition XLAT_ERANGE :: int where "XLAT_ERANGE = 34"
definition XLAT_ENOMEM :: int where "XLAT_ENOMEM = 12"
definition XLAT_EPERM :: int where "XLAT_EPERM = 1"

definition GET_XLAT_TABLE_LEVEL_BASE :: "u64 \<Rightarrow> nat" where
  "GET_XLAT_TABLE_LEVEL_BASE sz = (if sz > push_bit 39 1 then 0 else if sz > push_bit 30 1 then 1 else 2)"

definition IS_POWER_OF_TWO :: "u64 \<Rightarrow> bool" where
  "IS_POWER_OF_TWO x \<longleftrightarrow> x AND (x - 1) = 0"

definition MIN_VIRT_ADDR_SPACE_SIZE :: u64 where "MIN_VIRT_ADDR_SPACE_SIZE = push_bit (64 - 39) 1"
definition MAX_VIRT_ADDR_SPACE_SIZE :: u64 where "MAX_VIRT_ADDR_SPACE_SIZE = push_bit (64 - 16) 1"

definition CHECK_VIRT_ADDR_SPACE_SIZE :: "u64 \<Rightarrow> bool" where
  "CHECK_VIRT_ADDR_SPACE_SIZE sz \<longleftrightarrow> sz \<ge> MIN_VIRT_ADDR_SPACE_SIZE \<and> sz \<le> MAX_VIRT_ADDR_SPACE_SIZE \<and> IS_POWER_OF_TWO sz"

definition CHECK_PHY_ADDR_SPACE_SIZE :: "u64 \<Rightarrow> bool" where
  "CHECK_PHY_ADDR_SPACE_SIZE sz \<longleftrightarrow> IS_POWER_OF_TWO sz"

definition GET_NUM_BASE_LEVEL_ENTRIES :: "u64 \<Rightarrow> nat" where
  "GET_NUM_BASE_LEVEL_ENTRIES sz = unat (drop_bit (XLAT_ADDR_SHIFT (GET_XLAT_TABLE_LEVEL_BASE sz)) sz)"

section \<open>Regions and contexts\<close>

record mmap_region =
  base_pa :: u64
  base_va :: u64
  region_size :: u64
  attr :: u32
  granularity :: u64

datatype xlat_regime = EL1_EL0_REGIME | EL3_REGIME

record xlat_ctx =
  pa_max_address :: u64
  va_max_address :: u64
  mmap :: "mmap_region list"
  mmap_num :: nat
  tables_addr :: u64
  tables :: "u64 list list"
  tables_mapped_regions :: "int list"
  next_table :: nat
  base_table :: "u64 list"
  max_pa :: u64
  max_va :: u64
  base_level :: nat
  initialized :: bool
  xlat_regime :: xlat_regime
  tlbi :: "u64 list"

text \<open>
  \<open>REGISTER_XLAT_CONTEXT\<close> allocates the static arrays of a context at compile time; \<open>addr\<close> is where the
  linker puts the subtables.
\<close>

definition zero_region :: mmap_region where
  "zero_region = \<lparr>base_pa = 0, base_va = 0, region_size = 0, attr = 0, granularity = 0\<rparr>"

definition register_xlat_context :: "nat \<Rightarrow> nat \<Rightarrow> u64 \<Rightarrow> u64 \<Rightarrow> xlat_regime \<Rightarrow> u64 \<Rightarrow> xlat_ctx option" where
  "register_xlat_context mmap_count xlat_tables_count virt_addr_space_size phy_addr_space_size regime addr =
     (if CHECK_VIRT_ADDR_SPACE_SIZE virt_addr_space_size \<and> CHECK_PHY_ADDR_SPACE_SIZE phy_addr_space_size
      then Some \<lparr>pa_max_address = phy_addr_space_size - 1, va_max_address = virt_addr_space_size - 1,
        mmap = replicate (mmap_count + 1) zero_region, mmap_num = mmap_count, tables_addr = addr,
        tables = replicate xlat_tables_count (replicate XLAT_TABLE_ENTRIES 0),
        tables_mapped_regions = replicate xlat_tables_count 0, next_table = 0,
        base_table = replicate (GET_NUM_BASE_LEVEL_ENTRIES virt_addr_space_size) 0, max_pa = 0, max_va = 0,
        base_level = GET_XLAT_TABLE_LEVEL_BASE virt_addr_space_size, initialized = False, xlat_regime = regime, tlbi = []\<rparr>
      else None)"

text \<open>A pointer to a table: the base table or a subtable.\<close>

datatype table_ref = Base | Subtable nat

definition ensure :: "bool \<Rightarrow> unit option" where
  "ensure b = (if b then Some () else None)"

lemma ensure_simps [simp]: "ensure True = Some ()" "ensure False = None" "ensure b = Some () \<longleftrightarrow> b"
  by (simp_all add: ensure_def)

definition subtable_addr :: "xlat_ctx \<Rightarrow> nat \<Rightarrow> u64" where
  "subtable_addr ctx k = tables_addr ctx + PAGE_SIZE * of_nat k"

definition addr_subtable :: "xlat_ctx \<Rightarrow> u64 \<Rightarrow> table_ref option" where
  "addr_subtable ctx a =
     (let off = a - tables_addr ctx
      in if off AND PAGE_SIZE_MASK = 0 \<and> unat (drop_bit 12 off) < length (tables ctx) then Some (Subtable (unat (drop_bit 12 off))) else None)"

fun get_entry :: "xlat_ctx \<Rightarrow> table_ref \<Rightarrow> nat \<Rightarrow> u64 option" where
  "get_entry ctx Base i = aget (base_table ctx) i"
| "get_entry ctx (Subtable k) i = do { t \<leftarrow> aget (tables ctx) k; aget t i }"

fun put_entry :: "xlat_ctx \<Rightarrow> table_ref \<Rightarrow> nat \<Rightarrow> u64 \<Rightarrow> xlat_ctx option" where
  "put_entry ctx Base i d = do { t \<leftarrow> aset (base_table ctx) i d; Some (ctx\<lparr>base_table := t\<rparr>) }"
| "put_entry ctx (Subtable k) i d = do {
     t \<leftarrow> aget (tables ctx) k;
     t \<leftarrow> aset t i d;
     Some (ctx\<lparr>tables := (tables ctx)[k := t]\<rparr>)
   }"

section \<open>The pool of subtables\<close>

fun xlat_table_get_index :: "xlat_ctx \<Rightarrow> table_ref \<Rightarrow> nat option" where
  "xlat_table_get_index ctx Base = None"
| "xlat_table_get_index ctx (Subtable k) = (if k < length (tables ctx) then Some k else None)"

text \<open>The inner option is the null pointer of the dynamic build.\<close>

definition xlat_table_get_empty :: "bool \<Rightarrow> xlat_ctx \<Rightarrow> (nat option \<times> xlat_ctx) option" where
  "xlat_table_get_empty dyn ctx =
     (if dyn then Some (find (\<lambda>i. aget (tables_mapped_regions ctx) i = Some 0) [0..<length (tables ctx)], ctx)
      else if next_table ctx < length (tables ctx) then Some (Some (next_table ctx), ctx\<lparr>next_table := next_table ctx + 1\<rparr>)
      else None)"

definition xlat_table_add_regions_count :: "int \<Rightarrow> xlat_ctx \<Rightarrow> table_ref \<Rightarrow> xlat_ctx option" where
  "xlat_table_add_regions_count n ctx ref = do {
     k \<leftarrow> xlat_table_get_index ctx ref;
     c \<leftarrow> aget (tables_mapped_regions ctx) k;
     Some (ctx\<lparr>tables_mapped_regions := (tables_mapped_regions ctx)[k := c + n]\<rparr>)
   }"

definition xlat_table_inc_regions_count :: "xlat_ctx \<Rightarrow> table_ref \<Rightarrow> xlat_ctx option" where
  "xlat_table_inc_regions_count ctx ref = xlat_table_add_regions_count 1 ctx ref"

definition xlat_table_dec_regions_count :: "xlat_ctx \<Rightarrow> table_ref \<Rightarrow> xlat_ctx option" where
  "xlat_table_dec_regions_count ctx ref = xlat_table_add_regions_count (- 1) ctx ref"

definition xlat_table_is_empty :: "xlat_ctx \<Rightarrow> table_ref \<Rightarrow> bool option" where
  "xlat_table_is_empty ctx ref = do {
     k \<leftarrow> xlat_table_get_index ctx ref;
     c \<leftarrow> aget (tables_mapped_regions ctx) k;
     Some (c = 0)
   }"

section \<open>Descriptors\<close>

fun xlat_arch_regime_get_xn_desc :: "xlat_regime \<Rightarrow> u64" where
  "xlat_arch_regime_get_xn_desc EL1_EL0_REGIME = UPPER_ATTRS UXN OR UPPER_ATTRS PXN"
| "xlat_arch_regime_get_xn_desc EL3_REGIME = UPPER_ATTRS XN"

text \<open>The memory type's part of the descriptor.\<close>

definition desc_mem_type :: "xlat_regime \<Rightarrow> u32 \<Rightarrow> u64 option" where
  "desc_mem_type regime a =
     (if MT_TYPE a = MT_DEVICE
      then Some (LOWER_ATTRS (ATTR_DEVICE_INDEX OR OSH) OR xlat_arch_regime_get_xn_desc regime)
      else do {
        let xn = (if a AND MT_RW \<noteq> 0 \<or> a AND MT_EXECUTE_NEVER \<noteq> 0 then xlat_arch_regime_get_xn_desc regime else 0);
        if MT_TYPE a = MT_MEMORY then Some (xn OR LOWER_ATTRS (ATTR_IWBWA_OWBWA_NTR_INDEX OR ISH))
        else if MT_TYPE a = MT_NON_CACHEABLE then Some (xn OR LOWER_ATTRS (ATTR_NON_CACHEABLE_INDEX OR OSH))
        else None
      })"

definition xlat_desc :: "xlat_ctx \<Rightarrow> u32 \<Rightarrow> u64 \<Rightarrow> nat \<Rightarrow> u64 option" where
  "xlat_desc ctx a addr_pa level = do {
     ensure (addr_pa AND XLAT_BLOCK_MASK level = 0);
     let desc = addr_pa;
     let desc = desc OR (if level = XLAT_TABLE_LEVEL_MAX then PAGE_DESC else BLOCK_DESC);
     let desc = desc OR LOWER_ATTRS ACCESS_FLAG;
     let desc = desc OR (if a AND MT_NS \<noteq> 0 then LOWER_ATTRS NS else 0);
     let desc = desc OR (if a AND MT_RW \<noteq> 0 then LOWER_ATTRS AP_RW else LOWER_ATTRS AP_RO);
     let desc = desc OR (if xlat_regime ctx = EL1_EL0_REGIME \<and> a AND MT_USER \<noteq> 0
                         then LOWER_ATTRS AP_ACCESS_UNPRIVILEGED else LOWER_ATTRS AP_NO_ACCESS_UNPRIVILEGED);
     mem \<leftarrow> desc_mem_type (xlat_regime ctx) a;
     Some (desc OR mem)
   }"

datatype action = ACTION_NONE | ACTION_WRITE_BLOCK_ENTRY | ACTION_CREATE_NEW_TABLE | ACTION_RECURSE_INTO_TABLE

definition xlat_tables_map_region_action :: "mmap_region \<Rightarrow> u64 \<Rightarrow> u64 \<Rightarrow> u64 \<Rightarrow> nat \<Rightarrow> action option" where
  "xlat_tables_map_region_action mm desc_type dest_pa entry_va level =
     (let mm_end_va = base_va mm + region_size mm - 1;
          entry_end_va = entry_va + XLAT_BLOCK_SIZE level - 1
      in if base_va mm \<le> entry_va \<and> mm_end_va \<ge> entry_end_va then
           (if level = 3 then
              (if desc_type = PAGE_DESC then Some ACTION_NONE
               else if desc_type = INVALID_DESC then Some ACTION_WRITE_BLOCK_ENTRY else None)
            else if desc_type = TABLE_DESC then Some ACTION_RECURSE_INTO_TABLE
            else if desc_type = INVALID_DESC then
              (if dest_pa AND XLAT_BLOCK_MASK level \<noteq> 0 \<or> level < MIN_LVL_BLOCK_DESC \<or> granularity mm < XLAT_BLOCK_SIZE level
               then Some ACTION_CREATE_NEW_TABLE else Some ACTION_WRITE_BLOCK_ENTRY)
            else if desc_type = BLOCK_DESC then Some ACTION_NONE else None)
         else if base_va mm \<le> entry_end_va \<or> mm_end_va \<ge> entry_va then
           (if level < 3 then
              (if desc_type = INVALID_DESC then Some ACTION_CREATE_NEW_TABLE
               else if desc_type = TABLE_DESC then Some ACTION_RECURSE_INTO_TABLE else None)
            else None)
         else Some ACTION_NONE)"

section \<open>Mapping a region\<close>

text \<open>
  The loop over the entries of one table, with the recursive call as the argument \<open>sub\<close> and the number
  of entries left as the recursion argument. The recursion into a subtable returns the address it got
  to; the loop gives up when that is not the end of the entry.
\<close>

type_synonym table_op = "u64 \<Rightarrow> table_ref \<Rightarrow> nat \<Rightarrow> xlat_ctx \<Rightarrow> (u64 \<times> xlat_ctx) option"

definition map_into :: "table_op \<Rightarrow> u64 \<Rightarrow> table_ref \<Rightarrow> nat \<Rightarrow> xlat_ctx \<Rightarrow> (u64 option \<times> xlat_ctx) option" where
  "map_into sub va subtable level ctx = do {
     (end_va, ctx) \<leftarrow> sub va subtable (level + 1) ctx;
     Some (if end_va \<noteq> va + XLAT_BLOCK_SIZE level - 1 then Some end_va else None, ctx)
   }"

text \<open>One entry: the result says where to stop, if the loop has to return.\<close>

definition map_entry :: "table_op \<Rightarrow> bool \<Rightarrow> mmap_region \<Rightarrow> table_ref \<Rightarrow> nat \<Rightarrow> nat \<Rightarrow> u64 \<Rightarrow> xlat_ctx \<Rightarrow> (u64 option \<times> xlat_ctx) option" where
  "map_entry sub dyn mm table level idx va ctx = do {
     desc \<leftarrow> get_entry ctx table idx;
     let pa = base_pa mm + va - base_va mm;
     act \<leftarrow> xlat_tables_map_region_action mm (desc AND DESC_MASK) pa va level;
     (case act of
        ACTION_NONE \<Rightarrow> Some (None, ctx)
      | ACTION_WRITE_BLOCK_ENTRY \<Rightarrow> do {
          d \<leftarrow> xlat_desc ctx (attr mm) pa level;
          ctx \<leftarrow> put_entry ctx table idx d;
          Some (None, ctx)
        }
      | ACTION_CREATE_NEW_TABLE \<Rightarrow> do {
          (t, ctx) \<leftarrow> xlat_table_get_empty dyn ctx;
          (case t of
             None \<Rightarrow> Some (Some va, ctx)
           | Some k \<Rightarrow> do {
               ctx \<leftarrow> put_entry ctx table idx (TABLE_DESC OR subtable_addr ctx k);
               map_into sub va (Subtable k) level ctx
             })
        }
      | ACTION_RECURSE_INTO_TABLE \<Rightarrow> do {
          t \<leftarrow> addr_subtable ctx (desc AND TABLE_ADDR_MASK);
          map_into sub va t level ctx
        })
   }"

fun map_loop :: "table_op \<Rightarrow> bool \<Rightarrow> mmap_region \<Rightarrow> table_ref \<Rightarrow> nat \<Rightarrow> nat \<Rightarrow> nat \<Rightarrow> u64 \<Rightarrow> xlat_ctx \<Rightarrow> (u64 \<times> xlat_ctx) option" where
  "map_loop sub dyn mm table level 0 idx va ctx = Some (va - 1, ctx)"
| "map_loop sub dyn mm table level (Suc n) idx va ctx = do {
     (stop, ctx) \<leftarrow> map_entry sub dyn mm table level idx va ctx;
     (case stop of
        Some end_va \<Rightarrow> Some (end_va, ctx)
      | None \<Rightarrow>
          let va = va + XLAT_BLOCK_SIZE level
          in if base_va mm + region_size mm - 1 \<le> va then Some (va - 1, ctx)
             else map_loop sub dyn mm table level n (Suc idx) va ctx)
   }"

text \<open>The first entry of a table that a region reaches; the index fits the \<open>int\<close> of the code.\<close>

definition first_entry :: "mmap_region \<Rightarrow> u64 \<Rightarrow> nat \<Rightarrow> nat \<Rightarrow> (nat \<times> u64) option" where
  "first_entry mm table_base_va entries level =
     (if base_va mm > table_base_va then do {
        let va = base_va mm AND NOT (XLAT_BLOCK_MASK level);
        let idx = unat (drop_bit (XLAT_ADDR_SHIFT level) (va - table_base_va));
        ensure (idx < entries);
        Some (idx, va)
      }
      else Some (0, table_base_va))"

text \<open>
  \<open>xlat_tables_map_region\<close>: the first argument bounds the depth of the recursion. It never runs out
  when it is larger than the number of levels below the table, as every call increases the level and
  the code asserts that the level is at most 3.
\<close>

fun xlat_tables_map_region ::
  "nat \<Rightarrow> bool \<Rightarrow> mmap_region \<Rightarrow> u64 \<Rightarrow> table_ref \<Rightarrow> nat \<Rightarrow> nat \<Rightarrow> xlat_ctx \<Rightarrow> (u64 \<times> xlat_ctx) option" where
  "xlat_tables_map_region 0 dyn mm table_base_va table entries level ctx = None"
| "xlat_tables_map_region (Suc depth) dyn mm table_base_va table entries level ctx = do {
     ensure (base_level ctx \<le> level \<and> level \<le> XLAT_TABLE_LEVEL_MAX);
     (idx, va) \<leftarrow> first_entry mm table_base_va entries level;
     ctx \<leftarrow> (if dyn \<and> level > base_level ctx then xlat_table_inc_regions_count ctx table else Some ctx);
     map_loop (\<lambda>va t l ctx. xlat_tables_map_region depth dyn mm va t XLAT_TABLE_ENTRIES l ctx) dyn mm table level (entries - idx) idx va ctx
   }"

section \<open>Unmapping a region\<close>

definition xlat_arch_tlbi_va_regime :: "u64 \<Rightarrow> xlat_ctx \<Rightarrow> xlat_ctx" where
  "xlat_arch_tlbi_va_regime va ctx = ctx\<lparr>tlbi := tlbi ctx @ [va]\<rparr>"

definition unmap_action :: "mmap_region \<Rightarrow> u64 \<Rightarrow> u64 \<Rightarrow> nat \<Rightarrow> action option" where
  "unmap_action mm desc_type va level =
     (let region_end_va = base_va mm + region_size mm - 1; end_va = va + XLAT_BLOCK_SIZE level - 1
      in if base_va mm \<le> va \<and> region_end_va \<ge> end_va then
           (if level = 3 then (if desc_type = PAGE_DESC then Some ACTION_WRITE_BLOCK_ENTRY else None)
            else if desc_type = TABLE_DESC then Some ACTION_RECURSE_INTO_TABLE
            else if desc_type = BLOCK_DESC then Some ACTION_WRITE_BLOCK_ENTRY else None)
         else if base_va mm \<le> end_va \<or> region_end_va \<ge> va then
           (if level < 3 \<and> desc_type = TABLE_DESC then Some ACTION_RECURSE_INTO_TABLE else None)
         else Some ACTION_NONE)"

type_synonym unmap_op = "u64 \<Rightarrow> table_ref \<Rightarrow> nat \<Rightarrow> xlat_ctx \<Rightarrow> xlat_ctx option"

definition unmap_entry :: "unmap_op \<Rightarrow> mmap_region \<Rightarrow> table_ref \<Rightarrow> nat \<Rightarrow> nat \<Rightarrow> u64 \<Rightarrow> xlat_ctx \<Rightarrow> xlat_ctx option" where
  "unmap_entry sub mm table level idx va ctx = do {
     desc \<leftarrow> get_entry ctx table idx;
     act \<leftarrow> unmap_action mm (desc AND DESC_MASK) va level;
     (case act of
        ACTION_WRITE_BLOCK_ENTRY \<Rightarrow> do {
          ctx \<leftarrow> put_entry ctx table idx INVALID_DESC;
          Some (xlat_arch_tlbi_va_regime va ctx)
        }
      | ACTION_RECURSE_INTO_TABLE \<Rightarrow> do {
          t \<leftarrow> addr_subtable ctx (desc AND TABLE_ADDR_MASK);
          ctx \<leftarrow> sub va t (level + 1) ctx;
          empty \<leftarrow> xlat_table_is_empty ctx t;
          if empty then do {
            ctx \<leftarrow> put_entry ctx table idx INVALID_DESC;
            Some (xlat_arch_tlbi_va_regime va ctx)
          }
          else Some ctx
        }
      | _ \<Rightarrow> Some ctx)
   }"

fun unmap_loop :: "unmap_op \<Rightarrow> mmap_region \<Rightarrow> table_ref \<Rightarrow> nat \<Rightarrow> nat \<Rightarrow> nat \<Rightarrow> u64 \<Rightarrow> xlat_ctx \<Rightarrow> xlat_ctx option" where
  "unmap_loop sub mm table level 0 idx va ctx = Some ctx"
| "unmap_loop sub mm table level (Suc n) idx va ctx = do {
     ctx \<leftarrow> unmap_entry sub mm table level idx va ctx;
     let va = va + XLAT_BLOCK_SIZE level;
     if base_va mm + region_size mm - 1 \<le> va then Some ctx
     else unmap_loop sub mm table level n (Suc idx) va ctx
   }"

fun xlat_tables_unmap_region ::
  "nat \<Rightarrow> mmap_region \<Rightarrow> u64 \<Rightarrow> table_ref \<Rightarrow> nat \<Rightarrow> nat \<Rightarrow> xlat_ctx \<Rightarrow> xlat_ctx option" where
  "xlat_tables_unmap_region 0 mm table_base_va table entries level ctx = None"
| "xlat_tables_unmap_region (Suc depth) mm table_base_va table entries level ctx = do {
     ensure (base_level ctx \<le> level \<and> level \<le> XLAT_TABLE_LEVEL_MAX);
     (idx, va) \<leftarrow> first_entry mm table_base_va entries level;
     ctx \<leftarrow> unmap_loop (\<lambda>va t l ctx. xlat_tables_unmap_region depth mm va t XLAT_TABLE_ENTRIES l ctx) mm table level (entries - idx) idx va ctx;
     if level > base_level ctx then xlat_table_dec_regions_count ctx table else Some ctx
   }"

section \<open>The list of regions\<close>

definition region_end :: "mmap_region \<Rightarrow> u64" where
  "region_end mm = base_va mm + region_size mm - 1"

definition region_end_pa :: "mmap_region \<Rightarrow> u64" where
  "region_end_pa mm = base_pa mm + region_size mm - 1"

definition fully_overlapped_va :: "mmap_region \<Rightarrow> mmap_region \<Rightarrow> bool" where
  "fully_overlapped_va mm c \<longleftrightarrow>
     (base_va mm \<ge> base_va c \<and> region_end mm \<le> region_end c) \<or> (base_va c \<ge> base_va mm \<and> region_end c \<le> region_end mm)"

definition separated_pa :: "mmap_region \<Rightarrow> mmap_region \<Rightarrow> bool" where
  "separated_pa mm c \<longleftrightarrow> region_end_pa mm < base_pa c \<or> base_pa mm > region_end_pa c"

definition separated_va :: "mmap_region \<Rightarrow> mmap_region \<Rightarrow> bool" where
  "separated_va mm c \<longleftrightarrow> region_end mm < base_va c \<or> base_va mm > region_end c"

text \<open>The test of a new region against one that is there.\<close>

definition check_overlap :: "bool \<Rightarrow> mmap_region \<Rightarrow> mmap_region \<Rightarrow> bool" where
  "check_overlap dyn mm c \<longleftrightarrow>
     (if fully_overlapped_va mm c
      then \<not> (dyn \<and> (attr mm AND MT_DYNAMIC \<noteq> 0 \<or> attr c AND MT_DYNAMIC \<noteq> 0)) \<and>
           base_va c - base_pa c = base_va mm - base_pa mm \<and>
           \<not> (base_va mm = base_va c \<and> region_size mm = region_size c)
      else separated_va mm c \<and> separated_pa mm c)"

fun check_overlaps :: "bool \<Rightarrow> mmap_region \<Rightarrow> mmap_region list \<Rightarrow> bool option" where
  "check_overlaps dyn mm [] = None"
| "check_overlaps dyn mm (c # cs) =
     (if region_size c = 0 then Some True
      else if check_overlap dyn mm c then check_overlaps dyn mm cs else Some False)"

definition mmap_add_region_check :: "bool \<Rightarrow> xlat_ctx \<Rightarrow> mmap_region \<Rightarrow> int option" where
  "mmap_add_region_check dyn ctx mm =
     (if \<not> IS_PAGE_ALIGNED (base_pa mm) \<or> \<not> IS_PAGE_ALIGNED (base_va mm) \<or> \<not> IS_PAGE_ALIGNED (region_size mm) then Some (- XLAT_EINVAL)
      else if granularity mm \<noteq> XLAT_BLOCK_SIZE 1 \<and> granularity mm \<noteq> XLAT_BLOCK_SIZE 2 \<and> granularity mm \<noteq> XLAT_BLOCK_SIZE 3
      then Some (- XLAT_EINVAL)
      else if base_pa mm > region_end_pa mm \<or> base_va mm > region_end mm then Some (- XLAT_ERANGE)
      else if region_end mm > va_max_address ctx then Some (- XLAT_ERANGE)
      else if region_end_pa mm > pa_max_address ctx then Some (- XLAT_ERANGE)
      else do {
        last \<leftarrow> aget (mmap ctx) (mmap_num ctx - 1);
        if region_size last \<noteq> 0 then Some (- XLAT_ENOMEM)
        else do {
          ok \<leftarrow> check_overlaps dyn mm (mmap ctx);
          Some (if ok then 0 else - XLAT_EPERM)
        }
      })"

text \<open>The two loops that find the place of a region, and the one that finds the end of the list.\<close>

fun skip_lower :: "mmap_region \<Rightarrow> mmap_region list \<Rightarrow> nat option" where
  "skip_lower mm [] = None"
| "skip_lower mm (c # cs) =
     (if region_end c < region_end mm \<and> region_size c \<noteq> 0 then do { n \<leftarrow> skip_lower mm cs; Some (Suc n) } else Some 0)"

fun skip_smaller :: "mmap_region \<Rightarrow> mmap_region list \<Rightarrow> nat option" where
  "skip_smaller mm [] = None"
| "skip_smaller mm (c # cs) =
     (if region_end c = region_end mm \<and> region_size c < region_size mm then do { n \<leftarrow> skip_smaller mm cs; Some (Suc n) } else Some 0)"

fun used_regions :: "mmap_region list \<Rightarrow> nat option" where
  "used_regions [] = None"
| "used_regions (c # cs) = (if region_size c = 0 then Some 0 else do { n \<leftarrow> used_regions cs; Some (Suc n) })"

definition mmap_cursor :: "mmap_region \<Rightarrow> mmap_region list \<Rightarrow> nat option" where
  "mmap_cursor mm xs = do { i \<leftarrow> skip_lower mm xs; j \<leftarrow> skip_smaller mm (drop i xs); Some (i + j) }"

text \<open>\<open>memmove (cursor + 1, cursor, last - cursor)\<close>, then the new region is stored at \<open>cursor\<close>.\<close>

definition move_up :: "mmap_region \<Rightarrow> nat \<Rightarrow> nat \<Rightarrow> mmap_region list \<Rightarrow> mmap_region list" where
  "move_up mm i l xs = take i xs @ [mm] @ drop i (take l xs) @ drop (Suc l) xs"

text \<open>\<open>memmove (cursor, cursor + 1, last - cursor)\<close>\<close>

definition move_down :: "nat \<Rightarrow> nat \<Rightarrow> mmap_region list \<Rightarrow> mmap_region list" where
  "move_down i l xs = take i xs @ drop (Suc i) (take (Suc l) xs) @ drop l xs"

definition raise_max :: "mmap_region \<Rightarrow> xlat_ctx \<Rightarrow> xlat_ctx" where
  "raise_max mm ctx =
     ctx\<lparr>max_pa := (if region_end_pa mm > max_pa ctx then region_end_pa mm else max_pa ctx),
         max_va := (if region_end mm > max_va ctx then region_end mm else max_va ctx)\<rparr>"

definition mmap_add_region_ctx :: "bool \<Rightarrow> xlat_ctx \<Rightarrow> mmap_region \<Rightarrow> xlat_ctx option" where
  "mmap_add_region_ctx dyn ctx mm =
     (if region_size mm = 0 then Some ctx
      else do {
        ensure (\<not> initialized ctx);
        ret \<leftarrow> mmap_add_region_check dyn ctx mm;
        ensure (ret = 0);
        i \<leftarrow> mmap_cursor mm (mmap ctx);
        l \<leftarrow> used_regions (mmap ctx);
        let xs = move_up mm i l (mmap ctx);
        m \<leftarrow> aget xs (mmap_num ctx);
        ensure (region_size m = 0);
        Some (raise_max mm (ctx\<lparr>mmap := xs\<rparr>))
      })"

fun mmap_add_ctx :: "bool \<Rightarrow> xlat_ctx \<Rightarrow> mmap_region list \<Rightarrow> xlat_ctx option" where
  "mmap_add_ctx dyn ctx [] = None"
| "mmap_add_ctx dyn ctx (mm # mms) =
     (if region_size mm = 0 then Some ctx else do { ctx \<leftarrow> mmap_add_region_ctx dyn ctx mm; mmap_add_ctx dyn ctx mms })"

text \<open>Dynamic regions. The region list changes first, then the tables when they are in use.\<close>

definition mmap_add_dynamic_region_ctx :: "xlat_ctx \<Rightarrow> mmap_region \<Rightarrow> (int \<times> xlat_ctx) option" where
  "mmap_add_dynamic_region_ctx ctx mm =
     (if region_size mm = 0 then Some (0, ctx)
      else do {
        let mm = mm\<lparr>attr := attr mm OR MT_DYNAMIC\<rparr>;
        ret \<leftarrow> mmap_add_region_check True ctx mm;
        if ret \<noteq> 0 then Some (ret, ctx)
        else do {
          i \<leftarrow> mmap_cursor mm (mmap ctx);
          let xs = move_up mm i (mmap_num ctx) (mmap ctx);
          m \<leftarrow> aget xs (mmap_num ctx);
          ensure (region_size m = 0);
          let ctx = ctx\<lparr>mmap := xs\<rparr>;
          if \<not> initialized ctx then Some (0, raise_max mm ctx)
          else do {
            (end_va, ctx) \<leftarrow> xlat_tables_map_region 4 True mm 0 Base (length (base_table ctx)) (base_level ctx) ctx;
            if end_va = region_end mm then Some (0, raise_max mm ctx)
            else do {
              let ctx = ctx\<lparr>mmap := move_down i (mmap_num ctx) (mmap ctx)\<rparr>;
              if base_va mm \<ge> end_va then Some (- XLAT_ENOMEM, ctx)
              else do {
                let unmap_mm = \<lparr>base_pa = 0, base_va = base_va mm, region_size = end_va - base_va mm, attr = 0, granularity = 0\<rparr>;
                ctx \<leftarrow> xlat_tables_unmap_region 4 unmap_mm 0 Base (length (base_table ctx)) (base_level ctx) ctx;
                Some (- XLAT_ENOMEM, ctx)
              }
            }
          }
        }
      })"

fun find_region :: "u64 \<Rightarrow> u64 \<Rightarrow> mmap_region list \<Rightarrow> nat option" where
  "find_region va sz [] = None"
| "find_region va sz (c # cs) =
     (if region_size c = 0 \<or> (base_va c = va \<and> region_size c = sz) then Some 0 else do { n \<leftarrow> find_region va sz cs; Some (Suc n) })"

fun largest :: "(mmap_region \<Rightarrow> u64) \<Rightarrow> mmap_region list \<Rightarrow> u64 \<Rightarrow> u64" where
  "largest f [] m = m"
| "largest f (c # cs) m = (if region_size c = 0 then m else largest f cs (if f c > m then f c else m))"

definition mmap_remove_dynamic_region_ctx :: "xlat_ctx \<Rightarrow> u64 \<Rightarrow> u64 \<Rightarrow> (int \<times> xlat_ctx) option" where
  "mmap_remove_dynamic_region_ctx ctx va sz = do {
     m \<leftarrow> aget (mmap ctx) (mmap_num ctx);
     ensure (region_size m = 0);
     i \<leftarrow> find_region va sz (mmap ctx);
     mm \<leftarrow> aget (mmap ctx) i;
     if region_size mm = 0 then Some (- XLAT_EINVAL, ctx)
     else if attr mm AND MT_DYNAMIC = 0 then Some (- XLAT_EPERM, ctx)
     else do {
       let update_va = (region_end mm = max_va ctx);
       let update_pa = (region_end_pa mm = max_pa ctx);
       ctx \<leftarrow> (if initialized ctx then xlat_tables_unmap_region 4 mm 0 Base (length (base_table ctx)) (base_level ctx) ctx else Some ctx);
       let xs = move_down i (mmap_num ctx) (mmap ctx);
       Some (0, ctx\<lparr>mmap := xs, max_va := (if update_va then largest region_end xs 0 else max_va ctx),
         max_pa := (if update_pa then largest region_end_pa xs 0 else max_pa ctx)\<rparr>)
     }
   }"

text \<open>The variants that build the region from their arguments, with the default granularity.\<close>

definition MAP_REGION :: "u64 \<Rightarrow> u64 \<Rightarrow> u64 \<Rightarrow> u32 \<Rightarrow> mmap_region" where
  "MAP_REGION pa va sz a = \<lparr>base_pa = pa, base_va = va, region_size = sz, attr = a, granularity = XLAT_BLOCK_SIZE MIN_LVL_BLOCK_DESC\<rparr>"

definition mmap_add_region :: "bool \<Rightarrow> xlat_ctx \<Rightarrow> u64 \<Rightarrow> u64 \<Rightarrow> u64 \<Rightarrow> u32 \<Rightarrow> xlat_ctx option" where
  "mmap_add_region dyn ctx pa va sz a = mmap_add_region_ctx dyn ctx (MAP_REGION pa va sz a)"

definition mmap_add_dynamic_region :: "xlat_ctx \<Rightarrow> u64 \<Rightarrow> u64 \<Rightarrow> u64 \<Rightarrow> u32 \<Rightarrow> (int \<times> xlat_ctx) option" where
  "mmap_add_dynamic_region ctx pa va sz a = mmap_add_dynamic_region_ctx ctx (MAP_REGION pa va sz a)"

section \<open>Building the tables\<close>

fun map_regions :: "bool \<Rightarrow> mmap_region list \<Rightarrow> xlat_ctx \<Rightarrow> xlat_ctx option" where
  "map_regions dyn [] ctx = None"
| "map_regions dyn (mm # mms) ctx =
     (if region_size mm = 0 then Some ctx
      else do {
        (end_va, ctx) \<leftarrow> xlat_tables_map_region 4 dyn mm 0 Base (length (base_table ctx)) (base_level ctx) ctx;
        if end_va \<noteq> region_end mm then None else map_regions dyn mms ctx
      })"

text \<open>\<open>mmu_on\<close> and \<open>max_supported_pa\<close> are what the system registers say.\<close>

definition init_xlat_tables_ctx :: "bool \<Rightarrow> bool \<Rightarrow> u64 \<Rightarrow> xlat_ctx \<Rightarrow> xlat_ctx option" where
  "init_xlat_tables_ctx dyn mmu_on max_supported_pa ctx = do {
     ensure (\<not> initialized ctx);
     ensure (\<not> mmu_on);
     let ctx = ctx\<lparr>base_table := replicate (length (base_table ctx)) INVALID_DESC,
       tables_mapped_regions := (if dyn then replicate (length (tables ctx)) 0 else tables_mapped_regions ctx),
       tables := replicate (length (tables ctx)) (replicate XLAT_TABLE_ENTRIES INVALID_DESC)\<rparr>;
     ctx \<leftarrow> map_regions dyn (mmap ctx) ctx;
     ensure (pa_max_address ctx \<le> max_supported_pa);
     ensure (max_va ctx \<le> va_max_address ctx);
     ensure (max_pa ctx \<le> pa_max_address ctx);
     Some (ctx\<lparr>initialized := True\<rparr>)
   }"

section \<open>Looking up and changing attributes\<close>

text \<open>The walk: the result is the place of the descriptor and its level, or null.\<close>

fun walk_loop :: "nat \<Rightarrow> xlat_ctx \<Rightarrow> u64 \<Rightarrow> table_ref \<Rightarrow> nat \<Rightarrow> nat \<Rightarrow> (table_ref \<times> nat \<times> nat) option option" where
  "walk_loop 0 ctx va table entries level = None"
| "walk_loop (Suc n) ctx va table entries level = do {
     let idx = XLAT_TABLE_IDX va level;
     if idx \<ge> entries then Some None
     else do {
       desc \<leftarrow> get_entry ctx table idx;
       let desc_type = desc AND DESC_MASK;
       if desc_type = INVALID_DESC then Some None
       else if level = XLAT_TABLE_LEVEL_MAX then do { ensure (desc_type = PAGE_DESC); Some (Some (table, idx, level)) }
       else if desc_type = BLOCK_DESC then Some (Some (table, idx, level))
       else do {
         ensure (desc_type = TABLE_DESC);
         t \<leftarrow> addr_subtable ctx (desc AND TABLE_ADDR_MASK);
         walk_loop n ctx va t XLAT_TABLE_ENTRIES (level + 1)
       }
     }
   }"

definition find_xlat_table_entry :: "xlat_ctx \<Rightarrow> u64 \<Rightarrow> u64 \<Rightarrow> (table_ref \<times> nat \<times> nat) option option" where
  "find_xlat_table_entry ctx va virt_addr_space_size =
     walk_loop 4 ctx va Base (length (base_table ctx)) (GET_XLAT_TABLE_LEVEL_BASE virt_addr_space_size)"

text \<open>The attributes of a descriptor.\<close>

definition desc_attributes :: "xlat_regime \<Rightarrow> u64 \<Rightarrow> u32 option" where
  "desc_attributes regime desc = do {
     let i = drop_bit ATTR_INDEX_SHIFT desc AND ATTR_INDEX_MASK;
     ty \<leftarrow> (if i = ATTR_IWBWA_OWBWA_NTR_INDEX then Some MT_MEMORY
            else if i = ATTR_NON_CACHEABLE_INDEX then Some MT_NON_CACHEABLE
            else if i = ATTR_DEVICE_INDEX then Some MT_DEVICE else None);
     let a = ty OR (if drop_bit AP2_SHIFT desc AND 1 = 0 then MT_RW else 0);
     let a = a OR (if regime = EL1_EL0_REGIME \<and> drop_bit AP1_SHIFT desc AND 1 = 1 then MT_USER else 0);
     let a = a OR (if drop_bit NS_SHIFT desc AND 1 = 1 then MT_NS else 0);
     let xn = xlat_arch_regime_get_xn_desc regime;
     if desc AND xn = xn then Some (a OR MT_EXECUTE_NEVER)
     else do { ensure (desc AND xn = 0); Some a }
   }"

record mem_attributes =
  ma_attributes :: u32
  ma_entry :: "table_ref \<times> nat"
  ma_addr_pa :: u64
  ma_level :: nat

text \<open>The result \<open>Inl\<close> is the error code.\<close>

definition get_mem_attributes_internal :: "xlat_ctx \<Rightarrow> u64 \<Rightarrow> (int + mem_attributes) option" where
  "get_mem_attributes_internal ctx va = do {
     ensure (initialized ctx);
     let sz = va_max_address ctx + 1;
     ensure (sz > 0);
     entry \<leftarrow> find_xlat_table_entry ctx va sz;
     (case entry of
        None \<Rightarrow> Some (Inl (- XLAT_EINVAL))
      | Some (t, i, level) \<Rightarrow> do {
          desc \<leftarrow> get_entry ctx t i;
          a \<leftarrow> desc_attributes (xlat_regime ctx) desc;
          Some (Inr \<lparr>ma_attributes = a, ma_entry = (t, i), ma_addr_pa = desc AND TABLE_ADDR_MASK, ma_level = level\<rparr>)
        })
   }"

definition get_mem_attributes :: "xlat_ctx \<Rightarrow> u64 \<Rightarrow> (int + u32) option" where
  "get_mem_attributes ctx va = do {
     r \<leftarrow> get_mem_attributes_internal ctx va;
     Some (map_sum id ma_attributes r)
   }"

text \<open>
  The first loop of \<open>change_mem_attributes\<close> checks every page, the second rewrites it. The number of
  pages is converted to \<open>int\<close>.
\<close>

fun check_pages :: "xlat_ctx \<Rightarrow> u32 \<Rightarrow> nat \<Rightarrow> u64 \<Rightarrow> bool option" where
  "check_pages ctx a 0 va = Some True"
| "check_pages ctx a (Suc n) va = do {
     entry \<leftarrow> find_xlat_table_entry ctx va (va_max_address ctx + 1);
     (case entry of
        None \<Rightarrow> Some False
      | Some (t, i, level) \<Rightarrow> do {
          desc \<leftarrow> get_entry ctx t i;
          if desc AND DESC_MASK \<noteq> PAGE_DESC \<or> level \<noteq> XLAT_TABLE_LEVEL_MAX then Some False
          else if drop_bit ATTR_INDEX_SHIFT desc AND ATTR_INDEX_MASK = ATTR_DEVICE_INDEX \<and> a AND MT_EXECUTE_NEVER = 0 then Some False
          else check_pages ctx a n (va + PAGE_SIZE)
        })
   }"

fun change_pages :: "u32 \<Rightarrow> nat \<Rightarrow> u64 \<Rightarrow> xlat_ctx \<Rightarrow> xlat_ctx option" where
  "change_pages a 0 va ctx = Some ctx"
| "change_pages a (Suc n) va ctx = do {
     r \<leftarrow> get_mem_attributes_internal ctx va;
     (case r of
        Inl e \<Rightarrow> None
      | Inr m \<Rightarrow> do {
          let mask = MT_RW OR MT_EXECUTE_NEVER OR MT_USER;
          let new_attr = (ma_attributes m AND NOT mask) OR (a AND mask);
          ctx \<leftarrow> put_entry ctx (fst (ma_entry m)) (snd (ma_entry m)) INVALID_DESC;
          let ctx = xlat_arch_tlbi_va_regime va ctx;
          d \<leftarrow> xlat_desc ctx new_attr (ma_addr_pa m) (ma_level m);
          ctx \<leftarrow> put_entry ctx (fst (ma_entry m)) (snd (ma_entry m)) d;
          change_pages a n (va + PAGE_SIZE) ctx
        })
   }"

definition change_mem_attributes :: "xlat_ctx \<Rightarrow> u64 \<Rightarrow> u64 \<Rightarrow> u32 \<Rightarrow> (int \<times> xlat_ctx) option" where
  "change_mem_attributes ctx va sz a = do {
     ensure (initialized ctx);
     ensure (va_max_address ctx + 1 > 0);
     if \<not> IS_PAGE_ALIGNED va then Some (- XLAT_EINVAL, ctx)
     else if sz = 0 then Some (- XLAT_EINVAL, ctx)
     else if sz mod PAGE_SIZE \<noteq> 0 then Some (- XLAT_EINVAL, ctx)
     else if a AND MT_EXECUTE_NEVER = 0 \<and> a AND MT_RW \<noteq> 0 then Some (- XLAT_EINVAL, ctx)
     else do {
       let pages_count = nat (sint (ucast (sz div PAGE_SIZE) :: 32 word));
       ok \<leftarrow> check_pages ctx a pages_count va;
       if \<not> ok then Some (- XLAT_EINVAL, ctx)
       else do { ctx \<leftarrow> change_pages a pages_count va ctx; Some (0, ctx) }
     }
   }"

end
