(* ===== verification/Xlat_desc.thy ===== *)
theory Xlat_desc
  imports Xlat
begin

text \<open>
  Numbers and bits of the translation tables: block and page sizes and alignment as arithmetic on natural
  numbers, the fields of descriptors, and that the attributes of a descriptor can be read back from it.
\<close>

section \<open>Block sizes\<close>

definition blk :: "nat \<Rightarrow> nat" where
  "blk l = 2 ^ XLAT_ADDR_SHIFT l"

lemma shift_simps [simp]: "XLAT_ADDR_SHIFT 3 = 12" "XLAT_ADDR_SHIFT 2 = 21" "XLAT_ADDR_SHIFT (Suc 0) = 30" "XLAT_ADDR_SHIFT 0 = 39"
  by (simp_all add: XLAT_ADDR_SHIFT_def XLAT_TABLE_LEVEL_MAX_def)

lemma shift_bounds: "12 \<le> XLAT_ADDR_SHIFT l" "XLAT_ADDR_SHIFT l \<le> 39"
  by (simp_all add: XLAT_ADDR_SHIFT_def XLAT_TABLE_LEVEL_MAX_def)

lemma shift_Suc: "l < 3 \<Longrightarrow> XLAT_ADDR_SHIFT l = XLAT_ADDR_SHIFT (Suc l) + 9"
  by (auto simp: XLAT_ADDR_SHIFT_def XLAT_TABLE_LEVEL_MAX_def)

lemma blk_pos [simp]: "0 < blk l"
  by (simp add: blk_def)

lemma blk_Suc: "l < 3 \<Longrightarrow> blk l = 512 * blk (Suc l)"
  by (simp add: blk_def shift_Suc power_add)

lemma blk_3 [simp]: "blk 3 = 4096"
  by (simp add: blk_def)

lemma page_dvd_blk: "4096 dvd blk l"
proof -
  have "2 ^ 12 dvd (2 :: nat) ^ XLAT_ADDR_SHIFT l"
    by (rule le_imp_power_dvd) (rule shift_bounds)
  then show ?thesis
    by (simp add: blk_def)
qed

lemma blk_bound: "blk l \<le> 2 ^ 39"
  unfolding blk_def by (rule power_increasing) (simp_all add: shift_bounds)

lemma unat_block_size [simp]: "unat (XLAT_BLOCK_SIZE l) = blk l"
proof -
  have "unat (of_nat (blk l) :: u64) = blk l"
    by (rule unat_of_nat_small) (use blk_bound [of l] in simp)
  then show ?thesis
    by (simp add: XLAT_BLOCK_SIZE_def blk_def push_bit_eq_mult)
qed

lemma block_mask: "XLAT_BLOCK_MASK l = mask (XLAT_ADDR_SHIFT l)"
  by (simp add: XLAT_BLOCK_MASK_def XLAT_BLOCK_SIZE_def mask_eq_exp_minus_1 push_bit_eq_mult)

lemma unat_and_block_mask: "unat (x AND XLAT_BLOCK_MASK l) = unat x mod blk l"
  by (simp add: block_mask blk_def flip: take_bit_eq_mask)
     (metis take_bit_eq_mod unsigned_take_bit_eq)

lemma and_block_mask_0: "x AND XLAT_BLOCK_MASK l = 0 \<longleftrightarrow> blk l dvd unat x"
  by (metis unat_and_block_mask dvd_eq_mod_eq_0 unat_eq_0)

lemma page_mask: "PAGE_SIZE_MASK = XLAT_BLOCK_MASK 3"
  by (simp add: PAGE_SIZE_MASK_def PAGE_SIZE_def XLAT_BLOCK_MASK_def XLAT_BLOCK_SIZE_def push_bit_eq_mult)

lemma page_aligned_iff: "IS_PAGE_ALIGNED x \<longleftrightarrow> 4096 dvd unat x"
  by (simp add: IS_PAGE_ALIGNED_def page_mask and_block_mask_0)

lemma unat_align_down: "unat (x AND NOT (XLAT_BLOCK_MASK l)) = unat x - unat x mod blk l"
proof -
  let ?n = "XLAT_ADDR_SHIFT l"
  have "x AND NOT (mask ?n) = push_bit ?n (drop_bit ?n x)"
    by (rule bit_eqI) (auto simp: bit_simps)
  also have "\<dots> = x - take_bit ?n x"
    using bits_ident [of ?n x] by (simp add: algebra_simps)
  finally have "x AND NOT (XLAT_BLOCK_MASK l) = x - (x AND XLAT_BLOCK_MASK l)"
    by (simp add: block_mask take_bit_eq_mask)
  then show ?thesis
    by (simp add: unat_sub_nowrap unat_and_block_mask)
qed

lemma unat_drop_shift:
  fixes x :: u64
  shows "unat (drop_bit (XLAT_ADDR_SHIFT l) x) = unat x div blk l"
proof -
  have "XLAT_BLOCK_SIZE l = 2 ^ XLAT_ADDR_SHIFT l"
    by (simp add: XLAT_BLOCK_SIZE_def push_bit_eq_mult)
  then have "drop_bit (XLAT_ADDR_SHIFT l) x = x div XLAT_BLOCK_SIZE l"
    by (simp add: drop_bit_eq_div)
  then show ?thesis
    by (simp add: unat_div)
qed

lemma unat_table_idx: "XLAT_TABLE_IDX va l = unat va div blk l mod 512"
proof -
  have m: "(0x1FF :: u64) = mask 9"
    by (simp add: mask_eq_exp_minus_1)
  show ?thesis
    unfolding XLAT_TABLE_IDX_def m take_bit_eq_mask [symmetric]
    by (simp add: take_bit_eq_mod unat_mod unat_drop_shift)
qed

section \<open>Bits of descriptors\<close>

lemma low_bits_iff: "(x :: u64) AND 3 = take_bit 2 x"
proof -
  have "(3 :: u64) = mask 2"
    by (simp add: mask_eq_exp_minus_1)
  then show ?thesis
    by (simp add: take_bit_eq_mask)
qed

lemma addr_mask_bits: "TABLE_ADDR_MASK = push_bit 12 (mask 36)"
  by (simp add: TABLE_ADDR_MASK_def mask_eq_exp_minus_1 push_bit_eq_mult)

lemma bit_addr_mask: "bit TABLE_ADDR_MASK n \<longleftrightarrow> 12 \<le> n \<and> n < 48"
  by (auto simp: addr_mask_bits bit_simps)

text \<open>An address that a descriptor can hold.\<close>

definition page_addr :: "u64 \<Rightarrow> bool" where
  "page_addr x \<longleftrightarrow> 4096 dvd unat x \<and> unat x < 2 ^ 48"

lemma page_addr_bit: "page_addr x \<Longrightarrow> bit x n \<Longrightarrow> 12 \<le> n \<and> n < 48"
proof -
  assume p: "page_addr x" and b: "bit x n"
  have z: "take_bit 12 x = 0"
    using p and_block_mask_0 [of x 3] by (simp add: page_addr_def block_mask take_bit_eq_mask)
  have "\<not> n < 12"
    using z b bit_take_bit_iff [of 12 x n] by auto
  moreover have "take_bit 48 x = x"
    using p by (subst unat_eq_iff) (simp add: page_addr_def unsigned_take_bit_eq take_bit_nat_eq_self)
  then have "n < 48"
    using b bit_take_bit_iff [of 48 x n] by auto
  ultimately show ?thesis
    by simp
qed

lemma table_desc_bits:
  assumes "page_addr x"
  shows "(TABLE_DESC OR x) AND DESC_MASK = TABLE_DESC" "(TABLE_DESC OR x) AND TABLE_ADDR_MASK = x"
proof -
  have three: "bit (3 :: u64) n \<longleftrightarrow> n < 2" for n
  proof -
    have "bit (mask 2 :: u64) n \<longleftrightarrow> n < 2"
      by (auto simp: bit_mask_iff)
    moreover have "mask 2 = (3 :: u64)"
      by (simp add: mask_eq_exp_minus_1)
    ultimately show ?thesis
      by metis
  qed
  show "(TABLE_DESC OR x) AND DESC_MASK = TABLE_DESC"
    by (rule bit_eqI) (use page_addr_bit [OF assms] in \<open>fastforce simp: TABLE_DESC_def DESC_MASK_def bit_simps three\<close>)
  show "(TABLE_DESC OR x) AND TABLE_ADDR_MASK = x"
  proof (rule bit_eqI)
    fix n
    show "bit ((TABLE_DESC OR x) AND TABLE_ADDR_MASK) n = bit x n"
      using page_addr_bit [OF assms, of n] three [of n] by (auto simp: TABLE_DESC_def bit_and_iff bit_or_iff bit_addr_mask)
  qed
qed

text \<open>The bits that \<open>xlat_desc\<close> adds to the physical address.\<close>

definition attr_bits :: "xlat_regime \<Rightarrow> u32 \<Rightarrow> nat \<Rightarrow> u64 option" where
  "attr_bits regime a level = do {
     mem \<leftarrow> desc_mem_type regime a;
     Some ((if level = 3 then PAGE_DESC else BLOCK_DESC) OR (LOWER_ATTRS ACCESS_FLAG OR
       ((if a AND MT_NS \<noteq> 0 then LOWER_ATTRS NS else 0) OR
        ((if a AND MT_RW \<noteq> 0 then LOWER_ATTRS AP_RW else LOWER_ATTRS AP_RO) OR
         ((if regime = EL1_EL0_REGIME \<and> a AND MT_USER \<noteq> 0 then LOWER_ATTRS AP_ACCESS_UNPRIVILEGED
           else LOWER_ATTRS AP_NO_ACCESS_UNPRIVILEGED) OR mem)))))
   }"

lemma xlat_desc_alt:
  "xlat_desc ctx a pa l = do { ensure (blk l dvd unat pa); m \<leftarrow> attr_bits (xlat_regime ctx) a l; Some (pa OR m) }"
  by (cases "desc_mem_type (xlat_regime ctx) a")
     (simp_all add: xlat_desc_def attr_bits_def and_block_mask_0 XLAT_TABLE_LEVEL_MAX_def Let_def or.assoc)

lemmas desc_consts = XN_def UXN_def PXN_def UPPER_ATTRS_def LOWER_ATTRS_def ACCESS_FLAG_def OSH_def ISH_def AP_RO_def AP_RW_def
  AP_ACCESS_UNPRIVILEGED_def AP_NO_ACCESS_UNPRIVILEGED_def NS_def ATTR_NON_CACHEABLE_INDEX_def ATTR_DEVICE_INDEX_def
  ATTR_IWBWA_OWBWA_NTR_INDEX_def PAGE_DESC_def BLOCK_DESC_def TABLE_DESC_def INVALID_DESC_def DESC_MASK_def TABLE_ADDR_MASK_def
  ATTR_INDEX_MASK_def ATTR_INDEX_SHIFT_def AP2_SHIFT_def AP1_SHIFT_def NS_SHIFT_def

lemma attr_bits_masks:
  assumes "attr_bits regime a l = Some m"
  shows "m AND TABLE_ADDR_MASK = 0" "m AND DESC_MASK = (if l = 3 then PAGE_DESC else BLOCK_DESC)"
  using assms by (cases regime; auto simp: attr_bits_def desc_mem_type_def desc_consts bind_eq_Some_conv split: if_splits)+

lemma page_addr_masks:
  assumes "page_addr x"
  shows "x AND TABLE_ADDR_MASK = x" "x AND DESC_MASK = 0" "drop_bit 2 x AND 3 = 0" "drop_bit 5 x AND 1 = 0" "drop_bit 6 x AND 1 = 0"
    "drop_bit 7 x AND 1 = 0" "x AND UPPER_ATTRS y = 0"
proof -
  have low: "\<not> bit x n" if "n < 12 \<or> 48 \<le> n" for n
    using page_addr_bit [OF assms, of n] that by auto
  have small: "drop_bit k x AND mask n = 0" if "k + n \<le> 12" for k n
    by (rule bit_eqI) (use low that in \<open>auto simp: bit_simps\<close>)
  show "x AND TABLE_ADDR_MASK = x"
  proof (rule bit_eqI)
    show "bit (x AND TABLE_ADDR_MASK) n = bit x n" for n
      using page_addr_bit [OF assms, of n] by (auto simp: bit_and_iff bit_addr_mask)
  qed
  show "x AND DESC_MASK = 0"
    using small [of 0 2] by (simp add: DESC_MASK_def mask_eq_exp_minus_1)
  show "drop_bit 2 x AND 3 = 0" "drop_bit 5 x AND 1 = 0" "drop_bit 6 x AND 1 = 0" "drop_bit 7 x AND 1 = 0"
    using small [of 2 2] small [of 5 1] small [of 6 1] small [of 7 1] by (simp_all add: mask_eq_exp_minus_1)
  show "x AND UPPER_ATTRS y = 0"
    by (rule bit_eqI) (use low in \<open>auto simp: UPPER_ATTRS_def bit_simps\<close>)
qed

lemma xlat_desc_masks:
  assumes "xlat_desc ctx a pa l = Some d" "page_addr pa"
  shows "d AND TABLE_ADDR_MASK = pa" "d AND DESC_MASK = (if l = 3 then PAGE_DESC else BLOCK_DESC)"
  using assms attr_bits_masks [of "xlat_regime ctx" a l] page_addr_masks [OF assms(2)]
  by (auto simp: xlat_desc_alt bind_eq_Some_conv ensure_def bit.conj_disj_distrib2 split: if_splits)

text \<open>The attributes that a mapping gives: writable and device memory is never executable.\<close>

definition effective_attr :: "xlat_regime \<Rightarrow> u32 \<Rightarrow> u32" where
  "effective_attr regime a =
     MT_TYPE a OR (if a AND MT_RW \<noteq> 0 then MT_RW else 0) OR (if regime = EL1_EL0_REGIME \<and> a AND MT_USER \<noteq> 0 then MT_USER else 0) OR
     (if a AND MT_NS \<noteq> 0 then MT_NS else 0) OR
     (if MT_TYPE a = MT_DEVICE \<or> a AND MT_RW \<noteq> 0 \<or> a AND MT_EXECUTE_NEVER \<noteq> 0 then MT_EXECUTE_NEVER else 0)"

lemmas mt_consts = MT_DEVICE_def MT_NON_CACHEABLE_def MT_MEMORY_def MT_RW_def MT_NS_def MT_EXECUTE_NEVER_def MT_USER_def

lemma attr_bits_fields:
  assumes "attr_bits regime a l = Some m"
  shows "MT_TYPE a = MT_DEVICE \<or> MT_TYPE a = MT_MEMORY \<or> MT_TYPE a = MT_NON_CACHEABLE"
    "drop_bit 2 m AND 3 = (if MT_TYPE a = MT_DEVICE then 1 else if MT_TYPE a = MT_MEMORY then 0 else 2)"
    "drop_bit 7 m AND 1 = (if a AND MT_RW \<noteq> 0 then 0 else 1)"
    "drop_bit 6 m AND 1 = (if regime = EL1_EL0_REGIME \<and> a AND MT_USER \<noteq> 0 then 1 else 0)"
    "drop_bit 5 m AND 1 = (if a AND MT_NS \<noteq> 0 then 1 else 0)"
    "m AND xlat_arch_regime_get_xn_desc regime =
       (if MT_TYPE a = MT_DEVICE \<or> a AND MT_RW \<noteq> 0 \<or> a AND MT_EXECUTE_NEVER \<noteq> 0 then xlat_arch_regime_get_xn_desc regime else 0)"
  using assms by (cases regime; auto simp: attr_bits_def desc_mem_type_def desc_consts bind_eq_Some_conv split: if_splits)+

lemma xn_desc_nonzero: "xlat_arch_regime_get_xn_desc regime \<noteq> 0"
  by (cases regime) (simp_all add: desc_consts)

lemmas field_defs = ATTR_INDEX_SHIFT_def ATTR_INDEX_MASK_def AP2_SHIFT_def AP1_SHIFT_def NS_SHIFT_def
  ATTR_NON_CACHEABLE_INDEX_def ATTR_DEVICE_INDEX_def ATTR_IWBWA_OWBWA_NTR_INDEX_def

lemma attr_bits_attributes:
  assumes "attr_bits regime a l = Some m"
  shows "desc_attributes regime m = Some (effective_attr regime a)"
  using attr_bits_fields(1) [OF assms] xn_desc_nonzero [of regime] not_sym [OF xn_desc_nonzero [of regime]]
  by (elim disjE) (simp_all add: desc_attributes_def effective_attr_def field_defs attr_bits_fields [OF assms] mt_consts Let_def)

lemma desc_attributes_or:
  assumes "page_addr pa"
  shows "desc_attributes regime (pa OR m) = desc_attributes regime m"
proof -
  have "(pa OR m) AND xlat_arch_regime_get_xn_desc regime = m AND xlat_arch_regime_get_xn_desc regime"
    using page_addr_masks(7) [OF assms] by (cases regime) (simp_all add: bit.conj_disj_distrib bit.conj_disj_distrib2)
  moreover have "drop_bit 2 (pa OR m) AND 3 = drop_bit 2 m AND 3" "drop_bit 7 (pa OR m) AND 1 = drop_bit 7 m AND 1"
    "drop_bit 6 (pa OR m) AND 1 = drop_bit 6 m AND 1" "drop_bit 5 (pa OR m) AND 1 = drop_bit 5 m AND 1"
    using page_addr_masks [OF assms] by (simp_all add: drop_bit_or bit.conj_disj_distrib2)
  ultimately show ?thesis
    by (simp only: desc_attributes_def field_defs Let_def)
qed

lemma xlat_desc_attributes:
  assumes "xlat_desc ctx a pa l = Some d" "page_addr pa"
  shows "desc_attributes (xlat_regime ctx) d = Some (effective_attr (xlat_regime ctx) a)"
  using assms attr_bits_attributes [of "xlat_regime ctx" a l] desc_attributes_or [OF assms(2)]
  by (auto simp: xlat_desc_alt bind_eq_Some_conv)

end
