(* ===== verification/Xlat_tree.thy ===== *)
theory Xlat_tree
  imports Xlat_desc
begin

text \<open>
  Translation tables as trees: a tree has one node per table, \<open>rep\<close> relates a tree to the tables in
  memory, \<open>look\<close> is the translation it gives. The invariant \<open>tinv\<close> says that the tables below a table
  form trees that share nothing with each other or with the pool of free tables; \<open>extends\<close> is what an
  operation on one table may change.
\<close>

section \<open>Trees\<close>

datatype ptree = Unmapped | Leaf u64 | Node nat "ptree list"

fun rep :: "xlat_ctx \<Rightarrow> nat \<Rightarrow> ptree \<Rightarrow> u64 \<Rightarrow> bool" where
  "rep ctx l Unmapped d \<longleftrightarrow> d = INVALID_DESC"
| "rep ctx l (Leaf e) d \<longleftrightarrow> d = e \<and> e AND DESC_MASK = (if l = 3 then PAGE_DESC else BLOCK_DESC)"
| "rep ctx l (Node k ts) d \<longleftrightarrow>
     l < 3 \<and> k < length (tables ctx) \<and> d = TABLE_DESC OR subtable_addr ctx k \<and> list_all2 (rep ctx (Suc l)) ts (tables ctx ! k)"

fun tabs :: "ptree \<Rightarrow> nat list" where
  "tabs (Node k ts) = k # concat (map tabs ts)"
| "tabs t = []"

definition tabss :: "ptree list \<Rightarrow> nat list" where
  "tabss ts = concat (map tabs ts)"

lemma size_nth_less [termination_simp]: "i < length ts \<Longrightarrow> size (ts ! i) < Suc (size_list size ts)"
  using size_list_estimation' [of "ts ! i" ts "size (ts ! i)" size] by (simp add: less_Suc_eq_le)

fun look :: "nat \<Rightarrow> ptree \<Rightarrow> nat \<Rightarrow> (u64 \<times> nat) option" where
  "look l Unmapped v = None"
| "look l (Leaf d) v = Some (d, l)"
| "look l (Node k ts) v =
     (if v div blk (Suc l) mod 512 < length ts then look (Suc l) (ts ! (v div blk (Suc l) mod 512)) v else None)"

lemma tabs_Node [simp]: "tabs (Node k ts) = k # tabss ts"
  by (simp add: tabss_def)

declare tabs.simps(1) [simp del]

lemma in_tabss: "k \<in> set (tabss ts) \<longleftrightarrow> (\<exists>i < length ts. k \<in> set (tabs (ts ! i)))"
  by (auto simp: tabss_def) (metis in_set_conv_nth)

lemma tabss_split:
  assumes "i < length ts"
  obtains A B where "tabss ts = A @ tabs (ts ! i) @ B" "\<And>t. tabss (ts[i := t]) = A @ tabs t @ B"
proof
  show "tabss ts = tabss (take i ts) @ tabs (ts ! i) @ tabss (drop (Suc i) ts)"
    by (subst (1) id_take_nth_drop [OF assms]) (simp add: tabss_def)
  show "tabss (ts[i := t]) = tabss (take i ts) @ tabs t @ tabss (drop (Suc i) ts)" for t
    by (subst upd_conv_take_nth_drop [OF assms]) (simp add: tabss_def)
qed

lemma rep_frame:
  assumes "rep ctx l t d" "tables_addr ctx' = tables_addr ctx" "length (tables ctx') = length (tables ctx)"
    "\<And>k. k \<in> set (tabs t) \<Longrightarrow> tables ctx' ! k = tables ctx ! k"
  shows "rep ctx' l t d"
  using assms
proof (induction ctx l t d rule: rep.induct)
  case (3 ctx l k ts d)
  have "list_all2 (rep ctx' (Suc l)) ts (tables ctx ! k)"
    using 3(2-) by (auto simp: in_tabss list_all2_conv_all_nth intro!: 3(1))
  then show ?case
    using 3(2-) by (simp add: subtable_addr_def)
qed (auto split: if_splits)

section \<open>The state of the tables\<close>

fun content :: "xlat_ctx \<Rightarrow> table_ref \<Rightarrow> u64 list" where
  "content ctx Base = base_table ctx"
| "content ctx (Subtable k) = tables ctx ! k"

fun own :: "table_ref \<Rightarrow> nat list" where
  "own Base = []"
| "own (Subtable k) = [k]"

definition free :: "bool \<Rightarrow> xlat_ctx \<Rightarrow> nat set" where
  "free dyn ctx = {k. k < length (tables ctx) \<and> (if dyn then tables_mapped_regions ctx ! k = 0 else next_table ctx \<le> k)}"

definition wf_ctx :: "bool \<Rightarrow> xlat_ctx \<Rightarrow> bool" where
  "wf_ctx dyn ctx \<longleftrightarrow>
     4096 dvd unat (tables_addr ctx) \<and> unat (tables_addr ctx) + 4096 * length (tables ctx) \<le> 2 ^ 48 \<and>
     (\<forall>t \<in> set (tables ctx). length t = 512) \<and>
     (dyn \<longrightarrow> length (tables_mapped_regions ctx) = length (tables ctx) \<and> (\<forall>c \<in> set (tables_mapped_regions ctx). 0 \<le> c))"

definition tinv :: "bool \<Rightarrow> xlat_ctx \<Rightarrow> table_ref \<Rightarrow> nat \<Rightarrow> ptree list \<Rightarrow> bool" where
  "tinv dyn ctx ref l ts \<longleftrightarrow>
     wf_ctx dyn ctx \<and> l \<le> 3 \<and> list_all2 (rep ctx l) ts (content ctx ref) \<and>
     distinct (own ref @ tabss ts) \<and> set (own ref @ tabss ts) \<inter> free dyn ctx = {} \<and>
     set (own ref) \<subseteq> {..<length (tables ctx)} \<and>
     (\<forall>k \<in> free dyn ctx. tables ctx ! k = replicate 512 INVALID_DESC)"

definition strip :: "xlat_ctx \<Rightarrow> xlat_ctx" where
  "strip ctx = ctx\<lparr>tables := [], tables_mapped_regions := [], next_table := 0, base_table := []\<rparr>"

definition extends :: "bool \<Rightarrow> xlat_ctx \<Rightarrow> table_ref \<Rightarrow> ptree list \<Rightarrow> xlat_ctx \<Rightarrow> ptree list \<Rightarrow> bool" where
  "extends dyn ctx ref ts ctx' ts' \<longleftrightarrow>
     strip ctx' = strip ctx \<and> length (tables ctx') = length (tables ctx) \<and> length ts' = length ts \<and>
     length (base_table ctx') = length (base_table ctx) \<and>
     set (tabss ts) \<subseteq> set (tabss ts') \<and> set (tabss ts') \<subseteq> set (tabss ts) \<union> free dyn ctx \<and> free dyn ctx' \<subseteq> free dyn ctx \<and>
     (\<forall>k. k \<notin> set (own ref @ tabss ts') \<longrightarrow> tables ctx' ! k = tables ctx ! k) \<and>
     (ref \<noteq> Base \<longrightarrow> base_table ctx' = base_table ctx)"

lemma strip_fields:
  assumes "strip ctx' = strip ctx"
  shows "tables_addr ctx' = tables_addr ctx" "base_level ctx' = base_level ctx" "xlat_regime ctx' = xlat_regime ctx"
    "mmap ctx' = mmap ctx" "va_max_address ctx' = va_max_address ctx" "pa_max_address ctx' = pa_max_address ctx"
    "max_va ctx' = max_va ctx" "max_pa ctx' = max_pa ctx" "mmap_num ctx' = mmap_num ctx" "initialized ctx' = initialized ctx"
  using assms by (cases ctx; cases ctx'; simp add: strip_def)+

lemma tinv_length: "tinv dyn ctx ref l ts \<Longrightarrow> length (content ctx ref) = length ts"
  by (auto simp: tinv_def dest: list_all2_lengthD)

lemma inv_rep: "tinv dyn ctx ref l ts \<Longrightarrow> j < length ts \<Longrightarrow> rep ctx l (ts ! j) (content ctx ref ! j)"
  by (simp add: tinv_def list_all2_conv_all_nth)

lemma tabs_nth_subset: "j < length ts \<Longrightarrow> set (tabs (ts ! j)) \<subseteq> set (tabss ts)"
  by (auto simp: in_tabss)

lemma extends_refl: "extends dyn ctx ref ts ctx ts"
  by (simp add: extends_def)

lemma extends_trans: "extends dyn ctx ref ts ctx1 ts1 \<Longrightarrow> extends dyn ctx1 ref ts1 ctx2 ts2 \<Longrightarrow> extends dyn ctx ref ts ctx2 ts2"
  unfolding extends_def by auto

lemma rep_tabs_bound: "rep ctx l t d \<Longrightarrow> k \<in> set (tabs t) \<Longrightarrow> k < length (tables ctx)"
proof (induction ctx l t d rule: rep.induct)
  case (3 ctx l k' ts d)
  show ?case
  proof (cases "k = k'")
    case False
    then obtain i where i: "i < length ts" "k \<in> set (tabs (ts ! i))"
      using 3(3) by (auto simp: in_tabss)
    have "rep ctx (Suc l) (ts ! i) (tables ctx ! k' ! i)"
      using 3(2) i(1) by (simp add: list_all2_conv_all_nth)
    then show ?thesis
      using 3(1) [of "ts ! i" "tables ctx ! k' ! i"] 3(2) i by (auto simp: list_all2_conv_all_nth)
  qed (use 3 in simp)
qed auto

text \<open>An entry is written, and possibly a free table taken for it.\<close>

lemma inv_put:
  assumes i: "tinv dyn ctx ref l ts" "idx < length ts" "tabs (ts ! idx) = []"
    and c: "strip ctx' = strip ctx" "length (tables ctx') = length (tables ctx)" "length (base_table ctx') = length (base_table ctx)"
      "content ctx' ref = (content ctx ref)[idx := d]"
      "\<And>k. k \<notin> set (own ref) \<Longrightarrow> tables ctx' ! k = tables ctx ! k" "ref \<noteq> Base \<Longrightarrow> base_table ctx' = base_table ctx"
    and w: "wf_ctx dyn ctx'" "free dyn ctx' = free dyn ctx - set (tabs t)" "set (tabs t) \<subseteq> free dyn ctx" "distinct (tabs t)" "rep ctx' l t d"
  shows "tinv dyn ctx' ref l (ts[idx := t])" "extends dyn ctx ref ts ctx' (ts[idx := t])"
proof -
  obtain A B where s: "tabss ts = A @ tabs (ts ! idx) @ B" "\<And>t. tabss (ts[idx := t]) = A @ tabs t @ B"
    using tabss_split [OF i(2)] by metis
  have used: "set (own ref @ A @ B) \<inter> free dyn ctx = {}" "distinct (own ref @ A @ B)"
    using i by (auto simp: tinv_def s)
  have reps: "list_all2 (rep ctx l) ts (content ctx ref)"
    using i by (simp add: tinv_def)
  have same: "rep ctx' l (ts ! j) (content ctx ref ! j)" if "j < length ts" for j
  proof (rule rep_frame)
    show "rep ctx l (ts ! j) (content ctx ref ! j)"
      using reps that by (simp add: list_all2_conv_all_nth)
    show "tables ctx' ! k = tables ctx ! k" if "k \<in> set (tabs (ts ! j))" for k
      using that tabs_nth_subset [OF \<open>j < length ts\<close>] i(1) by (intro c(5)) (auto simp: tinv_def)
  qed (use c strip_fields [OF c(1)] in auto)
  have "list_all2 (rep ctx' l) (ts[idx := t]) (content ctx' ref)"
    using same w(5) tinv_length [OF i(1)] i(2) by (auto simp: list_all2_conv_all_nth nth_list_update c(4))
  moreover have "\<forall>k \<in> free dyn ctx'. tables ctx' ! k = replicate 512 INVALID_DESC"
  proof
    fix k assume "k \<in> free dyn ctx'"
    then have "k \<in> free dyn ctx" "k \<notin> set (own ref)"
      using w(2) used(1) by auto
    then show "tables ctx' ! k = replicate 512 INVALID_DESC"
      using i(1) c(5) by (simp add: tinv_def)
  qed
  ultimately show "tinv dyn ctx' ref l (ts[idx := t])"
    using i(1) used w c(2) by (auto simp: tinv_def s)
  show "extends dyn ctx ref ts ctx' (ts[idx := t])"
    using c w i(3) by (auto simp: extends_def s)
qed

text \<open>A subtable of a table.\<close>

lemma inv_child:
  assumes "tinv dyn ctx ref l ts" "idx < length ts" "ts ! idx = Node k us"
  shows "tinv dyn ctx (Subtable k) (Suc l) us"
proof -
  obtain A B where s: "tabss ts = A @ tabs (ts ! idx) @ B" "\<And>t. tabss (ts[idx := t]) = A @ tabs t @ B"
    using tabss_split [OF assms(2)] by metis
  show ?thesis
    using inv_rep [OF assms(1,2)] assms by (auto simp: tinv_def s)
qed

lemma inv_parent:
  assumes i: "tinv dyn ctx ref l ts" "idx < length ts" "ts ! idx = Node k us"
    and e: "extends dyn ctx (Subtable k) us ctx' us'" and i': "tinv dyn ctx' (Subtable k) (Suc l) us'"
  shows "tinv dyn ctx' ref l (ts[idx := Node k us'])" "extends dyn ctx ref ts ctx' (ts[idx := Node k us'])"
proof -
  obtain A B where s: "tabss ts = A @ tabs (ts ! idx) @ B" "\<And>t. tabss (ts[idx := t]) = A @ tabs t @ B"
    using tabss_split [OF i(2)] by metis
  have reps: "list_all2 (rep ctx l) ts (content ctx ref)"
    using i by (simp add: tinv_def)
  have used: "set (own ref @ A @ k # tabss us @ B) \<inter> free dyn ctx = {}" "distinct (own ref @ A @ k # tabss us @ B)"
    using i by (auto simp: tinv_def s)
  have out: "set (own ref @ A @ B) \<inter> set (k # tabss us') = {}"
    using used e by (auto simp: extends_def)
  have other: "set (tabs (ts ! j)) \<inter> set (k # tabss us') = {}" if "j < length ts" "j \<noteq> idx" for j
  proof -
    have "set (tabs (ts ! j)) \<subseteq> set (tabss (ts[idx := Unmapped]))"
      using tabs_nth_subset [of j "ts[idx := Unmapped]"] that by simp
    then show ?thesis
      using out by (auto simp: s)
  qed
  have addr: "tables_addr ctx' = tables_addr ctx"
    using e strip_fields(1) by (metis extends_def)
  have cont: "content ctx' ref = content ctx ref"
  proof (cases ref)
    case Base
    then show ?thesis
      using e by (simp add: extends_def)
  next
    case (Subtable m)
    then have "m \<notin> set (own (Subtable k) @ tabss us')"
      using out by auto
    then show ?thesis
      using e Subtable by (simp add: extends_def)
  qed
  have same: "rep ctx' l (ts ! j) (content ctx ref ! j)" if "j < length ts" "j \<noteq> idx" for j
  proof (rule rep_frame)
    show "rep ctx l (ts ! j) (content ctx ref ! j)"
      using reps that by (simp add: list_all2_conv_all_nth)
    show "tables ctx' ! m = tables ctx ! m" if "m \<in> set (tabs (ts ! j))" for m
      using that other [OF \<open>j < length ts\<close> \<open>j \<noteq> idx\<close>] e by (auto simp: extends_def)
  qed (use e addr in \<open>auto simp: extends_def\<close>)
  have "rep ctx l (Node k us) (content ctx ref ! idx)"
    using reps i(2,3) by (auto simp: list_all2_conv_all_nth)
  then have "rep ctx' l (Node k us') (content ctx ref ! idx)"
    using i' e addr by (auto simp: tinv_def extends_def subtable_addr_def)
  then have "list_all2 (rep ctx' l) (ts[idx := Node k us']) (content ctx' ref)"
    using same tinv_length [OF i(1)] i(2) by (auto simp: list_all2_conv_all_nth nth_list_update cont)
  moreover have "set (own ref @ A @ B) \<inter> free dyn ctx' = {}"
    using used e by (auto simp: extends_def)
  ultimately show "tinv dyn ctx' ref l (ts[idx := Node k us'])"
    using i(1) i' used out e by (auto simp: tinv_def s extends_def)
  show "extends dyn ctx ref ts ctx' (ts[idx := Node k us'])"
    using e i(3) by (auto simp: extends_def s)
qed

end
