(* ===== verification/Xlat_map.thy ===== *)
theory Xlat_map
  imports Xlat_tree
begin

text \<open>
  The recursion of \<open>xlat_tables_map_region\<close> on trees: what it adds to the translation, what it leaves
  alone, and the address it returns. \<open>yields tot m P\<close> says that the result of \<open>m\<close> satisfies \<open>P\<close>, and for
  \<open>tot\<close> also that there is one.
\<close>

section \<open>Results\<close>

definition yields :: "bool \<Rightarrow> 'a option \<Rightarrow> ('a \<Rightarrow> bool) \<Rightarrow> bool" where
  "yields tot m P \<longleftrightarrow> (case m of None \<Rightarrow> \<not> tot | Some r \<Rightarrow> P r)"

lemma yields_simps [simp]: "yields tot (Some r) P \<longleftrightarrow> P r" "yields tot None P \<longleftrightarrow> \<not> tot"
  by (simp_all add: yields_def)

lemma yields_bind: "yields tot m (\<lambda>r. yields tot (f r) Q) \<Longrightarrow> yields tot (m \<bind> f) Q"
  by (cases m) simp_all

lemma yields_mono: "yields tot m P \<Longrightarrow> (\<And>r. P r \<Longrightarrow> Q r) \<Longrightarrow> yields tot m Q"
  by (cases m) simp_all

section \<open>Taking tables\<close>

definition claim :: "bool \<Rightarrow> nat \<Rightarrow> xlat_ctx \<Rightarrow> xlat_ctx" where
  "claim dyn k ctx =
     (if dyn then ctx\<lparr>tables_mapped_regions := (tables_mapped_regions ctx)[k := tables_mapped_regions ctx ! k + 1]\<rparr> else ctx)"

lemma claim_simps [simp]:
  "tables (claim dyn k ctx) = tables ctx" "base_table (claim dyn k ctx) = base_table ctx" "tables_addr (claim dyn k ctx) = tables_addr ctx"
  "strip (claim dyn k ctx) = strip ctx" "content (claim dyn k ctx) ref = content ctx ref" "subtable_addr (claim dyn k ctx) j = subtable_addr ctx j"
  by (cases ref; simp add: claim_def strip_def subtable_addr_def)+

lemma inc_claim:
  assumes "wf_ctx True ctx" "k < length (tables ctx)"
  shows "xlat_table_inc_regions_count ctx (Subtable k) = Some (claim True k ctx)"
  using assms by (simp add: xlat_table_inc_regions_count_def xlat_table_add_regions_count_def claim_def wf_ctx_def aget_Some)

lemma wf_claim: "wf_ctx dyn ctx \<Longrightarrow> k < length (tables ctx) \<Longrightarrow> wf_ctx dyn (claim dyn k ctx)"
  by (auto simp: wf_ctx_def claim_def dest!: set_update_subset_insert [THEN subsetD])

lemma free_claim:
  assumes "wf_ctx dyn ctx" "k < length (tables ctx)"
  shows "free dyn (claim dyn k ctx) = (if dyn then free dyn ctx - {k} else free dyn ctx)"
proof (cases dyn)
  case True
  then have "0 \<le> tables_mapped_regions ctx ! k" "length (tables_mapped_regions ctx) = length (tables ctx)"
    using assms by (auto simp: wf_ctx_def)
  then show ?thesis
    using True assms(2) by (auto simp: free_def claim_def nth_list_update split: if_splits)
qed (simp add: claim_def)

lemma rep_claim [simp]: "rep (claim dyn k ctx) l t d = rep ctx l t d"
  using rep_frame [of ctx l t d "claim dyn k ctx"] rep_frame [of "claim dyn k ctx" l t d ctx] by auto

lemma inv_claim:
  assumes "tinv dyn ctx ref l ts" "k \<in> set (tabss ts)" "k < length (tables ctx)"
  shows "tinv dyn (claim dyn k ctx) ref l ts" "extends dyn ctx ref ts (claim dyn k ctx) ts"
  using assms free_claim [of dyn ctx k] wf_claim [of dyn ctx k]
  by (auto simp: tinv_def extends_def list_all2_conv_all_nth split: if_splits)

lemma put_entry_Some:
  assumes "tinv dyn ctx ref l ts" "idx < length ts"
  shows "\<exists>ctx'. put_entry ctx ref idx d = Some ctx'"
proof (cases ref)
  case Base
  then show ?thesis
    using assms tinv_length [OF assms(1)] by (simp add: aset_Some)
next
  case (Subtable k)
  then show ?thesis
    using assms tinv_length [OF assms(1)] by (auto simp: aset_Some aget_Some tinv_def)
qed

lemma put_entry_fields:
  assumes "put_entry ctx ref idx d = Some ctx'"
  shows "strip ctx' = strip ctx" "length (tables ctx') = length (tables ctx)" "length (base_table ctx') = length (base_table ctx)"
    "content ctx' ref = (content ctx ref)[idx := d]" "k \<notin> set (own ref) \<Longrightarrow> tables ctx' ! k = tables ctx ! k"
    "ref \<noteq> Base \<Longrightarrow> base_table ctx' = base_table ctx"
    "tables_mapped_regions ctx' = tables_mapped_regions ctx" "next_table ctx' = next_table ctx" "tables_addr ctx' = tables_addr ctx"
  using assms by (cases ref; auto simp: bind_eq_Some_conv strip_def)+

lemma put_entry_free: "put_entry ctx ref idx d = Some ctx' \<Longrightarrow> free dyn ctx' = free dyn ctx"
  by (simp add: free_def put_entry_fields)

lemma put_entry_wf: "put_entry ctx ref idx d = Some ctx' \<Longrightarrow> wf_ctx dyn ctx \<Longrightarrow> wf_ctx dyn ctx'"
  by (cases ref) (auto simp: bind_eq_Some_conv wf_ctx_def dest!: set_update_subset_insert [THEN subsetD])

lemma inv_leaf:
  assumes "tinv dyn ctx ref l ts" "idx < length ts" "tabs (ts ! idx) = []" "put_entry ctx ref idx d = Some ctx'"
    "d AND DESC_MASK = (if l = 3 then PAGE_DESC else BLOCK_DESC)"
  shows "tinv dyn ctx' ref l (ts[idx := Leaf d])" "extends dyn ctx ref ts ctx' (ts[idx := Leaf d])"
  using inv_put [OF assms(1-3), of ctx' d "Leaf d"] assms put_entry_fields [OF assms(4)] put_entry_free [OF assms(4)] put_entry_wf [OF assms(4)]
  by (auto simp: tinv_def)

lemma get_empty_Some:
  assumes "xlat_table_get_empty dyn ctx = Some (Some k, ctx1)" "wf_ctx dyn ctx"
  shows "k \<in> free dyn ctx" "free dyn (claim dyn k ctx1) = free dyn ctx - {k}" "wf_ctx dyn ctx1" "strip ctx1 = strip ctx"
    "tables ctx1 = tables ctx" "base_table ctx1 = base_table ctx" "k < length (tables ctx)" "tables_addr ctx1 = tables_addr ctx"
proof -
  have k: "k \<in> free dyn ctx" "(dyn \<and> ctx1 = ctx) \<or> (\<not> dyn \<and> ctx1 = ctx\<lparr>next_table := k + 1\<rparr> \<and> next_table ctx = k)"
    using assms by (auto simp: xlat_table_get_empty_def free_def find_Some_iff split: if_splits)
  have s: "strip ctx1 = strip ctx \<and> tables ctx1 = tables ctx \<and> base_table ctx1 = base_table ctx \<and> tables_addr ctx1 = tables_addr ctx \<and>
    tables_mapped_regions ctx1 = tables_mapped_regions ctx"
    using k(2) by (auto simp: strip_def)
  then show "k \<in> free dyn ctx" "wf_ctx dyn ctx1" "strip ctx1 = strip ctx" "tables ctx1 = tables ctx" "base_table ctx1 = base_table ctx"
    "k < length (tables ctx)" "tables_addr ctx1 = tables_addr ctx"
    using assms(2) k(1) by (simp_all add: wf_ctx_def free_def)
  show "free dyn (claim dyn k ctx1) = free dyn ctx - {k}"
  proof (cases dyn)
    case True
    then show ?thesis
      using k free_claim [of dyn ctx k] assms(2) by (simp add: free_def)
  next
    case False
    then show ?thesis
      using k(2) by (auto simp: free_def claim_def)
  qed
qed

lemma tabss_unmapped [simp]: "tabss (replicate n Unmapped) = []"
  by (induction n) (simp_all add: tabss_def)

lemma inv_new:
  assumes i: "tinv dyn ctx ref l ts" "l < 3" "idx < length ts" "ts ! idx = Unmapped"
    and g: "xlat_table_get_empty dyn ctx = Some (Some k, ctx1)" and p: "put_entry ctx1 ref idx (TABLE_DESC OR subtable_addr ctx1 k) = Some ctx2"
  shows "tinv dyn (claim dyn k ctx2) ref l (ts[idx := Node k (replicate 512 Unmapped)])" (is "tinv _ _ _ _ ?ts")
    "extends dyn ctx ref ts (claim dyn k ctx2) (ts[idx := Node k (replicate 512 Unmapped)])"
proof -
  have w: "wf_ctx dyn ctx" "set (own ref) \<inter> free dyn ctx = {}" "\<forall>k \<in> free dyn ctx. tables ctx ! k = replicate 512 INVALID_DESC"
    using i(1) by (auto simp: tinv_def)
  note G = get_empty_Some [OF g w(1)]
  note P = put_entry_fields [OF p]
  have cont: "content ctx1 ref = content ctx ref"
    using G by (cases ref) simp_all
  have z: "tables ctx2 ! k = replicate 512 INVALID_DESC"
    using P(5) [of k] G w by auto
  have r: "rep (claim dyn k ctx2) l (Node k (replicate 512 Unmapped)) (TABLE_DESC OR subtable_addr ctx1 k)"
    using i(2) G P z by (simp add: list_all2_conv_all_nth subtable_addr_def)
  have f: "free dyn (claim dyn k ctx2) = free dyn ctx - {k}"
    using G free_claim [of dyn ctx2 k] free_claim [of dyn ctx1 k] put_entry_free [OF p] put_entry_wf [OF p] P by auto
  have "wf_ctx dyn (claim dyn k ctx2)"
    using wf_claim put_entry_wf [OF p] G P by simp
  then show "tinv dyn (claim dyn k ctx2) ref l ?ts" "extends dyn ctx ref ts (claim dyn k ctx2) ?ts"
    using i(4) inv_put [OF i(1,3), of "claim dyn k ctx2" "TABLE_DESC OR subtable_addr ctx1 k" "Node k (replicate 512 Unmapped)"] r f G P cont
    by auto
qed

lemma subtable_page_addr:
  assumes "wf_ctx dyn ctx" "k < length (tables ctx)"
  shows "page_addr (subtable_addr ctx k)" "addr_subtable ctx (subtable_addr ctx k) = Some (Subtable k)"
proof -
  have a: "4096 dvd unat (tables_addr ctx)" "unat (tables_addr ctx) + 4096 * length (tables ctx) \<le> 2 ^ 48"
    using assms(1) by (auto simp: wf_ctx_def)
  have p: "PAGE_SIZE * of_nat k = (of_nat (4096 * k) :: u64)"
    by (simp add: PAGE_SIZE_def)
  have k: "unat (PAGE_SIZE * of_nat k) = 4096 * k"
    unfolding p by (rule unat_of_nat_small) (use a assms(2) in simp)
  then have "unat (subtable_addr ctx k) = unat (tables_addr ctx) + 4096 * k"
    unfolding subtable_addr_def using a assms(2) by (subst unat_add_nowrap) simp_all
  then show "page_addr (subtable_addr ctx k)"
    using a assms(2) by (simp add: page_addr_def)
  have "PAGE_SIZE * of_nat k AND PAGE_SIZE_MASK = 0"
    using k by (simp add: page_mask and_block_mask_0)
  moreover have "unat (drop_bit 12 (PAGE_SIZE * of_nat k)) = k"
    using k unat_drop_shift [of 3 "PAGE_SIZE * of_nat k"] by simp
  ultimately show "addr_subtable ctx (subtable_addr ctx k) = Some (Subtable k)"
    using assms(2) by (simp add: addr_subtable_def subtable_addr_def)
qed

section \<open>Regions and what a mapping changes\<close>

definition rs :: "mmap_region \<Rightarrow> nat" where
  "rs mm = unat (base_va mm)"

definition re :: "mmap_region \<Rightarrow> nat" where
  "re mm = unat (base_va mm) + unat (region_size mm)"

definition region_ok :: "mmap_region \<Rightarrow> bool" where
  "region_ok mm \<longleftrightarrow>
     region_size mm \<noteq> 0 \<and> 4096 dvd unat (base_va mm) \<and> 4096 dvd unat (base_pa mm) \<and> 4096 dvd unat (region_size mm) \<and>
     unat (base_va mm) + unat (region_size mm) \<le> 2 ^ 48 \<and> unat (base_pa mm) + unat (region_size mm) \<le> 2 ^ 48"

text \<open>The block of level \<open>l\<close> that holds an address.\<close>

definition bb :: "nat \<Rightarrow> nat \<Rightarrow> nat" where
  "bb l v = v div blk l * blk l"

text \<open>A descriptor of a level that translates an address as a region says.\<close>

definition tr :: "xlat_ctx \<Rightarrow> mmap_region \<Rightarrow> nat \<Rightarrow> u64 \<times> nat \<Rightarrow> bool" where
  "tr ctx mm v r \<longleftrightarrow>
     snd r \<le> 3 \<and> rs mm \<le> bb (snd r) v \<and> bb (snd r) v + blk (snd r) \<le> re mm \<and>
     xlat_desc ctx (attr mm) (base_pa mm + of_nat (bb (snd r) v - rs mm)) (snd r) = Some (fst r)"

text \<open>Existing translations stay; new ones are those of the region, and below \<open>hi\<close> the region is complete.\<close>

definition upd :: "xlat_ctx \<Rightarrow> mmap_region \<Rightarrow> nat \<Rightarrow> nat \<Rightarrow> (u64 \<times> nat) option \<Rightarrow> (u64 \<times> nat) option \<Rightarrow> bool" where
  "upd ctx mm hi v r r' \<longleftrightarrow>
     (case r of
        Some x \<Rightarrow> r' = Some x
      | None \<Rightarrow> (case r' of None \<Rightarrow> \<not> (rs mm \<le> v \<and> v < re mm \<and> v < hi) | Some x \<Rightarrow> tr ctx mm v x))"

lemma bb_le: "bb l v \<le> v" "v < bb l v + blk l"
proof -
  show "bb l v \<le> v"
    by (simp add: bb_def)
  show "v < bb l v + blk l"
    using dividend_less_div_times [of "blk l" v] by (simp add: bb_def)
qed

lemma bb_eq: "blk l dvd b \<Longrightarrow> b \<le> v \<Longrightarrow> v < b + blk l \<Longrightarrow> bb l v = b"
proof -
  assume "blk l dvd b" "b \<le> v" "v < b + blk l"
  moreover then obtain q where "b = blk l * q"
    by blast
  ultimately have "v div blk l = q"
    by (intro div_nat_eqI) (simp_all add: algebra_simps)
  then show "bb l v = b"
    by (simp add: bb_def \<open>b = blk l * q\<close>)
qed

lemma tr_in_region: "tr ctx mm v r \<Longrightarrow> rs mm \<le> v \<and> v < re mm"
  using bb_le [where l = "snd r" and v = v] by (auto simp: tr_def)

lemma upd_same: "\<not> (rs mm \<le> v \<and> v < re mm \<and> v < hi) \<Longrightarrow> upd ctx mm hi v r r"
  by (simp add: upd_def split: option.split)

lemma upd_mapped: "upd ctx mm hi v (Some x) (Some x)"
  by (simp add: upd_def)

lemma upd_trans: "upd ctx mm h1 v r r1 \<Longrightarrow> upd ctx mm h2 v r1 r2 \<Longrightarrow> upd ctx mm (max h1 h2) v r r2"
  by (auto simp: upd_def split: option.splits)

lemma upd_mono: "upd ctx mm h v r r' \<Longrightarrow> h' \<le> h \<or> re mm \<le> h \<Longrightarrow> upd ctx mm h' v r r'"
  by (auto simp: upd_def split: option.splits)

section \<open>Counting regions\<close>

text \<open>
  With dynamic regions the library counts, for each table, the regions mapped through it. \<open>hits\<close> is the
  number of regions of a list that meet a range of addresses; \<open>acc\<close> says that in a tree at address \<open>b\<close> every
  table has the count of the regions that meet its range.
\<close>

definition cnt :: "xlat_ctx \<Rightarrow> nat \<Rightarrow> int" where
  "cnt ctx k = tables_mapped_regions ctx ! k"

definition hits :: "mmap_region list \<Rightarrow> nat \<Rightarrow> nat \<Rightarrow> int" where
  "hits P lo hi = int (length (filter (\<lambda>m. rs m < hi \<and> lo < re m) P))"

fun acc :: "(nat \<Rightarrow> int) \<Rightarrow> mmap_region list \<Rightarrow> nat \<Rightarrow> nat \<Rightarrow> ptree \<Rightarrow> bool" where
  "acc C P l b (Node k us) \<longleftrightarrow>
     C k = hits P b (b + blk l) \<and> (\<forall>i < length us. acc C P (Suc l) (b + i * blk (Suc l)) (us ! i))"
| "acc C P l b t \<longleftrightarrow> True"

definition accs :: "(nat \<Rightarrow> int) \<Rightarrow> mmap_region list \<Rightarrow> nat \<Rightarrow> nat \<Rightarrow> ptree list \<Rightarrow> bool" where
  "accs C P l B ts \<longleftrightarrow> (\<forall>i < length ts. acc C P l (B + i * blk l) (ts ! i))"

text \<open>The regions of a list are mapped, within a range.\<close>

definition covered :: "mmap_region list \<Rightarrow> (nat \<Rightarrow> 'a option) \<Rightarrow> nat \<Rightarrow> nat \<Rightarrow> bool" where
  "covered P f lo hi \<longleftrightarrow> (\<forall>m \<in> set P. rs m < re m) \<and> (\<forall>m \<in> set P. \<forall>v. rs m \<le> v \<and> v < re m \<and> lo \<le> v \<and> v < hi \<longrightarrow> f v \<noteq> None)"

lemma hits_Cons: "hits (m # P) lo hi = hits P lo hi + (if rs m < hi \<and> lo < re m then 1 else 0)"
  by (simp add: hits_def)

lemma hits_none:
  assumes "covered P f lo hi" "\<And>v. lo \<le> v \<Longrightarrow> v < hi \<Longrightarrow> f v = None" "lo < hi"
  shows "hits P lo hi = 0"
proof -
  have "\<not> (rs m < hi \<and> lo < re m)" if "m \<in> set P" for m
  proof
    assume a: "rs m < hi \<and> lo < re m"
    have "rs m < re m"
      using assms(1) that by (simp add: covered_def)
    then have "f (max lo (rs m)) \<noteq> None"
      using assms(1,3) that a unfolding covered_def by (metis max.cobounded1 max.cobounded2 max_less_iff_conj)
    then show False
      using assms(2) [of "max lo (rs m)"] assms(3) a by simp
  qed
  then show ?thesis
    by (simp add: hits_def filter_empty_conv)
qed

lemma covered_sub: "covered P f lo hi \<Longrightarrow> lo \<le> lo' \<Longrightarrow> hi' \<le> hi \<Longrightarrow> (\<And>v. lo' \<le> v \<Longrightarrow> v < hi' \<Longrightarrow> f v \<noteq> None \<Longrightarrow> g v \<noteq> None) \<Longrightarrow> covered P g lo' hi'"
  unfolding covered_def by (meson le_less_trans less_le_trans order.trans)

lemma acc_notabs: "tabs t = [] \<Longrightarrow> acc C P l b t"
  by (cases t) simp_all

lemma acc_Node: "acc C P l b (Node k us) \<longleftrightarrow> C k = hits P b (b + blk l) \<and> accs C P (Suc l) b us"
  by (simp add: accs_def)

declare acc.simps(1) [simp del]
declare acc_Node [simp]

lemma acc_cong: "(\<And>k. k \<in> set (tabs t) \<Longrightarrow> C k = C' k) \<Longrightarrow> acc C P l b t \<longleftrightarrow> acc C' P l b t"
proof (induction C P l b t rule: acc.induct)
  case (1 C P l b k us)
  have "acc C P (Suc l) (b + i * blk (Suc l)) (us ! i) \<longleftrightarrow> acc C' P (Suc l) (b + i * blk (Suc l)) (us ! i)" if "i < length us" for i
    using 1(1) [of i] 1(2) that by (simp add: in_tabss) metis
  then show ?case
    using 1(2) [of k] by (simp add: accs_def)
qed simp_all

lemma accs_cong: "(\<And>k. k \<in> set (tabss ts) \<Longrightarrow> C k = C' k) \<Longrightarrow> accs C P l B ts \<longleftrightarrow> accs C' P l B ts"
  unfolding accs_def by (intro all_cong acc_cong) (auto simp: in_tabss)

text \<open>A region that does not meet the range of a tree does not change what its tables count.\<close>

lemma acc_apart:
  assumes "rep ctx l t d" "wf_ctx dyn ctx" "re mm \<le> b \<or> b + blk l \<le> rs mm"
  shows "acc C (mm # P) l b t \<longleftrightarrow> acc C P l b t"
  using assms
proof (induction ctx l t d arbitrary: b rule: rep.induct)
  case (3 ctx l k us d)
  have len: "length us = 512" "l < 3"
    using 3(2,3) by (auto simp: wf_ctx_def dest: list_all2_lengthD)
  have "acc C (mm # P) (Suc l) (b + i * blk (Suc l)) (us ! i) \<longleftrightarrow> acc C P (Suc l) (b + i * blk (Suc l)) (us ! i)" if i: "i < 512" for i
  proof -
    have r: "rep ctx (Suc l) (us ! i) (tables ctx ! k ! i)"
      using 3(2) i len by (simp add: list_all2_conv_all_nth)
    have "b + i * blk (Suc l) + blk (Suc l) \<le> b + blk l"
      using mult_le_mono1 [of "Suc i" 512 "blk (Suc l)"] i blk_Suc [OF len(2)] by simp
    then have a: "re mm \<le> b + i * blk (Suc l) \<or> b + i * blk (Suc l) + blk (Suc l) \<le> rs mm"
      using 3(4) by auto
    show ?thesis
      using 3(1) [OF _ _ r 3(3) a] i len 3(2) by (auto simp: list_all2_conv_all_nth)
  qed
  moreover have "hits (mm # P) b (b + blk l) = hits P b (b + blk l)"
    using 3(4) blk_pos [of l] by (auto simp: hits_Cons)
  ultimately show ?case
    by (simp add: accs_def len)
qed simp_all

section \<open>Addresses\<close>

lemma region_okD:
  assumes "region_ok mm"
  shows "rs mm < re mm" "4096 dvd rs mm" "4096 dvd re mm" "re mm \<le> 2 ^ 48" "unat (base_va mm + region_size mm - 1) = re mm - 1"
    "unat (region_end mm) = re mm - 1"
proof -
  have z: "unat (region_size mm) \<noteq> 0"
    using assms by (simp add: region_ok_def unat_eq_0)
  show "rs mm < re mm" "4096 dvd rs mm" "4096 dvd re mm" "re mm \<le> 2 ^ 48"
    using assms z by (simp_all add: region_ok_def rs_def re_def)
  have "unat (base_va mm + region_size mm) = re mm"
    using assms by (simp add: region_ok_def re_def unat_add_nowrap)
  then show "unat (base_va mm + region_size mm - 1) = re mm - 1"
    using z by (subst unat_sub_nowrap) (simp_all add: re_def)
  then show "unat (region_end mm) = re mm - 1"
    by (simp add: region_end_def)
qed

lemma unat_next: "unat va + blk l \<le> 2 ^ 48 \<Longrightarrow> unat (va + XLAT_BLOCK_SIZE l) = unat va + blk l"
  by (subst unat_add_nowrap) simp_all

lemma unat_last:
  assumes "unat va + blk l \<le> 2 ^ 48"
  shows "unat (va + XLAT_BLOCK_SIZE l - 1) = unat va + blk l - 1"
proof -
  have "Suc 0 \<le> unat va + blk l"
    by (simp add: Suc_le_eq)
  then show ?thesis
    using unat_next [OF assms] by (subst unat_sub_nowrap) simp_all
qed

lemma page_gap: "4096 dvd a \<Longrightarrow> 4096 dvd b \<Longrightarrow> a < b \<Longrightarrow> a + 4096 \<le> (b :: nat)"
  by (auto elim!: dvdE)

lemma page_dvd_if: "blk l dvd b \<Longrightarrow> 4096 dvd b"
  using page_dvd_blk dvd_trans by blast

definition full :: "mmap_region \<Rightarrow> nat \<Rightarrow> nat \<Rightarrow> bool" where
  "full mm l b \<longleftrightarrow> rs mm \<le> b \<and> b + blk l \<le> re mm"

lemma action_eq:
  assumes "region_ok mm" "unat va + blk l \<le> 2 ^ 48"
  shows "xlat_tables_map_region_action mm dt pa va l =
    (if full mm l (unat va) then
       (if l = 3 then if dt = PAGE_DESC then Some ACTION_NONE else if dt = INVALID_DESC then Some ACTION_WRITE_BLOCK_ENTRY else None
        else if dt = TABLE_DESC then Some ACTION_RECURSE_INTO_TABLE
        else if dt = INVALID_DESC then
          (if pa AND XLAT_BLOCK_MASK l \<noteq> 0 \<or> l < MIN_LVL_BLOCK_DESC \<or> granularity mm < XLAT_BLOCK_SIZE l
           then Some ACTION_CREATE_NEW_TABLE else Some ACTION_WRITE_BLOCK_ENTRY)
        else if dt = BLOCK_DESC then Some ACTION_NONE else None)
     else if l < 3 then
       (if dt = INVALID_DESC then Some ACTION_CREATE_NEW_TABLE else if dt = TABLE_DESC then Some ACTION_RECURSE_INTO_TABLE else None)
     else None)"
proof -
  have b: "0 < blk l"
    by simp
  have "base_va mm \<le> va \<and> va + XLAT_BLOCK_SIZE l - 1 \<le> base_va mm + region_size mm - 1 \<longleftrightarrow> full mm l (unat va)"
    using region_okD [OF assms(1)] unat_last [OF assms(2)] b by (auto simp: full_def rs_def word_le_nat_alt)
  moreover have "base_va mm \<le> va + XLAT_BLOCK_SIZE l - 1 \<or> va \<le> base_va mm + region_size mm - 1"
    using region_okD [OF assms(1)] unat_last [OF assms(2)] b by (auto simp: rs_def word_le_nat_alt)
  ultimately show ?thesis
    by (simp add: xlat_tables_map_region_action_def Let_def)
qed

lemma full_level_3:
  assumes "region_ok mm" "4096 dvd b" "rs mm < b + 4096" "b < re mm"
  shows "full mm 3 b"
  using page_gap [OF assms(2) region_okD(3) [OF assms(1)]] page_gap [of b "rs mm"] region_okD [OF assms(1)] assms
  by (cases "b < rs mm") (auto simp: full_def)

lemma region_pa:
  assumes "region_ok mm" "rs mm \<le> b" "b < re mm" "unat va = b" "4096 dvd b"
  shows "base_pa mm + va - base_va mm = base_pa mm + of_nat (b - rs mm)" "page_addr (base_pa mm + of_nat (b - rs mm))"
proof -
  have v: "va = of_nat b" "base_va mm = of_nat (rs mm)"
    using assms(4) by (simp_all add: rs_def flip: assms(4))
  show "base_pa mm + va - base_va mm = base_pa mm + of_nat (b - rs mm)"
    using assms(2) unfolding v by simp
  have le: "b - rs mm < unat (region_size mm)" "unat (base_pa mm) + unat (region_size mm) \<le> 2 ^ 48"
    using assms by (auto simp: re_def rs_def region_ok_def)
  have o: "unat (of_nat (b - rs mm) :: u64) = b - rs mm"
    by (rule unat_of_nat_small) (use le in simp)
  have "unat (base_pa mm + of_nat (b - rs mm)) = unat (base_pa mm) + (b - rs mm)"
    using le o by (subst unat_add_nowrap) simp_all
  moreover have "4096 dvd unat (base_pa mm) + (b - rs mm)"
    using assms by (auto simp: region_ok_def rs_def intro!: dvd_add dvd_diff_nat)
  ultimately show "page_addr (base_pa mm + of_nat (b - rs mm))"
    using le by (simp add: page_addr_def)
qed

lemma xlat_desc_strip: "strip ctx = strip c0 \<Longrightarrow> xlat_desc ctx = xlat_desc c0"
  by (intro ext) (simp add: xlat_desc_alt strip_fields(3) [of ctx c0])

lemma rep_type:
  assumes "rep ctx l t d" "wf_ctx dyn ctx"
  shows "d AND DESC_MASK = (case t of Unmapped \<Rightarrow> INVALID_DESC | Leaf _ \<Rightarrow> if l = 3 then PAGE_DESC else BLOCK_DESC | Node _ _ \<Rightarrow> TABLE_DESC)"
proof (cases t)
  case (Node k ts)
  then have "k < length (tables ctx)" "d = TABLE_DESC OR subtable_addr ctx k"
    using assms by auto
  then show ?thesis
    using Node table_desc_bits(1) subtable_page_addr [OF assms(2)] by simp
qed (use assms in \<open>auto simp: INVALID_DESC_def\<close>)

section \<open>One entry\<close>

text \<open>The translation of the tables below a table with base address \<open>B\<close>.\<close>

definition lookf :: "nat \<Rightarrow> nat \<Rightarrow> ptree list \<Rightarrow> nat \<Rightarrow> (u64 \<times> nat) option" where
  "lookf l B ts v = look l (ts ! ((v - B) div blk l)) v"

lemma look_Node:
  assumes "length us = 512" "l < 3" "blk l dvd b" "b \<le> v" "v < b + blk l"
  shows "look l (Node k us) v = lookf (Suc l) b us v"
proof -
  obtain q where q: "b = 512 * blk (Suc l) * q"
    using assms(2,3) by (auto simp: blk_Suc)
  obtain w where w: "v = b + w" "w < 512 * blk (Suc l)"
    using assms(2,4,5) by (metis le_iff_add nat_add_left_cancel_less blk_Suc)
  have "v = w + blk (Suc l) * (512 * q)"
    unfolding w(1) q by simp
  then have "v div blk (Suc l) = 512 * q + w div blk (Suc l)"
    by simp
  moreover have "w div blk (Suc l) < 512"
    using w(2) by (simp add: less_mult_imp_div_less)
  ultimately show ?thesis
    using assms(1) w(1) by (simp add: lookf_def)
qed

text \<open>A region may meet existing blocks only as a whole.\<close>

definition meets :: "mmap_region \<Rightarrow> nat \<Rightarrow> (u64 \<times> nat) option \<Rightarrow> bool" where
  "meets mm v r \<longleftrightarrow>
     (case r of None \<Rightarrow> True | Some (d, L) \<Rightarrow> full mm L (bb L v) \<or> re mm \<le> bb L v \<or> bb L v + blk L \<le> rs mm)"

lemma meets_upd: "upd ctx mm hi v r r' \<Longrightarrow> meets mm v r \<Longrightarrow> meets mm v r'"
  by (auto simp: upd_def meets_def tr_def full_def split: option.splits)

text \<open>What the recursion into a table returns: the last address done, or the address where tables ran out.\<close>

definition outcome :: "bool \<Rightarrow> mmap_region \<Rightarrow> u64 \<Rightarrow> nat \<Rightarrow> nat \<Rightarrow> bool" where
  "outcome dyn mm e lim hi \<longleftrightarrow> (hi = min lim (re mm) \<and> unat e + 1 = hi) \<or> (dyn \<and> unat e = hi \<and> 4096 dvd hi \<and> hi < re mm \<and> hi \<le> lim)"

definition entry_outcome :: "bool \<Rightarrow> mmap_region \<Rightarrow> u64 option \<Rightarrow> nat \<Rightarrow> nat \<Rightarrow> bool" where
  "entry_outcome dyn mm stop lim hi \<longleftrightarrow>
     (case stop of
        None \<Rightarrow> hi = lim \<and> lim \<le> re mm
      | Some e \<Rightarrow> (hi = re mm \<and> re mm < lim \<and> unat e + 1 = hi) \<or> (dyn \<and> unat e = hi \<and> 4096 dvd hi \<and> hi < re mm \<and> hi \<le> lim))"

definition sub_post :: "xlat_ctx \<Rightarrow> bool \<Rightarrow> mmap_region \<Rightarrow> mmap_region list \<Rightarrow> table_ref \<Rightarrow> nat \<Rightarrow> nat \<Rightarrow> xlat_ctx \<Rightarrow> ptree list \<Rightarrow> u64 \<times> xlat_ctx \<Rightarrow> bool" where
  "sub_post c0 dyn mm P ref l B ctx ts r \<longleftrightarrow>
     (\<exists>ts' hi. tinv dyn (snd r) ref l ts' \<and> extends dyn ctx ref ts (snd r) ts' \<and> outcome dyn mm (fst r) (B + length ts * blk l) hi \<and>
       (\<forall>v. B \<le> v \<and> v < B + length ts * blk l \<longrightarrow> upd c0 mm hi v (lookf l B ts v) (lookf l B ts' v)) \<and>
       (\<forall>k. k \<notin> set (tabss ts') \<longrightarrow> cnt (snd r) k = cnt ctx k) \<and>
       (dyn \<and> unat (fst r) + 1 = min (B + length ts * blk l) (re mm) \<longrightarrow> accs (cnt (snd r)) (mm # P) l B ts'))"

definition sub_ok :: "xlat_ctx \<Rightarrow> bool \<Rightarrow> bool \<Rightarrow> mmap_region \<Rightarrow> mmap_region list \<Rightarrow> nat \<Rightarrow> table_op \<Rightarrow> bool" where
  "sub_ok c0 tot dyn mm P l sub \<longleftrightarrow>
     (\<forall>va k ctx us. strip ctx = strip c0 \<longrightarrow> 512 * blk l dvd unat va \<longrightarrow> unat va + 512 * blk l \<le> 2 ^ 48 \<longrightarrow>
        rs mm < unat va + 512 * blk l \<longrightarrow> unat va < re mm \<longrightarrow> k < length (tables ctx) \<longrightarrow> wf_ctx dyn ctx \<longrightarrow>
        tinv dyn (claim dyn k ctx) (Subtable k) l us \<longrightarrow>
        (\<forall>v. unat va \<le> v \<and> v < unat va + 512 * blk l \<longrightarrow> meets mm v (lookf l (unat va) us v)) \<longrightarrow>
        (dyn \<longrightarrow> accs (cnt (claim dyn k ctx)) P l (unat va) us) \<longrightarrow> covered P (lookf l (unat va) us) (unat va) (unat va + 512 * blk l) \<longrightarrow>
        yields tot (sub va (Subtable k) l ctx) (sub_post c0 dyn mm P (Subtable k) l (unat va) (claim dyn k ctx) us))"

text \<open>The entry is done: the loop goes on, or stops at the end of the region.\<close>

definition entry_done :: "mmap_region \<Rightarrow> u64 option \<Rightarrow> bool" where
  "entry_done mm stop \<longleftrightarrow> (case stop of None \<Rightarrow> True | Some e \<Rightarrow> unat e + 1 = re mm)"

definition entry_post ::
  "xlat_ctx \<Rightarrow> bool \<Rightarrow> mmap_region \<Rightarrow> mmap_region list \<Rightarrow> table_ref \<Rightarrow> nat \<Rightarrow> nat \<Rightarrow> nat \<Rightarrow> xlat_ctx \<Rightarrow> ptree list \<Rightarrow> u64 option \<times> xlat_ctx \<Rightarrow> bool" where
  "entry_post c0 dyn mm P ref l idx b ctx ts r \<longleftrightarrow>
     (\<exists>t' hi. tinv dyn (snd r) ref l (ts[idx := t']) \<and> extends dyn ctx ref ts (snd r) (ts[idx := t']) \<and>
       entry_outcome dyn mm (fst r) (b + blk l) hi \<and>
       (\<forall>v. b \<le> v \<and> v < b + blk l \<longrightarrow> upd c0 mm hi v (look l (ts ! idx) v) (look l t' v)) \<and>
       set (tabs (ts ! idx)) \<subseteq> set (tabs t') \<and> (\<forall>k. k \<notin> set (tabs t') \<longrightarrow> cnt (snd r) k = cnt ctx k) \<and>
       (dyn \<and> entry_done mm (fst r) \<longrightarrow> acc (cnt (snd r)) (mm # P) l b t'))"

lemma entry_postI:
  assumes "tinv dyn ctx' ref l (ts[idx := t])" "extends dyn ctx ref ts ctx' (ts[idx := t])" "entry_outcome dyn mm stop (b + blk l) hi"
    "\<And>v. b \<le> v \<Longrightarrow> v < b + blk l \<Longrightarrow> upd c0 mm hi v (look l (ts ! idx) v) (look l t v)"
    "set (tabs (ts ! idx)) \<subseteq> set (tabs t)" "\<And>k. k \<notin> set (tabs t) \<Longrightarrow> cnt ctx' k = cnt ctx k"
    "dyn \<Longrightarrow> entry_done mm stop \<Longrightarrow> acc (cnt ctx') (mm # P) l b t"
  shows "entry_post c0 dyn mm P ref l idx b ctx ts (stop, ctx')"
  using assms unfolding entry_post_def fst_conv snd_conv by blast

lemma tinv_sub_length: "tinv dyn ctx (Subtable k) l us \<Longrightarrow> length us = 512"
  using tinv_length [of dyn ctx "Subtable k" l us] by (auto simp: tinv_def wf_ctx_def)

lemma map_into_ok:
  assumes sub: "sub_ok c0 tot dyn mm P (Suc l) sub" and i: "tinv dyn (claim dyn k ctx) ref l ts" "idx < length ts" "ts ! idx = Node k us"
    and c: "strip ctx = strip c0" "l < 3" "k < length (tables ctx)" "wf_ctx dyn ctx" "region_ok mm"
    and b: "unat va = b" "blk l dvd b" "b + blk l \<le> 2 ^ 48" "rs mm < b + blk l" "b < re mm"
    and m: "\<And>v. b \<le> v \<Longrightarrow> v < b + blk l \<Longrightarrow> meets mm v (look l (ts ! idx) v)"
    and q: "dyn \<Longrightarrow> cnt (claim dyn k ctx) k = hits (mm # P) b (b + blk l) \<and> accs (cnt (claim dyn k ctx)) P (Suc l) b us"
      "covered P (look l (ts ! idx)) b (b + blk l)"
  shows "yields tot (map_into sub va (Subtable k) l ctx) (entry_post c0 dyn mm P ref l idx b (claim dyn k ctx) ts)"
proof -
  note child = inv_child [OF i]
  have us: "length us = 512" and blk: "512 * blk (Suc l) = blk l"
    using tinv_sub_length [OF child] blk_Suc [OF c(2)] by auto
  have lk: "look l (Node k ws) v = lookf (Suc l) b ws v" if "length ws = 512" "b \<le> v" "v < b + blk l" for v ws
    using look_Node [OF that(1) c(2) b(2) that(2,3)] .
  have m': "meets mm v (lookf (Suc l) (unat va) us v)" if "unat va \<le> v \<and> v < unat va + blk l" for v
    using m [of v] lk [OF us, of v] that i(3) b(1) by metis
  have "covered P (lookf (Suc l) b us) b (b + blk l)"
    by (rule covered_sub [OF q(2)]) (use i(3) lk [OF us] in \<open>simp_all del: look.simps\<close>)
  then have "yields tot (sub va (Subtable k) (Suc l) ctx) (sub_post c0 dyn mm P (Subtable k) (Suc l) (unat va) (claim dyn k ctx) us)"
    using sub [unfolded sub_ok_def blk, rule_format, of ctx va k us] c b child m' q(1) by blast
  then show ?thesis
    unfolding map_into_def Suc_eq_plus1 [symmetric]
  proof (elim yields_bind [OF yields_mono], clarify)
    fix e ctx'
    assume "sub_post c0 dyn mm P (Subtable k) (Suc l) (unat va) (claim dyn k ctx) us (e, ctx')"
    then obtain us' hi where p: "tinv dyn ctx' (Subtable k) (Suc l) us'" "extends dyn (claim dyn k ctx) (Subtable k) us ctx' us'"
      "outcome dyn mm e (b + blk l) hi" "\<forall>v. b \<le> v \<and> v < b + blk l \<longrightarrow> upd c0 mm hi v (lookf (Suc l) b us v) (lookf (Suc l) b us' v)"
      "\<forall>j. j \<notin> set (tabss us') \<longrightarrow> cnt ctx' j = cnt (claim dyn k ctx) j"
      "dyn \<and> unat e + 1 = min (b + blk l) (re mm) \<longrightarrow> accs (cnt ctx') (mm # P) (Suc l) b us'"
      using us blk b(1) by (auto simp: sub_post_def)
    define stop where "stop = (if e \<noteq> va + XLAT_BLOCK_SIZE l - 1 then Some e else None)"
    have page: "4096 dvd b + blk l"
      using b(2) page_dvd_blk page_dvd_if by (simp add: dvd_add)
    have stop: "stop = (if unat e + 1 = b + blk l then None else Some e)"
      using unat_last [of va l] b blk_pos [of l] by (auto simp: stop_def unat_eq_iff)
    have no: "unat e + 1 \<noteq> b + blk l" if "4096 dvd unat e"
      using page that by (metis dvd_add_right_iff nat_dvd_1_iff_1 numeral_eq_one_iff semiring_norm(85))
    have "entry_outcome dyn mm stop (b + blk l) hi"
      using p(3) unfolding outcome_def
    proof (elim disjE conjE)
      assume "hi = min (b + blk l) (re mm)" "unat e + 1 = hi"
      then show ?thesis
        by (cases "b + blk l \<le> re mm") (simp_all add: stop entry_outcome_def)
    next
      assume "dyn" "unat e = hi" "4096 dvd hi" "hi < re mm" "hi \<le> b + blk l"
      then show ?thesis
        using no by (simp add: stop entry_outcome_def)
    qed
    moreover have "upd c0 mm hi v (look l (ts ! idx) v) (look l (Node k us') v)" if "b \<le> v" "v < b + blk l" for v
      using p(4) lk [OF us that] lk [OF tinv_sub_length [OF p(1)] that] i(3) that by metis
    moreover have "acc (cnt ctx') (mm # P) l b (Node k us')" if "dyn" "entry_done mm stop"
    proof -
      have "unat e + 1 = min (b + blk l) (re mm)"
        using p(3) no page_dvd_if [OF b(2)] that(2) region_okD(3) [OF c(5)] unfolding outcome_def
        by (auto simp: entry_done_def stop min_def split: if_splits) (metis dvd_add_right_iff nat_dvd_1_iff_1 numeral_eq_one_iff semiring_norm(85) Suc_eq_plus1)+
      moreover have "k \<notin> set (tabss us')"
        using p(1) by (simp add: tinv_def)
      ultimately show ?thesis
        using p(5,6) q(1) that(1) by simp
    qed
    moreover have "set (tabs (ts ! idx)) \<subseteq> set (tabs (Node k us'))"
      using p(2) i(3) by (auto simp: extends_def)
    ultimately show "yields tot (Some (stop, ctx')) (entry_post c0 dyn mm P ref l idx b (claim dyn k ctx) ts)"
      unfolding yields_simps using inv_parent [OF i p(2,1)] p(5) by (intro entry_postI) auto
  qed
qed

lemma entry_post_step:
  assumes "extends dyn ctx ref ts ctx1 (ts[idx := t])" "entry_post c0 dyn mm P ref l idx b ctx1 (ts[idx := t]) r" "idx < length ts"
    and "\<And>v. b \<le> v \<Longrightarrow> v < b + blk l \<Longrightarrow> look l (ts ! idx) v = look l t v"
    and "set (tabs (ts ! idx)) \<subseteq> set (tabs t)" "\<And>k. k \<notin> set (tabs t) \<Longrightarrow> cnt ctx1 k = cnt ctx k"
  shows "entry_post c0 dyn mm P ref l idx b ctx ts r"
proof -
  obtain t' hi where p: "tinv dyn (snd r) ref l (ts[idx := t'])" "extends dyn ctx1 ref (ts[idx := t]) (snd r) (ts[idx := t'])"
    "entry_outcome dyn mm (fst r) (b + blk l) hi" "\<forall>v. b \<le> v \<and> v < b + blk l \<longrightarrow> upd c0 mm hi v (look l t v) (look l t' v)"
    "set (tabs t) \<subseteq> set (tabs t')" "\<forall>k. k \<notin> set (tabs t') \<longrightarrow> cnt (snd r) k = cnt ctx1 k"
    "dyn \<and> entry_done mm (fst r) \<longrightarrow> acc (cnt (snd r)) (mm # P) l b t'"
    using assms(2,3) unfolding entry_post_def by auto
  have "\<forall>k. k \<notin> set (tabs t') \<longrightarrow> cnt (snd r) k = cnt ctx k"
    using p(5,6) assms(6) by auto
  then show ?thesis
    unfolding entry_post_def
    using p(1,3,4,7) extends_trans [OF assms(1) p(2)] assms(4) order.trans [OF assms(5) p(5)] by (intro exI [of _ t'] exI [of _ hi]) simp
qed

text \<open>An entry that is left as it is, and one that becomes a block or page.\<close>

lemma entry_keep:
  assumes "tinv dyn ctx ref l ts" "entry_outcome dyn mm stop (b + blk l) hi"
    "\<And>v. b \<le> v \<Longrightarrow> v < b + blk l \<Longrightarrow> upd c0 mm hi v (look l (ts ! idx) v) (look l (ts ! idx) v)" "tabs (ts ! idx) = []"
  shows "entry_post c0 dyn mm P ref l idx b ctx ts (stop, ctx)"
  by (rule entry_postI [where t = "ts ! idx" and hi = hi]) (simp_all add: assms extends_refl acc_notabs)

lemma entry_none:
  assumes "tinv dyn ctx ref l ts" "ts ! idx = Leaf d" "full mm l b"
  shows "entry_post c0 dyn mm P ref l idx b ctx ts (None, ctx)"
  using assms by (intro entry_keep [where hi = "b + blk l"]) (simp_all add: full_def entry_outcome_def upd_mapped)

lemma entry_write:
  assumes i: "tinv dyn ctx ref l ts" "idx < length ts" "ts ! idx = Unmapped" and r: "region_ok mm" "full mm l b" "blk l dvd b" "l \<le> 3"
    and d: "xlat_desc c0 (attr mm) (base_pa mm + of_nat (b - rs mm)) l = Some d" and p: "put_entry ctx ref idx d = Some ctx'"
  shows "entry_post c0 dyn mm P ref l idx b ctx ts (None, ctx')"
proof -
  have b: "rs mm \<le> b" "b < re mm"
    using r(2) blk_pos [of l] unfolding full_def by linarith+
  have "unat (of_nat b :: u64) = b"
    by (rule unat_of_nat_small) (use b region_okD(4) [OF r(1)] in simp)
  then have "d AND DESC_MASK = (if l = 3 then PAGE_DESC else BLOCK_DESC)"
    using xlat_desc_masks(2) [OF d] region_pa(2) [OF r(1) b _ page_dvd_if [OF r(3)]] by blast
  note I = inv_leaf [OF i(1,2) _ p this]
  have "upd c0 mm (b + blk l) v (look l (ts ! idx) v) (look l (Leaf d) v)" if "b \<le> v" "v < b + blk l" for v
    using d r bb_eq [OF r(3) that] i(3) by (simp add: upd_def tr_def full_def)
  then show ?thesis
    using I r(2) i(3) put_entry_fields(7) [OF p]
    by (intro entry_postI [where t = "Leaf d" and hi = "b + blk l"]) (simp_all add: entry_outcome_def full_def cnt_def)
qed

lemma entry_stuck:
  assumes "tinv dyn ctx ref l ts" "ts ! idx = Unmapped" "dyn" "unat va = b" "4096 dvd b" "b < re mm"
  shows "entry_post c0 dyn mm P ref l idx b ctx ts (Some va, ctx)"
  using assms by (intro entry_keep [where hi = b]) (simp_all add: entry_outcome_def upd_def)

text \<open>Taking a new table for an entry.\<close>

lemma create_ok:
  assumes sub: "sub_ok c0 tot dyn mm P (Suc l) sub" and i: "tinv dyn ctx ref l ts" "idx < length ts" "ts ! idx = Unmapped"
    and c: "strip ctx = strip c0" "l < 3" "region_ok mm" "tot \<Longrightarrow> dyn"
    and b: "unat va = b" "blk l dvd b" "b + blk l \<le> 2 ^ 48" "rs mm < b + blk l" "b < re mm"
    and q: "covered P (look l (ts ! idx)) b (b + blk l)"
  shows "yields tot (do { (t, ctx) \<leftarrow> xlat_table_get_empty dyn ctx;
          (case t of
             None \<Rightarrow> Some (Some va, ctx)
           | Some k \<Rightarrow> do {
               ctx \<leftarrow> put_entry ctx ref idx (TABLE_DESC OR subtable_addr ctx k);
               map_into sub va (Subtable k) l ctx
             }) }) (entry_post c0 dyn mm P ref l idx b ctx ts)"
proof (cases "xlat_table_get_empty dyn ctx")
  case None
  then show ?thesis
    using c(4) by (auto simp: xlat_table_get_empty_def split: if_splits)
next
  case (Some r)
  then obtain t ctx1 where g: "xlat_table_get_empty dyn ctx = Some (t, ctx1)"
    by (cases r) auto
  show ?thesis
  proof (cases t)
    case None
    then have "dyn" "ctx1 = ctx"
      using g by (auto simp: xlat_table_get_empty_def split: if_splits)
    then show ?thesis
      using entry_stuck [OF i(1,3)] g None b page_dvd_if [OF b(2)] by simp
  next
    case (Some k)
    have w: "wf_ctx dyn ctx"
      using i(1) by (simp add: tinv_def)
    note G = get_empty_Some [OF g [unfolded Some] w]
    have "tinv dyn ctx ref l ts \<Longrightarrow> \<exists>ctx2. put_entry ctx1 ref idx (TABLE_DESC OR subtable_addr ctx1 k) = Some ctx2"
      using put_entry_Some [OF i(1,2)] G by (cases ref) (auto simp: bind_eq_Some_conv)
    then obtain ctx2 where p: "put_entry ctx1 ref idx (TABLE_DESC OR subtable_addr ctx1 k) = Some ctx2"
      using i(1) by blast
    let ?ts = "ts[idx := Node k (replicate 512 Unmapped)]"
    note I = inv_new [OF i(1) c(2) i(2,3) g [unfolded Some] p]
    have s: "strip ctx2 = strip c0" "k < length (tables ctx2)" "wf_ctx dyn ctx2"
      using put_entry_fields [OF p] G c(1) put_entry_wf [OF p] by simp_all
    have z: "look l (Node k (replicate 512 Unmapped)) v = None" for v
      by simp
    have same: "tables_mapped_regions ctx2 = tables_mapped_regions ctx"
      using put_entry_fields(7) [OF p] g Some by (auto simp: xlat_table_get_empty_def split: if_splits)
    have len: "dyn \<Longrightarrow> k < length (tables_mapped_regions ctx)" and k0: "dyn \<Longrightarrow> cnt ctx k = 0"
      using w G(1) by (auto simp: wf_ctx_def free_def cnt_def)
    have h: "hits P b (b + blk l) = 0"
      by (rule hits_none [OF q]) (simp_all add: i(3))
    have one: "cnt (claim dyn k ctx2) k = hits (mm # P) b (b + blk l)" if dyn
      using that len k0 b(4,5) h by (simp add: hits_Cons cnt_def claim_def same)
    have frame: "cnt (claim dyn k ctx2) j = cnt ctx j" if "j \<noteq> k" for j
      using that by (simp add: cnt_def claim_def same)
    have new: "accs C P (Suc l) b (replicate 512 Unmapped)" for C
      by (simp add: accs_def)
    have cov: "covered P (look l (?ts ! idx)) b (b + blk l)"
      by (rule covered_sub [OF q]) (simp_all add: i)
    have "yields tot (map_into sub va (Subtable k) l ctx2) (entry_post c0 dyn mm P ref l idx b (claim dyn k ctx2) ?ts)"
      by (rule map_into_ok [OF sub I(1) _ _ s(1) c(2) s(2,3) c(3) b _ _ cov]) (use i(2) z one new in \<open>simp_all add: meets_def\<close>)
    then have "yields tot (map_into sub va (Subtable k) l ctx2) (entry_post c0 dyn mm P ref l idx b ctx ts)"
      by (rule yields_mono) (rule entry_post_step [OF I(2)], simp_all add: i z frame del: look.simps, simp add: i)
    then show ?thesis
      using g Some p by simp
  qed
qed

lemma desc_distinct [simp]: "INVALID_DESC \<noteq> TABLE_DESC" "INVALID_DESC \<noteq> PAGE_DESC" "INVALID_DESC \<noteq> BLOCK_DESC"
  by (simp_all add: TABLE_DESC_def INVALID_DESC_def PAGE_DESC_def BLOCK_DESC_def)

section \<open>The loop over a table and the recursion\<close>

lemma get_entry_Some:
  assumes "tinv dyn ctx ref l ts" "idx < length ts"
  shows "get_entry ctx ref idx = Some (content ctx ref ! idx)"
  using assms tinv_length [OF assms(1)] by (cases ref) (auto simp: aget_Some tinv_def)

lemma map_entry_ok:
  assumes sub: "l < 3 \<Longrightarrow> sub_ok c0 tot dyn mm P (Suc l) sub" and i: "tinv dyn ctx ref l ts" "idx < length ts"
    and c: "strip ctx = strip c0" "region_ok mm" "tot \<Longrightarrow> dyn \<and> desc_mem_type (xlat_regime c0) (attr mm) \<noteq> None"
    and b: "unat va = b" "blk l dvd b" "b + blk l \<le> 2 ^ 48" "rs mm < b + blk l" "b < re mm"
    and m: "\<And>v. b \<le> v \<Longrightarrow> v < b + blk l \<Longrightarrow> meets mm v (look l (ts ! idx) v)"
    and q: "dyn \<Longrightarrow> acc (cnt ctx) P l b (ts ! idx)" "covered P (look l (ts ! idx)) b (b + blk l)"
  shows "yields tot (map_entry sub dyn mm ref l idx va ctx) (entry_post c0 dyn mm P ref l idx b ctx ts)"
proof -
  define d where "d = content ctx ref ! idx"
  define pa where "pa = base_pa mm + va - base_va mm"
  have g: "get_entry ctx ref idx = Some d"
    using get_entry_Some [OF i] by (simp add: d_def)
  have r: "rep ctx l (ts ! idx) d" and w: "wf_ctx dyn ctx" and l3: "l \<le> 3"
    using inv_rep [OF i] i(1) by (simp_all add: d_def tinv_def)
  have part: "l < 3" if "\<not> full mm l b"
    using full_level_3 [OF c(2) page_dvd_if [OF b(2)]] b that l3 by (cases "l = 3") auto
  note act = action_eq [OF c(2) b(3) [folded b(1)], of "d AND DESC_MASK" pa, unfolded b(1)]
  note ty = rep_type [OF r w]
  show ?thesis
  proof (cases "ts ! idx")
    case (Leaf e)
    have "full mm l b"
      using m [of b] Leaf b bb_eq [OF b(2), of b] blk_pos [of l] by (auto simp: meets_def)
    then have "xlat_tables_map_region_action mm (d AND DESC_MASK) pa va l = Some ACTION_NONE"
      using act ty Leaf by (simp add: PAGE_DESC_def BLOCK_DESC_def TABLE_DESC_def INVALID_DESC_def)
    then show ?thesis
      using entry_none [OF i(1) Leaf \<open>full mm l b\<close>] g by (simp add: map_entry_def pa_def)
  next
    case (Node k us)
    then have n: "l < 3" "d = TABLE_DESC OR subtable_addr ctx k" "k < length (tables ctx)"
      using r by auto
    then have "xlat_tables_map_region_action mm (d AND DESC_MASK) pa va l = Some ACTION_RECURSE_INTO_TABLE"
      using act ty Node by (simp add: TABLE_DESC_def INVALID_DESC_def)
    moreover have "addr_subtable ctx (d AND TABLE_ADDR_MASK) = Some (Subtable k)"
      using subtable_page_addr [OF w n(3)] table_desc_bits(2) n(2) by simp
    moreover have "yields tot (map_into sub va (Subtable k) l ctx) (entry_post c0 dyn mm P ref l idx b ctx ts)"
    proof (rule yields_mono)
      have k: "k \<in> set (tabss ts)"
        using i(2) Node by (force simp: in_tabss)
      have frame: "cnt (claim dyn k ctx) j = cnt ctx j" if "j \<noteq> k" for j
        using that by (simp add: cnt_def claim_def)
      have "k \<notin> set (tabss us)"
        using inv_child [OF i Node] by (simp add: tinv_def)
      then have "accs (cnt (claim dyn k ctx)) P (Suc l) b us \<longleftrightarrow> accs (cnt ctx) P (Suc l) b us"
        by (intro accs_cong frame) auto
      moreover have "cnt (claim dyn k ctx) k = cnt ctx k + 1" if dyn
        using that w n(3) by (simp add: cnt_def claim_def wf_ctx_def)
      ultimately have q1: "cnt (claim dyn k ctx) k = hits (mm # P) b (b + blk l) \<and> accs (cnt (claim dyn k ctx)) P (Suc l) b us" if dyn
        using that q(1) Node b(4,5) by (simp add: hits_Cons)
      show "yields tot (map_into sub va (Subtable k) l ctx) (entry_post c0 dyn mm P ref l idx b (claim dyn k ctx) ts)"
        by (rule map_into_ok [OF sub [OF n(1)] inv_claim(1) [OF i(1) k n(3)] i(2) Node c(1) n(1,3) w c(2) b m q1 q(2)])
      show "entry_post c0 dyn mm P ref l idx b ctx ts x" if "entry_post c0 dyn mm P ref l idx b (claim dyn k ctx) ts x" for x
      proof (rule entry_post_step [of dyn ctx ref ts "claim dyn k ctx" idx "ts ! idx"])
        show "cnt (claim dyn k ctx) j = cnt ctx j" if "j \<notin> set (tabs (ts ! idx))" for j
          using that Node by (intro frame) auto
      qed (use inv_claim(2) [OF i(1) k n(3)] that i(2) in simp_all)
    qed
    ultimately show ?thesis
      using g by (simp add: map_entry_def pa_def)
  next
    case Unmapped
    then have t0: "d AND DESC_MASK = INVALID_DESC"
      using ty by simp
    show ?thesis
    proof (cases "full mm l b \<and> (l = 3 \<or> \<not> (pa AND XLAT_BLOCK_MASK l \<noteq> 0 \<or> l < MIN_LVL_BLOCK_DESC \<or> granularity mm < XLAT_BLOCK_SIZE l))")
      case True
      then have a: "xlat_tables_map_region_action mm (d AND DESC_MASK) pa va l = Some ACTION_WRITE_BLOCK_ENTRY"
        using True unfolding act [unfolded t0] t0 by (cases "l = 3") simp_all
      have "rs mm \<le> b"
        using True by (simp add: full_def)
      note R = region_pa [OF c(2) this b(5,1) page_dvd_if [OF b(2)]]
      have pa: "pa = base_pa mm + of_nat (b - rs mm)" "page_addr pa"
        unfolding pa_def R(1) by (rule refl R(2))+
      have "blk l dvd unat pa"
        using True pa(2) by (auto simp: and_block_mask_0 page_addr_def)
      then have t: "tot \<Longrightarrow> xlat_desc c0 (attr mm) pa l \<noteq> None"
        using c(3) by (auto simp: xlat_desc_alt attr_bits_def)
      have e: "map_entry sub dyn mm ref l idx va ctx =
          do { d \<leftarrow> xlat_desc c0 (attr mm) pa l; ctx \<leftarrow> put_entry ctx ref idx d; Some (None, ctx) }"
        using a g xlat_desc_strip [OF c(1)] by (simp add: map_entry_def pa_def)
      show ?thesis
      proof (cases "xlat_desc c0 (attr mm) pa l")
        case None
        then show ?thesis
          using t by (auto simp: e)
      next
        case (Some x)
        then obtain ctx' where "put_entry ctx ref idx x = Some ctx'"
          using put_entry_Some [OF i] by blast
        then show ?thesis
          using entry_write [OF i Unmapped c(2) _ b(2) l3 Some [unfolded pa(1)]] True Some by (simp add: e)
      qed
    next
      case False
      then have a: "xlat_tables_map_region_action mm (d AND DESC_MASK) pa va l = Some ACTION_CREATE_NEW_TABLE" and "l < 3"
        using False part l3 unfolding act [unfolded t0] t0 by (cases "full mm l b"; cases "l = 3"; simp; fail)+
      then show ?thesis
        using create_ok [OF sub i Unmapped c(1) _ c(2) _ b q(2)] c(3) g by (simp add: map_entry_def pa_def)
    qed
  qed
qed

lemma lookf_update:
  assumes "idx < length ts" "B \<le> v"
  shows "lookf l B (ts[idx := t]) v = (if B + idx * blk l \<le> v \<and> v < B + idx * blk l + blk l then look l t v else lookf l B ts v)"
proof -
  have "(v - B) div blk l = idx \<longleftrightarrow> B + idx * blk l \<le> v \<and> v < B + idx * blk l + blk l"
  proof
    assume idx: "(v - B) div blk l = idx"
    show "B + idx * blk l \<le> v \<and> v < B + idx * blk l + blk l"
      using div_times_less_eq_dividend [of "v - B" "blk l"] dividend_less_div_times [of "blk l" "v - B"] assms(2) blk_pos [of l]
      unfolding idx by linarith
  next
    assume "B + idx * blk l \<le> v \<and> v < B + idx * blk l + blk l"
    then show "(v - B) div blk l = idx"
      by (intro div_nat_eqI) (auto simp: algebra_simps)
  qed
  then show ?thesis
    using assms by (auto simp: lookf_def)
qed

lemma lookf_nth: "B + idx * blk l \<le> v \<Longrightarrow> v < B + idx * blk l + blk l \<Longrightarrow> idx < length ts \<Longrightarrow> lookf l B ts v = look l (ts ! idx) v"
  using lookf_update [of idx ts B v l "ts ! idx"] by simp

lemma sub_postI:
  assumes "tinv dyn ctx' ref l ts'" "extends dyn ctx ref ts ctx' ts'" "outcome dyn mm e (B + length ts * blk l) hi"
    "\<And>v. B \<le> v \<Longrightarrow> v < B + length ts * blk l \<Longrightarrow> upd c0 mm hi v (lookf l B ts v) (lookf l B ts' v)"
    "\<And>k. k \<notin> set (tabss ts') \<Longrightarrow> cnt ctx' k = cnt ctx k"
    "dyn \<Longrightarrow> unat e + 1 = min (B + length ts * blk l) (re mm) \<Longrightarrow> accs (cnt ctx') (mm # P) l B ts'"
  shows "sub_post c0 dyn mm P ref l B ctx ts (e, ctx')"
  using assms unfolding sub_post_def fst_conv snd_conv by blast

lemma upd_done: "upd ctx mm hi v r r' \<Longrightarrow> rs mm \<le> v \<Longrightarrow> v < hi \<Longrightarrow> hi \<le> re mm \<Longrightarrow> r' \<noteq> None"
  by (auto simp: upd_def split: option.splits)

text \<open>The state of the loop before an entry: below it the region is complete.\<close>

definition at_entry :: "xlat_ctx \<Rightarrow> bool \<Rightarrow> mmap_region \<Rightarrow> mmap_region list \<Rightarrow> table_ref \<Rightarrow> nat \<Rightarrow> nat \<Rightarrow> nat \<Rightarrow> u64 \<Rightarrow> xlat_ctx \<Rightarrow> ptree list \<Rightarrow> bool" where
  "at_entry c0 dyn mm P ref l B idx va ctx ts \<longleftrightarrow>
     tinv dyn ctx ref l ts \<and> strip ctx = strip c0 \<and> idx < length ts \<and> unat va = B + idx * blk l \<and> blk l dvd B \<and>
     B + length ts * blk l \<le> 2 ^ 48 \<and> rs mm < unat va + blk l \<and> unat va < re mm \<and>
     (\<forall>v. B \<le> v \<and> v < B + length ts * blk l \<longrightarrow> meets mm v (lookf l B ts v)) \<and>
     (\<forall>v. B \<le> v \<and> v < unat va \<and> rs mm \<le> v \<longrightarrow> lookf l B ts v \<noteq> None) \<and>
     (dyn \<longrightarrow> (\<forall>i < length ts. acc (cnt ctx) (if i < idx then mm # P else P) l (B + i * blk l) (ts ! i))) \<and>
     covered P (lookf l B ts) B (B + length ts * blk l)"

lemma at_entry_bound: "at_entry c0 dyn mm P ref l B idx va ctx ts \<Longrightarrow> unat va + blk l \<le> B + length ts * blk l"
  using mult_le_mono1 [of "Suc idx" "length ts" "blk l"] by (auto simp: at_entry_def)

lemma tabs_disjoint:
  assumes "tinv dyn ctx ref l ts" "i < length ts" "j < length ts" "i \<noteq> j"
  shows "set (tabs (ts ! i)) \<inter> set (tabs (ts ! j)) = {}"
proof -
  obtain A C where s: "tabss ts = A @ tabs (ts ! j) @ C" "\<And>t. tabss (ts[j := t]) = A @ tabs t @ C"
    using tabss_split [OF assms(3)] by metis
  have "set (tabs (ts ! i)) \<subseteq> set (A @ C)"
    using tabs_nth_subset [of i "ts[j := Unmapped]"] assms(2,4) by (simp add: s)
  moreover have "distinct (A @ tabs (ts ! j) @ C)"
    using assms(1) unfolding tinv_def s by simp
  ultimately show ?thesis
    by auto
qed

lemma loop_step:
  assumes a: "at_entry c0 dyn mm P ref l B idx va ctx ts" and p: "entry_post c0 dyn mm P ref l idx (unat va) ctx ts (stop, ctx1)"
  obtains ts1 hi where "tinv dyn ctx1 ref l ts1" "extends dyn ctx ref ts ctx1 ts1" "entry_outcome dyn mm stop (unat va + blk l) hi"
    "\<And>v. B \<le> v \<Longrightarrow> v < B + length ts * blk l \<Longrightarrow> upd c0 mm hi v (lookf l B ts v) (lookf l B ts1 v)"
    "\<And>k. k \<notin> set (tabss ts1) \<Longrightarrow> cnt ctx1 k = cnt ctx k"
    "\<And>i. dyn \<Longrightarrow> entry_done mm stop \<Longrightarrow> i < length ts \<Longrightarrow> acc (cnt ctx1) (if i \<le> idx then mm # P else P) l (B + i * blk l) (ts1 ! i)"
proof -
  obtain t hi where t: "tinv dyn ctx1 ref l (ts[idx := t])" "extends dyn ctx ref ts ctx1 (ts[idx := t])"
    "entry_outcome dyn mm stop (unat va + blk l) hi"
    "\<forall>v. unat va \<le> v \<and> v < unat va + blk l \<longrightarrow> upd c0 mm hi v (look l (ts ! idx) v) (look l t v)"
    "\<forall>k. k \<notin> set (tabs t) \<longrightarrow> cnt ctx1 k = cnt ctx k" "dyn \<and> entry_done mm stop \<longrightarrow> acc (cnt ctx1) (mm # P) l (unat va) t"
    using p by (auto simp: entry_post_def)
  have va: "idx < length ts" "unat va = B + idx * blk l"
    using a by (auto simp: at_entry_def)
  have hi: "hi \<le> unat va + blk l \<or> re mm \<le> hi"
    using t(3) by (auto simp: entry_outcome_def split: option.splits)
  have "upd c0 mm hi v (lookf l B ts v) (lookf l B (ts[idx := t]) v)" if v: "B \<le> v" "v < B + length ts * blk l" for v
  proof (cases "unat va \<le> v \<and> v < unat va + blk l")
    case True
    then show ?thesis
      using t(4) lookf_nth [of B idx l v ts] lookf_update [OF va(1) v(1)] va by simp
  next
    case False
    then have same: "lookf l B (ts[idx := t]) v = lookf l B ts v"
      using lookf_update [OF va(1) v(1)] va(2) by auto
    show ?thesis
    proof (cases "v < unat va \<and> rs mm \<le> v")
      case True
      then show ?thesis
        using a v(1) unfolding same by (auto simp: at_entry_def upd_mapped)
    next
      case no: False
      have "\<not> (rs mm \<le> v \<and> v < re mm \<and> v < hi)"
        using False no hi t(3) by (auto simp: entry_outcome_def split: option.splits)
      then show ?thesis
        unfolding same by (rule upd_same)
    qed
  qed
  moreover have "cnt ctx1 k = cnt ctx k" if "k \<notin> set (tabss (ts[idx := t]))" for k
  proof -
    have "k \<notin> set (tabs t)"
      using that va(1) by (force simp: in_tabss)
    then show ?thesis
      using t(5) by simp
  qed
  moreover have "acc (cnt ctx1) (if i \<le> idx then mm # P else P) l (B + i * blk l) (ts[idx := t] ! i)"
    if "dyn" "entry_done mm stop" "i < length ts" for i
  proof (cases "i = idx")
    case True
    then show ?thesis
      using t(6) that va by simp
  next
    case False
    have "set (tabs (ts ! i)) \<inter> set (tabs t) = {}"
      using tabs_disjoint [OF t(1), of i idx] that(3) va(1) False by simp
    then have "cnt ctx k = cnt ctx1 k" if "k \<in> set (tabs (ts ! i))" for k
      using that t(5) by fastforce
    then have "acc (cnt ctx) Q l (B + i * blk l) (ts ! i) \<longleftrightarrow> acc (cnt ctx1) Q l (B + i * blk l) (ts ! i)" for Q
      by (rule acc_cong)
    moreover have "acc (cnt ctx) (if i < idx then mm # P else P) l (B + i * blk l) (ts ! i)"
      using a that(1,3) by (simp add: at_entry_def)
    ultimately show ?thesis
      using False that(3) by (cases "i < idx") simp_all
  qed
  ultimately show thesis
    using that t(1-3) by blast
qed

lemma loop_next:
  assumes a: "at_entry c0 dyn mm P ref l B idx va ctx ts" and t: "tinv dyn ctx1 ref l ts1" "extends dyn ctx ref ts ctx1 ts1"
    and u: "\<And>v. B \<le> v \<Longrightarrow> v < B + length ts * blk l \<Longrightarrow> upd c0 mm (unat va + blk l) v (lookf l B ts v) (lookf l B ts1 v)"
    and n: "Suc idx < length ts" "unat va + blk l < re mm"
    and q: "\<And>i. dyn \<Longrightarrow> i < length ts \<Longrightarrow> acc (cnt ctx1) (if i \<le> idx then mm # P else P) l (B + i * blk l) (ts1 ! i)"
  shows "at_entry c0 dyn mm P ref l B (Suc idx) (va + XLAT_BLOCK_SIZE l) ctx1 ts1"
proof -
  have le: "unat va + blk l \<le> B + length ts * blk l" "B + length ts * blk l \<le> 2 ^ 48"
    using a at_entry_bound [OF a] by (auto simp: at_entry_def)
  have v: "unat (va + XLAT_BLOCK_SIZE l) = unat va + blk l"
    by (rule unat_next) (use le in simp)
  have len: "length ts1 = length ts" "strip ctx1 = strip ctx"
    using t(2) by (auto simp: extends_def)
  have "meets mm v (lookf l B ts1 v)" if "B \<le> v \<and> v < B + length ts * blk l" for v
    using meets_upd [OF u [of v]] a that by (auto simp: at_entry_def)
  moreover have "lookf l B ts1 v \<noteq> None" if "B \<le> v \<and> v < unat va + blk l \<and> rs mm \<le> v" for v
    using upd_done [OF u [of v]] n(2) le(1) that by auto
  moreover have "covered P (lookf l B ts1) B (B + length ts * blk l)"
  proof (rule covered_sub [of P "lookf l B ts" B "B + length ts * blk l"])
    show "lookf l B ts1 v \<noteq> None" if "B \<le> v" "v < B + length ts * blk l" "lookf l B ts v \<noteq> None" for v
      using u [OF that(1,2)] that(3) by (auto simp: upd_def)
  qed (use a in \<open>simp_all add: at_entry_def\<close>)
  moreover have "acc (cnt ctx1) (if i < Suc idx then mm # P else P) l (B + i * blk l) (ts1 ! i)" if "dyn" "i < length ts" for i
    using q [OF that] by (simp add: less_Suc_eq_le)
  ultimately show ?thesis
    using a t(1) n len by (simp add: at_entry_def v)
qed

lemma loop_end:
  assumes a: "at_entry c0 dyn mm P ref l B idx va ctx ts" and r: "region_ok mm"
    and hi: "unat va + blk l \<le> re mm" "Suc idx = length ts \<or> re mm = unat va + blk l"
  shows "outcome dyn mm (va + XLAT_BLOCK_SIZE l - 1) (B + length ts * blk l) (unat va + blk l)"
proof -
  have le: "unat va + blk l \<le> B + length ts * blk l" "B + length ts * blk l \<le> 2 ^ 48" "unat va = B + idx * blk l"
    using a at_entry_bound [OF a] by (auto simp: at_entry_def)
  have "unat (va + XLAT_BLOCK_SIZE l - 1) + 1 = unat va + blk l"
    using unat_last [of va l] le(1,2) blk_pos [of l] by linarith
  moreover have "unat va + blk l = min (B + length ts * blk l) (re mm)"
    using hi(2)
  proof
    assume "Suc idx = length ts"
    then have "length ts * blk l = blk l + idx * blk l"
      by (metis mult_Suc)
    then show ?thesis
      using hi(1) le by simp
  qed (use le in simp)
  ultimately show ?thesis
    by (simp add: outcome_def)
qed

lemma map_loop_ok:
  assumes sub: "l < 3 \<Longrightarrow> sub_ok c0 tot dyn mm P (Suc l) sub"
    and c: "region_ok mm" "tot \<Longrightarrow> dyn \<and> desc_mem_type (xlat_regime c0) (attr mm) \<noteq> None"
  shows "at_entry c0 dyn mm P ref l B idx va ctx ts \<Longrightarrow> idx + n = length ts \<Longrightarrow>
    yields tot (map_loop sub dyn mm ref l n idx va ctx) (sub_post c0 dyn mm P ref l B ctx ts)"
proof (induction n arbitrary: ctx ts idx va)
  case 0
  then show ?case
    by (simp add: at_entry_def)
next
  case (Suc n)
  note a = Suc.prems(1)
  have bound: "unat va + blk l \<le> B + length ts * blk l" "B + length ts * blk l \<le> 2 ^ 48"
    using at_entry_bound [OF a] a by (simp_all add: at_entry_def)
  have len_pages: "4096 dvd B + length ts * blk l"
    using a page_dvd_blk page_dvd_if by (auto simp: at_entry_def intro!: dvd_add dvd_mult)
  have lk: "B \<le> v" "v < B + length ts * blk l" "lookf l B ts v = look l (ts ! idx) v" if "unat va \<le> v" "v < unat va + blk l" for v
    using a that lookf_nth [of B idx l v ts] bound(1) unfolding at_entry_def by (linarith | simp)+
  have "covered P (look l (ts ! idx)) (unat va) (unat va + blk l)"
    by (rule covered_sub [of P "lookf l B ts" B "B + length ts * blk l"]) (use a bound(1) lk(3) in \<open>auto simp: at_entry_def\<close>)
  moreover have "acc (cnt ctx) P l (unat va) (ts ! idx)" if dyn
    using a that by (auto simp: at_entry_def dest!: spec [of _ idx])
  ultimately have "yields tot (map_entry sub dyn mm ref l idx va ctx) (entry_post c0 dyn mm P ref l idx (unat va) ctx ts)"
  proof (intro map_entry_ok [OF sub])
    show "meets mm v (look l (ts ! idx) v)" if "unat va \<le> v" "v < unat va + blk l" for v
      using a lk [OF that] unfolding at_entry_def by metis
  qed (use a bound c in \<open>auto simp: at_entry_def\<close>)
  then show ?case
    unfolding map_loop.simps(2)
  proof (elim yields_bind [OF yields_mono], clarify)
    fix stop ctx1
    assume p: "entry_post c0 dyn mm P ref l idx (unat va) ctx ts (stop, ctx1)"
    obtain ts1 hi where t: "tinv dyn ctx1 ref l ts1" "extends dyn ctx ref ts ctx1 ts1" "entry_outcome dyn mm stop (unat va + blk l) hi"
      "\<And>v. B \<le> v \<Longrightarrow> v < B + length ts * blk l \<Longrightarrow> upd c0 mm hi v (lookf l B ts v) (lookf l B ts1 v)"
      "\<And>k. k \<notin> set (tabss ts1) \<Longrightarrow> cnt ctx1 k = cnt ctx k"
      "\<And>i. dyn \<Longrightarrow> entry_done mm stop \<Longrightarrow> i < length ts \<Longrightarrow> acc (cnt ctx1) (if i \<le> idx then mm # P else P) l (B + i * blk l) (ts1 ! i)"
      using loop_step [OF a p] by blast
    have len: "length ts1 = length ts"
      using t(2) by (simp add: extends_def)
    have all: "accs (cnt ctx1) (mm # P) l B ts1" if d: "dyn" "entry_done mm stop" and far: "re mm \<le> unat va + blk l \<or> Suc idx = length ts"
      unfolding accs_def
    proof (intro allI impI)
      fix i assume i: "i < length ts1"
      have "acc (cnt ctx1) (if i \<le> idx then mm # P else P) l (B + i * blk l) (ts1 ! i)"
        using t(6) [OF d] i len by simp
      moreover have "re mm \<le> B + i * blk l" if "idx < i"
        using far that i len mult_le_mono1 [of "Suc idx" i "blk l"] a by (auto simp: at_entry_def)
      then have "idx < i \<Longrightarrow> acc (cnt ctx1) (mm # P) l (B + i * blk l) (ts1 ! i) \<longleftrightarrow> acc (cnt ctx1) P l (B + i * blk l) (ts1 ! i)"
        using acc_apart [OF inv_rep [OF t(1) i]] t(1) unfolding tinv_def by blast
      ultimately show "acc (cnt ctx1) (mm # P) l (B + i * blk l) (ts1 ! i)"
        by (cases "i \<le> idx") (simp_all split: if_splits)
    qed
    let ?va = "va + XLAT_BLOCK_SIZE l"
    show "yields tot (case stop of Some end_va \<Rightarrow> Some (end_va, ctx1)
            | None \<Rightarrow> let va = ?va in if base_va mm + region_size mm - 1 \<le> va then Some (va - 1, ctx1)
                else map_loop sub dyn mm ref l n (Suc idx) va ctx1) (sub_post c0 dyn mm P ref l B ctx ts)"
    proof (cases stop)
      case (Some e)
      then have "outcome dyn mm e (B + length ts * blk l) hi"
        using t(3) bound by (auto simp: entry_outcome_def outcome_def)
      moreover have "accs (cnt ctx1) (mm # P) l B ts1" if "dyn" "unat e + 1 = min (B + length ts * blk l) (re mm)"
      proof -
        have "\<not> 4096 dvd unat e"
          using len_pages region_okD(3) [OF c(1)] that(2) by (auto simp: min_def split: if_splits) (metis dvd_add_right_iff nat_dvd_1_iff_1 numeral_eq_one_iff semiring_norm(85) Suc_eq_plus1)+
        then show ?thesis
          using t(3) Some by (intro all that(1)) (auto simp: entry_outcome_def entry_done_def)
      qed
      ultimately show ?thesis
        using sub_postI [OF t(1,2) _ t(4,5)] Some by simp
    next
      case None
      then have hi: "hi = unat va + blk l" "unat va + blk l \<le> re mm"
        using t(3) by (simp_all add: entry_outcome_def)
      have v: "unat ?va = unat va + blk l"
        by (rule unat_next) (use bound in simp)
      have page: "4096 dvd unat va + blk l"
        using a page_dvd_blk page_dvd_if by (auto simp: at_entry_def intro!: dvd_add dvd_mult)
      have cont: "base_va mm + region_size mm - 1 \<le> ?va \<longleftrightarrow> re mm = unat va + blk l"
        using page_gap [OF page region_okD(3) [OF c(1)]] hi
        unfolding word_le_nat_alt v region_okD(5) [OF c(1)] by linarith
      have last: "sub_post c0 dyn mm P ref l B ctx ts (?va - 1, ctx1)" if "Suc idx = length ts \<or> re mm = unat va + blk l"
        using that None hi(1) t(4)
        by (intro sub_postI [OF t(1,2) loop_end [OF a c(1) hi(2) that] _ t(5)] all) (auto simp: entry_done_def)
      show ?thesis
      proof (cases "re mm = unat va + blk l \<or> n = 0")
        case True
        then show ?thesis
          using None cont last Suc.prems(2) by (auto simp: Let_def)
      next
        case False
        then have nxt: "at_entry c0 dyn mm P ref l B (Suc idx) ?va ctx1 ts1"
          using t(4,6) hi Suc.prems(2) None by (intro loop_next [OF a t(1,2)]) (auto simp: entry_done_def)
        have next_len: "Suc idx + n = length ts1"
          using Suc.prems(2) len by simp
        have "yields tot (map_loop sub dyn mm ref l n (Suc idx) ?va ctx1) (sub_post c0 dyn mm P ref l B ctx ts)"
        proof (rule yields_mono [OF Suc.IH [OF nxt next_len]], clarify)
          fix e ctx2
          assume "sub_post c0 dyn mm P ref l B ctx1 ts1 (e, ctx2)"
          then obtain ts2 h2 where s: "tinv dyn ctx2 ref l ts2" "extends dyn ctx1 ref ts1 ctx2 ts2"
            "outcome dyn mm e (B + length ts * blk l) h2"
            "\<forall>v. B \<le> v \<and> v < B + length ts * blk l \<longrightarrow> upd c0 mm h2 v (lookf l B ts1 v) (lookf l B ts2 v)"
            "\<forall>k. k \<notin> set (tabss ts2) \<longrightarrow> cnt ctx2 k = cnt ctx1 k"
            "dyn \<and> unat e + 1 = min (B + length ts * blk l) (re mm) \<longrightarrow> accs (cnt ctx2) (mm # P) l B ts2"
            by (auto simp: sub_post_def len)
          have "cnt ctx2 k = cnt ctx k" if "k \<notin> set (tabss ts2)" for k
            using s(2,5) t(5) that by (auto simp: extends_def)
          then show "sub_post c0 dyn mm P ref l B ctx ts (e, ctx2)"
            using upd_mono [OF upd_trans [OF t(4)]] s(4,6)
            by (intro sub_postI [OF s(1) extends_trans [OF t(2) s(2)] s(3)]) (meson max.cobounded2, simp_all)
        qed
        then show ?thesis
          using None cont False by (simp add: Let_def)
      qed
    qed
  qed
qed

lemma first_entry_ok:
  assumes r: "region_ok mm" and b: "unat tva = B" "blk l dvd B" "rs mm < B + n * blk l" "B < re mm" "0 < n"
  obtains idx va where "first_entry mm tva n l = Some (idx, va)" "idx < n" "unat va = B + idx * blk l" "rs mm < unat va + blk l"
    "unat va < re mm" "\<And>v. B \<le> v \<Longrightarrow> v < unat va \<Longrightarrow> v < rs mm"
proof (cases "B < rs mm")
  case False
  then have "first_entry mm tva n l = Some (0, tva)"
    using b(1) by (simp add: first_entry_def word_less_nat_alt rs_def)
  then show thesis
    using that [of 0 tva] b False blk_pos [of l] by simp
next
  case True
  define va where "va = base_va mm AND NOT (XLAT_BLOCK_MASK l)"
  obtain q where q: "B = blk l * q"
    using b(2) by blast
  have va: "unat va = bb l (rs mm)"
    by (simp add: va_def unat_align_down rs_def bb_def minus_mod_eq_div_mult)
  have "q \<le> rs mm div blk l"
    using True q by (simp add: less_eq_div_iff_mult_less_eq mult.commute)
  then have B: "B \<le> bb l (rs mm)"
    by (simp add: q bb_def)
  define idx where "idx = unat (drop_bit (XLAT_ADDR_SHIFT l) (va - tva))"
  have "unat (va - tva) = (rs mm div blk l - q) * blk l"
    using B b(1) va by (subst unat_sub_nowrap) (simp_all add: q bb_def diff_mult_distrib mult.commute [of q])
  then have idx: "idx = rs mm div blk l - q"
    by (simp add: idx_def unat_drop_shift)
  have e: "unat va = B + idx * blk l"
    using va \<open>q \<le> rs mm div blk l\<close> by (simp add: idx q bb_def diff_mult_distrib algebra_simps)
  have "idx < n"
    using b(3) e va bb_le(1) [of l "rs mm"] by (metis add_less_cancel_left le_less_trans mult_less_cancel2)
  moreover have "first_entry mm tva n l = Some (idx, va)"
    using True b(1) \<open>idx < n\<close> by (simp add: first_entry_def word_less_nat_alt rs_def Let_def va_def idx_def)
  ultimately show thesis
    using that [of idx va] e va bb_le [where l = l and v = "rs mm"] region_okD(1) [OF r] by simp
qed

text \<open>The body of the recursion for a table, then the recursion itself.\<close>

lemma map_table_ok:
  assumes sub: "l < 3 \<Longrightarrow> sub_ok c0 tot dyn mm P (Suc l) sub"
    and c: "region_ok mm" "tot \<Longrightarrow> dyn \<and> desc_mem_type (xlat_regime c0) (attr mm) \<noteq> None"
    and i: "tinv dyn ctx ref l ts" "strip ctx = strip c0" "0 < length ts"
    and b: "unat tva = B" "blk l dvd B" "rs mm < B + length ts * blk l" "B < re mm" "B + length ts * blk l \<le> 2 ^ 48"
    and m: "\<And>v. B \<le> v \<Longrightarrow> v < B + length ts * blk l \<Longrightarrow> meets mm v (lookf l B ts v)"
    and q: "dyn \<Longrightarrow> accs (cnt ctx) P l B ts" "covered P (lookf l B ts) B (B + length ts * blk l)"
  obtains idx va where "first_entry mm tva (length ts) l = Some (idx, va)"
    "yields tot (map_loop sub dyn mm ref l (length ts - idx) idx va ctx) (sub_post c0 dyn mm P ref l B ctx ts)"
proof -
  obtain idx va where f: "first_entry mm tva (length ts) l = Some (idx, va)" "idx < length ts" "unat va = B + idx * blk l"
    "rs mm < unat va + blk l" "unat va < re mm" "\<And>v. B \<le> v \<Longrightarrow> v < unat va \<Longrightarrow> v < rs mm"
    using first_entry_ok [OF c(1) b(1-4) i(3)] by blast
  have acc0: "acc (cnt ctx) (if j < idx then mm # P else P) l (B + j * blk l) (ts ! j)" if "dyn" "j < length ts" for j
  proof (cases "j < idx")
    case True
    have "B + j * blk l + blk l \<le> unat va"
      using mult_le_mono1 [of "Suc j" idx "blk l"] True f(3) by simp
    then have "B + j * blk l + blk l - 1 < rs mm"
      using blk_pos [of l] by (intro f(6)) linarith+
    then have "B + j * blk l + blk l \<le> rs mm"
      using blk_pos [of l] by simp
    then show ?thesis
      using True q(1) that acc_apart [OF inv_rep [OF i(1) that(2)]] i(1) by (auto simp: accs_def tinv_def)
  qed (use q(1) that in \<open>simp add: accs_def\<close>)
  have none: "lookf l B ts v \<noteq> None" if "B \<le> v \<and> v < unat va \<and> rs mm \<le> v" for v
    using f(6) [of v] that by simp
  have "at_entry c0 dyn mm P ref l B idx va ctx ts"
    unfolding at_entry_def using f(2-5) b i m q(2) acc0 none by blast
  then show thesis
    using that [OF f(1)] map_loop_ok [OF sub c] f(2) by simp
qed

lemma recursion_ok:
  assumes c: "region_ok mm" "tot \<Longrightarrow> dyn \<and> desc_mem_type (xlat_regime c0) (attr mm) \<noteq> None"
  shows "base_level c0 < l \<Longrightarrow> l \<le> 3 \<Longrightarrow> 3 < l + depth \<Longrightarrow>
    sub_ok c0 tot dyn mm P l (\<lambda>va t l ctx. xlat_tables_map_region depth dyn mm va t XLAT_TABLE_ENTRIES l ctx)"
proof (induction depth arbitrary: l)
  case (Suc depth)
  let ?sub = "\<lambda>va t l ctx. xlat_tables_map_region depth dyn mm va t XLAT_TABLE_ENTRIES l ctx"
  have sub: "sub_ok c0 tot dyn mm P (Suc l) ?sub" if "l < 3"
    using Suc that by simp
  show ?case
    unfolding sub_ok_def
  proof (intro allI impI)
    fix va :: u64 and k ctx us
    assume s: "strip ctx = strip c0" and d: "512 * blk l dvd unat va" and a: "unat va + 512 * blk l \<le> 2 ^ 48" "rs mm < unat va + 512 * blk l" "unat va < re mm"
      and k: "k < length (tables ctx)" "wf_ctx dyn ctx" and i: "tinv dyn (claim dyn k ctx) (Subtable k) l us"
      and m: "\<forall>v. unat va \<le> v \<and> v < unat va + 512 * blk l \<longrightarrow> meets mm v (lookf l (unat va) us v)"
      and q: "dyn \<longrightarrow> accs (cnt (claim dyn k ctx)) P l (unat va) us" "covered P (lookf l (unat va) us) (unat va) (unat va + 512 * blk l)"
    note len = tinv_sub_length [OF i]
    have inc: "(if dyn \<and> base_level ctx < l then xlat_table_inc_regions_count ctx (Subtable k) else Some ctx) = Some (claim dyn k ctx)"
      using inc_claim k s Suc.prems(1) strip_fields(2) [OF s] by (cases dyn) (auto simp: claim_def)
    obtain idx va' where f: "first_entry mm va (length us) l = Some (idx, va')"
      "yields tot (map_loop ?sub dyn mm (Subtable k) l (length us - idx) idx va' (claim dyn k ctx))
        (sub_post c0 dyn mm P (Subtable k) l (unat va) (claim dyn k ctx) us)"
    proof (rule map_table_ok [OF sub c i])
      show "blk l dvd unat va"
        using d by (rule dvd_mult_right)
    qed (use s a m q len in auto)
    then show "yields tot (xlat_tables_map_region (Suc depth) dyn mm va (Subtable k) XLAT_TABLE_ENTRIES l ctx)
        (sub_post c0 dyn mm P (Subtable k) l (unat va) (claim dyn k ctx) us)"
      using inc Suc.prems strip_fields(2) [OF s] len by (simp add: XLAT_TABLE_ENTRIES_def XLAT_TABLE_LEVEL_MAX_def)
  qed
qed simp

text \<open>The call on the base table.\<close>

lemma map_region_ok:
  assumes c: "region_ok mm" "tot \<Longrightarrow> dyn \<and> desc_mem_type (xlat_regime ctx) (attr mm) \<noteq> None"
    and i: "tinv dyn ctx Base (base_level ctx) ts"
    and b: "re mm \<le> length ts * blk (base_level ctx)" "length ts * blk (base_level ctx) \<le> 2 ^ 48"
    and m: "\<And>v. v < length ts * blk (base_level ctx) \<Longrightarrow> meets mm v (lookf (base_level ctx) 0 ts v)"
    and q: "dyn \<Longrightarrow> accs (cnt ctx) P (base_level ctx) 0 ts" "covered P (lookf (base_level ctx) 0 ts) 0 (length ts * blk (base_level ctx))"
  shows "yields tot (xlat_tables_map_region 4 dyn mm 0 Base (length (base_table ctx)) (base_level ctx) ctx)
    (sub_post ctx dyn mm P Base (base_level ctx) 0 ctx ts)"
proof -
  let ?l = "base_level ctx"
  let ?sub = "\<lambda>va t l ctx. xlat_tables_map_region 3 dyn mm va t XLAT_TABLE_ENTRIES l ctx"
  have sub: "sub_ok ctx tot dyn mm P (Suc ?l) ?sub" if "?l < 3"
    using recursion_ok [OF c, where l = "Suc ?l" and depth = 3] that by simp
  have len: "length (base_table ctx) = length ts" and l3: "?l \<le> 3"
    using tinv_length [OF i] i by (simp_all add: tinv_def)
  obtain idx va where "first_entry mm 0 (length ts) ?l = Some (idx, va)"
    "yields tot (map_loop ?sub dyn mm Base ?l (length ts - idx) idx va ctx) (sub_post ctx dyn mm P Base ?l 0 ctx ts)"
    by (rule map_table_ok [where tva = 0 and B = 0, OF sub c i]) (use b m q region_okD(1) [OF c(1)] in auto)
  moreover have four: "(4 :: nat) = Suc 3"
    by simp
  ultimately show ?thesis
    using l3 unfolding four xlat_tables_map_region.simps(2) by (simp add: len XLAT_TABLE_LEVEL_MAX_def)
qed

end
