(* ===== verification/Xlat_regions.thy ===== *)
theory Xlat_regions
  imports Xlat_map
begin

text \<open>
  The list of regions: it is ordered by end address, then by size, and of any two regions one holds the
  other or they are apart. Adding a region keeps this, so that the first region of the list that holds
  an address is the smallest one.
\<close>

section \<open>The order of regions\<close>

definition klt :: "mmap_region \<Rightarrow> mmap_region \<Rightarrow> bool" where
  "klt c m \<longleftrightarrow> region_end c < region_end m \<or> (region_end c = region_end m \<and> region_size c < region_size m)"

definition nest :: "mmap_region \<Rightarrow> mmap_region \<Rightarrow> bool" where
  "nest c m \<longleftrightarrow> fully_overlapped_va c m \<or> separated_va c m"

definition arranged :: "mmap_region list \<Rightarrow> bool" where
  "arranged regs \<longleftrightarrow> (\<forall>m \<in> set regs. region_ok m) \<and> sorted_wrt klt regs \<and> sorted_wrt nest regs"

definition mmap_is :: "xlat_ctx \<Rightarrow> mmap_region list \<Rightarrow> bool" where
  "mmap_is ctx regs \<longleftrightarrow> mmap ctx = regs @ replicate (mmap_num ctx + 1 - length regs) zero_region \<and> length regs \<le> mmap_num ctx \<and> arranged regs"

lemma mmap_isE:
  assumes "mmap_is ctx regs"
  obtains k where "mmap ctx = regs @ replicate (Suc k) zero_region" "mmap_num ctx = length regs + k" "arranged regs"
  using assms that [of "mmap_num ctx - length regs"] by (simp add: mmap_is_def Suc_diff_le)

lemma klt_trans: "klt a b \<Longrightarrow> klt b c \<Longrightarrow> klt a c"
  by (auto simp: klt_def)

lemma nest_sym: "nest a b \<longleftrightarrow> nest b a"
  by (auto simp: nest_def fully_overlapped_va_def separated_va_def)

lemma zero_region_simps [simp]: "region_size zero_region = 0" "region_end zero_region = - 1"
  by (simp_all add: zero_region_def region_end_def)

section \<open>The check of a new region\<close>

lemma word_end:
  fixes b s :: u64
  assumes "s \<noteq> 0" "b \<le> b + s - 1"
  shows "unat b + unat s = unat (b + s - 1) + 1"
proof -
  have e: "b + s - 1 = b + (s - 1)"
    by simp
  have s: "unat s = unat (s - 1) + 1"
    using assms(1) unat_sub_nowrap [of 1 s] by (simp add: unat_gt_0 Suc_le_eq)
  have "unat b + unat (s - 1) < 2 ^ LENGTH(64)"
    using assms(2) unfolding e by (simp add: no_olen_add_nat)
  then show ?thesis
    unfolding e s by (simp add: unat_add_nowrap)
qed

lemma overlaps_eq:
  assumes "\<forall>c \<in> set regs. region_size c \<noteq> 0"
  shows "check_overlaps dyn mm (regs @ replicate (Suc k) zero_region) = Some (\<forall>c \<in> set regs. check_overlap dyn mm c)"
  using assms by (induction regs) auto

lemma arranged_size: "arranged regs \<Longrightarrow> \<forall>c \<in> set regs. region_size c \<noteq> 0"
  by (simp add: arranged_def region_ok_def)

text \<open>The address space of a context.\<close>

definition space_ok :: "xlat_ctx \<Rightarrow> bool" where
  "space_ok ctx \<longleftrightarrow> unat (va_max_address ctx) < 2 ^ 48 \<and> unat (pa_max_address ctx) < 2 ^ 48 \<and> 0 < mmap_num ctx"

lemma check_region_ok:
  assumes "mmap_add_region_check dyn ctx mm = Some 0" "mmap_is ctx regs" "region_size mm \<noteq> 0" "space_ok ctx"
  shows "region_ok mm" "re mm \<le> unat (va_max_address ctx) + 1" "\<forall>c \<in> set regs. check_overlap dyn mm c" "length regs < mmap_num ctx"
proof -
  have c: "IS_PAGE_ALIGNED (base_pa mm)" "IS_PAGE_ALIGNED (base_va mm)" "IS_PAGE_ALIGNED (region_size mm)"
    "base_pa mm \<le> region_end_pa mm" "base_va mm \<le> region_end mm" "region_end mm \<le> va_max_address ctx" "region_end_pa mm \<le> pa_max_address ctx"
    "\<exists>m. aget (mmap ctx) (mmap_num ctx - 1) = Some m \<and> region_size m = 0" "check_overlaps dyn mm (mmap ctx) = Some True"
    using assms(1) unfolding mmap_add_region_check_def
    by (auto simp: XLAT_EINVAL_def XLAT_ERANGE_def XLAT_ENOMEM_def XLAT_EPERM_def bind_eq_Some_conv simp del: aget_eq_Some split: if_splits)
  have e: "re mm = unat (region_end mm) + 1" "unat (base_pa mm) + unat (region_size mm) = unat (region_end_pa mm) + 1"
    using word_end [OF assms(3)] c(4,5) by (simp_all add: re_def region_end_def region_end_pa_def)
  show "region_ok mm" "re mm \<le> unat (va_max_address ctx) + 1"
    using assms(3,4) c(1-7) e by (auto simp: region_ok_def space_ok_def page_aligned_iff word_le_nat_alt re_def)
  obtain k where k: "mmap ctx = regs @ replicate (Suc k) zero_region" "arranged regs"
    using mmap_isE [OF assms(2)] by metis
  have a: "\<forall>c \<in> set regs. region_size c \<noteq> 0"
    using k(2) by (rule arranged_size)
  then show "\<forall>c \<in> set regs. check_overlap dyn mm c"
    using c(9) overlaps_eq [OF a, of dyn mm k] unfolding k(1) by simp
  show "length regs < mmap_num ctx"
  proof (rule ccontr)
    assume "\<not> length regs < mmap_num ctx"
    then have "length regs = mmap_num ctx"
      using assms(2) by (simp add: mmap_is_def)
    then have "mmap ctx ! (mmap_num ctx - 1) \<in> set regs"
      using assms(2,4) by (simp add: mmap_is_def space_ok_def nth_append)
    then show False
      using c(8) a by auto
  qed
qed

section \<open>The place of a new region\<close>

lemma skip_lower_eq:
  assumes "\<forall>c \<in> set regs. region_size c \<noteq> 0"
  shows "skip_lower mm (regs @ replicate (Suc k) zero_region) = Some (length (takeWhile (\<lambda>c. region_end c < region_end mm) regs))"
  using assms by (induction regs) auto

lemma skip_smaller_eq:
  assumes "region_end mm \<noteq> - 1"
  shows "skip_smaller mm (regs @ replicate (Suc k) zero_region) =
    Some (length (takeWhile (\<lambda>c. region_end c = region_end mm \<and> region_size c < region_size mm) regs))"
  using assms by (induction regs) auto

lemma used_regions_eq:
  assumes "\<forall>c \<in> set regs. region_size c \<noteq> 0"
  shows "used_regions (regs @ replicate (Suc k) zero_region) = Some (length regs)"
  using assms by (induction regs) auto

lemma region_end_not_max: "region_ok mm \<Longrightarrow> region_end mm \<noteq> - 1"
proof
  assume r: "region_ok mm" and "region_end mm = - 1"
  then have "unat (- 1 :: u64) = re mm - 1" "re mm \<le> 2 ^ 48"
    using region_okD [OF r] by auto
  then show False
    by (simp add: unsigned_minus_1_eq_mask mask_eq_exp_minus_1)
qed

lemma cursor_ok:
  assumes a: "arranged regs" and r: "region_ok mm"
  obtains i where "mmap_cursor mm (regs @ replicate (Suc k) zero_region) = Some i" "i \<le> length regs"
    "\<forall>c \<in> set (take i regs). klt c mm" "\<forall>c \<in> set (drop i regs). \<not> klt c mm"
proof -
  let ?A = "\<lambda>c. region_end c < region_end mm" and ?B = "\<lambda>c. region_end c = region_end mm \<and> region_size c < region_size mm"
  define xs where "xs = takeWhile ?A regs"
  define ws where "ws = dropWhile ?A regs"
  define ys where "ys = takeWhile ?B ws"
  define zs where "zs = dropWhile ?B ws"
  let ?Z = "replicate (Suc k) zero_region"
  have split: "regs = xs @ ws" "ws = ys @ zs"
    by (simp_all add: xs_def ys_def zs_def ws_def)
  have "drop (length xs) (regs @ ?Z) = ws @ ?Z"
    unfolding split(1) by simp
  moreover have "skip_lower mm (regs @ ?Z) = Some (length xs)"
    unfolding xs_def by (rule skip_lower_eq [OF arranged_size [OF a]])
  moreover have "skip_smaller mm (ws @ ?Z) = Some (length ys)"
    unfolding ys_def by (rule skip_smaller_eq [OF region_end_not_max [OF r]])
  ultimately have "mmap_cursor mm (regs @ ?Z) = Some (length xs + length ys)"
    by (simp only: mmap_cursor_def Option.bind.bind_lunit)
  moreover have "\<forall>c \<in> set (xs @ ys). klt c mm"
    by (auto simp: xs_def ys_def klt_def dest: set_takeWhileD)
  moreover have srt: "sorted_wrt klt ws" "sorted_wrt klt zs"
    using a unfolding split by (auto simp: arranged_def sorted_wrt_append)
  have first: "c = hd us \<or> klt (hd us) c" if "sorted_wrt klt us" "c \<in> set us" for c us
    using that by (cases us) auto
  have hd_ws: "\<not> ?A (hd ws)" if "ws \<noteq> []"
    using that hd_dropWhile [of ?A regs] by (simp add: ws_def)
  have A: "\<not> ?A c" if "c \<in> set ws" for c
  proof -
    have "ws \<noteq> []"
      using that by auto
    then show ?thesis
      using first [OF srt(1) that] hd_ws by (auto simp: klt_def)
  qed
  have "\<not> klt c mm" if "c \<in> set zs" for c
  proof -
    have "zs \<noteq> []"
      using that by auto
    then have "hd zs \<in> set ws"
      unfolding split(2) by simp
    then have "\<not> ?A (hd zs)"
      by (rule A)
    moreover have "\<not> ?B (hd zs)"
      using \<open>zs \<noteq> []\<close> unfolding zs_def by (rule hd_dropWhile)
    ultimately show ?thesis
      using first [OF srt(2) that] klt_trans [of "hd zs" c mm] by (auto simp: klt_def)
  qed
  ultimately show thesis
    using that [of "length xs + length ys"] by (auto simp: split)
qed

lemma overlap_nest: "check_overlap dyn mm c \<Longrightarrow> nest mm c"
  by (auto simp: check_overlap_def nest_def split: if_splits)

lemma same_key:
  assumes "region_end c = region_end mm" "region_size c = region_size mm"
  shows "\<not> check_overlap dyn mm c"
proof -
  have "base_va c = base_va mm"
    using assms by (simp add: region_end_def)
  then show ?thesis
    using assms by (auto simp: check_overlap_def fully_overlapped_va_def)
qed

lemma arranged_insert:
  assumes a: "arranged regs" and r: "region_ok mm" and o: "\<forall>c \<in> set regs. check_overlap dyn mm c"
    and c: "\<forall>c \<in> set (take i regs). klt c mm" "\<forall>c \<in> set (drop i regs). \<not> klt c mm"
  shows "arranged (take i regs @ mm # drop i regs)"
proof -
  have in_regs: "c \<in> set regs" if "c \<in> set (take i regs) \<or> c \<in> set (drop i regs)" for c
    using that in_set_takeD in_set_dropD by fast
  have after: "klt mm c" if "c \<in> set (drop i regs)" for c
    using c(2) that same_key [of c mm dyn] o in_regs [of c] unfolding klt_def by (meson antisym_conv3)
  have all: "nest mm c" "nest c mm" if "c \<in> set (take i regs) \<or> c \<in> set (drop i regs)" for c
    using o in_regs [OF that] overlap_nest nest_sym by blast+
  have "sorted_wrt P (take i regs) \<and> sorted_wrt P (drop i regs) \<and> (\<forall>x \<in> set (take i regs). \<forall>y \<in> set (drop i regs). P x y)"
    if "sorted_wrt P regs" for P
    using that sorted_wrt_append [of P "take i regs" "drop i regs"] by simp
  from this [of klt] this [of nest] show ?thesis
    using a r c(1) after all in_regs by (auto simp: arranged_def sorted_wrt_append)
qed

lemma move_up_eq:
  assumes "i \<le> length regs" "length regs \<le> l" "l \<le> length regs + k"
  shows "move_up mm i l (regs @ replicate (Suc k) zero_region) = (take i regs @ mm # drop i regs) @ replicate k zero_region"
proof -
  have "drop i (take l (regs @ replicate (Suc k) zero_region)) = drop i regs @ replicate (l - length regs) zero_region"
    using assms by (simp add: min_def del: replicate.simps)
  moreover have "drop (Suc l) (regs @ replicate (Suc k) zero_region) = replicate (k - (l - length regs)) zero_region"
    using assms by (simp add: Suc_diff_le)
  moreover have "replicate (l - length regs) zero_region @ replicate (k - (l - length regs)) zero_region = replicate k zero_region"
    using assms by (simp flip: replicate_add)
  ultimately show ?thesis
    using assms by (simp add: move_up_def del: replicate.simps)
qed

text \<open>With dynamic regions, one that is dynamic lies apart from all others.\<close>

definition lone :: "mmap_region list \<Rightarrow> bool" where
  "lone regs \<longleftrightarrow> (\<forall>m \<in> set regs. \<forall>c \<in> set regs. attr m AND MT_DYNAMIC \<noteq> 0 \<and> c \<noteq> m \<longrightarrow> re c \<le> rs m \<or> re m \<le> rs c)"

lemma dynamic_apart:
  assumes "check_overlap True mm c" "attr mm AND MT_DYNAMIC \<noteq> 0 \<or> attr c AND MT_DYNAMIC \<noteq> 0" "region_ok mm" "region_ok c"
  shows "re c \<le> rs mm \<or> re mm \<le> rs c"
proof -
  have "separated_va mm c"
    using assms(1,2) by (auto simp: check_overlap_def split: if_splits)
  then show ?thesis
    using region_okD [OF assms(3)] region_okD [OF assms(4)] by (auto simp: separated_va_def word_less_nat_alt rs_def)
qed

lemma lone_insert:
  assumes "lone regs" "\<forall>c \<in> set regs. check_overlap True mm c" "region_ok mm" "\<forall>c \<in> set regs. region_ok c" "set regs' = insert mm (set regs)"
  shows "lone regs'"
proof -
  have a: "re c \<le> rs mm \<or> re mm \<le> rs c" if "c \<in> set regs" "attr mm AND MT_DYNAMIC \<noteq> 0 \<or> attr c AND MT_DYNAMIC \<noteq> 0" for c
    using dynamic_apart [of mm c] assms(2-4) that by blast
  show ?thesis
    unfolding lone_def assms(5)
  proof (intro ballI impI)
    fix m c assume m: "m \<in> insert mm (set regs)" and c: "c \<in> insert mm (set regs)" and d: "attr m AND MT_DYNAMIC \<noteq> 0 \<and> c \<noteq> m"
    show "re c \<le> rs m \<or> re m \<le> rs c"
      using a [of c] a [of m] assms(1) m c d unfolding lone_def by blast
  qed
qed

text \<open>Both operations that add a region insert it at the cursor.\<close>

lemma insert_region:
  assumes m: "mmap_is ctx regs" and s: "space_ok ctx" "region_size mm \<noteq> 0" and c: "mmap_add_region_check dyn ctx mm = Some 0"
  obtains i k where "mmap_cursor mm (mmap ctx) = Some i" "used_regions (mmap ctx) = Some (length regs)" "mmap_num ctx = Suc (length regs + k)"
    "\<And>l. length regs \<le> l \<Longrightarrow> l \<le> mmap_num ctx \<Longrightarrow>
       move_up mm i l (mmap ctx) = (take i regs @ mm # drop i regs) @ replicate (Suc k) zero_region"
    "arranged (take i regs @ mm # drop i regs)" "i \<le> length regs"
proof -
  note C = check_region_ok [OF c m s(2,1)]
  obtain k where k: "mmap ctx = regs @ replicate (Suc k) zero_region" "mmap_num ctx = length regs + k" and a: "arranged regs"
    using mmap_isE [OF m] by metis
  obtain i where i: "mmap_cursor mm (mmap ctx) = Some i" "i \<le> length regs" "\<forall>c \<in> set (take i regs). klt c mm"
    "\<forall>c \<in> set (drop i regs). \<not> klt c mm"
    using cursor_ok [OF a C(1)] k(1) by metis
  obtain k' where k': "k = Suc k'"
    using C(4) k(2) by (cases k) auto
  show thesis
  proof (rule that [OF i(1) _ _ _ arranged_insert [OF a C(1,3) i(3,4)] i(2)])
    show "used_regions (mmap ctx) = Some (length regs)"
      unfolding k(1) by (rule used_regions_eq [OF arranged_size [OF a]])
    show "mmap_num ctx = Suc (length regs + k')"
      using k(2) k' by simp
    show "move_up mm i l (mmap ctx) = (take i regs @ mm # drop i regs) @ replicate (Suc k') zero_region"
      if "length regs \<le> l" "l \<le> mmap_num ctx" for l
      unfolding k(1) k' [symmetric] by (rule move_up_eq [OF i(2) that(1)]) (use that k(2) in simp)
  qed
qed

lemma add_region_spec:
  assumes "mmap_is ctx regs" "space_ok ctx" "mmap_add_region_ctx dyn ctx mm = Some ctx'" "region_size mm \<noteq> 0"
  obtains i where "i \<le> length regs" "mmap_is ctx' (take i regs @ mm # drop i regs)" "re mm \<le> unat (va_max_address ctx) + 1"
    "ctx' = raise_max mm (ctx\<lparr>mmap := mmap ctx'\<rparr>)" "region_ok mm" "\<forall>c \<in> set regs. check_overlap dyn mm c"
proof -
  have c: "mmap_add_region_check dyn ctx mm = Some 0"
    using assms(3,4) by (auto simp: mmap_add_region_ctx_def bind_eq_Some_conv ensure_def split: if_splits)
  obtain i k where i: "mmap_cursor mm (mmap ctx) = Some i" "used_regions (mmap ctx) = Some (length regs)" "mmap_num ctx = Suc (length regs + k)"
    "\<And>l. length regs \<le> l \<Longrightarrow> l \<le> mmap_num ctx \<Longrightarrow>
       move_up mm i l (mmap ctx) = (take i regs @ mm # drop i regs) @ replicate (Suc k) zero_region"
    "arranged (take i regs @ mm # drop i regs)" "i \<le> length regs"
    using insert_region [OF assms(1,2,4) c] by metis
  define xs where "xs = (take i regs @ mm # drop i regs) @ replicate (Suc k) zero_region"
  have "move_up mm i (length regs) (mmap ctx) = xs"
    unfolding xs_def by (rule i(4)) (use i(3) in simp_all)
  then have e: "ctx' = raise_max mm (ctx\<lparr>mmap := xs\<rparr>)"
    using assms(3,4) i(1,2) by (auto simp: mmap_add_region_ctx_def bind_eq_Some_conv Let_def)
  then have f: "mmap ctx' = xs" "mmap_num ctx' = mmap_num ctx"
    by (simp_all add: raise_max_def)
  have "mmap_is ctx' (take i regs @ mm # drop i regs)"
    using i(3,5,6) by (simp add: mmap_is_def f xs_def Suc_diff_le)
  then show thesis
    using that [OF i(6)] check_region_ok [OF c assms(1,4,2)] e f(1) by simp
qed

end
