(* ===== verification/Xlat_build.thy ===== *)
theory Xlat_build
  imports Xlat_regions
begin

text \<open>
  What the translation tables give: \<open>translate\<close> is the physical address and the attributes that a table
  walk finds for a virtual address, \<open>spec_translate\<close> is what the list of regions says. Building the
  tables makes the two agree.
\<close>

section \<open>The table walk\<close>

definition translate :: "xlat_ctx \<Rightarrow> u64 \<Rightarrow> (u64 \<times> u32) option option" where
  "translate ctx va = do {
     entry \<leftarrow> find_xlat_table_entry ctx va (va_max_address ctx + 1);
     (case entry of
        None \<Rightarrow> Some None
      | Some (t, i, level) \<Rightarrow> do {
          desc \<leftarrow> get_entry ctx t i;
          a \<leftarrow> desc_attributes (xlat_regime ctx) desc;
          Some (Some ((desc AND TABLE_ADDR_MASK) + (va AND XLAT_BLOCK_MASK level), a))
        })
   }"

definition holds_va :: "u64 \<Rightarrow> mmap_region \<Rightarrow> bool" where
  "holds_va va mm \<longleftrightarrow> base_va mm \<le> va \<and> va \<le> region_end mm"

definition spec_translate :: "xlat_regime \<Rightarrow> mmap_region list \<Rightarrow> u64 \<Rightarrow> (u64 \<times> u32) option" where
  "spec_translate regime regs va =
     map_option (\<lambda>mm. (base_pa mm + (va - base_va mm), effective_attr regime (attr mm))) (find (holds_va va) regs)"

lemma walk_ok:
  assumes "v = unat va"
  shows "tinv dyn ctx ref l ts \<Longrightarrow> 3 < l + n \<Longrightarrow> v div blk l mod 512 < length ts \<Longrightarrow>
    (case look l (ts ! (v div blk l mod 512)) v of
       None \<Rightarrow> walk_loop n ctx va ref (length ts) l = Some None
     | Some (d, L) \<Rightarrow> \<exists>t i. walk_loop n ctx va ref (length ts) l = Some (Some (t, i, L)) \<and> get_entry ctx t i = Some d)"
proof (induction n arbitrary: l ref ts)
  case 0
  then show ?case
    by (simp add: tinv_def)
next
  case (Suc n)
  let ?i = "v div blk l mod 512"
  define d where "d = content ctx ref ! ?i"
  have w: "wf_ctx dyn ctx" "l \<le> 3"
    using Suc.prems(1) by (simp_all add: tinv_def)
  have r: "rep ctx l (ts ! ?i) d"
    using inv_rep [OF Suc.prems(1,3)] by (simp add: d_def)
  have g: "get_entry ctx ref ?i = Some d"
    using get_entry_Some [OF Suc.prems(1,3)] by (simp add: d_def)
  have idx: "XLAT_TABLE_IDX va l = ?i"
    by (simp add: unat_table_idx assms)
  have step: "walk_loop (Suc n) ctx va ref (length ts) l =
      (if d AND DESC_MASK = INVALID_DESC then Some None
       else if l = 3 then do { ensure (d AND DESC_MASK = PAGE_DESC); Some (Some (ref, ?i, l)) }
       else if d AND DESC_MASK = BLOCK_DESC then Some (Some (ref, ?i, l))
       else do { ensure (d AND DESC_MASK = TABLE_DESC); t \<leftarrow> addr_subtable ctx (d AND TABLE_ADDR_MASK); walk_loop n ctx va t XLAT_TABLE_ENTRIES (l + 1) })"
    using Suc.prems(3) g by (simp add: idx XLAT_TABLE_LEVEL_MAX_def)
  note ty = rep_type [OF r w(1)]
  show ?case
  proof (cases "ts ! ?i")
    case Unmapped
    then show ?thesis
      using ty step by simp
  next
    case (Leaf e)
    then have "d = e"
      using r by simp
    moreover have "walk_loop (Suc n) ctx va ref (length ts) l = Some (Some (ref, ?i, l))"
      using ty Leaf desc_distinct [THEN not_sym] unfolding step by simp
    ultimately show ?thesis
      using Leaf g by simp
  next
    case (Node k us)
    then have n: "l < 3" "k < length (tables ctx)" "d = TABLE_DESC OR subtable_addr ctx k"
      using r by auto
    have a: "addr_subtable ctx (d AND TABLE_ADDR_MASK) = Some (Subtable k)"
      using subtable_page_addr [OF w(1) n(2)] table_desc_bits(2) n(3) by simp
    note child = inv_child [OF Suc.prems(1,3) Node]
    have us: "length us = 512"
      by (rule tinv_sub_length [OF child])
    have e1: "walk_loop (Suc n) ctx va ref (length ts) l = walk_loop n ctx va (Subtable k) (length us) (Suc l)"
      using ty Node n(1) a us unfolding step by (simp add: XLAT_TABLE_ENTRIES_def TABLE_DESC_def INVALID_DESC_def BLOCK_DESC_def)
    have e2: "look l (ts ! ?i) v = look (Suc l) (us ! (v div blk (Suc l) mod 512)) v"
      using Node us by simp
    show ?thesis
      unfolding e1 e2 using Suc.IH [OF child] Suc.prems(2) us by (simp del: walk_loop.simps)
  qed
qed

text \<open>The shape of a context: its base table covers the address space.\<close>

definition layout :: "xlat_ctx \<Rightarrow> bool" where
  "layout ctx \<longleftrightarrow> base_level ctx = GET_XLAT_TABLE_LEVEL_BASE (va_max_address ctx + 1) \<and> length (base_table ctx) \<le> 512 \<and>
     length (base_table ctx) * blk (base_level ctx) = unat (va_max_address ctx) + 1 \<and> space_ok ctx"

lemma layout_lim:
  assumes "layout ctx"
  shows "unat (va_max_address ctx) + 1 = length (base_table ctx) * blk (base_level ctx)" "unat (va_max_address ctx) + 1 \<le> 2 ^ 48"
  using assms unfolding layout_def space_ok_def by (metis, simp)

lemma base_index:
  assumes "tinv dyn ctx Base (base_level ctx) ts" "layout ctx" "v < unat (va_max_address ctx) + 1"
  shows "v div blk (base_level ctx) mod 512 = v div blk (base_level ctx)" "v div blk (base_level ctx) < length ts"
proof -
  have len: "length (base_table ctx) = length ts"
    using tinv_length [OF assms(1)] by simp
  have "v < length ts * blk (base_level ctx)"
    using assms(3) layout_lim(1) [OF assms(2)] len by simp
  then show "v div blk (base_level ctx) < length ts"
    by (simp add: less_mult_imp_div_less)
  moreover have "length ts \<le> 512"
    using assms(2) len by (simp add: layout_def)
  ultimately show "v div blk (base_level ctx) mod 512 = v div blk (base_level ctx)"
    by simp
qed

lemma find_entry_look:
  assumes i: "tinv dyn ctx Base (base_level ctx) ts" and l: "layout ctx" and v: "va \<le> va_max_address ctx"
  shows "case lookf (base_level ctx) 0 ts (unat va) of
      None \<Rightarrow> find_xlat_table_entry ctx va (va_max_address ctx + 1) = Some None
    | Some (d, L) \<Rightarrow> \<exists>t i. find_xlat_table_entry ctx va (va_max_address ctx + 1) = Some (Some (t, i, L)) \<and> get_entry ctx t i = Some d"
proof -
  have len: "length (base_table ctx) = length ts"
    using tinv_length [OF i] by simp
  have lt: "unat va < unat (va_max_address ctx) + 1"
    using v by (simp add: word_le_nat_alt less_Suc_eq_le)
  have e: "find_xlat_table_entry ctx va (va_max_address ctx + 1) = walk_loop 4 ctx va Base (length ts) (base_level ctx)"
    using l by (simp add: find_xlat_table_entry_def layout_def len)
  show ?thesis
    unfolding e using walk_ok [OF refl i, of 4 va] base_index [OF i l lt] by (simp add: lookf_def)
qed

lemma translate_look:
  assumes i: "tinv dyn ctx Base (base_level ctx) ts" and l: "layout ctx" and v: "va \<le> va_max_address ctx"
    and r: "lookf (base_level ctx) 0 ts (unat va) = r"
  shows "translate ctx va = (case r of None \<Rightarrow> Some None
    | Some (d, L) \<Rightarrow> do { a \<leftarrow> desc_attributes (xlat_regime ctx) d; Some (Some ((d AND TABLE_ADDR_MASK) + (va AND XLAT_BLOCK_MASK L), a)) })"
  using find_entry_look [OF i l v] r by (auto simp: translate_def split: option.splits)

section \<open>Building the tables\<close>

text \<open>The tables give every address the translation of the first region that holds it.\<close>

definition realised :: "xlat_ctx \<Rightarrow> nat \<Rightarrow> mmap_region list \<Rightarrow> (nat \<Rightarrow> (u64 \<times> nat) option) \<Rightarrow> bool" where
  "realised c0 lim regs f \<longleftrightarrow>
     (\<forall>v < lim. case find (\<lambda>m. rs m \<le> v \<and> v < re m) regs of None \<Rightarrow> f v = None | Some m \<Rightarrow> \<exists>r. f v = Some r \<and> tr c0 m v r)"

lemma tr_strip: "strip ctx = strip c0 \<Longrightarrow> tr ctx = tr c0"
  by (intro ext) (simp add: tr_def xlat_desc_strip [of ctx c0])

lemma upd_strip:
  assumes "strip ctx = strip c0"
  shows "upd ctx = upd c0"
  by (intro ext) (unfold upd_def tr_strip [OF assms], rule refl)

lemma find_append: "find P (xs @ ys) = (case find P xs of None \<Rightarrow> find P ys | Some x \<Rightarrow> Some x)"
  by (induction xs) auto

lemma inside_or_apart:
  assumes "klt c m" "nest c m" "region_ok c" "region_ok m"
  shows "(rs m \<le> rs c \<and> re c \<le> re m) \<or> re c \<le> rs m \<or> re m \<le> rs c"
proof -
  have e: "unat (region_end c) + 1 = re c" "unat (region_end m) + 1 = re m" "rs c < re c" "rs m < re m"
    using region_okD [OF assms(3)] region_okD [OF assms(4)] by auto
  have s: "re c = rs c + unat (region_size c)" "re m = rs m + unat (region_size m)"
    by (simp_all add: rs_def re_def)
  show ?thesis
    using assms(1,2) e s unfolding klt_def nest_def fully_overlapped_va_def separated_va_def word_le_nat_alt word_less_nat_alt unat_eq_iff rs_def [symmetric]
    by linarith
qed

lemma realised_covered:
  assumes "realised c0 lim P f" "\<forall>c \<in> set P. region_ok c"
  shows "covered P f 0 lim"
  unfolding covered_def
proof (intro conjI ballI allI impI)
  fix m v assume m: "m \<in> set P" and v: "rs m \<le> v \<and> v < re m \<and> 0 \<le> v \<and> v < lim"
  then have "find (\<lambda>m. rs m \<le> v \<and> v < re m) P \<noteq> None"
    by (auto simp: find_None_iff)
  then show "f v \<noteq> None"
    using assms(1) v by (auto simp: realised_def dest!: spec [of _ v])
qed (use assms(2) region_okD(1) in blast)

lemma acc_hits:
  assumes "\<And>lo hi. hits P lo hi = hits Q lo hi"
  shows "acc C P l b t \<longleftrightarrow> acc C Q l b t"
  using assms by (induction C P l b t rule: acc.induct) (simp_all add: accs_def)

lemma accs_insert: "accs C (mm # xs @ ys) l B ts \<longleftrightarrow> accs C (xs @ mm # ys) l B ts"
  unfolding accs_def by (intro all_cong acc_hits) (simp add: hits_def)

lemma map_one:
  assumes ok: "region_ok mm" and before: "\<And>c. c \<in> set P \<Longrightarrow> (rs mm \<le> rs c \<and> re c \<le> re mm) \<or> re c \<le> rs mm \<or> re mm \<le> rs c"
    and i: "tinv dyn ctx Base (base_level ctx) ts" and s: "strip ctx = strip c0"
    and r: "realised c0 lim P (lookf (base_level ctx) 0 ts)" and lim: "lim = length ts * blk (base_level ctx)" "lim \<le> 2 ^ 48" "re mm \<le> lim"
    and m: "xlat_tables_map_region 4 dyn mm 0 Base (length (base_table ctx)) (base_level ctx) ctx = Some (region_end mm, ctx')"
    and q: "dyn \<Longrightarrow> accs (cnt ctx) P (base_level ctx) 0 ts" "\<forall>c \<in> set P. region_ok c"
  obtains ts' where "tinv dyn ctx' Base (base_level ctx) ts'" "strip ctx' = strip c0" "length ts' = length ts"
    "realised c0 lim (P @ [mm]) (lookf (base_level ctx) 0 ts')" "dyn \<Longrightarrow> accs (cnt ctx') (mm # P) (base_level ctx) 0 ts'"
proof -
  let ?l = "base_level ctx"
  have meets: "meets mm v (lookf ?l 0 ts v)" if lt: "v < lim" for v
  proof (cases "find (\<lambda>m. rs m \<le> v \<and> v < re m) P")
    case None
    then show ?thesis
      using r lt by (auto simp: realised_def meets_def)
  next
    case (Some c)
    then have "c \<in> set P"
      by (metis (no_types, lifting) find_Some_iff nth_mem)
    then have "(rs mm \<le> rs c \<and> re c \<le> re mm) \<or> re c \<le> rs mm \<or> re mm \<le> rs c"
      by (rule before)
    moreover obtain x where "lookf ?l 0 ts v = Some x" "tr c0 c v x"
      using r [unfolded realised_def, rule_format, OF lt] by (auto simp: Some)
    ultimately show ?thesis
      by (cases x) (auto simp: meets_def full_def tr_def)
  qed
  have "yields False (xlat_tables_map_region 4 dyn mm 0 Base (length (base_table ctx)) ?l ctx) (sub_post ctx dyn mm P Base ?l 0 ctx ts)"
    using map_region_ok [OF ok _ i, where tot = False and P = P] meets lim q(1) realised_covered [OF r q(2)] by auto
  then obtain ts' hi where t: "tinv dyn ctx' Base ?l ts'" "extends dyn ctx Base ts ctx' ts'" "outcome dyn mm (region_end mm) lim hi"
    "\<forall>v < lim. upd ctx mm hi v (lookf ?l 0 ts v) (lookf ?l 0 ts' v)"
    "dyn \<and> unat (region_end mm) + 1 = min lim (re mm) \<longrightarrow> accs (cnt ctx') (mm # P) ?l 0 ts'"
    using m lim(1) by (auto simp: sub_post_def)
  have "unat (region_end mm) + 1 = min lim (re mm)"
    using region_okD(1,6) [OF ok] lim(3) by simp
  have "hi = re mm"
  proof -
    have "\<not> 4096 dvd re mm - 1"
      using region_okD(1,3) [OF ok] by (metis (no_types, lifting) One_nat_def Suc_pred dvd_add_right_iff less_zeroE nat_dvd_1_iff_1 neq0_conv numeral_eq_one_iff plus_1_eq_Suc semiring_norm(85) dvd_add_left_iff)
    then show ?thesis
      using t(3) region_okD(6) [OF ok] lim(3) by (auto simp: outcome_def min_def)
  qed
  have "realised c0 lim (P @ [mm]) (lookf ?l 0 ts')"
    unfolding realised_def
  proof (intro allI impI)
    fix v assume "v < lim"
    then have "upd c0 mm (re mm) v (lookf ?l 0 ts v) (lookf ?l 0 ts' v)"
      using t(4) upd_strip [OF s] \<open>hi = re mm\<close> by simp
    moreover have "case find (\<lambda>m. rs m \<le> v \<and> v < re m) P of None \<Rightarrow> lookf ?l 0 ts v = None | Some m \<Rightarrow> \<exists>r. lookf ?l 0 ts v = Some r \<and> tr c0 m v r"
      using r \<open>v < lim\<close> by (simp add: realised_def)
    ultimately show "case find (\<lambda>m. rs m \<le> v \<and> v < re m) (P @ [mm]) of None \<Rightarrow> lookf ?l 0 ts' v = None
        | Some m \<Rightarrow> \<exists>r. lookf ?l 0 ts' v = Some r \<and> tr c0 m v r"
      using tr_in_region [of c0 mm v] by (auto simp: upd_def find_append split: option.splits)
  qed
  then show thesis
    using that t(1,2,5) s \<open>unat (region_end mm) + 1 = min lim (re mm)\<close> by (auto simp: extends_def)
qed

lemma map_regions_ok:
  assumes lim: "lim \<le> 2 ^ 48"
  shows "arranged (P @ qs) \<Longrightarrow> tinv dyn ctx Base (base_level c0) ts \<Longrightarrow> strip ctx = strip c0 \<Longrightarrow>
    realised c0 lim P (lookf (base_level c0) 0 ts) \<Longrightarrow> lim = length ts * blk (base_level c0) \<Longrightarrow> (\<forall>m \<in> set qs. re m \<le> lim) \<Longrightarrow>
    map_regions dyn (qs @ replicate (Suc k) zero_region) ctx = Some ctx' \<Longrightarrow> (dyn \<Longrightarrow> accs (cnt ctx) P (base_level c0) 0 ts) \<Longrightarrow>
    \<exists>ts'. tinv dyn ctx' Base (base_level c0) ts' \<and> strip ctx' = strip c0 \<and> length ts' = length ts \<and>
      realised c0 lim (P @ qs) (lookf (base_level c0) 0 ts') \<and> (dyn \<longrightarrow> accs (cnt ctx') (P @ qs) (base_level c0) 0 ts')"
proof (induction qs arbitrary: P ctx ts)
  case Nil
  then show ?case
    by auto
next
  case (Cons mm qs)
  have l: "base_level ctx = base_level c0"
    using Cons.prems(3) by (rule strip_fields)
  have nz: "region_size mm \<noteq> 0"
    using Cons.prems(1) by (auto simp: arranged_def region_ok_def)
  obtain ctx1 where c: "xlat_tables_map_region 4 dyn mm 0 Base (length (base_table ctx)) (base_level ctx) ctx = Some (region_end mm, ctx1)"
    "map_regions dyn (qs @ replicate (Suc k) zero_region) ctx1 = Some ctx'"
    using Cons.prems(7) nz by (auto simp: bind_eq_Some_conv split: if_splits)
  have ok: "region_ok mm" "\<And>c. c \<in> set P \<Longrightarrow> klt c mm \<and> nest c mm \<and> region_ok c"
    using Cons.prems(1) by (auto simp: arranged_def sorted_wrt_append)
  then have "(rs mm \<le> rs c \<and> re c \<le> re mm) \<or> re c \<le> rs mm \<or> re mm \<le> rs c" if "c \<in> set P" for c
    using inside_or_apart that by blast
  then obtain ts1 where t: "tinv dyn ctx1 Base (base_level c0) ts1" "strip ctx1 = strip c0" "length ts1 = length ts"
    "realised c0 lim (P @ [mm]) (lookf (base_level c0) 0 ts1)" "dyn \<Longrightarrow> accs (cnt ctx1) (mm # P) (base_level c0) 0 ts1"
    using map_one [OF ok(1) _ Cons.prems(2) [folded l] Cons.prems(3) Cons.prems(4) [folded l] Cons.prems(5) [folded l] lim _ c(1) Cons.prems(8) [folded l]]
      Cons.prems(6) l ok(2) by auto
  then show ?case
    using Cons.IH [of "P @ [mm]" ctx1 ts1] Cons.prems c(2) accs_insert [of _ mm P "[]"] by simp
qed

lemma zero_tables_inv:
  assumes "wf_ctx dyn ctx" "l \<le> 3" "base_table ctx = replicate n INVALID_DESC" "tables ctx = replicate (length (tables ctx)) (replicate 512 INVALID_DESC)"
  shows "tinv dyn ctx Base l (replicate n Unmapped)"
proof -
  have "tables ctx ! k = replicate 512 INVALID_DESC" if "k < length (tables ctx)" for k
    using assms(4) that by (metis nth_replicate)
  then show ?thesis
    using assms(1-3) by (auto simp: tinv_def list_all2_conv_all_nth free_def)
qed

lemma tinv_initialized [simp]: "tinv dyn (ctx\<lparr>initialized := b\<rparr>) ref l ts = tinv dyn ctx ref l ts"
proof -
  have "rep (ctx\<lparr>initialized := b\<rparr>) l t d = rep ctx l t d" for l t d
    using rep_frame [of ctx l t d "ctx\<lparr>initialized := b\<rparr>"] rep_frame [of "ctx\<lparr>initialized := b\<rparr>" l t d ctx] by auto
  moreover have "content (ctx\<lparr>initialized := b\<rparr>) ref = content ctx ref"
    by (cases ref) simp_all
  ultimately show ?thesis
    by (simp add: tinv_def wf_ctx_def free_def list_all2_conv_all_nth)
qed

lemma init_spec:
  assumes l: "layout ctx" and m: "mmap_is ctx regs" "\<forall>m \<in> set regs. re m \<le> unat (va_max_address ctx) + 1"
    and w: "4096 dvd unat (tables_addr ctx)" "unat (tables_addr ctx) + 4096 * length (tables ctx) \<le> 2 ^ 48"
    and i: "init_xlat_tables_ctx dyn mmu_on maxpa ctx = Some ctx'"
  obtains ts where "tinv dyn ctx' Base (base_level ctx') ts" "layout ctx'" "mmap_is ctx' regs"
    "realised ctx' (unat (va_max_address ctx') + 1) regs (lookf (base_level ctx') 0 ts)" "xlat_regime ctx' = xlat_regime ctx"
    "va_max_address ctx' = va_max_address ctx" "initialized ctx'" "dyn \<Longrightarrow> accs (cnt ctx') regs (base_level ctx') 0 ts"
proof -
  define c where "c = ctx\<lparr>base_table := replicate (length (base_table ctx)) INVALID_DESC,
    tables_mapped_regions := (if dyn then replicate (length (tables ctx)) 0 else tables_mapped_regions ctx),
    tables := replicate (length (tables ctx)) (replicate XLAT_TABLE_ENTRIES INVALID_DESC)\<rparr>"
  let ?n = "length (base_table ctx)" and ?lim = "unat (va_max_address ctx) + 1"
  obtain ctx2 where r: "map_regions dyn (mmap ctx) c = Some ctx2" "ctx' = ctx2\<lparr>initialized := True\<rparr>"
    using i by (auto simp: init_xlat_tables_ctx_def bind_eq_Some_conv ensure_def c_def split: if_splits)
  obtain k where k: "mmap ctx = regs @ replicate (Suc k) zero_region" and a: "arranged regs"
    using mmap_isE [OF m(1)] by metis
  have wf: "wf_ctx dyn c"
    using w by (auto simp: wf_ctx_def c_def XLAT_TABLE_ENTRIES_def)
  have "base_level ctx \<le> 3"
    using l by (auto simp: layout_def GET_XLAT_TABLE_LEVEL_BASE_def)
  then have inv: "tinv dyn c Base (base_level c) (replicate ?n Unmapped)"
    by (intro zero_tables_inv [OF wf]) (simp_all add: c_def XLAT_TABLE_ENTRIES_def)
  have lim: "?lim = length (replicate ?n Unmapped) * blk (base_level c)" "?lim \<le> 2 ^ 48"
    using layout_lim [OF l] by (simp_all add: c_def)
  have "lookf (base_level c) 0 (replicate ?n Unmapped) v = None" if "v < ?lim" for v
    using that less_mult_imp_div_less [of v ?n "blk (base_level c)"] unfolding lim(1) by (simp add: lookf_def)
  then have "realised c ?lim [] (lookf (base_level c) 0 (replicate ?n Unmapped))"
    by (simp add: realised_def)
  then obtain ts where t: "tinv dyn ctx2 Base (base_level c) ts" "strip ctx2 = strip c" "length ts = ?n"
    "realised c ?lim regs (lookf (base_level c) 0 ts)" "dyn \<Longrightarrow> accs (cnt ctx2) regs (base_level c) 0 ts"
    using map_regions_ok [OF lim(2), of "[]" regs dyn c c "replicate ?n Unmapped" k ctx2] a inv lim(1) m(2) r(1) unfolding k
    by (auto simp: accs_def)
  note f = strip_fields [OF t(2)]
  have len: "length (base_table ctx') = ?n"
    using tinv_length [OF t(1)] t(3) r(2) by simp
  have fs: "base_level ctx' = base_level c" "va_max_address ctx' = va_max_address ctx" "xlat_regime ctx' = xlat_regime ctx"
    "mmap ctx' = mmap ctx" "mmap_num ctx' = mmap_num ctx" "pa_max_address ctx' = pa_max_address ctx" "base_level c = base_level ctx"
    using f r(2) by (simp_all add: c_def)
  have tr: "tr ctx' = tr c"
    using f(3) r(2) by (intro ext) (simp add: tr_def xlat_desc_alt)
  have "realised ctx' (unat (va_max_address ctx') + 1) regs (lookf (base_level ctx') 0 ts)"
    using t(4) unfolding realised_def tr fs(1,2) .
  moreover have "layout ctx'"
    using l unfolding layout_def space_ok_def fs len by blast
  moreover have "tinv dyn ctx' Base (base_level ctx') ts" "mmap_is ctx' regs" "initialized ctx'"
    using t(1) m(1) r(2) unfolding mmap_is_def fs(1,4,5) by simp_all
  moreover have "cnt ctx' = cnt ctx2"
    using r(2) by (intro ext) (simp add: cnt_def)
  then have "dyn \<Longrightarrow> accs (cnt ctx') regs (base_level ctx') 0 ts"
    using t(5) fs(1) by simp
  ultimately show thesis
    using that fs(2,3) by blast
qed

lemma holds_va_nat: "region_ok m \<Longrightarrow> holds_va va m \<longleftrightarrow> rs m \<le> unat va \<and> unat va < re m"
  using region_okD [of m] by (auto simp: holds_va_def word_le_nat_alt rs_def)

text \<open>A realised list of regions gives the translation of its specification.\<close>

lemma translate_realised:
  assumes i: "tinv dyn ctx Base (base_level ctx) ts" and l: "layout ctx" and v: "va \<le> va_max_address ctx"
    and r: "realised ctx (unat (va_max_address ctx) + 1) regs (lookf (base_level ctx) 0 ts)" and a: "arranged regs"
  shows "translate ctx va = Some (spec_translate (xlat_regime ctx) regs va)"
proof -
  let ?v = "unat va"
  have lt: "?v < unat (va_max_address ctx) + 1"
    using v by (simp add: word_le_nat_alt less_Suc_eq_le)
  have f: "find (holds_va va) regs = find (\<lambda>m. rs m \<le> ?v \<and> ?v < re m) regs"
    by (rule find_cong) (use holds_va_nat a in \<open>auto simp: arranged_def\<close>)
  note R = r [unfolded realised_def, rule_format, OF lt]
  show ?thesis
  proof (cases "find (holds_va va) regs")
    case None
    then show ?thesis
      using translate_look [OF i l v, of None] R f by (simp add: spec_translate_def)
  next
    case (Some m)
    then have "m \<in> set regs"
      by (metis (no_types, lifting) find_Some_iff nth_mem)
    then have ok: "region_ok m"
      using a by (simp add: arranged_def)
    obtain d L where x: "lookf (base_level ctx) 0 ts ?v = Some (d, L)" "tr ctx m ?v (d, L)"
      using R Some f by auto
    have t: "xlat_desc ctx (attr m) (base_pa m + of_nat (bb L ?v - rs m)) L = Some d" "rs m \<le> bb L ?v" "bb L ?v < re m"
      using x(2) blk_pos [of L] unfolding tr_def fst_conv snd_conv by (blast, blast, linarith)
    have "blk L dvd bb L ?v"
      by (simp add: bb_def)
    moreover have "unat (of_nat (bb L ?v) :: u64) = bb L ?v"
      by (rule unat_of_nat_small) (use t(3) region_okD(4) [OF ok] in simp)
    ultimately have pa: "page_addr (base_pa m + of_nat (bb L ?v - rs m))"
      using region_pa(2) [OF ok t(2,3)] page_dvd_if by blast
    have off: "va AND XLAT_BLOCK_MASK L = of_nat (?v mod blk L)"
      unfolding unat_and_block_mask [symmetric] by simp
    have "bb L ?v + ?v mod blk L = ?v"
      by (simp add: bb_def)
    then have "bb L ?v - rs m + ?v mod blk L = ?v - rs m" "rs m \<le> ?v"
      using t(2) by linarith+
    then have "of_nat (bb L ?v - rs m) + of_nat (?v mod blk L) = (of_nat (?v - rs m) :: u64)"
      by (metis of_nat_add)
    also have "\<dots> = va - base_va m"
      using \<open>rs m \<le> ?v\<close> by (simp add: rs_def)
    finally have "base_pa m + of_nat (bb L ?v - rs m) + (va AND XLAT_BLOCK_MASK L) = base_pa m + (va - base_va m)"
      by (simp add: off add.assoc)
    then show ?thesis
      using translate_look [OF i l v x(1)] xlat_desc_masks(1) [OF t(1) pa] xlat_desc_attributes [OF t(1) pa] Some
      by (simp add: spec_translate_def)
  qed
qed

section \<open>Contexts\<close>

lemma unat_two_power:
  assumes "n < 64"
  shows "unat ((2 :: u64) ^ n) = 2 ^ n"
proof -
  have "(2 :: nat) ^ n < 2 ^ 64"
    using assms by (simp only: power_strict_increasing_iff)
  then show ?thesis
    using unat_of_nat_small [of "2 ^ n", where 'a = 64] by simp
qed

lemma virt_size_bounds:
  assumes "CHECK_VIRT_ADDR_SPACE_SIZE (2 ^ n)"
  shows "25 \<le> n" "n \<le> 48"
proof -
  have c: "unat (2 ^ 25 :: u64) \<le> unat ((2 :: u64) ^ n)" "unat ((2 :: u64) ^ n) \<le> unat (2 ^ 48 :: u64)"
    using assms by (simp_all add: CHECK_VIRT_ADDR_SPACE_SIZE_def MIN_VIRT_ADDR_SPACE_SIZE_def MAX_VIRT_ADDR_SPACE_SIZE_def push_bit_eq_mult word_le_nat_alt)
  have "n < 64"
  proof (rule ccontr)
    assume "\<not> n < 64"
    then have "(2 :: u64) ^ n = 0"
      using exp_eq_zero_iff [where 'a = 64, of n] by simp
    from c(1) [unfolded this] show False
      using unat_two_power [of 25] by simp
  qed
  then have "(2 :: nat) ^ 25 \<le> 2 ^ n" "(2 :: nat) ^ n \<le> 2 ^ 48"
    using c by (simp_all only: unat_two_power)
  then show "25 \<le> n" "n \<le> 48"
    by (simp_all only: power_increasing_iff)
qed

lemma base_level_two_power:
  assumes "25 \<le> n" "n \<le> 48"
  shows "GET_XLAT_TABLE_LEVEL_BASE (2 ^ n) = (if 39 < n then 0 else if 30 < n then 1 else 2)"
proof -
  have "2 ^ a < (2 :: u64) ^ n \<longleftrightarrow> a < n" if "a < 64" for a
    using that assms by (simp add: word_less_nat_alt unat_two_power)
  from this [of 39] this [of 30] show ?thesis
    by (simp add: GET_XLAT_TABLE_LEVEL_BASE_def push_bit_eq_mult)
qed

lemma base_table_size:
  assumes "25 \<le> n" "n \<le> 48"
  shows "GET_NUM_BASE_LEVEL_ENTRIES (2 ^ n) \<le> 512" "GET_NUM_BASE_LEVEL_ENTRIES (2 ^ n) * blk (GET_XLAT_TABLE_LEVEL_BASE (2 ^ n)) = 2 ^ n"
proof -
  let ?s = "XLAT_ADDR_SHIFT (GET_XLAT_TABLE_LEVEL_BASE (2 ^ n))"
  have s: "?s \<le> n" "n - ?s \<le> 9"
    using assms by (auto simp: base_level_two_power [OF assms])
  have e: "GET_NUM_BASE_LEVEL_ENTRIES (2 ^ n) = 2 ^ (n - ?s)"
    using s(1) assms by (simp add: GET_NUM_BASE_LEVEL_ENTRIES_def unat_drop_shift unat_two_power blk_def power_diff)
  show "GET_NUM_BASE_LEVEL_ENTRIES (2 ^ n) \<le> 512"
    using power_increasing [OF s(2), of "2 :: nat"] by (simp add: e)
  show "GET_NUM_BASE_LEVEL_ENTRIES (2 ^ n) * blk (GET_XLAT_TABLE_LEVEL_BASE (2 ^ n)) = 2 ^ n"
    using s(1) by (simp add: e blk_def flip: power_add)
qed

lemma register_ok:
  assumes "register_xlat_context mc tc (2 ^ n) (2 ^ p) regime addr = Some ctx" "p \<le> 48" "0 < mc"
  shows "layout ctx" "mmap_is ctx []" "xlat_regime ctx = regime" "tables_addr ctx = addr" "length (tables ctx) = tc"
    "unat (va_max_address ctx) + 1 = 2 ^ n" "va_max_address ctx = 2 ^ n - 1"
proof -
  have c: "CHECK_VIRT_ADDR_SPACE_SIZE (2 ^ n)"
    using assms(1) by (auto simp: register_xlat_context_def split: if_splits)
  note n = virt_size_bounds [OF c]
  have m: "unat ((2 :: u64) ^ k - 1) + 1 = 2 ^ k" if "k \<le> 48" for k
    using that unat_sub_nowrap [of 1 "(2 :: u64) ^ k"] by (simp add: unat_two_power)
  have ctx: "pa_max_address ctx = 2 ^ p - 1" "va_max_address ctx = 2 ^ n - 1" "mmap ctx = replicate (Suc mc) zero_region" "mmap_num ctx = mc"
    "length (base_table ctx) = GET_NUM_BASE_LEVEL_ENTRIES (2 ^ n)" "base_level ctx = GET_XLAT_TABLE_LEVEL_BASE (2 ^ n)"
    "xlat_regime ctx = regime" "tables_addr ctx = addr" "length (tables ctx) = tc"
    using assms(1) by (auto simp: register_xlat_context_def split: if_splits)
  have "(2 :: nat) ^ p \<le> 2 ^ 48" "(2 :: nat) ^ n \<le> 2 ^ 48"
    using assms(2) n by (simp_all only: power_increasing_iff)
  then have "space_ok ctx"
    using m [OF assms(2)] m [OF n(2)] assms(3) by (simp add: space_ok_def ctx)
  then show "layout ctx"
    using base_table_size [OF n] m [OF n(2)] by (simp add: layout_def ctx)
  show "mmap_is ctx []"
    by (simp add: mmap_is_def ctx arranged_def)
  show "xlat_regime ctx = regime" "tables_addr ctx = addr" "length (tables ctx) = tc" "unat (va_max_address ctx) + 1 = 2 ^ n" "va_max_address ctx = 2 ^ n - 1"
    using ctx m [OF n(2)] by simp_all
qed

text \<open>The regions of a list up to its terminator.\<close>

definition live_regions :: "mmap_region list \<Rightarrow> mmap_region list" where
  "live_regions xs = takeWhile (\<lambda>m. region_size m \<noteq> 0) xs"

lemma live_mmap: "mmap_is ctx regs \<Longrightarrow> live_regions (mmap ctx) = regs"
proof (elim mmap_isE)
  fix k assume m: "mmap ctx = regs @ replicate (Suc k) zero_region" and a: "arranged regs"
  then show "live_regions (mmap ctx) = regs"
    using arranged_size [OF a] by (simp add: live_regions_def takeWhile_append2)
qed

text \<open>Adding regions changes nothing but the list and the largest addresses in use.\<close>

definition same_space :: "xlat_ctx \<Rightarrow> xlat_ctx \<Rightarrow> bool" where
  "same_space ctx ctx' \<longleftrightarrow> ctx' = ctx\<lparr>mmap := mmap ctx', max_pa := max_pa ctx', max_va := max_va ctx'\<rparr>"

lemma same_space_fields:
  assumes "same_space ctx ctx'"
  shows "layout ctx' = layout ctx" "space_ok ctx' = space_ok ctx" "va_max_address ctx' = va_max_address ctx" "tables_addr ctx' = tables_addr ctx"
    "tables ctx' = tables ctx" "xlat_regime ctx' = xlat_regime ctx"
  using assms by (cases ctx; cases ctx'; simp add: same_space_def layout_def space_ok_def)+

lemma same_space_trans: "same_space a b \<Longrightarrow> same_space b c \<Longrightarrow> same_space a c"
  by (cases a; cases b; cases c) (simp add: same_space_def)

lemma raise_same: "ctx' = raise_max mm (ctx\<lparr>mmap := xs\<rparr>) \<Longrightarrow> same_space ctx ctx'"
  by (simp add: same_space_def raise_max_def)

lemma mmap_add_spec:
  "mmap_add_ctx dyn ctx mms = Some ctx' \<Longrightarrow> mmap_is ctx regs \<Longrightarrow> space_ok ctx \<Longrightarrow> \<forall>m \<in> set regs. re m \<le> unat (va_max_address ctx) + 1 \<Longrightarrow>
   \<exists>regs'. mmap_is ctx' regs' \<and> set regs' = set regs \<union> set (live_regions mms) \<and> same_space ctx ctx' \<and>
     (\<forall>m \<in> set regs'. re m \<le> unat (va_max_address ctx) + 1) \<and> (dyn \<and> lone regs \<longrightarrow> lone regs')"
proof (induction mms arbitrary: ctx regs)
  case (Cons mm mms)
  show ?case
  proof (cases "region_size mm = 0")
    case True
    then show ?thesis
      using Cons.prems by (auto simp: live_regions_def same_space_def)
  next
    case False
    then obtain ctx1 where c: "mmap_add_region_ctx dyn ctx mm = Some ctx1" "mmap_add_ctx dyn ctx1 mms = Some ctx'"
      using Cons.prems(1) by (auto simp: bind_eq_Some_conv)
    obtain i where i: "i \<le> length regs" "mmap_is ctx1 (take i regs @ mm # drop i regs)" "re mm \<le> unat (va_max_address ctx) + 1"
      "ctx1 = raise_max mm (ctx\<lparr>mmap := mmap ctx1\<rparr>)" "region_ok mm" "\<forall>c \<in> set regs. check_overlap dyn mm c"
      using add_region_spec [OF Cons.prems(2,3) c(1) False] by metis
    have s: "same_space ctx ctx1"
      by (rule raise_same [OF i(4)])
    have e: "set (take i regs @ mm # drop i regs) = insert mm (set regs)"
      by (metis Un_insert_right append_take_drop_id list.simps(15) set_append)
    have l: "live_regions (mm # mms) = mm # live_regions mms"
      using False by (simp add: live_regions_def)
    obtain regs' where "mmap_is ctx' regs'" "set regs' = insert mm (set regs) \<union> set (live_regions mms)" "same_space ctx1 ctx'"
      "\<forall>m \<in> set regs'. re m \<le> unat (va_max_address ctx) + 1" "dyn \<and> lone (take i regs @ mm # drop i regs) \<longrightarrow> lone regs'"
      using Cons.IH [OF c(2) i(2), unfolded e] Cons.prems(3,4) same_space_fields [OF s] i(3) by auto
    moreover have "lone (take i regs @ mm # drop i regs)" if "dyn \<and> lone regs"
      using that i(6) Cons.prems(2) by (intro lone_insert [OF _ _ i(5) _ e]) (auto simp: mmap_is_def arranged_def)
    ultimately show ?thesis
      using same_space_trans [OF s] by (intro exI [of _ regs']) (simp add: l)
  qed
qed simp

lemma arranged_innermost:
  assumes a: "arranged regs" and f: "find (holds_va va) regs = Some m" and c: "c \<in> set regs" "holds_va va c"
  shows "base_va c \<le> base_va m \<and> region_end m \<le> region_end c"
proof -
  obtain i where i: "i < length regs" "holds_va va m" "m = regs ! i" "\<forall>j < i. \<not> holds_va va (regs ! j)"
    using f unfolding find_Some_iff by blast
  obtain j where j: "j < length regs" "c = regs ! j"
    using c(1) by (auto simp: in_set_conv_nth)
  have "i \<le> j"
    using i(4) j(2) c(2) by (meson leI)
  show ?thesis
  proof (cases "i = j")
    case False
    then have "klt m c" "nest m c" and ok: "region_ok m" "region_ok c"
      using a i j \<open>i \<le> j\<close> by (auto simp: arranged_def sorted_wrt_iff_nth_less)
    then have "(rs c \<le> rs m \<and> re m \<le> re c) \<or> re m \<le> rs c \<or> re c \<le> rs m"
      by (rule inside_or_apart)
    moreover have "rs m \<le> unat va" "unat va < re m" "rs c \<le> unat va" "unat va < re c"
      using holds_va_nat ok i(2) c(2) by blast+
    ultimately have "rs c \<le> rs m" "re m \<le> re c"
      by linarith+
    then show ?thesis
      using region_okD(6) [OF ok(1)] region_okD(6) [OF ok(2)] by (simp add: word_le_nat_alt rs_def)
  qed (use i j in simp)
qed

lemma build_spec:
  assumes r: "register_xlat_context mc tc (2 ^ n) (2 ^ p) regime addr = Some ctx0" "p \<le> 48" "0 < mc"
    and w: "4096 dvd unat addr" "unat addr + 4096 * tc \<le> 2 ^ 48"
    and a: "mmap_add_ctx dyn ctx0 mms = Some ctx1" and i: "init_xlat_tables_ctx dyn mmu_on maxpa ctx1 = Some ctx2"
  obtains ts where "tinv dyn ctx2 Base (base_level ctx2) ts" "layout ctx2" "mmap_is ctx2 (live_regions (mmap ctx1))" "arranged (live_regions (mmap ctx1))"
    "realised ctx2 (unat (va_max_address ctx2) + 1) (live_regions (mmap ctx1)) (lookf (base_level ctx2) 0 ts)" "xlat_regime ctx2 = regime"
    "va_max_address ctx2 = 2 ^ n - 1" "set (live_regions (mmap ctx1)) = set (live_regions mms)" "initialized ctx2"
    "\<forall>m \<in> set (live_regions (mmap ctx1)). re m \<le> unat (va_max_address ctx2) + 1"
    "dyn \<Longrightarrow> accs (cnt ctx2) (live_regions (mmap ctx1)) (base_level ctx2) 0 ts" "dyn \<Longrightarrow> lone (live_regions (mmap ctx1))"
proof -
  note R = register_ok [OF r]
  have sp: "space_ok ctx0"
    using R(1) by (simp add: layout_def)
  obtain regs where g: "mmap_is ctx1 regs" "set regs = set (live_regions mms)" "same_space ctx0 ctx1" "\<forall>m \<in> set regs. re m \<le> unat (va_max_address ctx0) + 1"
    "dyn \<Longrightarrow> lone regs"
    using mmap_add_spec [OF a R(2) sp] by (auto simp: lone_def)
  note f = same_space_fields [OF g(3)]
  have live: "live_regions (mmap ctx1) = regs"
    by (rule live_mmap [OF g(1)])
  have ar: "arranged regs"
    using g(1) by (simp add: mmap_is_def)
  obtain ts where "tinv dyn ctx2 Base (base_level ctx2) ts" "layout ctx2" "mmap_is ctx2 regs"
    "realised ctx2 (unat (va_max_address ctx2) + 1) regs (lookf (base_level ctx2) 0 ts)" "xlat_regime ctx2 = xlat_regime ctx1"
    "va_max_address ctx2 = va_max_address ctx1" "initialized ctx2" "dyn \<Longrightarrow> accs (cnt ctx2) regs (base_level ctx2) 0 ts"
    using init_spec [OF _ g(1) _ _ _ i] R f g(4) w by metis
  then show thesis
    using that R f live ar g(2,4,5) by metis
qed

lemma innermost_spec:
  assumes "register_xlat_context mc tc (2 ^ n) (2 ^ p) regime addr = Some ctx0" "p \<le> 48" "0 < mc" "mmap_add_ctx dyn ctx0 mms = Some ctx1"
  obtains "set (live_regions (mmap ctx1)) = set (live_regions mms)" "arranged (live_regions (mmap ctx1))"
proof -
  note R = register_ok [OF assms(1-3)]
  have "space_ok ctx0"
    using R(1) by (simp add: layout_def)
  then obtain regs where g: "mmap_is ctx1 regs" "set regs = set (live_regions mms)"
    using mmap_add_spec [OF assms(4) R(2)] by auto
  then show thesis
    using that live_mmap [OF g(1)] by (simp add: mmap_is_def)
qed

end
