(* ===== verification/Xlat_dyn.thy ===== *)
theory Xlat_dyn
  imports Xlat_build
begin

text \<open>
  Regions that are added while the tables are in use (\<open>mmap_add_dynamic_region_ctx\<close>), and the attribute
  functions. The predicate \<open>in_use\<close> is the invariant of an initialized context: its tables are trees
  that realise its list of regions; with dynamic regions, moreover, every table in use counts the
  regions that meet its range, and a dynamic region lies apart from all others.
\<close>

definition in_use :: "bool \<Rightarrow> xlat_ctx \<Rightarrow> bool" where
  "in_use dyn ctx \<longleftrightarrow> initialized ctx \<and> layout ctx \<and>
     (\<exists>ts regs. tinv dyn ctx Base (base_level ctx) ts \<and> mmap_is ctx regs \<and> (\<forall>m \<in> set regs. re m \<le> unat (va_max_address ctx) + 1) \<and>
        realised ctx (unat (va_max_address ctx) + 1) regs (lookf (base_level ctx) 0 ts) \<and>
        (dyn \<longrightarrow> accs (cnt ctx) regs (base_level ctx) 0 ts \<and> lone regs))"

lemma build_in_use:
  assumes r: "register_xlat_context mc tc (2 ^ n) (2 ^ p) regime addr = Some ctx0" "p \<le> 48" "0 < mc"
    and w: "4096 dvd unat addr" "unat addr + 4096 * tc \<le> 2 ^ 48"
    and a: "mmap_add_ctx dyn ctx0 mms = Some ctx1" and i: "init_xlat_tables_ctx dyn mmu_on maxpa ctx1 = Some ctx2"
  shows "in_use dyn ctx2" "xlat_regime ctx2 = regime" "va_max_address ctx2 = 2 ^ n - 1"
  using build_spec [OF assms] unfolding in_use_def by metis+

lemma tr_regime: "xlat_regime a = xlat_regime b \<Longrightarrow> tr a = tr b"
  by (intro ext) (simp add: tr_def xlat_desc_alt)

lemma realised_regime:
  assumes "xlat_regime a = xlat_regime b"
  shows "realised a = realised b"
  by (intro ext) (unfold realised_def tr_regime [OF assms], rule refl)

lemma tinv_cong:
  assumes "tables ctx' = tables ctx" "tables_addr ctx' = tables_addr ctx" "tables_mapped_regions ctx' = tables_mapped_regions ctx"
    "next_table ctx' = next_table ctx" "base_table ctx' = base_table ctx"
  shows "tinv dyn ctx' ref l ts = tinv dyn ctx ref l ts"
proof -
  have "rep ctx' l t d = rep ctx l t d" for l t d
    using rep_frame [of ctx l t d ctx'] rep_frame [of ctx' l t d ctx] assms by auto
  moreover have "content ctx' ref = content ctx ref"
    using assms by (cases ref) simp_all
  ultimately show ?thesis
    using assms by (simp add: tinv_def wf_ctx_def free_def list_all2_conv_all_nth)
qed

lemma in_use_translate:
  assumes "in_use dyn ctx" "va \<le> va_max_address ctx"
  shows "translate ctx va = Some (spec_translate (xlat_regime ctx) (live_regions (mmap ctx)) va)"
proof -
  obtain ts regs where t: "tinv dyn ctx Base (base_level ctx) ts" "mmap_is ctx regs" "layout ctx"
    "realised ctx (unat (va_max_address ctx) + 1) regs (lookf (base_level ctx) 0 ts)"
    using assms(1) by (auto simp: in_use_def)
  have "arranged regs"
    using t(2) by (simp add: mmap_is_def)
  then show ?thesis
    using translate_realised [OF t(1,3) assms(2) t(4)] live_mmap [OF t(2)] by simp
qed

lemma find_insert:
  assumes "\<forall>c \<in> set xs. P c \<longrightarrow> \<not> P m"
  shows "find P (take i xs @ m # drop i xs) = find P (xs @ [m])"
proof -
  have "find P xs = (case find P (take i xs) of None \<Rightarrow> find P (drop i xs) | Some x \<Rightarrow> Some x)"
    using find_append [of P "take i xs" "drop i xs"] by simp
  moreover have "find P (drop i xs) = None" if "P m"
    using assms that by (auto simp: find_None_iff dest: in_set_dropD)
  ultimately show ?thesis
    by (auto simp: find_append split: option.splits)
qed

lemma dynamic_attr: "attr (mm\<lparr>attr := attr mm OR MT_DYNAMIC\<rparr>) AND MT_DYNAMIC \<noteq> 0"
proof
  assume "attr (mm\<lparr>attr := attr mm OR MT_DYNAMIC\<rparr>) AND MT_DYNAMIC = 0"
  then have "bit ((attr mm OR MT_DYNAMIC) AND MT_DYNAMIC) 30 = bit (0 :: u32) 30"
    by simp
  then show False
    by (simp add: bit_and_iff bit_or_iff MT_DYNAMIC_def)
qed

text \<open>A successful call went through the check, the insertion and a complete mapping.\<close>

lemma add_dynamic_success:
  assumes "mmap_add_dynamic_region_ctx ctx mm0 = Some (0, ctx')" "region_size mm0 \<noteq> 0" "initialized ctx"
    and mm: "mm = mm0\<lparr>attr := attr mm0 OR MT_DYNAMIC\<rparr>"
  obtains i ctx2 where "mmap_add_region_check True ctx mm = Some 0" "mmap_cursor mm (mmap ctx) = Some i"
    "xlat_tables_map_region 4 True mm 0 Base (length (base_table ctx)) (base_level ctx) (ctx\<lparr>mmap := move_up mm i (mmap_num ctx) (mmap ctx)\<rparr>) =
       Some (region_end mm, ctx2)" "ctx' = raise_max mm ctx2"
  using assms(1-3)
  by (auto simp: mmap_add_dynamic_region_ctx_def bind_eq_Some_conv Let_def XLAT_ENOMEM_def ensure_def simp flip: mm split: if_splits)

lemma raise_max_fields [simp]:
  "tables (raise_max mm ctx) = tables ctx" "tables_addr (raise_max mm ctx) = tables_addr ctx"
  "tables_mapped_regions (raise_max mm ctx) = tables_mapped_regions ctx" "next_table (raise_max mm ctx) = next_table ctx"
  "base_table (raise_max mm ctx) = base_table ctx" "base_level (raise_max mm ctx) = base_level ctx" "xlat_regime (raise_max mm ctx) = xlat_regime ctx"
  "mmap (raise_max mm ctx) = mmap ctx" "mmap_num (raise_max mm ctx) = mmap_num ctx" "va_max_address (raise_max mm ctx) = va_max_address ctx"
  "pa_max_address (raise_max mm ctx) = pa_max_address ctx" "initialized (raise_max mm ctx) = initialized ctx"
  by (simp_all add: raise_max_def)

lemma add_dynamic_spec:
  assumes u: "in_use True ctx" and a: "mmap_add_dynamic_region_ctx ctx mm0 = Some (0, ctx')" and z: "region_size mm0 \<noteq> 0"
    and mm: "mm = mm0\<lparr>attr := attr mm0 OR MT_DYNAMIC\<rparr>"
  shows "in_use True ctx'" "set (live_regions (mmap ctx')) = insert mm (set (live_regions (mmap ctx)))" "xlat_regime ctx' = xlat_regime ctx"
    "va_max_address ctx' = va_max_address ctx"
proof -
  obtain ts regs where t: "tinv True ctx Base (base_level ctx) ts" "mmap_is ctx regs" "layout ctx" "initialized ctx"
    "\<forall>m \<in> set regs. re m \<le> unat (va_max_address ctx) + 1"
    "realised ctx (unat (va_max_address ctx) + 1) regs (lookf (base_level ctx) 0 ts)" "accs (cnt ctx) regs (base_level ctx) 0 ts" "lone regs"
    using u by (auto simp: in_use_def)
  let ?lim = "unat (va_max_address ctx) + 1"
  have sp: "space_ok ctx" and zz: "region_size mm \<noteq> 0"
    using t(3) z by (simp_all add: layout_def mm)
  obtain i ctx2 where s: "mmap_add_region_check True ctx mm = Some 0" "mmap_cursor mm (mmap ctx) = Some i"
    "xlat_tables_map_region 4 True mm 0 Base (length (base_table ctx)) (base_level ctx) (ctx\<lparr>mmap := move_up mm i (mmap_num ctx) (mmap ctx)\<rparr>) =
       Some (region_end mm, ctx2)" "ctx' = raise_max mm ctx2"
    using add_dynamic_success [OF a z t(4) mm] by metis
  note C = check_region_ok [OF s(1) t(2) zz sp]
  obtain i' k where I: "mmap_cursor mm (mmap ctx) = Some i'" "used_regions (mmap ctx) = Some (length regs)" "mmap_num ctx = Suc (length regs + k)"
    "\<And>l. length regs \<le> l \<Longrightarrow> l \<le> mmap_num ctx \<Longrightarrow>
       move_up mm i' l (mmap ctx) = (take i' regs @ mm # drop i' regs) @ replicate (Suc k) zero_region"
    "arranged (take i' regs @ mm # drop i' regs)" "i' \<le> length regs"
    using insert_region [OF t(2) sp zz s(1)] by metis
  have "i' = i"
    using I(1) s(2) by simp
  note i = I(3) I(5) [unfolded this] I(6) [unfolded this] I(4) [unfolded this, of "mmap_num ctx"]
  define c where "c = ctx\<lparr>mmap := (take i regs @ mm # drop i regs) @ replicate (Suc k) zero_region\<rparr>"
  have cf: "base_level c = base_level ctx" "base_table c = base_table ctx" "xlat_regime c = xlat_regime ctx"
    by (simp_all add: c_def)
  have ok: "region_ok c" if "c \<in> set regs" for c
    using t(2) that by (simp add: mmap_is_def arranged_def)
  have apart: "re c \<le> rs mm \<or> re mm \<le> rs c" if "c \<in> set regs" for c
    using dynamic_apart [of mm c] C(1,3) dynamic_attr [of mm0] ok that by (simp add: mm)
  have ti: "tinv True c Base (base_level c) ts"
    using t(1) tinv_cong [of c ctx True Base "base_level ctx" ts] by (simp add: c_def)
  have "cnt c = cnt ctx"
    by (intro ext) (simp add: cnt_def c_def)
  then have ac: "accs (cnt c) regs (base_level c) 0 ts"
    using t(7) cf(1) by simp
  have len: "length ts = length (base_table ctx)"
    using tinv_length [OF t(1)] by simp
  have lim: "?lim = length ts * blk (base_level c)" "?lim \<le> 2 ^ 48"
    using layout_lim [OF t(3)] unfolding len cf by simp_all
  have re: "realised c ?lim regs (lookf (base_level c) 0 ts)"
    using t(6) realised_regime [OF cf(3)] cf(1) by simp
  have m: "xlat_tables_map_region 4 True mm 0 Base (length (base_table c)) (base_level c) c = Some (region_end mm, ctx2)"
    using s(3) i(4) i(1) by (simp add: c_def)
  obtain ts' where n: "tinv True ctx2 Base (base_level c) ts'" "strip ctx2 = strip c" "length ts' = length ts"
    "realised c ?lim (regs @ [mm]) (lookf (base_level c) 0 ts')" "accs (cnt ctx2) (mm # regs) (base_level c) 0 ts'"
    using map_one [OF C(1) _ ti refl re lim C(2) m] apart ac ok by auto
  note f = strip_fields [OF n(2)]
  let ?regs = "take i regs @ mm # drop i regs"
  have e: "set ?regs = insert mm (set regs)"
    by (metis Un_insert_right append_take_drop_id list.simps(15) set_append)
  have "find (\<lambda>m. rs m \<le> v \<and> v < re m) ?regs = find (\<lambda>m. rs m \<le> v \<and> v < re m) (regs @ [mm])" for v
    using apart by (intro find_insert) fastforce
  then have "realised c ?lim ?regs (lookf (base_level c) 0 ts')"
    using n(4) unfolding realised_def by simp
  moreover have "realised ctx' = realised c"
    using f(3) s(4) by (intro realised_regime) simp
  ultimately have r': "realised ctx' ?lim ?regs (lookf (base_level c) 0 ts')"
    by simp
  have fs: "mmap ctx' = mmap c" "mmap_num ctx' = mmap_num ctx" "va_max_address ctx' = va_max_address ctx" "pa_max_address ctx' = pa_max_address ctx"
    "base_level ctx' = base_level ctx" "initialized ctx'" "xlat_regime ctx' = xlat_regime ctx" "length (base_table ctx') = length (base_table ctx)"
    using f s(4) t(4) tinv_length [OF n(1)] n(3) len by (simp_all add: c_def)
  have mi: "mmap_is ctx' ?regs"
    unfolding mmap_is_def fs(1,2) using i(1-3) by (simp add: c_def Suc_diff_le)
  have "tinv True ctx' Base (base_level ctx') ts'"
    using n(1) tinv_cong [of ctx' ctx2 True Base "base_level ctx" ts'] s(4) cf(1) fs(5) by simp
  moreover have "layout ctx'"
    using t(3) unfolding layout_def space_ok_def fs by blast
  moreover have "\<forall>m \<in> set ?regs. re m \<le> ?lim"
    unfolding e using t(5) C(2) by simp
  moreover have "cnt ctx' = cnt ctx2"
    using s(4) by (intro ext) (simp add: cnt_def raise_max_def)
  then have "accs (cnt ctx') ?regs (base_level ctx') 0 ts'"
    using n(5) accs_insert [of _ mm "take i regs" "drop i regs"] cf(1) fs(5) by simp
  moreover have "lone ?regs"
    using ok by (intro lone_insert [OF t(8) C(3,1) _ e]) simp
  ultimately show "in_use True ctx'"
    unfolding in_use_def using mi r' fs(6) fs(3,5) cf(1) by metis
  show "set (live_regions (mmap ctx')) = insert mm (set (live_regions (mmap ctx)))"
    using live_mmap [OF mi] live_mmap [OF t(2)] e by simp
  show "xlat_regime ctx' = xlat_regime ctx" "va_max_address ctx' = va_max_address ctx"
    by (rule fs)+
qed

end
