(* ===== verification/Xlat_unmap.thy ===== *)
theory Xlat_unmap
  imports Xlat_dyn
begin

text \<open>
  Unmapping: it only erases descriptors, so that afterwards an address translates as before or not at
  all, and a failed dynamic mapping leaves the list of regions as it was.
\<close>

section \<open>Only erasing\<close>

definition erased :: "xlat_ctx \<Rightarrow> xlat_ctx \<Rightarrow> bool" where
  "erased ctx ctx' \<longleftrightarrow>
     tables_addr ctx' = tables_addr ctx \<and> length (tables ctx') = length (tables ctx) \<and> length (base_table ctx') = length (base_table ctx) \<and>
     base_level ctx' = base_level ctx \<and> va_max_address ctx' = va_max_address ctx \<and> pa_max_address ctx' = pa_max_address ctx \<and>
     xlat_regime ctx' = xlat_regime ctx \<and> mmap ctx' = mmap ctx \<and> mmap_num ctx' = mmap_num ctx \<and>
     (\<forall>t i. get_entry ctx' t i = get_entry ctx t i \<or> (get_entry ctx t i \<noteq> None \<and> get_entry ctx' t i = Some INVALID_DESC))"

lemma erased_refl: "erased ctx ctx"
  by (simp add: erased_def)

lemma erased_trans: "erased a b \<Longrightarrow> erased b c \<Longrightarrow> erased a c"
  unfolding erased_def by (metis option.distinct(1))

lemma get_entry_put:
  assumes "put_entry ctx t i d = Some ctx'"
  shows "get_entry ctx' u j = (if u = t \<and> j = i then Some d else get_entry ctx u j)"
  using assms by (cases t; cases u) (auto simp: bind_eq_Some_conv aget_def nth_list_update split: if_splits option.splits)

lemma put_entry_keep:
  assumes "put_entry ctx t i d = Some ctx'"
  shows "base_level ctx' = base_level ctx" "va_max_address ctx' = va_max_address ctx" "xlat_regime ctx' = xlat_regime ctx"
    "mmap ctx' = mmap ctx" "mmap_num ctx' = mmap_num ctx" "get_entry ctx t i \<noteq> None" "pa_max_address ctx' = pa_max_address ctx"
  using assms by (cases t; auto simp: bind_eq_Some_conv)+

lemma erased_put: "put_entry ctx t i INVALID_DESC = Some ctx' \<Longrightarrow> erased ctx ctx'"
  using put_entry_fields [of ctx t i INVALID_DESC ctx'] put_entry_keep [of ctx t i INVALID_DESC ctx'] get_entry_put [of ctx t i INVALID_DESC ctx']
  by (simp add: erased_def)

lemma get_entry_update [simp]:
  "get_entry (ctx\<lparr>tlbi := x\<rparr>) t i = get_entry ctx t i" "get_entry (ctx\<lparr>tables_mapped_regions := y\<rparr>) t i = get_entry ctx t i"
  "get_entry (ctx\<lparr>mmap := z\<rparr>) t i = get_entry ctx t i" "get_entry (ctx\<lparr>max_pa := v\<rparr>) t i = get_entry ctx t i"
  "get_entry (ctx\<lparr>max_va := w\<rparr>) t i = get_entry ctx t i"
  by (cases t; simp)+

lemma erased_tlbi: "erased ctx (xlat_arch_tlbi_va_regime va ctx)"
  by (simp add: erased_def xlat_arch_tlbi_va_regime_def)

lemma erased_dec: "xlat_table_dec_regions_count ctx t = Some ctx' \<Longrightarrow> erased ctx ctx'"
  by (auto simp: erased_def xlat_table_dec_regions_count_def xlat_table_add_regions_count_def bind_eq_Some_conv)

lemma unmap_entry_erases:
  assumes "unmap_entry sub mm t l idx va ctx = Some ctx'" "\<And>va t l ctx ctx'. sub va t l ctx = Some ctx' \<Longrightarrow> erased ctx ctx'"
  shows "erased ctx ctx'"
proof -
  have put: "erased a c" if "put_entry a t idx INVALID_DESC \<bind> (\<lambda>b. Some (xlat_arch_tlbi_va_regime va b)) = Some c" for a c
    using that erased_put erased_tlbi erased_trans unfolding bind_eq_Some_conv option.inject by metis
  obtain d act where d: "get_entry ctx t idx = Some d" "unmap_action mm (d AND DESC_MASK) va l = Some act"
    using assms(1) by (auto simp: unmap_entry_def bind_eq_Some_conv)
  show ?thesis
  proof (cases act)
    case ACTION_WRITE_BLOCK_ENTRY
    then show ?thesis
      using assms(1) d put by (simp add: unmap_entry_def)
  next
    case ACTION_RECURSE_INTO_TABLE
    then obtain u ctx1 b where "sub va u (Suc l) ctx = Some ctx1"
      "(if b then put_entry ctx1 t idx INVALID_DESC \<bind> (\<lambda>b. Some (xlat_arch_tlbi_va_regime va b)) else Some ctx1) = Some ctx'"
      using assms(1) d by (auto simp: unmap_entry_def bind_eq_Some_conv [of "addr_subtable _ _"] bind_eq_Some_conv [of "sub _ _ _ _"]
        bind_eq_Some_conv [of "xlat_table_is_empty _ _"])
    then have "erased ctx ctx1" "ctx' = ctx1 \<or> erased ctx1 ctx'"
      using put [of ctx1 ctx'] assms(2) by (auto split: if_splits)
    then show ?thesis
      using erased_trans by blast
  qed (use assms(1) d in \<open>auto simp: unmap_entry_def intro: erased_refl\<close>)
qed

lemma unmap_loop_erases:
  assumes "\<And>va t l ctx ctx'. sub va t l ctx = Some ctx' \<Longrightarrow> erased ctx ctx'"
  shows "unmap_loop sub mm t l n idx va ctx = Some ctx' \<Longrightarrow> erased ctx ctx'"
proof (induction n arbitrary: idx va ctx)
  case (Suc n)
  then obtain ctx1 where c: "unmap_entry sub mm t l idx va ctx = Some ctx1"
    by (auto simp: bind_eq_Some_conv)
  have "erased ctx ctx1"
    by (rule unmap_entry_erases [OF c assms])
  moreover have "ctx' = ctx1 \<or> unmap_loop sub mm t l n (Suc idx) (va + XLAT_BLOCK_SIZE l) ctx1 = Some ctx'"
    using Suc.prems c by (auto simp: Let_def split: if_splits)
  ultimately show ?case
    using Suc.IH erased_trans by blast
qed (simp add: erased_refl)

lemma unmap_region_erases: "xlat_tables_unmap_region depth mm tva t n l ctx = Some ctx' \<Longrightarrow> erased ctx ctx'"
proof (induction depth arbitrary: tva t n l ctx ctx')
  case (Suc depth)
  let ?sub = "\<lambda>va t l ctx. xlat_tables_unmap_region depth mm va t XLAT_TABLE_ENTRIES l ctx"
  obtain idx va ctx1 where c: "unmap_loop ?sub mm t l (n - idx) idx va ctx = Some ctx1"
    "(if base_level ctx1 < l then xlat_table_dec_regions_count ctx1 t else Some ctx1) = Some ctx'"
    using Suc.prems by (auto simp: bind_eq_Some_conv)
  have "erased ctx ctx1"
    by (rule unmap_loop_erases [OF Suc.IH c(1)])
  then show ?case
    using c(2) erased_dec erased_trans by (auto split: if_splits)
qed simp

text \<open>A walk after erasing finds nothing, or the same entry with the same descriptor.\<close>

lemma walk_erased:
  assumes e: "erased ctx ctx'"
  shows "walk_loop n ctx' va t k l = Some None \<or>
    (walk_loop n ctx' va t k l = walk_loop n ctx va t k l \<and>
     (\<forall>u i L. walk_loop n ctx va t k l = Some (Some (u, i, L)) \<longrightarrow> get_entry ctx' u i = get_entry ctx u i))"
proof (induction n arbitrary: t k l)
  case (Suc n)
  let ?i = "XLAT_TABLE_IDX va l"
  have a: "addr_subtable ctx' = addr_subtable ctx"
    using e by (intro ext) (simp add: addr_subtable_def erased_def)
  consider "get_entry ctx' t ?i = get_entry ctx t ?i" | "get_entry ctx' t ?i = Some INVALID_DESC"
    using e unfolding erased_def by blast
  then show ?case
  proof cases
    case 1
    show ?thesis
    proof (cases "get_entry ctx t ?i")
      case None
      then show ?thesis
        using 1 by (simp add: Let_def)
    next
      case (Some d)
      then show ?thesis
        using 1 Suc.IH [of _ XLAT_TABLE_ENTRIES "l + 1"] by (cases "addr_subtable ctx (d AND TABLE_ADDR_MASK)") (auto simp: Let_def a ensure_def)
    qed
  next
    case 2
    then show ?thesis
      by (simp add: Let_def INVALID_DESC_def)
  qed
qed simp

lemma translate_erased:
  assumes "erased ctx ctx'"
  shows "translate ctx' va = Some None \<or> translate ctx' va = translate ctx va"
proof -
  have f: "length (base_table ctx') = length (base_table ctx)" "va_max_address ctx' = va_max_address ctx" "xlat_regime ctx' = xlat_regime ctx"
    using assms by (simp_all add: erased_def)
  show ?thesis
    using walk_erased [OF assms, of 4 va Base "length (base_table ctx)" "GET_XLAT_TABLE_LEVEL_BASE (va_max_address ctx + 1)"]
    unfolding translate_def find_xlat_table_entry_def f
    by (auto split: option.splits simp: bind_eq_Some_conv) (auto simp: bind_split split: option.splits)
qed

definition same_tables :: "xlat_ctx \<Rightarrow> xlat_ctx \<Rightarrow> bool" where
  "same_tables ctx ctx' \<longleftrightarrow> tables ctx' = tables ctx \<and> tables_addr ctx' = tables_addr ctx \<and> base_table ctx' = base_table ctx \<and>
     va_max_address ctx' = va_max_address ctx \<and> xlat_regime ctx' = xlat_regime ctx"

lemma translate_same:
  assumes "same_tables ctx ctx'"
  shows "translate ctx' va = translate ctx va"
proof -
  have g: "get_entry ctx' t i = get_entry ctx t i" for t i
    using assms by (cases t) (simp_all add: same_tables_def)
  have a: "addr_subtable ctx' = addr_subtable ctx"
    using assms by (intro ext) (simp add: addr_subtable_def same_tables_def)
  have "walk_loop n ctx' va t k l = walk_loop n ctx va t k l" for n t k l
    by (induction n arbitrary: t k l) (simp_all only: walk_loop.simps g a)
  then show ?thesis
    using assms by (simp only: translate_def find_xlat_table_entry_def g same_tables_def)
qed

section \<open>Removing a region, and failing to add one\<close>

lemma remove_spec:
  assumes "mmap_remove_dynamic_region_ctx ctx va sz = Some (r, ctx')"
  shows "translate ctx' v = Some None \<or> translate ctx' v = translate ctx v"
proof -
  obtain i mm where i: "find_region va sz (mmap ctx) = Some i" "aget (mmap ctx) i = Some mm"
    using assms unfolding mmap_remove_dynamic_region_ctx_def by (auto simp: bind_eq_Some_conv simp del: aget_eq_Some)
  let ?un = "if initialized ctx then xlat_tables_unmap_region 4 mm 0 Base (length (base_table ctx)) (base_level ctx) ctx else Some ctx"
  show ?thesis
  proof (cases "region_size mm = 0 \<or> attr mm AND MT_DYNAMIC = 0")
    case True
    then have "ctx' = ctx"
      using assms i unfolding mmap_remove_dynamic_region_ctx_def
      by (auto simp: bind_eq_Some_conv [of "aget _ _"] bind_eq_Some_conv [of "ensure _"] split: if_splits)
    then show ?thesis
      by simp
  next
    case False
    then have "\<exists>ctx1. ?un = Some ctx1 \<and> same_tables ctx1 ctx'"
      using assms i unfolding mmap_remove_dynamic_region_ctx_def
      by (auto simp: bind_eq_Some_conv Let_def same_tables_def simp del: aget_eq_Some)
    then obtain ctx1 where u: "?un = Some ctx1" and s: "same_tables ctx1 ctx'"
      by blast
    have "erased ctx ctx1"
      using u unmap_region_erases [of 4 mm 0 Base "length (base_table ctx)" "base_level ctx" ctx ctx1] erased_refl [of ctx]
      by (auto split: if_splits)
    then show ?thesis
      using translate_erased [of ctx ctx1 v] translate_same [OF s] by simp
  qed
qed

lemma move_down_up:
  assumes "i \<le> length regs"
  shows "move_down i (Suc (length regs + k)) ((take i regs @ mm # drop i regs) @ replicate (Suc k) zero_region) = regs @ replicate (Suc (Suc k)) zero_region"
proof -
  let ?ys = "(take i regs @ mm # drop i regs) @ replicate (Suc k) zero_region"
  have "length (take i regs) = i"
    using assms by simp
  then have "take i ?ys = take i regs" "drop (Suc i) ?ys = drop i regs @ replicate (Suc k) zero_region"
    by simp_all
  moreover have "length ?ys = Suc (Suc (length regs + k))"
    using assms by simp
  moreover have "drop (Suc (length regs + k)) ?ys = [zero_region]"
    using assms by (simp add: Suc_diff_le drop_Cons')
  ultimately show ?thesis
    using replicate_append_same [of "Suc k" zero_region] by (simp add: move_down_def del: append_take_drop_id) (metis append.assoc append_take_drop_id)
qed

definition keeps_mmap :: "xlat_ctx \<Rightarrow> xlat_ctx \<Rightarrow> bool" where
  "keeps_mmap ctx ctx' \<longleftrightarrow> mmap ctx' = mmap ctx \<and> mmap_num ctx' = mmap_num ctx \<and>
     va_max_address ctx' = va_max_address ctx \<and> pa_max_address ctx' = pa_max_address ctx"

lemma map_entry_mmap:
  assumes m: "map_entry sub dyn mm t l idx va ctx = Some (stop, ctx')"
    and sub: "\<And>va t l ctx e ctx'. sub va t l ctx = Some (e, ctx') \<Longrightarrow> keeps_mmap ctx ctx'"
  shows "keeps_mmap ctx ctx'"
proof -
  have into: "keeps_mmap c ctx'" if "map_into sub va u l c = Some (stop, ctx')" for u c
    using that sub by (auto simp: map_into_def bind_eq_Some_conv)
  obtain d act where d: "get_entry ctx t idx = Some d"
    "xlat_tables_map_region_action mm (d AND DESC_MASK) (base_pa mm + va - base_va mm) va l = Some act"
    using m by (auto simp: map_entry_def bind_eq_Some_conv Let_def)
  show ?thesis
  proof (cases act)
    case ACTION_WRITE_BLOCK_ENTRY
    then show ?thesis
      using m d put_entry_keep by (auto simp: map_entry_def bind_eq_Some_conv keeps_mmap_def Let_def)
  next
    case ACTION_CREATE_NEW_TABLE
    then obtain k ctx1 where g: "xlat_table_get_empty dyn ctx = Some (k, ctx1)"
      "(case k of None \<Rightarrow> Some (Some va, ctx1)
        | Some k \<Rightarrow> put_entry ctx1 t idx (TABLE_DESC OR subtable_addr ctx1 k) \<bind> map_into sub va (Subtable k) l) = Some (stop, ctx')"
      using m d by (auto simp: map_entry_def bind_eq_Some_conv [of "xlat_table_get_empty _ _"] Let_def)
    have "keeps_mmap ctx ctx1"
      using g(1) by (auto simp: xlat_table_get_empty_def keeps_mmap_def split: if_splits)
    moreover have "keeps_mmap ctx1 ctx'"
    proof (cases k)
      case None
      then show ?thesis
        using g(2) by (simp add: keeps_mmap_def)
    next
      case (Some j)
      then obtain ctx2 where "put_entry ctx1 t idx (TABLE_DESC OR subtable_addr ctx1 j) = Some ctx2" "map_into sub va (Subtable j) l ctx2 = Some (stop, ctx')"
        using g(2) by (auto simp: bind_eq_Some_conv)
      then show ?thesis
        using put_entry_keep(2,4,5,7) into by (simp add: keeps_mmap_def)
    qed
    ultimately show ?thesis
      by (simp add: keeps_mmap_def)
  next
    case ACTION_RECURSE_INTO_TABLE
    then show ?thesis
      using m d into by (auto simp: map_entry_def bind_eq_Some_conv [of "addr_subtable _ _"] Let_def)
  qed (use m d in \<open>auto simp: map_entry_def keeps_mmap_def Let_def\<close>)
qed

lemma map_loop_mmap:
  assumes sub: "\<And>va t l ctx e ctx'. sub va t l ctx = Some (e, ctx') \<Longrightarrow> keeps_mmap ctx ctx'"
  shows "map_loop sub dyn mm t l n idx va ctx = Some (e, ctx') \<Longrightarrow> keeps_mmap ctx ctx'"
proof (induction n arbitrary: idx va ctx)
  case (Suc n)
  then obtain stop ctx1 where c: "map_entry sub dyn mm t l idx va ctx = Some (stop, ctx1)"
    by (auto simp: bind_eq_Some_conv)
  have "keeps_mmap ctx ctx1"
    by (rule map_entry_mmap [OF c sub])
  moreover have "ctx' = ctx1 \<or> map_loop sub dyn mm t l n (Suc idx) (va + XLAT_BLOCK_SIZE l) ctx1 = Some (e, ctx')"
    using Suc.prems c by (auto simp: Let_def split: if_splits option.splits)
  ultimately show ?case
    using Suc.IH [of "Suc idx" "va + XLAT_BLOCK_SIZE l" ctx1] by (auto simp: keeps_mmap_def)
qed (simp add: keeps_mmap_def)

lemma map_region_mmap: "xlat_tables_map_region depth dyn mm tva t n l ctx = Some (e, ctx') \<Longrightarrow> keeps_mmap ctx ctx'"
proof (induction depth arbitrary: tva t n l ctx e ctx')
  case (Suc depth)
  let ?sub = "\<lambda>va t l ctx. xlat_tables_map_region depth dyn mm va t XLAT_TABLE_ENTRIES l ctx"
  obtain idx va ctx1 where c: "(if dyn \<and> base_level ctx < l then xlat_table_inc_regions_count ctx t else Some ctx) = Some ctx1"
    "map_loop ?sub dyn mm t l (n - idx) idx va ctx1 = Some (e, ctx')"
    using Suc.prems by (auto simp: bind_eq_Some_conv [of "ensure _"] bind_eq_Some_conv [of "first_entry _ _ _ _"]
      bind_eq_Some_conv [of "if _ then _ else _"])
  have "keeps_mmap ctx ctx1"
    using c(1) by (auto simp: keeps_mmap_def xlat_table_inc_regions_count_def xlat_table_add_regions_count_def bind_eq_Some_conv split: if_splits)
  moreover have "keeps_mmap ctx1 ctx'"
    by (rule map_loop_mmap [OF Suc.IH c(2)])
  ultimately show ?case
    by (simp add: keeps_mmap_def)
qed simp

lemma add_dynamic_error:
  assumes a: "mmap_add_dynamic_region_ctx ctx mm0 = Some (r, ctx')" "r \<noteq> 0" and m: "mmap_is ctx regs" and s: "space_ok ctx"
  shows "mmap ctx' = mmap ctx"
proof -
  define mm where "mm = mm0\<lparr>attr := attr mm0 OR MT_DYNAMIC\<rparr>"
  have z: "region_size mm \<noteq> 0"
    using a by (auto simp: mmap_add_dynamic_region_ctx_def mm_def)
  then have z0: "region_size mm0 \<noteq> 0"
    by (simp add: mm_def)
  obtain c where c: "mmap_add_region_check True ctx mm = Some c"
    using a z0 by (cases "mmap_add_region_check True ctx mm") (auto simp: mmap_add_dynamic_region_ctx_def Let_def simp flip: mm_def)
  show ?thesis
  proof (cases "c = 0")
    case False
    then show ?thesis
      using a(1) c z0 by (simp add: mmap_add_dynamic_region_ctx_def Let_def flip: mm_def)
  next
    case True
    obtain i k where I: "mmap_cursor mm (mmap ctx) = Some i" "used_regions (mmap ctx) = Some (length regs)" "mmap_num ctx = Suc (length regs + k)"
      "\<And>l. length regs \<le> l \<Longrightarrow> l \<le> mmap_num ctx \<Longrightarrow>
         move_up mm i l (mmap ctx) = (take i regs @ mm # drop i regs) @ replicate (Suc k) zero_region"
      "arranged (take i regs @ mm # drop i regs)" "i \<le> length regs"
      using insert_region [OF m s z] c True by metis
    define xs where "xs = (take i regs @ mm # drop i regs) @ replicate (Suc k) zero_region"
    have xs: "move_up mm i (mmap_num ctx) (mmap ctx) = xs"
      unfolding xs_def by (rule I(4)) (use I(3) in simp_all)
    have down: "move_down i (mmap_num ctx) xs = mmap ctx"
      using move_down_up [OF I(6)] m I(3) by (simp add: xs_def mmap_is_def Suc_diff_le)
    obtain e ctx1 where e: "xlat_tables_map_region 4 True mm 0 Base (length (base_table ctx)) (base_level ctx) (ctx\<lparr>mmap := xs\<rparr>) = Some (e, ctx1)"
      "let c = ctx1\<lparr>mmap := move_down i (mmap_num ctx1) (mmap ctx1)\<rparr> in ctx' = c \<or> (\<exists>q. xlat_tables_unmap_region 4 q 0 Base (length (base_table c)) (base_level c) c = Some ctx')"
      using a c True I(1) xs z0
      by (auto simp: mmap_add_dynamic_region_ctx_def bind_eq_Some_conv Let_def simp flip: mm_def split: if_splits)
    have "keeps_mmap (ctx\<lparr>mmap := xs\<rparr>) ctx1"
      by (rule map_region_mmap [OF e(1)])
    then have "mmap (ctx1\<lparr>mmap := move_down i (mmap_num ctx1) (mmap ctx1)\<rparr>) = mmap ctx"
      using down by (simp add: keeps_mmap_def)
    then show ?thesis
      using e(2) unmap_region_erases by (auto simp: Let_def erased_def)
  qed
qed

end
