(* ===== verification/Xlat_attr.thy ===== *)
theory Xlat_attr
  imports Xlat_unmap
begin

text \<open>
  Changing the attributes of mapped pages: the page descriptors of the range are rewritten with the same
  addresses, nothing else changes, and a refused request changes nothing.
\<close>

section \<open>Rewriting a page descriptor\<close>

text \<open>Two addresses that a walk from a table of level \<open>l\<close> cannot tell apart.\<close>

definition same_path :: "nat \<Rightarrow> nat \<Rightarrow> nat \<Rightarrow> bool" where
  "same_path l v w \<longleftrightarrow> (\<forall>L. l \<le> L \<and> L \<le> 3 \<longrightarrow> v div blk L mod 512 = w div blk L mod 512)"

lemma same_path_rec:
  assumes "l \<le> 3"
  shows "same_path l v w \<longleftrightarrow> v div blk l mod 512 = w div blk l mod 512 \<and> (l < 3 \<longrightarrow> same_path (Suc l) v w)"
proof
  assume "same_path l v w"
  then show "v div blk l mod 512 = w div blk l mod 512 \<and> (l < 3 \<longrightarrow> same_path (Suc l) v w)"
    using assms by (simp add: same_path_def)
next
  assume r: "v div blk l mod 512 = w div blk l mod 512 \<and> (l < 3 \<longrightarrow> same_path (Suc l) v w)"
  have "v div blk L mod 512 = w div blk L mod 512" if "l \<le> L" "L \<le> 3" for L
  proof (cases "L = l")
    case False
    then have "Suc l \<le> L" "l < 3"
      using that by simp_all
    then show ?thesis
      using r that(2) by (simp add: same_path_def)
  qed (use r in simp)
  then show "same_path l v w"
    by (simp add: same_path_def)
qed

definition lk :: "nat \<Rightarrow> ptree list \<Rightarrow> nat \<Rightarrow> (u64 \<times> nat) option" where
  "lk l ts w = look l (ts ! (w div blk l mod 512)) w"

lemma page_put:
  assumes v: "v = unat va" and d: "d' AND DESC_MASK = PAGE_DESC"
  shows "tinv dyn ctx ref l ts \<Longrightarrow> v div blk l mod 512 < length ts \<Longrightarrow> lk l ts v = Some (d, 3) \<Longrightarrow>
    walk_loop n ctx va ref (length ts) l = Some (Some (t, i, 3)) \<Longrightarrow> put_entry ctx t i d' = Some ctx' \<Longrightarrow>
    \<exists>ts'. tinv dyn ctx' ref l ts' \<and> extends dyn ctx ref ts ctx' ts' \<and>
      (\<forall>w. w div blk l mod 512 < length ts \<longrightarrow> lk l ts' w = (if same_path l v w then Some (d', 3) else lk l ts w))"
proof (induction n arbitrary: l ref ts)
  case (Suc n)
  let ?i = "v div blk l mod 512"
  have w: "wf_ctx dyn ctx" "l \<le> 3"
    using Suc.prems(1) by (simp_all add: tinv_def)
  define x where "x = content ctx ref ! ?i"
  have r: "rep ctx l (ts ! ?i) x" and g: "get_entry ctx ref ?i = Some x"
    using inv_rep [OF Suc.prems(1,2)] get_entry_Some [OF Suc.prems(1,2)] by (simp_all add: x_def)
  have idx: "XLAT_TABLE_IDX va l = ?i"
    by (simp add: unat_table_idx v)
  note ty = rep_type [OF r w(1)]
  show ?case
  proof (cases "ts ! ?i")
    case Unmapped
    then show ?thesis
      using Suc.prems(3) by (simp add: lk_def)
  next
    case (Leaf e)
    then have l: "l = 3"
      using Suc.prems(3) by (simp add: lk_def)
    have "t = ref" "i = ?i"
      using Suc.prems(2,4) g idx ty Leaf by (simp_all add: l Let_def XLAT_TABLE_LEVEL_MAX_def ensure_def split: if_splits)
    then have p: "put_entry ctx ref ?i d' = Some ctx'"
      using Suc.prems(5) by simp
    have "tinv dyn ctx' ref l (ts[?i := Leaf d'])" "extends dyn ctx ref ts ctx' (ts[?i := Leaf d'])"
      using inv_leaf [OF Suc.prems(1,2) _ p] Leaf d l by simp_all
    moreover have "lk l (ts[?i := Leaf d']) w = (if same_path l v w then Some (d', 3) else lk l ts w)" if "w div blk l mod 512 < length ts" for w
      using that l by (auto simp: lk_def same_path_rec)
    ultimately show ?thesis
      by blast
  next
    case (Node k us)
    then have n: "l < 3" "k < length (tables ctx)" "x = TABLE_DESC OR subtable_addr ctx k"
      using r by auto
    have a: "addr_subtable ctx (x AND TABLE_ADDR_MASK) = Some (Subtable k)"
      using subtable_page_addr [OF w(1) n(2)] table_desc_bits(2) n(3) by simp
    note child = inv_child [OF Suc.prems(1,2) Node]
    have us: "length us = 512"
      by (rule tinv_sub_length [OF child])
    have wk: "walk_loop n ctx va (Subtable k) (length us) (Suc l) = Some (Some (t, i, 3))"
      using Suc.prems(2,4) g idx ty Node n(1) a us
      by (simp add: Let_def XLAT_TABLE_LEVEL_MAX_def XLAT_TABLE_ENTRIES_def TABLE_DESC_def INVALID_DESC_def BLOCK_DESC_def)
    have lk: "lk (Suc l) us v = Some (d, 3)"
      using Suc.prems(3) Node us by (simp add: lk_def)
    obtain us' where u: "tinv dyn ctx' (Subtable k) (Suc l) us'" "extends dyn ctx (Subtable k) us ctx' us'"
      "\<forall>w. lk (Suc l) us' w = (if same_path (Suc l) v w then Some (d', 3) else lk (Suc l) us w)"
      using Suc.IH [OF child _ lk wk Suc.prems(5)] us by auto
    have "lk l (ts[?i := Node k us']) w = (if same_path l v w then Some (d', 3) else lk l ts w)" if "w div blk l mod 512 < length ts" for w
    proof (cases "w div blk l mod 512 = ?i")
      case True
      then have "lk l (ts[?i := Node k us']) w = lk (Suc l) us' w" "lk l ts w = lk (Suc l) us w"
        using Suc.prems(2) Node us tinv_sub_length [OF u(1)] by (simp_all add: lk_def)
      then show ?thesis
        using u(3) True n(1) by (simp add: same_path_rec [of l])
    next
      case False
      then show ?thesis
        using n(1) by (simp add: lk_def same_path_rec [of l])
    qed
    then show ?thesis
      using inv_parent [OF Suc.prems(1,2) Node u(2,1)] by blast
  qed
qed simp

lemma div_blk_Suc: "l < 3 \<Longrightarrow> v div blk l = v div blk (Suc l) div 512"
  by (simp add: blk_Suc div_mult2_eq mult.commute [of 512])

lemma same_path_page:
  assumes "l \<le> 3" "v < n * blk l" "w < n * blk l" "n \<le> 512"
  shows "same_path l v w \<longleftrightarrow> v div 4096 = w div 4096"
proof -
  have step: "same_path l v w \<and> v div blk l = w div blk l \<Longrightarrow> l \<le> 3 \<Longrightarrow> v div 4096 = w div 4096" for l
  proof (induction "3 - l" arbitrary: l)
    case (Suc k)
    then have l: "l < 3"
      by simp
    have "v div blk (Suc l) = w div blk (Suc l)"
      using Suc.prems same_path_rec [of l v w] same_path_rec [of "Suc l" v w] l div_blk_Suc [OF l]
      by (metis Suc_leI div_mult_mod_eq)
    then show ?case
      using Suc.hyps(1) [of "Suc l"] Suc.hyps(2) Suc.prems same_path_rec [of l v w] l by simp
  qed simp
  have up: "v div 4096 = w div 4096 \<Longrightarrow> l \<le> 3 \<Longrightarrow> v div blk l = w div blk l" for l
  proof (induction "3 - l" arbitrary: l)
    case (Suc k)
    then show ?case
      using div_blk_Suc [of l] by simp
  qed simp
  have "v div blk l < 512" "w div blk l < 512"
    using assms less_mult_imp_div_less by (meson less_le_trans)+
  then have "same_path l v w \<Longrightarrow> v div blk l = w div blk l"
    using same_path_rec [OF assms(1), of v w] by simp
  moreover have "same_path l v w" if "v div 4096 = w div 4096"
    using up [OF that] by (simp add: same_path_def)
  ultimately show ?thesis
    using step [of l] assms(1) by blast
qed

section \<open>Contexts with sound descriptors\<close>

definition sound :: "xlat_ctx \<Rightarrow> nat \<Rightarrow> (nat \<Rightarrow> (u64 \<times> nat) option) \<Rightarrow> bool" where
  "sound ctx lim f \<longleftrightarrow> (\<forall>v < lim. \<forall>d L. f v = Some (d, L) \<longrightarrow> (\<exists>a pa. page_addr pa \<and> xlat_desc ctx a pa L = Some d))"

definition mapped :: "bool \<Rightarrow> xlat_ctx \<Rightarrow> bool" where
  "mapped dyn ctx \<longleftrightarrow> initialized ctx \<and> layout ctx \<and>
     (\<exists>ts. tinv dyn ctx Base (base_level ctx) ts \<and> sound ctx (unat (va_max_address ctx) + 1) (lookf (base_level ctx) 0 ts))"

section \<open>The new descriptor of a page\<close>

definition attr_mask :: u32 where
  "attr_mask = MT_RW OR MT_EXECUTE_NEVER OR MT_USER"

definition new_attr :: "u32 \<Rightarrow> u32 \<Rightarrow> u32" where
  "new_attr old a = (old AND NOT attr_mask) OR (a AND attr_mask)"

definition renew :: "xlat_ctx \<Rightarrow> u32 \<Rightarrow> u64 \<Rightarrow> u64 option" where
  "renew ctx a d = do { old \<leftarrow> desc_attributes (xlat_regime ctx) d; xlat_desc ctx (new_attr old a) (d AND TABLE_ADDR_MASK) 3 }"

lemma new_attr_type: "MT_TYPE (new_attr old a) = MT_TYPE old"
  by (simp add: MT_TYPE_def new_attr_def attr_mask_def mt_consts bit.conj_disj_distrib2 and.assoc)

lemma effective_attr_type: "MT_TYPE (effective_attr regime a) = MT_TYPE a"
  by (simp add: MT_TYPE_def effective_attr_def mt_consts bit.conj_disj_distrib2 and.assoc)

lemma renew_ok:
  assumes "xlat_desc ctx a0 pa 3 = Some d" "page_addr pa"
  obtains d' old where "desc_attributes (xlat_regime ctx) d = Some old" "renew ctx a d = Some d'" "d AND TABLE_ADDR_MASK = pa"
    "xlat_desc ctx (new_attr old a) pa 3 = Some d'"
proof -
  let ?old = "effective_attr (xlat_regime ctx) a0"
  note D = xlat_desc_masks(1) [OF assms] xlat_desc_attributes [OF assms]
  have "desc_mem_type (xlat_regime ctx) a0 \<noteq> None"
    using assms(1) by (auto simp: xlat_desc_alt attr_bits_def bind_eq_Some_conv)
  then have "desc_mem_type (xlat_regime ctx) (new_attr ?old a) \<noteq> None"
    by (simp add: desc_mem_type_def new_attr_type effective_attr_type Let_def split: if_splits)
  moreover have "blk 3 dvd unat pa"
    using assms(2) by (simp add: page_addr_def)
  ultimately obtain d' where "xlat_desc ctx (new_attr ?old a) pa 3 = Some d'"
    by (auto simp: xlat_desc_alt attr_bits_def)
  then show thesis
    using that D by (simp add: renew_def)
qed

section \<open>The two loops\<close>

text \<open>What the loops keep of a context.\<close>

definition meta :: "xlat_ctx \<Rightarrow> xlat_ctx" where
  "meta ctx = (strip ctx)\<lparr>tlbi := []\<rparr>"

lemma meta_fields:
  assumes "meta ctx' = meta ctx"
  shows "base_level ctx' = base_level ctx" "xlat_regime ctx' = xlat_regime ctx" "va_max_address ctx' = va_max_address ctx"
    "pa_max_address ctx' = pa_max_address ctx" "mmap_num ctx' = mmap_num ctx" "initialized ctx' = initialized ctx"
  using assms by (cases ctx; cases ctx'; simp add: meta_def strip_def)+

lemma layout_meta: "meta ctx' = meta ctx \<Longrightarrow> length (base_table ctx') = length (base_table ctx) \<Longrightarrow> layout ctx' = layout ctx"
  using meta_fields [of ctx' ctx] by (simp add: layout_def space_ok_def)

lemma renew_meta: "meta ctx' = meta ctx \<Longrightarrow> renew ctx' = renew ctx" "meta ctx' = meta ctx \<Longrightarrow> sound ctx' = sound ctx"
  using meta_fields(2) [of ctx' ctx] by (intro ext, simp add: renew_def sound_def xlat_desc_alt)+

lemma layout_max: "layout ctx \<Longrightarrow> va_max_address ctx + 1 \<noteq> 0"
proof
  assume "layout ctx" "va_max_address ctx + 1 = 0"
  then have "va_max_address ctx = - 1"
    by (simp add: eq_neg_iff_add_eq_0)
  then show False
    using layout_lim(2) [OF \<open>layout ctx\<close>] by (simp add: unsigned_minus_1_eq_mask mask_eq_exp_minus_1)
qed

lemma lookf_lk:
  assumes "tinv dyn ctx Base (base_level ctx) ts" "layout ctx" "v < unat (va_max_address ctx) + 1"
  shows "lookf (base_level ctx) 0 ts v = lk (base_level ctx) ts v"
  using base_index [OF assms] by (simp add: lookf_def lk_def)

lemma look_page: "v div 4096 = w div 4096 \<Longrightarrow> look l t v = look l t w"
proof (induction l t v rule: look.induct)
  case (3 l k ts v)
  have "blk (Suc l) = 4096 * (blk (Suc l) div 4096)"
    using page_dvd_blk by simp
  then have "v div blk (Suc l) = w div blk (Suc l)"
    using 3(2) by (metis div_mult2_eq)
  then show ?case
    using 3 by simp
qed simp_all

lemma div_page_blk: "v div 4096 = w div 4096 \<Longrightarrow> v div blk l = w div blk l"
proof -
  have "blk l = 4096 * (blk l div 4096)"
    using page_dvd_blk by simp
  then show "v div 4096 = w div 4096 \<Longrightarrow> v div blk l = w div blk l"
    by (metis div_mult2_eq)
qed

lemma lookf_page: "v div 4096 = w div 4096 \<Longrightarrow> lookf l 0 ts v = lookf l 0 ts w"
  using look_page [of v w l] div_page_blk [of v w l] by (simp add: lookf_def)

lemma put_put:
  assumes "get_entry ctx t j = Some d"
  obtains c c1 where "put_entry ctx t j x = Some c" "put_entry ctx t j INVALID_DESC = Some c1"
    "\<And>y. put_entry (c1\<lparr>tlbi := y\<rparr>) t j x = Some (c\<lparr>tlbi := y\<rparr>)" "xlat_regime c1 = xlat_regime ctx" "tlbi c1 = tlbi ctx"
  using assms that by (cases t) (auto simp: bind_eq_Some_conv aset_Some aget_Some)

text \<open>One page is rewritten.\<close>

lemma change_page:
  assumes i: "tinv dyn ctx Base (base_level ctx) ts" and l: "layout ctx" "initialized ctx"
    and s: "sound ctx (unat (va_max_address ctx) + 1) (lookf (base_level ctx) 0 ts)"
    and v: "va \<le> va_max_address ctx" "lookf (base_level ctx) 0 ts (unat va) = Some (d, 3)"
  obtains d' ctx1 ts1 where "change_pages a (Suc n) va ctx = change_pages a n (va + PAGE_SIZE) ctx1" "renew ctx a d = Some d'"
    "tinv dyn ctx1 Base (base_level ctx) ts1" "meta ctx1 = meta ctx" "length (base_table ctx1) = length (base_table ctx)"
    "\<And>w. w < unat (va_max_address ctx) + 1 \<Longrightarrow>
       lookf (base_level ctx) 0 ts1 w = (if w div 4096 = unat va div 4096 then Some (d', 3) else lookf (base_level ctx) 0 ts w)"
    "sound ctx (unat (va_max_address ctx) + 1) (lookf (base_level ctx) 0 ts1)"
proof -
  let ?lim = "unat (va_max_address ctx) + 1" and ?l = "base_level ctx"
  have lt: "unat va < ?lim"
    using v(1) by (simp add: word_le_nat_alt less_Suc_eq_le)
  obtain a0 pa where a0: "page_addr pa" "xlat_desc ctx a0 pa 3 = Some d"
    using s [unfolded sound_def, rule_format, OF lt v(2)] by blast
  obtain d' old where d: "desc_attributes (xlat_regime ctx) d = Some old" "renew ctx a d = Some d'" "d AND TABLE_ADDR_MASK = pa"
    "xlat_desc ctx (new_attr old a) pa 3 = Some d'"
    using renew_ok [OF a0(2,1)] by metis
  obtain t j where f: "find_xlat_table_entry ctx va (va_max_address ctx + 1) = Some (Some (t, j, 3))" "get_entry ctx t j = Some d"
    using find_entry_look [OF i l(1) v(1)] v(2) by auto
  have g: "get_mem_attributes_internal ctx va = Some (Inr \<lparr>ma_attributes = old, ma_entry = (t, j), ma_addr_pa = pa, ma_level = 3\<rparr>)"
    using f d l(2) layout_max [OF l(1)] by (simp add: get_mem_attributes_internal_def word_gt_0)
  obtain c c1 where p: "put_entry ctx t j d' = Some c" "put_entry ctx t j INVALID_DESC = Some c1"
    "\<And>y. put_entry (c1\<lparr>tlbi := y\<rparr>) t j d' = Some (c\<lparr>tlbi := y\<rparr>)" "xlat_regime c1 = xlat_regime ctx" "tlbi c1 = tlbi ctx"
    using put_put [OF f(2), of d'] by metis
  define ctx1 where "ctx1 = c\<lparr>tlbi := tlbi ctx @ [va]\<rparr>"
  have x: "xlat_desc (c1\<lparr>tlbi := y\<rparr>) = xlat_desc ctx" for y
    using p(4) by (intro ext) (simp add: xlat_desc_alt)
  have step: "change_pages a (Suc n) va ctx = change_pages a n (va + PAGE_SIZE) ctx1"
    using g p(2,3,5) d(4) by (simp add: x xlat_arch_tlbi_va_regime_def new_attr_def attr_mask_def ctx1_def Let_def)
  have len: "length (base_table ctx) = length ts" "length ts \<le> 512"
    using tinv_length [OF i] l(1) by (simp_all add: layout_def)
  have lv: "?l \<le> 3"
    using i by (simp add: tinv_def)
  have wk: "walk_loop 4 ctx va Base (length ts) ?l = Some (Some (t, j, 3))"
    using f(1) l(1) by (simp add: find_xlat_table_entry_def layout_def len)
  note b = base_index [OF i l(1)]
  have ty: "d' AND DESC_MASK = PAGE_DESC"
    using xlat_desc_masks(2) [OF d(4) a0(1)] by simp
  have idx: "unat va div blk ?l mod 512 < length ts"
    using b [OF lt] by simp
  obtain ts1 where t: "tinv dyn c Base ?l ts1" "extends dyn ctx Base ts c ts1"
    "\<And>w. w div blk ?l mod 512 < length ts \<Longrightarrow> lk ?l ts1 w = (if same_path ?l (unat va) w then Some (d', 3) else lk ?l ts w)"
    using page_put [OF refl ty i idx _ wk p(1)] v(2) lookf_lk [OF i l(1) lt] by auto
  have lim: "?lim = length ts * blk ?l"
    using layout_lim(1) [OF l(1)] len by simp
  have lens: "length ts1 = length ts" "length (base_table c) = length (base_table ctx)" "strip c = strip ctx"
    using t(2) by (simp_all add: extends_def)
  have look: "lookf ?l 0 ts1 w = (if w div 4096 = unat va div 4096 then Some (d', 3) else lookf ?l 0 ts w)" if "w < ?lim" for w
  proof -
    have "lookf ?l 0 ts1 w = lk ?l ts1 w" "lookf ?l 0 ts w = lk ?l ts w"
      using b [OF that] by (simp_all add: lookf_def lk_def)
    moreover have "same_path ?l (unat va) w \<longleftrightarrow> unat va div 4096 = w div 4096"
      using that lt len(2) lim by (intro same_path_page [OF lv]) auto
    ultimately show ?thesis
      using t(3) [of w] b [OF that] by auto
  qed
  moreover have "sound ctx ?lim (lookf ?l 0 ts1)"
    unfolding sound_def
  proof (intro allI impI)
    fix w e L
    assume w: "w < ?lim" "lookf ?l 0 ts1 w = Some (e, L)"
    show "\<exists>a pa. page_addr pa \<and> xlat_desc ctx a pa L = Some e"
    proof (cases "w div 4096 = unat va div 4096")
      case True
      then have "e = d'" "L = 3"
        using look [OF w(1)] w(2) by simp_all
      then show ?thesis
        using a0(1) d(4) by blast
    next
      case False
      then have "lookf ?l 0 ts w = Some (e, L)"
        using look [OF w(1)] w(2) by simp
      then show ?thesis
        using s w(1) by (simp add: sound_def)
    qed
  qed
  moreover have "tinv dyn ctx1 Base ?l ts1"
    using t(1) tinv_cong [of ctx1 c dyn Base ?l ts1] by (simp add: ctx1_def)
  moreover have "meta ctx1 = meta ctx"
    using lens(3) by (cases c; cases ctx) (simp add: meta_def ctx1_def strip_def)
  ultimately show thesis
    using that [OF step d(2)] lens(2) by (simp add: ctx1_def)
qed

lemma page_next:
  assumes "4096 dvd unat va" "unat va + 4096 * Suc n \<le> lim" "lim \<le> 2 ^ 48"
  shows "unat (va + PAGE_SIZE) = unat va + 4096" "4096 dvd unat (va + PAGE_SIZE)" "unat (va + PAGE_SIZE) + 4096 * n \<le> lim"
proof -
  show e: "unat (va + PAGE_SIZE) = unat va + 4096"
    using assms(2,3) by (subst unat_add_nowrap) (simp_all add: PAGE_SIZE_def)
  show "4096 dvd unat (va + PAGE_SIZE)" "unat (va + PAGE_SIZE) + 4096 * n \<le> lim"
    using assms by (simp_all add: e)
qed

lemma check_pages_ok:
  assumes i: "tinv dyn ctx Base (base_level ctx) ts" and l: "layout ctx"
  shows "4096 dvd unat va \<Longrightarrow> unat va + 4096 * n \<le> unat (va_max_address ctx) + 1 \<Longrightarrow>
    \<exists>b. check_pages ctx a n va = Some b \<and> (b \<longrightarrow> (\<forall>j < n. \<exists>d. lookf (base_level ctx) 0 ts (unat va + 4096 * j) = Some (d, 3)))"
proof (induction n arbitrary: va)
  case (Suc n)
  have v: "va \<le> va_max_address ctx"
    using Suc.prems(2) by (simp add: word_le_nat_alt)
  note nx = page_next [OF Suc.prems layout_lim(2) [OF l]]
  obtain b where b: "check_pages ctx a n (va + PAGE_SIZE) = Some b"
    "b \<longrightarrow> (\<forall>j < n. \<exists>d. lookf (base_level ctx) 0 ts (unat va + 4096 + 4096 * j) = Some (d, 3))"
    using Suc.IH [OF nx(2,3)] nx(1) by auto
  note F = find_entry_look [OF i l v]
  show ?case
  proof (cases "lookf (base_level ctx) 0 ts (unat va)")
    case None
    then show ?thesis
      using F by (intro exI [of _ False]) simp
  next
    case (Some x)
    obtain d L where x: "x = (d, L)"
      by (cases x)
    then obtain t k where f: "find_xlat_table_entry ctx va (va_max_address ctx + 1) = Some (Some (t, k, L))" "get_entry ctx t k = Some d"
      using F Some by auto
    let ?bad = "(d AND DESC_MASK \<noteq> PAGE_DESC \<or> L \<noteq> 3) \<or>
      (drop_bit ATTR_INDEX_SHIFT d AND ATTR_INDEX_MASK = ATTR_DEVICE_INDEX \<and> a AND MT_EXECUTE_NEVER = 0)"
    have "check_pages ctx a (Suc n) va = (if ?bad then Some False else Some b)"
      using f b(1) by (auto simp: XLAT_TABLE_LEVEL_MAX_def)
    moreover have "\<forall>j < Suc n. \<exists>d. lookf (base_level ctx) 0 ts (unat va + 4096 * j) = Some (d, 3)" if "\<not> ?bad" "b"
      using b(2) that Some x by (auto simp: algebra_simps less_Suc_eq_0_disj)
    ultimately show ?thesis
      by auto
  qed
qed auto

lemma change_pages_ok:
  "tinv dyn ctx Base (base_level ctx) ts \<Longrightarrow> layout ctx \<Longrightarrow> initialized ctx \<Longrightarrow>
   sound ctx (unat (va_max_address ctx) + 1) (lookf (base_level ctx) 0 ts) \<Longrightarrow> 4096 dvd unat va \<Longrightarrow>
   unat va + 4096 * n \<le> unat (va_max_address ctx) + 1 \<Longrightarrow>
   \<forall>j < n. \<exists>d. lookf (base_level ctx) 0 ts (unat va + 4096 * j) = Some (d, 3) \<Longrightarrow>
   \<exists>ctx' ts'. change_pages a n va ctx = Some ctx' \<and> tinv dyn ctx' Base (base_level ctx) ts' \<and> meta ctx' = meta ctx \<and>
     length (base_table ctx') = length (base_table ctx) \<and> sound ctx (unat (va_max_address ctx) + 1) (lookf (base_level ctx) 0 ts') \<and>
     (\<forall>w < unat (va_max_address ctx) + 1. lookf (base_level ctx) 0 ts' w =
        (if unat va \<le> w \<and> w < unat va + 4096 * n
         then lookf (base_level ctx) 0 ts w \<bind> (\<lambda>(d, L). map_option (\<lambda>d'. (d', 3)) (renew ctx a d))
         else lookf (base_level ctx) 0 ts w))"
proof (induction n arbitrary: va ctx ts)
  case 0
  then show ?case
    by auto
next
  case (Suc n)
  let ?l = "base_level ctx" and ?lim = "unat (va_max_address ctx) + 1"
  note nx = page_next [OF Suc.prems(5,6) layout_lim(2) [OF Suc.prems(2)]]
  have v: "va \<le> va_max_address ctx"
    using Suc.prems(6) by (simp add: word_le_nat_alt)
  obtain d where d: "lookf ?l 0 ts (unat va) = Some (d, 3)"
    using Suc.prems(7) by force
  obtain d' ctx1 ts1 where c: "change_pages a (Suc n) va ctx = change_pages a n (va + PAGE_SIZE) ctx1" "renew ctx a d = Some d'"
    "tinv dyn ctx1 Base ?l ts1" "meta ctx1 = meta ctx" "length (base_table ctx1) = length (base_table ctx)"
    "\<And>w. w < ?lim \<Longrightarrow> lookf ?l 0 ts1 w = (if w div 4096 = unat va div 4096 then Some (d', 3) else lookf ?l 0 ts w)"
    "sound ctx ?lim (lookf ?l 0 ts1)"
    using change_page [OF Suc.prems(1-4) v d] by metis
  note m = meta_fields [OF c(4)]
  have page: "w div 4096 = unat va div 4096 \<longleftrightarrow> unat va \<le> w \<and> w < unat va + 4096" for w
    using Suc.prems(5) by (auto elim!: dvdE)
  have rest: "\<forall>j < n. \<exists>d. lookf ?l 0 ts1 (unat (va + PAGE_SIZE) + 4096 * j) = Some (d, 3)"
  proof (intro allI impI)
    fix j assume "j < n"
    then have lt: "unat (va + PAGE_SIZE) + 4096 * j < ?lim" and e: "unat (va + PAGE_SIZE) + 4096 * j = unat va + 4096 * Suc j" and "Suc j < Suc n"
      using nx(1,3) by simp_all
    then obtain q where "lookf ?l 0 ts (unat va + 4096 * Suc j) = Some (q, 3)"
      using Suc.prems(7) by blast
    then show "\<exists>d. lookf ?l 0 ts1 (unat (va + PAGE_SIZE) + 4096 * j) = Some (d, 3)"
      using c(6) [OF lt] unfolding e by (simp del: mult_Suc_right)
  qed
  obtain ctx' ts' where r: "change_pages a n (va + PAGE_SIZE) ctx1 = Some ctx'" "tinv dyn ctx' Base ?l ts'" "meta ctx' = meta ctx1"
    "length (base_table ctx') = length (base_table ctx1)" "sound ctx ?lim (lookf ?l 0 ts')"
    "\<forall>w < ?lim. lookf ?l 0 ts' w =
        (if unat va + 4096 \<le> w \<and> w < unat va + 4096 + 4096 * n
         then lookf ?l 0 ts1 w \<bind> (\<lambda>(d, L). map_option (\<lambda>d'. (d', 3)) (renew ctx a d)) else lookf ?l 0 ts1 w)"
    using Suc.IH [of ctx1 ts1 "va + PAGE_SIZE"] c(3,5,7) m layout_meta [OF c(4,5)] renew_meta [OF c(4)] Suc.prems(2,3) nx rest by auto
  have "lookf ?l 0 ts' w =
        (if unat va \<le> w \<and> w < unat va + 4096 * Suc n
         then lookf ?l 0 ts w \<bind> (\<lambda>(d, L). map_option (\<lambda>d'. (d', 3)) (renew ctx a d)) else lookf ?l 0 ts w)" if "w < ?lim" for w
  proof (cases "unat va \<le> w \<and> w < unat va + 4096")
    case True
    then have "lookf ?l 0 ts w = Some (d, 3)"
      using lookf_page [of w "unat va" ?l ts] page d by simp
    then show ?thesis
      using r(6) c(2,6) that True page by simp
  next
    case False
    then show ?thesis
      using r(6) c(6) that page by auto
  qed
  then show ?case
    using c(1,4,5) r(1-5) by auto
qed

section \<open>Changing attributes\<close>

lemma pages_count:
  fixes sz :: u64
  assumes "unat sz < 2 ^ 43"
  shows "nat (sint (ucast (sz div PAGE_SIZE) :: 32 word)) = unat sz div 4096"
proof -
  have d: "unat (sz div PAGE_SIZE) = unat sz div 4096"
    by (simp add: unat_div PAGE_SIZE_def)
  have lt: "unat sz div 4096 < 2 ^ 31"
    using assms by (simp add: less_mult_imp_div_less)
  then have "take_bit 32 (unat sz div 4096) = unat sz div 4096"
    by (intro take_bit_nat_eq_self) simp
  then have "unat (ucast (sz div PAGE_SIZE) :: 32 word) = unat sz div 4096"
    by (simp add: unsigned_ucast_eq d)
  then have "uint (ucast (sz div PAGE_SIZE) :: 32 word) = int (unat sz div 4096)"
    by (simp only: uint_nat)
  then have "sint (ucast (sz div PAGE_SIZE) :: 32 word) = signed_take_bit 31 (int (unat sz div 4096))"
    by (simp only: sint_uint) simp
  also have "\<dots> = int (unat sz div 4096)"
    using lt by (intro signed_take_bit_int_eq_self) simp_all
  finally show ?thesis
    by simp
qed

lemma tr_sound: "realised ctx lim regs f \<Longrightarrow> \<forall>m \<in> set regs. region_ok m \<Longrightarrow> sound ctx lim f"
  unfolding sound_def
proof (intro allI impI)
  fix v d L
  assume r: "realised ctx lim regs f" and ok: "\<forall>m \<in> set regs. region_ok m" and v: "v < lim" "f v = Some (d, L)"
  obtain m where m: "find (\<lambda>m. rs m \<le> v \<and> v < re m) regs = Some m" "tr ctx m v (d, L)"
    using r [unfolded realised_def, rule_format, OF v(1)] v(2) by (auto split: option.splits)
  have "m \<in> set regs"
    using m(1) by (metis (no_types, lifting) find_Some_iff nth_mem)
  then have o: "region_ok m"
    using ok by simp
  have t: "rs m \<le> bb L v" "bb L v < re m" "xlat_desc ctx (attr m) (base_pa m + of_nat (bb L v - rs m)) L = Some d"
    using m(2) blk_pos [of L] unfolding tr_def fst_conv snd_conv by (blast, linarith, blast)
  have "unat (of_nat (bb L v) :: u64) = bb L v"
    by (rule unat_of_nat_small) (use t(2) region_okD(4) [OF o] in simp)
  moreover have "4096 dvd bb L v"
    by (rule page_dvd_if [of L]) (simp add: bb_def)
  ultimately have "page_addr (base_pa m + of_nat (bb L v - rs m))"
    using region_pa(2) [OF o t(1,2)] by blast
  then show "\<exists>a pa. page_addr pa \<and> xlat_desc ctx a pa L = Some d"
    using t(3) by blast
qed

lemma mapped_in_use: "in_use dyn ctx \<Longrightarrow> mapped dyn ctx"
  unfolding in_use_def mapped_def mmap_is_def arranged_def using tr_sound by blast

lemma sound_translate:
  assumes "tinv dyn ctx Base (base_level ctx) ts" "layout ctx" "w \<le> va_max_address ctx" "lookf (base_level ctx) 0 ts (unat w) = Some (d, L)"
    "xlat_desc ctx a pa L = Some d" "page_addr pa"
  shows "translate ctx w = Some (Some (pa + (w AND XLAT_BLOCK_MASK L), effective_attr (xlat_regime ctx) a))"
  using translate_look [OF assms(1-4)] xlat_desc_masks(1) [OF assms(5,6)] xlat_desc_attributes [OF assms(5,6)] by simp

text \<open>The translations before and after.\<close>

definition changed :: "xlat_ctx \<Rightarrow> xlat_ctx \<Rightarrow> u64 \<Rightarrow> u64 \<Rightarrow> u32 \<Rightarrow> u64 \<Rightarrow> bool" where
  "changed ctx ctx' va sz a w \<longleftrightarrow>
     (if va \<le> w \<and> unat w < unat va + unat sz
      then \<exists>pa old. translate ctx w = Some (Some (pa, old)) \<and>
        translate ctx' w = Some (Some (pa, effective_attr (xlat_regime ctx) (new_attr old a)))
      else translate ctx' w = translate ctx w)"

lemma change_loops:
  assumes m: "mapped dyn ctx" and v: "4096 dvd unat va" "4096 dvd unat sz" "unat va + unat sz \<le> unat (va_max_address ctx) + 1"
  obtains "check_pages ctx a (unat sz div 4096) va = Some False" |
    ctx' where "check_pages ctx a (unat sz div 4096) va = Some True" "change_pages a (unat sz div 4096) va ctx = Some ctx'"
      "mapped dyn ctx'" "\<And>w. w \<le> va_max_address ctx \<Longrightarrow> changed ctx ctx' va sz a w"
proof -
  let ?n = "unat sz div 4096" and ?l = "base_level ctx" and ?lim = "unat (va_max_address ctx) + 1"
  obtain ts where t: "tinv dyn ctx Base ?l ts" "sound ctx ?lim (lookf ?l 0 ts)" and l: "layout ctx" "initialized ctx"
    using m by (auto simp: mapped_def)
  have n: "4096 * ?n = unat sz"
    using v(2) by simp
  obtain b where b: "check_pages ctx a ?n va = Some b" "b \<longrightarrow> (\<forall>j < ?n. \<exists>d. lookf ?l 0 ts (unat va + 4096 * j) = Some (d, 3))"
    using check_pages_ok [OF t(1) l(1) v(1), of ?n a] v(3) n by auto
  show thesis
  proof (cases b)
    case False
    then show ?thesis
      using that(1) b by simp
  next
    case True
    then have all: "\<forall>j < ?n. \<exists>d. lookf ?l 0 ts (unat va + 4096 * j) = Some (d, 3)"
      using b(2) by simp
    obtain ctx' ts' where c: "change_pages a ?n va ctx = Some ctx'" "tinv dyn ctx' Base ?l ts'" "meta ctx' = meta ctx"
      "length (base_table ctx') = length (base_table ctx)" "sound ctx ?lim (lookf ?l 0 ts')"
      "\<forall>w < ?lim. lookf ?l 0 ts' w = (if unat va \<le> w \<and> w < unat va + unat sz
         then lookf ?l 0 ts w \<bind> (\<lambda>(d, L). map_option (\<lambda>d'. (d', 3)) (renew ctx a d)) else lookf ?l 0 ts w)"
      using change_pages_ok [OF t(1) l t(2) v(1) _ all, of a] v(3) n by auto
    note mf = meta_fields [OF c(3)]
    have l': "layout ctx'"
      using layout_meta [OF c(3,4)] l(1) by simp
    have mapped': "mapped dyn ctx'"
      unfolding mapped_def using l' l(2) mf c(2,5) renew_meta(2) [OF c(3)] by auto
    have "changed ctx ctx' va sz a w" if w: "w \<le> va_max_address ctx" for w
    proof (cases "va \<le> w \<and> unat w < unat va + unat sz")
      case out: False
      have lt: "unat w < ?lim"
        using w by (simp add: word_le_nat_alt less_Suc_eq_le)
      have "lookf ?l 0 ts' (unat w) = lookf ?l 0 ts (unat w)"
        using c(6) lt out by (auto simp: word_le_nat_alt)
      then have "translate ctx' w = translate ctx w"
        using translate_look [OF t(1) l(1) w refl] translate_look [of dyn ctx' ts' w] c(2) l' w mf(1-3) by (simp split: option.split)
      then show ?thesis
        using out by (auto simp: changed_def)
    next
      case True
      have lt: "unat w < ?lim"
        using w by (simp add: word_le_nat_alt less_Suc_eq_le)
      define j where "j = (unat w - unat va) div 4096"
      obtain q where q: "unat va = 4096 * q"
        using v(1) by blast
      obtain x where x: "unat w = 4096 * q + x" "x < unat sz"
        using True q by (metis le_iff_add nat_add_left_cancel_less word_le_nat_alt)
      have "j < ?n" "unat w div 4096 = (unat va + 4096 * j) div 4096"
        using x n by (simp_all add: j_def q less_mult_imp_div_less)
      then obtain d where d: "lookf ?l 0 ts (unat w) = Some (d, 3)"
        using all lookf_page by metis
      then obtain a0 pa where a0: "page_addr pa" "xlat_desc ctx a0 pa 3 = Some d"
        using t(2) [unfolded sound_def, rule_format, OF lt] by blast
      obtain d' old where r: "desc_attributes (xlat_regime ctx) d = Some old" "renew ctx a d = Some d'"
        "xlat_desc ctx (new_attr old a) pa 3 = Some d'"
        using renew_ok [OF a0(2,1)] by metis
      have old: "old = effective_attr (xlat_regime ctx) a0"
        using r(1) xlat_desc_attributes [OF a0(2,1)] by simp
      have look': "lookf ?l 0 ts' (unat w) = Some (d', 3)"
        using c(6) lt True d r(2) by (simp add: word_le_nat_alt)
      have "xlat_desc ctx' = xlat_desc ctx"
        using mf(2) by (intro ext) (simp add: xlat_desc_alt)
      then have "translate ctx' w = Some (Some (pa + (w AND XLAT_BLOCK_MASK 3), effective_attr (xlat_regime ctx) (new_attr old a)))"
        using sound_translate [of dyn ctx' ts' w d' 3 "new_attr old a" pa] c(2) l' w mf(1-3) look' r(3) a0(1) by simp
      moreover have "translate ctx w = Some (Some (pa + (w AND XLAT_BLOCK_MASK 3), old))"
        using sound_translate [OF t(1) l(1) w d a0(2,1)] old by simp
      ultimately show ?thesis
        using True by (simp add: changed_def)
    qed
    then show ?thesis
      using that(2) b(1) True c(1) mapped' by simp
  qed
qed

lemma change_mem_spec:
  assumes "mapped dyn ctx" "unat va + unat sz \<le> unat (va_max_address ctx) + 1" "unat sz < 2 ^ 43"
  shows "\<exists>r ctx'. change_mem_attributes ctx va sz a = Some (r, ctx') \<and>
    (if r = 0 then mapped dyn ctx' \<and> (\<forall>w \<le> va_max_address ctx. changed ctx ctx' va sz a w) else r = - XLAT_EINVAL \<and> ctx' = ctx)"
proof -
  have i: "initialized ctx" "layout ctx"
    using assms(1) by (auto simp: mapped_def)
  have max: "va_max_address ctx + 1 > 0"
    using layout_max [OF i(2)] by (simp add: word_gt_0)
  have e: "XLAT_EINVAL \<noteq> 0"
    by (simp add: XLAT_EINVAL_def)
  let ?bad = "\<not> IS_PAGE_ALIGNED va \<or> sz = 0 \<or> sz mod PAGE_SIZE \<noteq> 0 \<or> (a AND MT_EXECUTE_NEVER = 0 \<and> a AND MT_RW \<noteq> 0)"
  show ?thesis
  proof (cases ?bad)
    case True
    then have "change_mem_attributes ctx va sz a = Some (- XLAT_EINVAL, ctx)"
      using i max by (auto simp: change_mem_attributes_def)
    then show ?thesis
      using e by simp
  next
    case False
    then have ok: "change_mem_attributes ctx va sz a =
        do { ok \<leftarrow> check_pages ctx a (unat sz div 4096) va;
             if \<not> ok then Some (- XLAT_EINVAL, ctx) else do { ctx \<leftarrow> change_pages a (unat sz div 4096) va ctx; Some (0, ctx) } }"
      using i max pages_count [OF assms(3)] by (auto simp: change_mem_attributes_def Let_def)
    have "unat (sz mod PAGE_SIZE) = unat sz mod 4096"
      by (simp add: unat_mod PAGE_SIZE_def)
    then have d: "4096 dvd unat va" "4096 dvd unat sz"
      using False by (auto simp: page_aligned_iff)
    show ?thesis
      by (rule change_loops [OF assms(1) d assms(2), of a]) (use e in \<open>auto simp: ok\<close>)
  qed
qed

end
