(* ===== verification/Xlat_list.thy ===== *)
theory Xlat_list
  imports Xlat_unmap
begin

text \<open>
  The array of regions under every sequence of calls: whatever the calls return, it holds regions in order,
  nested or apart, followed by zero entries up to the sentinel.
\<close>

section \<open>Calls on a context\<close>

inductive xlat_call :: "bool \<Rightarrow> xlat_ctx \<Rightarrow> xlat_ctx \<Rightarrow> bool" for dyn where
  call_add: "mmap_add_region_ctx dyn ctx mm = Some ctx' \<Longrightarrow> xlat_call dyn ctx ctx'"
| call_init: "init_xlat_tables_ctx dyn mmu_on maxpa ctx = Some ctx' \<Longrightarrow> xlat_call dyn ctx ctx'"
| call_change: "change_mem_attributes ctx va sz a = Some (r, ctx') \<Longrightarrow> xlat_call dyn ctx ctx'"
| call_add_dynamic: "dyn \<Longrightarrow> mmap_add_dynamic_region_ctx ctx mm = Some (r, ctx') \<Longrightarrow> xlat_call dyn ctx ctx'"
| call_remove_dynamic: "dyn \<Longrightarrow> mmap_remove_dynamic_region_ctx ctx va sz = Some (r, ctx') \<Longrightarrow> xlat_call dyn ctx ctx'"

text \<open>\<open>sized ctx0 ctx\<close>: the limits that are fixed when a context is registered.\<close>

definition sized :: "xlat_ctx \<Rightarrow> xlat_ctx \<Rightarrow> bool" where
  "sized ctx ctx' \<longleftrightarrow> mmap_num ctx' = mmap_num ctx \<and> va_max_address ctx' = va_max_address ctx \<and> pa_max_address ctx' = pa_max_address ctx"

lemma sized_refl [simp]: "sized ctx ctx"
  by (simp add: sized_def)

lemma sized_trans [trans]: "sized a b \<Longrightarrow> sized b c \<Longrightarrow> sized a c"
  by (simp add: sized_def)

lemma sized_mmap [simp]: "sized (ctx\<lparr>mmap := xs\<rparr>) c = sized ctx c" "sized c (ctx\<lparr>mmap := xs\<rparr>) = sized c ctx"
  by (simp_all add: sized_def)

lemma sized_raise_max [simp]: "sized c (raise_max mm ctx) = sized c ctx"
  by (simp add: sized_def)

lemma keeps_sized: "keeps_mmap ctx ctx' \<Longrightarrow> sized ctx ctx'"
  by (simp add: keeps_mmap_def sized_def)

lemma erased_sized: "erased ctx ctx' \<Longrightarrow> sized ctx ctx'"
  by (simp add: erased_def sized_def)

lemma sized_space_ok: "sized ctx ctx' \<Longrightarrow> space_ok ctx' = space_ok ctx"
  by (simp add: sized_def space_ok_def)

lemma keeps_mmap_is: "keeps_mmap ctx ctx' \<Longrightarrow> mmap_is ctx' = mmap_is ctx"
  by (intro ext) (simp add: keeps_mmap_def mmap_is_def)

section \<open>Calls that keep the list\<close>

lemma map_regions_mmap: "map_regions dyn mms ctx = Some ctx' \<Longrightarrow> keeps_mmap ctx ctx'"
proof (induction mms arbitrary: ctx)
  case (Cons mm mms)
  show ?case
  proof (cases "region_size mm = 0")
    case False
    then obtain e ctx1 where m: "xlat_tables_map_region 4 dyn mm 0 Base (length (base_table ctx)) (base_level ctx) ctx = Some (e, ctx1)"
      "map_regions dyn mms ctx1 = Some ctx'"
      using Cons.prems by (auto simp: bind_eq_Some_conv split: if_splits)
    show ?thesis
      using map_region_mmap [OF m(1)] Cons.IH [OF m(2)] by (simp add: keeps_mmap_def)
  qed (use Cons.prems in \<open>simp add: keeps_mmap_def\<close>)
qed simp

lemma init_mmap:
  assumes "init_xlat_tables_ctx dyn mmu_on maxpa ctx = Some ctx'"
  shows "keeps_mmap ctx ctx'"
proof -
  define ctx1 where "ctx1 = ctx\<lparr>base_table := replicate (length (base_table ctx)) INVALID_DESC,
    tables_mapped_regions := (if dyn then replicate (length (tables ctx)) 0 else tables_mapped_regions ctx),
    tables := replicate (length (tables ctx)) (replicate XLAT_TABLE_ENTRIES INVALID_DESC)\<rparr>"
  then have k: "keeps_mmap ctx ctx1"
    by (simp add: keeps_mmap_def)
  obtain ctx2 where "map_regions dyn (mmap ctx1) ctx1 = Some ctx2" "ctx' = ctx2\<lparr>initialized := True\<rparr>"
    using assms unfolding init_xlat_tables_ctx_def Let_def ctx1_def [symmetric] by (auto simp: bind_eq_Some_conv)
  then show ?thesis
    using k map_regions_mmap [of dyn "mmap ctx1" ctx1 ctx2] by (simp add: keeps_mmap_def)
qed

lemma put_entry_keeps_mmap: "put_entry ctx t i d = Some ctx' \<Longrightarrow> keeps_mmap ctx ctx'"
  using put_entry_keep by (simp add: keeps_mmap_def)

lemma change_pages_mmap: "change_pages a n va ctx = Some ctx' \<Longrightarrow> keeps_mmap ctx ctx'"
proof (induction n arbitrary: va ctx)
  case (Suc n)
  obtain v where v: "get_mem_attributes_internal ctx va = Some v"
    using Suc.prems by (auto simp: bind_eq_Some_conv)
  then obtain m where "v = Inr m"
    using Suc.prems by (cases v) auto
  then have r: "get_mem_attributes_internal ctx va = Some (Inr m)"
    using v by simp
  let ?t = "fst (ma_entry m)" let ?i = "snd (ma_entry m)"
  obtain ctx1 d ctx2 where s: "put_entry ctx ?t ?i INVALID_DESC = Some ctx1"
    "put_entry (xlat_arch_tlbi_va_regime va ctx1) ?t ?i d = Some ctx2" "change_pages a n (va + PAGE_SIZE) ctx2 = Some ctx'"
    using Suc.prems r by (auto simp: bind_eq_Some_conv Let_def)
  have "keeps_mmap ctx1 (xlat_arch_tlbi_va_regime va ctx1)"
    by (simp add: keeps_mmap_def xlat_arch_tlbi_va_regime_def)
  then show ?case
    using put_entry_keeps_mmap [OF s(1)] put_entry_keeps_mmap [OF s(2)] Suc.IH [OF s(3)] by (simp add: keeps_mmap_def)
qed (simp add: keeps_mmap_def)

lemma change_mmap:
  assumes "change_mem_attributes ctx va sz a = Some (r, ctx')"
  shows "keeps_mmap ctx ctx'"
proof -
  have "ctx' = ctx \<or> (\<exists>n. change_pages a n va ctx = Some ctx')"
    using assms by (auto simp: change_mem_attributes_def bind_eq_Some_conv [of "ensure _"] bind_eq_Some_conv [of "check_pages _ _ _ _"]
      bind_eq_Some_conv [of "change_pages _ _ _ _"] Let_def split: if_splits)
  then show ?thesis
    using change_pages_mmap by (auto simp: keeps_mmap_def)
qed

section \<open>Calls that change the list\<close>

lemma add_dynamic_result:
  assumes a: "mmap_add_dynamic_region_ctx ctx mm0 = Some (r, ctx')" and z0: "region_size mm0 \<noteq> 0"
    and mm_def: "mm = mm0\<lparr>attr := attr mm0 OR MT_DYNAMIC\<rparr>"
    and ck: "mmap_add_region_check True ctx mm = Some 0" and i: "mmap_cursor mm (mmap ctx) = Some i"
    and xs: "ctx\<lparr>mmap := move_up mm i (mmap_num ctx) (mmap ctx)\<rparr> = c" and c_sz: "sized ctx c"
  shows "(\<exists>ctx1. keeps_mmap c ctx1 \<and> ctx' = raise_max mm ctx1) \<or> r \<noteq> 0 \<and> sized ctx ctx'"
proof (cases "initialized ctx")
  case False
  then have "ctx' = raise_max mm c"
    using a ck i z0
    by (auto simp: mmap_add_dynamic_region_ctx_def bind_eq_Some_conv [of "aget _ _"] bind_eq_Some_conv [of "ensure _"] Let_def simp flip: mm_def xs)
  then show ?thesis
    by (auto simp: keeps_mmap_def)
next
  case True
  then obtain e ctx1 where e: "xlat_tables_map_region 4 True mm 0 Base (length (base_table ctx)) (base_level ctx) c = Some (e, ctx1)"
    "ctx' = raise_max mm ctx1 \<or> r \<noteq> 0 \<and>
     (let c = ctx1\<lparr>mmap := move_down i (mmap_num ctx1) (mmap ctx1)\<rparr> in ctx' = c \<or> (\<exists>q. xlat_tables_unmap_region 4 q 0 Base (length (base_table c)) (base_level c) c = Some ctx'))"
    using a ck i z0
    by (auto simp: mmap_add_dynamic_region_ctx_def bind_eq_Some_conv Let_def XLAT_ENOMEM_def simp flip: mm_def xs split: if_splits) blast
  have "sized ctx ctx1"
    using sized_trans [OF c_sz keeps_sized [OF map_region_mmap [OF e(1)]]] .
  then have "sized ctx ctx'" if "erased (ctx1\<lparr>mmap := xs\<rparr>) ctx'" for xs
    using erased_sized [OF that] sized_trans by auto
  then show ?thesis
    using e(2) map_region_mmap [OF e(1)] unmap_region_erases erased_refl unfolding Let_def by metis
qed

lemma add_dynamic_list:
  assumes a: "mmap_add_dynamic_region_ctx ctx mm0 = Some (r, ctx')" and m: "mmap_is ctx regs" and s: "space_ok ctx"
  shows "sized ctx ctx' \<and> (\<exists>regs'. mmap_is ctx' regs')"
proof (cases "region_size mm0 = 0")
  case True
  then show ?thesis
    using a m by (auto simp: mmap_add_dynamic_region_ctx_def)
next
  case z0: False
  define mm where "mm = mm0\<lparr>attr := attr mm0 OR MT_DYNAMIC\<rparr>"
  have z: "region_size mm \<noteq> 0"
    using z0 by (simp add: mm_def)
  obtain c where c: "mmap_add_region_check True ctx mm = Some c"
    using a z0 by (cases "mmap_add_region_check True ctx mm") (auto simp: mmap_add_dynamic_region_ctx_def Let_def simp flip: mm_def)
  show ?thesis
  proof (cases "c = 0")
    case False
    then show ?thesis
      using a c z0 m by (auto simp: mmap_add_dynamic_region_ctx_def Let_def simp flip: mm_def)
  next
    case True
    then have ck: "mmap_add_region_check True ctx mm = Some 0"
      using c by simp
    obtain i k where I: "mmap_cursor mm (mmap ctx) = Some i" "used_regions (mmap ctx) = Some (length regs)" "mmap_num ctx = Suc (length regs + k)"
      "\<And>l. length regs \<le> l \<Longrightarrow> l \<le> mmap_num ctx \<Longrightarrow>
         move_up mm i l (mmap ctx) = (take i regs @ mm # drop i regs) @ replicate (Suc k) zero_region"
      "arranged (take i regs @ mm # drop i regs)" "i \<le> length regs"
      using insert_region [OF m s z ck] by metis
    let ?regs = "take i regs @ mm # drop i regs"
    define c where "c = ctx\<lparr>mmap := ?regs @ replicate (Suc k) zero_region\<rparr>"
    have xs: "ctx\<lparr>mmap := move_up mm i (mmap_num ctx) (mmap ctx)\<rparr> = c"
      unfolding c_def using I(4) [of "mmap_num ctx"] I(3) by simp
    have c_is: "mmap_is c ?regs" and c_sz: "sized ctx c"
      using I(3,5,6) by (simp_all add: mmap_is_def c_def Suc_diff_le)
    note add_dynamic_result [OF a z0 mm_def ck I(1) xs c_sz]
    then show ?thesis
    proof (elim disjE exE conjE)
      fix ctx1 assume k: "keeps_mmap c ctx1" "ctx' = raise_max mm ctx1"
      then have "mmap_is ctx' = mmap_is c"
        using keeps_mmap_is [OF k(1)] by (simp add: mmap_is_def fun_eq_iff)
      moreover have "sized ctx ctx'"
        using sized_trans [OF c_sz keeps_sized [OF k(1)]] k(2) by simp
      ultimately have "mmap_is ctx' ?regs" "sized ctx ctx'"
        using c_is by simp_all
      then show ?thesis
        by blast
    next
      assume "r \<noteq> 0" "sized ctx ctx'"
      then show ?thesis
        using add_dynamic_error [OF a _ m s] m by (auto simp: mmap_is_def sized_def)
    qed
  qed
qed

lemma arranged_delete:
  assumes "arranged regs" "i < length regs"
  shows "arranged (take i regs @ drop (Suc i) regs)"
proof -
  have "arranged (take i regs @ regs ! i # drop (Suc i) regs)"
    using assms id_take_nth_drop [of i regs] by simp
  then show ?thesis
    by (simp add: arranged_def sorted_wrt_append)
qed

lemma remove_list:
  assumes a: "mmap_remove_dynamic_region_ctx ctx va sz = Some (r, ctx')" and m: "mmap_is ctx regs"
  shows "sized ctx ctx' \<and> (\<exists>regs'. mmap_is ctx' regs')"
proof -
  obtain i mm where i: "find_region va sz (mmap ctx) = Some i" "aget (mmap ctx) i = Some mm"
    using a unfolding mmap_remove_dynamic_region_ctx_def by (auto simp: bind_eq_Some_conv simp del: aget_eq_Some)
  let ?un = "if initialized ctx then xlat_tables_unmap_region 4 mm 0 Base (length (base_table ctx)) (base_level ctx) ctx else Some ctx"
  show ?thesis
  proof (cases "region_size mm = 0 \<or> attr mm AND MT_DYNAMIC = 0")
    case True
    then have "ctx' = ctx"
      using a i unfolding mmap_remove_dynamic_region_ctx_def
      by (auto simp: bind_eq_Some_conv [of "aget _ _"] bind_eq_Some_conv [of "ensure _"] split: if_splits)
    then show ?thesis
      using m by auto
  next
    case False
    then have "\<exists>ctx1. ?un = Some ctx1 \<and> mmap ctx' = move_down i (mmap_num ctx1) (mmap ctx1) \<and> sized ctx1 ctx'"
      using a i unfolding mmap_remove_dynamic_region_ctx_def
      by (auto simp: bind_eq_Some_conv Let_def sized_def simp del: aget_eq_Some)
    then obtain ctx1 where u: "?un = Some ctx1" "mmap ctx' = move_down i (mmap_num ctx1) (mmap ctx1)" "sized ctx1 ctx'"
      by blast
    have e: "erased ctx ctx1"
      using u(1) unmap_region_erases [of 4 mm 0 Base "length (base_table ctx)" "base_level ctx" ctx ctx1] erased_refl [of ctx]
      by (auto split: if_splits)
    then have e': "mmap ctx1 = mmap ctx" "mmap_num ctx1 = mmap_num ctx"
      by (simp_all add: erased_def)
    obtain k where k: "mmap ctx = regs @ replicate (Suc k) zero_region" "mmap_num ctx = length regs + k" "arranged regs"
      using mmap_isE [OF m] by metis
    have l: "i < length regs"
    proof (rule ccontr)
      assume "\<not> i < length regs"
      then show False
        using i(2) False by (auto simp: k(1) nth_append nth_Cons split: nat.splits)
    qed
    let ?regs = "take i regs @ drop (Suc i) regs"
    have "mmap ctx = (take i ?regs @ regs ! i # drop i ?regs) @ replicate (Suc k) zero_region"
      using l id_take_nth_drop [of i regs] by (simp add: k(1))
    moreover have "mmap_num ctx = Suc (length ?regs + k)"
      using l k(2) by simp
    ultimately have "mmap ctx' = ?regs @ replicate (Suc (Suc k)) zero_region"
      using move_down_up [of i ?regs k "regs ! i"] l by (simp only: u(2) e') simp
    then have "mmap_is ctx' ?regs"
      using k(2) l u(3) e'(2) arranged_delete [OF k(3) l] by (simp add: mmap_is_def sized_def)
    then show ?thesis
      using erased_sized [OF e] u(3) sized_trans by blast
  qed
qed

section \<open>Every sequence of calls\<close>

lemma xlat_call_list:
  assumes "xlat_call dyn ctx ctx'" "mmap_is ctx regs" "space_ok ctx"
  shows "sized ctx ctx' \<and> (\<exists>regs'. mmap_is ctx' regs')"
  using assms(1)
proof cases
  case (call_add mm)
  then show ?thesis
  proof (cases "region_size mm = 0")
    case False
    then obtain regs' where "mmap_is ctx' regs'" "ctx' = raise_max mm (ctx\<lparr>mmap := mmap ctx'\<rparr>)"
      using add_region_spec [OF assms(2,3) call_add] by metis
    then show ?thesis
      by (metis sized_mmap(2) sized_raise_max sized_refl)
  qed (use assms(2) in \<open>auto simp: mmap_add_region_ctx_def\<close>)
next
  case (call_init mmu_on maxpa)
  then show ?thesis
    using init_mmap keeps_sized keeps_mmap_is assms(2) by metis
next
  case (call_change va sz a r)
  then show ?thesis
    using change_mmap keeps_sized keeps_mmap_is assms(2) by metis
next
  case (call_add_dynamic mm r)
  then show ?thesis
    using add_dynamic_list assms(2,3) by blast
next
  case (call_remove_dynamic va sz r)
  then show ?thesis
    using remove_list assms(2) by blast
qed

lemma xlat_calls_list:
  assumes "(xlat_call dyn)\<^sup>*\<^sup>* ctx ctx'" "mmap_is ctx regs" "space_ok ctx"
  shows "sized ctx ctx' \<and> (\<exists>regs'. mmap_is ctx' regs')"
  using assms(1)
proof (induction rule: rtranclp_induct)
  case base
  then show ?case
    using assms(2) by auto
next
  case (step c c')
  then obtain regs' where c: "sized ctx c" "mmap_is c regs'"
    by blast
  then have "space_ok c"
    using sized_space_ok assms(3) by blast
  then show ?case
    using xlat_call_list [OF step.hyps(2) c(2)] sized_trans [OF c(1)] by blast
qed

end
