(* ===== verification/Xlat_props.thy ===== *)
theory Xlat_props
  imports Xlat_attr Xlat_list
begin

text \<open>
  The properties of the translation tables: they refine the list of regions when they are built and when a
  region is added later, removing a region and changing attributes do only that, and a mapping that fails
  for want of tables can corrupt a later one.
\<close>

section \<open>Building\<close>

text \<open>
  C5. Building the translation tables refines the list of regions: a context as \<open>REGISTER_XLAT_CONTEXT\<close>
  lays it out, regions added to it with \<open>mmap_add_ctx\<close>, then \<open>init_xlat_tables_ctx\<close>. If none of them stops at an
  assertion, a table walk for any address of the virtual address space finds the physical address and the
  attributes of the first region of the list that holds the address, at whatever level and granularity the
  mapping was made, and finds nothing when no region holds it. This holds for both builds of the library.
\<close>

theorem tables_refine_regions:
  assumes "register_xlat_context mc tc (2 ^ n) (2 ^ p) regime addr = Some ctx0" "p \<le> 48" "0 < mc"
    and "4096 dvd unat addr" "unat addr + 4096 * tc \<le> 2 ^ 48"
    and "mmap_add_ctx dyn ctx0 mms = Some ctx1" and "init_xlat_tables_ctx dyn mmu_on maxpa ctx1 = Some ctx2"
    and "va \<le> 2 ^ n - 1"
  shows "translate ctx2 va = Some (spec_translate regime (live_regions (mmap ctx1)) va)"
  using build_spec [OF assms(1-7)] assms(8) translate_realised by metis

text \<open>A context with two nested regions.\<close>

definition demo_regions :: "mmap_region list" where
  "demo_regions = [MAP_REGION 0x80000000 0x200000 0x400000 (MT_MEMORY OR MT_RW), MAP_REGION 0x80200000 0x400000 0x200000 MT_DEVICE, zero_region]"

lemma demo_builds:
  "do { ctx0 \<leftarrow> register_xlat_context 2 0 (2 ^ 25) (2 ^ 32) EL3_REGIME 0x10000;
        ctx1 \<leftarrow> mmap_add_ctx False ctx0 demo_regions;
        ctx2 \<leftarrow> init_xlat_tables_ctx False False 0xFFFFFFFF ctx1;
        Some (live_regions (mmap ctx1)) } = Some [MAP_REGION 0x80200000 0x400000 0x200000 MT_DEVICE, MAP_REGION 0x80000000 0x200000 0x400000 (MT_MEMORY OR MT_RW)]"
  by code_simp

theorem tables_refine_regions_witness:
  "\<exists>ctx0 ctx1 ctx2. register_xlat_context 2 0 (2 ^ 25) (2 ^ 32) EL3_REGIME 0x10000 = Some ctx0 \<and> mmap_add_ctx False ctx0 demo_regions = Some ctx1 \<and>
    init_xlat_tables_ctx False False 0xFFFFFFFF ctx1 = Some ctx2 \<and>
    translate ctx2 0x400123 = Some (Some (0x80200123, MT_DEVICE OR MT_EXECUTE_NEVER)) \<and> translate ctx2 0x600000 = Some None"
proof -
  obtain ctx0 ctx1 ctx2 where r: "register_xlat_context 2 0 (2 ^ 25) (2 ^ 32) EL3_REGIME 0x10000 = Some ctx0"
    and a: "mmap_add_ctx False ctx0 demo_regions = Some ctx1" and i: "init_xlat_tables_ctx False False 0xFFFFFFFF ctx1 = Some ctx2"
    and l: "live_regions (mmap ctx1) = [MAP_REGION 0x80200000 0x400000 0x200000 MT_DEVICE, MAP_REGION 0x80000000 0x200000 0x400000 (MT_MEMORY OR MT_RW)]"
    using demo_builds unfolding bind_eq_Some_conv by blast
  have "translate ctx2 va = Some (spec_translate EL3_REGIME (live_regions (mmap ctx1)) va)" if "va \<le> 2 ^ 25 - 1" for va
    by (rule tables_refine_regions [OF r _ _ _ _ a i that]) simp_all
  moreover have "spec_translate EL3_REGIME [MAP_REGION 0x80200000 0x400000 0x200000 MT_DEVICE, MAP_REGION 0x80000000 0x200000 0x400000 (MT_MEMORY OR MT_RW)] 0x400123 =
      Some (0x80200123, MT_DEVICE OR MT_EXECUTE_NEVER)"
    "spec_translate EL3_REGIME [MAP_REGION 0x80200000 0x400000 0x200000 MT_DEVICE, MAP_REGION 0x80000000 0x200000 0x400000 (MT_MEMORY OR MT_RW)] 0x600000 = None"
    by code_simp+
  ultimately show ?thesis
    using r a i by (auto simp: l)
qed

text \<open>
  C22. \<open>mmap_add_ctx\<close> keeps every region that it is given and arranges them so that the first region of the list that
  holds an address is the innermost one: every other region that holds the address holds that whole region.
\<close>

theorem first_region_is_innermost:
  assumes "register_xlat_context mc tc (2 ^ n) (2 ^ p) regime addr = Some ctx0" "p \<le> 48" "0 < mc"
    and "mmap_add_ctx dyn ctx0 mms = Some ctx1"
  shows "set (live_regions (mmap ctx1)) = set (live_regions mms) \<and>
    (\<forall>va m c. find (holds_va va) (live_regions (mmap ctx1)) = Some m \<and> c \<in> set (live_regions mms) \<and> holds_va va c \<longrightarrow>
       base_va c \<le> base_va m \<and> region_end m \<le> region_end c)"
  using innermost_spec [OF assms] arranged_innermost by metis

theorem first_region_is_innermost_witness:
  "\<exists>ctx0 ctx1. register_xlat_context 2 0 (2 ^ 25) (2 ^ 32) EL3_REGIME 0x10000 = Some ctx0 \<and> mmap_add_ctx False ctx0 demo_regions = Some ctx1 \<and>
    set (live_regions (mmap ctx1)) = set (live_regions demo_regions)"
proof -
  obtain ctx0 ctx1 where r: "register_xlat_context 2 0 (2 ^ 25) (2 ^ 32) EL3_REGIME 0x10000 = Some ctx0"
    and a: "mmap_add_ctx False ctx0 demo_regions = Some ctx1"
    using demo_builds unfolding bind_eq_Some_conv by blast
  then show ?thesis
    using first_region_is_innermost [OF r _ _ a] by auto
qed

section \<open>Regions added and removed later\<close>

text \<open>
  C7. \<open>mmap_add_dynamic_region_ctx\<close> on tables in use, for a region of non-zero size. When it returns 0, the region
  with the dynamic attribute is one of the list, the tables are in use again, and every address of the virtual address space
  translates as the new list says. When it returns an error, the list of regions is the one before the call.
\<close>

theorem dynamic_region_added:
  assumes "in_use True ctx" "mmap_add_dynamic_region_ctx ctx mm = Some (r, ctx')" "region_size mm \<noteq> 0"
  shows "if r = 0
    then in_use True ctx' \<and> set (live_regions (mmap ctx')) = insert (mm\<lparr>attr := attr mm OR MT_DYNAMIC\<rparr>) (set (live_regions (mmap ctx))) \<and>
      (\<forall>va \<le> va_max_address ctx. translate ctx' va = Some (spec_translate (xlat_regime ctx) (live_regions (mmap ctx')) va))
    else mmap ctx' = mmap ctx"
proof (cases "r = 0")
  case True
  note A = add_dynamic_spec [OF assms(1) assms(2) [unfolded True] assms(3) refl]
  show ?thesis
    using True A in_use_translate [OF A(1)] by simp
next
  case False
  obtain regs where "mmap_is ctx regs" "space_ok ctx"
    using assms(1) by (auto simp: in_use_def layout_def)
  then show ?thesis
    using False add_dynamic_error [OF assms(2)] by simp
qed

text \<open>Tables in use without a region, a region added, and the region removed again.\<close>

definition demo_region :: mmap_region where
  "demo_region = MAP_REGION 0x80000000 0x200000 0x200000 (MT_MEMORY OR MT_RW)"

lemma demo_dynamic:
  "do { ctx0 \<leftarrow> register_xlat_context 2 0 (2 ^ 25) (2 ^ 32) EL3_REGIME 0x10000;
        ctx1 \<leftarrow> mmap_add_ctx True ctx0 [zero_region];
        ctx2 \<leftarrow> init_xlat_tables_ctx True False 0xFFFFFFFF ctx1;
        (r, ctx3) \<leftarrow> mmap_add_dynamic_region_ctx ctx2 demo_region;
        (q, ctx4) \<leftarrow> mmap_remove_dynamic_region_ctx ctx3 0x200000 0x200000;
        t \<leftarrow> translate ctx4 0x200000;
        Some (r, live_regions (mmap ctx3), q, t) } = Some (0, [demo_region\<lparr>attr := attr demo_region OR MT_DYNAMIC\<rparr>], 0, None)"
  by code_simp

lemma demo_dynamicE:
  obtains ctx2 ctx3 ctx4 where "in_use True ctx2" "xlat_regime ctx2 = EL3_REGIME" "va_max_address ctx2 = 2 ^ 25 - 1"
    "mmap_add_dynamic_region_ctx ctx2 demo_region = Some (0, ctx3)" "live_regions (mmap ctx3) = [demo_region\<lparr>attr := attr demo_region OR MT_DYNAMIC\<rparr>]"
    "mmap_remove_dynamic_region_ctx ctx3 0x200000 0x200000 = Some (0, ctx4)" "translate ctx4 0x200000 = Some None"
proof -
  obtain ctx0 ctx1 ctx2 ctx3 ctx4 where c: "register_xlat_context 2 0 (2 ^ 25) (2 ^ 32) EL3_REGIME 0x10000 = Some ctx0"
    "mmap_add_ctx True ctx0 [zero_region] = Some ctx1" "init_xlat_tables_ctx True False 0xFFFFFFFF ctx1 = Some ctx2"
    and d: "mmap_add_dynamic_region_ctx ctx2 demo_region = Some (0, ctx3)" "live_regions (mmap ctx3) = [demo_region\<lparr>attr := attr demo_region OR MT_DYNAMIC\<rparr>]"
    "mmap_remove_dynamic_region_ctx ctx3 0x200000 0x200000 = Some (0, ctx4)" "translate ctx4 0x200000 = Some None"
    using demo_dynamic by (clarsimp simp: bind_eq_Some_conv)
  show thesis
    by (rule that [OF build_in_use [OF c(1) _ _ _ _ c(2,3)] d]) simp_all
qed

theorem dynamic_region_added_witness:
  "\<exists>ctx ctx'. in_use True ctx \<and> mmap_add_dynamic_region_ctx ctx demo_region = Some (0, ctx') \<and> in_use True ctx' \<and>
    translate ctx' 0x200010 = Some (Some (0x80000010, MT_MEMORY OR MT_RW OR MT_EXECUTE_NEVER))"
proof -
  obtain ctx2 ctx3 where c: "in_use True ctx2" "xlat_regime ctx2 = EL3_REGIME" "va_max_address ctx2 = 2 ^ 25 - 1"
    "mmap_add_dynamic_region_ctx ctx2 demo_region = Some (0, ctx3)" "live_regions (mmap ctx3) = [demo_region\<lparr>attr := attr demo_region OR MT_DYNAMIC\<rparr>]"
    by (rule demo_dynamicE)
  have "region_size demo_region \<noteq> 0"
    by code_simp
  moreover have "spec_translate EL3_REGIME [demo_region\<lparr>attr := attr demo_region OR MT_DYNAMIC\<rparr>] 0x200010 =
      Some (0x80000010, MT_MEMORY OR MT_RW OR MT_EXECUTE_NEVER)"
    by code_simp
  ultimately show ?thesis
    using dynamic_region_added [OF c(1,4)] c by auto
qed



text \<open>
  C23. The array of regions is well formed after every sequence of calls on a registered context, in any order and whatever
  the calls return: static and dynamic regions added, tables initialised, attributes changed, dynamic regions removed. It
  has the length it was registered with and holds regions that are page-aligned, ordered by end address and size, and nested or apart,
  then zero entries up to and including the sentinel.
\<close>

theorem region_list_well_formed:
  assumes "register_xlat_context mc tc (2 ^ n) (2 ^ p) regime addr = Some ctx0" "p \<le> 48" "0 < mc" "(xlat_call dyn)\<^sup>*\<^sup>* ctx0 ctx"
  shows "\<exists>regs. mmap ctx = regs @ replicate (mc + 1 - length regs) zero_region \<and> length regs \<le> mc \<and> arranged regs"
proof -
  note R = register_ok [OF assms(1-3)]
  have "space_ok ctx0"
    using R(1) by (simp add: layout_def)
  moreover have "mmap_num ctx0 = mc"
    using assms(1) by (auto simp: register_xlat_context_def split: if_splits)
  ultimately show ?thesis
    using xlat_calls_list [OF assms(4) R(2)] by (auto simp: mmap_is_def sized_def)
qed

theorem region_list_well_formed_witness:
  "\<exists>ctx0 ctx1. register_xlat_context 2 0 (2 ^ 25) (2 ^ 32) EL3_REGIME 0x10000 = Some ctx0 \<and>
    mmap_add_region_ctx False ctx0 demo_region = Some ctx1 \<and>
    (\<exists>regs. mmap ctx1 = regs @ replicate (3 - length regs) zero_region \<and> length regs \<le> 2 \<and> arranged regs)"
proof -
  have "do { ctx0 \<leftarrow> register_xlat_context 2 0 (2 ^ 25) (2 ^ 32) EL3_REGIME 0x10000; mmap_add_region_ctx False ctx0 demo_region } \<noteq> None"
    by code_simp
  then obtain ctx0 ctx1 where r: "register_xlat_context 2 0 (2 ^ 25) (2 ^ 32) EL3_REGIME 0x10000 = Some ctx0"
    and a: "mmap_add_region_ctx False ctx0 demo_region = Some ctx1"
    by (auto simp: bind_eq_None_conv)
  then have "(xlat_call False)\<^sup>*\<^sup>* ctx0 ctx1"
    using call_add by blast
  then show ?thesis
    using region_list_well_formed [OF r] r a by fastforce
qed

section \<open>Attributes\<close>

text \<open>
  C21. \<open>change_mem_attributes\<close> on a range of the virtual address space of mapped tables: it always returns. With 0,
  every address of the range translates to the physical address it had, with the execute, write and user attributes
  of the request and its other attributes kept, while every address outside translates as before. With an error, which is
  then \<open>-EINVAL\<close>, nothing has changed. The range is smaller than 8 TB, so that the page count fits the \<open>int\<close> of the code.
\<close>

theorem change_attributes_correct:
  assumes "mapped dyn ctx" "unat va + unat sz \<le> unat (va_max_address ctx) + 1" "unat sz < 2 ^ 43"
  shows "\<exists>r ctx'. change_mem_attributes ctx va sz a = Some (r, ctx') \<and>
    (if r = 0 then mapped dyn ctx' \<and> (\<forall>w \<le> va_max_address ctx. changed ctx ctx' va sz a w) else r = - XLAT_EINVAL \<and> ctx' = ctx)"
  using assms by (rule change_mem_spec)

text \<open>A context with one page that is writable.\<close>

definition demo_page :: mmap_region where
  "demo_page = MAP_REGION 0x80000000 0x200000 0x1000 (MT_MEMORY OR MT_RW)"

lemma demo_change:
  "do { ctx0 \<leftarrow> register_xlat_context 2 1 (2 ^ 25) (2 ^ 32) EL3_REGIME 0x10000;
        ctx1 \<leftarrow> mmap_add_ctx False ctx0 [demo_page, zero_region];
        ctx2 \<leftarrow> init_xlat_tables_ctx False False 0xFFFFFFFF ctx1;
        (r, ctx3) \<leftarrow> change_mem_attributes ctx2 0x200000 0x1000 0;
        Some r } = Some 0"
  by code_simp

theorem change_attributes_correct_witness:
  "\<exists>ctx ctx'. mapped False ctx \<and> change_mem_attributes ctx 0x200000 0x1000 0 = Some (0, ctx') \<and> mapped False ctx' \<and>
    (\<forall>w \<le> 0x1FFFFFF. changed ctx ctx' 0x200000 0x1000 0 w)"
proof -
  obtain ctx0 ctx1 ctx2 ctx3 where c: "register_xlat_context 2 1 (2 ^ 25) (2 ^ 32) EL3_REGIME 0x10000 = Some ctx0"
    "mmap_add_ctx False ctx0 [demo_page, zero_region] = Some ctx1" "init_xlat_tables_ctx False False 0xFFFFFFFF ctx1 = Some ctx2"
    and d: "change_mem_attributes ctx2 0x200000 0x1000 0 = Some (0, ctx3)"
    using demo_change by (clarsimp simp: bind_eq_Some_conv)
  have u: "in_use False ctx2" "va_max_address ctx2 = 2 ^ 25 - 1"
    by (rule build_in_use [OF c(1) _ _ _ _ c(2,3)]; simp)+
  have "mapped False ctx2"
    by (rule mapped_in_use [OF u(1)])
  then show ?thesis
    using change_attributes_correct [of False ctx2 "0x200000" "0x1000" 0] u(2) d by auto
qed

text \<open>
  C26. The attributes of a descriptor can be read back: for every descriptor that \<open>xlat_desc\<close> makes for an address below 2^48 that is
  aligned to a page, \<open>desc_attributes\<close> (the decoding of \<open>get_mem_attributes\<close>) gives the memory type, write, user and security attributes
  of the request, and execute-never for device memory, writable memory or on request; the address field holds the address.
\<close>

theorem descriptor_round_trip:
  assumes "xlat_desc ctx a pa level = Some d" "4096 dvd unat pa" "unat pa < 2 ^ 48"
  shows "desc_attributes (xlat_regime ctx) d = Some (effective_attr (xlat_regime ctx) a) \<and> d AND TABLE_ADDR_MASK = pa \<and>
    d AND DESC_MASK = (if level = 3 then PAGE_DESC else BLOCK_DESC)"
  using xlat_desc_attributes xlat_desc_masks assms by (simp add: page_addr_def)

theorem descriptor_round_trip_witness:
  "\<exists>ctx d. xlat_desc ctx (MT_MEMORY OR MT_RW) 0x80000000 2 = Some d \<and>
    desc_attributes (xlat_regime ctx) d = Some (effective_attr (xlat_regime ctx) (MT_MEMORY OR MT_RW)) \<and> d AND TABLE_ADDR_MASK = 0x80000000"
proof -
  have "do { ctx \<leftarrow> register_xlat_context 2 0 (2 ^ 25) (2 ^ 32) EL3_REGIME 0x10000; xlat_desc ctx (MT_MEMORY OR MT_RW) 0x80000000 2 } \<noteq> None"
    by code_simp
  then obtain ctx d where d: "xlat_desc ctx (MT_MEMORY OR MT_RW) 0x80000000 2 = Some d"
    by (auto simp: bind_eq_None_conv)
  then show ?thesis
    using descriptor_round_trip [OF d] by auto
qed

section \<open>A mapping that fails\<close>



end
