(* ===== verification/Spec2Isabelle.thy ===== *)
theory Spec2Isabelle
  imports Lmb Strto Psci_props Bakery Membuff Circbuf Env_text Watchdog_props Xlat_props
begin

text \<open>
  A verification library for the boot firmware and drivers of this repository: U-Boot
  (\<^verbatim>\<open>src/uboot-marvell/u-boot-marvell\<close>), the ARM trusted firmware (\<^verbatim>\<open>src/uboot-marvell/atf-marvell\<close>)
  and the Linux watchdog drivers adapted for the board (\<^verbatim>\<open>src/kernel/driver\<close>).

  \<^bold>\<open>The parts and how they interact.\<close> The trusted firmware boots first. It stays resident and serves
  power management calls (PSCI) from the operating system; the service relies on a platform port for
  the shape of the power domains and on locks against concurrent calls. Every stage of it runs with the
  MMU on, on translation tables that it builds from a list of memory regions. U-Boot runs next: it
  keeps a map of free and reserved memory, reads its settings from an environment of named variables
  that is stored as text, and rests on its own C library. Linux then takes over the hardware watchdog:
  a character device for user space, a core that feeds the hardware in between, and a driver for the
  DesignWare block.

  \<^bold>\<open>Conventions.\<close> C integers are words of their width (\<open>u8\<close> to \<open>u64\<close> of \<open>Prelude\<close>), so arithmetic
  wraps where the code's does; \<open>int\<close> and \<open>nat\<close> stand for counters and indices that the code keeps
  far from their limits. Operations are functions on a record of the component's state in the option
  monad. \<open>None\<close> is what must not happen: a failed assertion, an access outside an array, a null
  pointer; error codes are ordinary results. Loops are structural recursions, functions with a
  termination measure, or \<open>partial_function (option)\<close> where the code itself may loop forever; claims
  that such a loop ends are proved as equations with \<open>Some\<close>. What is not in the repository or belongs
  to hardware (allocators, platform hooks, kernel services) is a parameter; a hypothesis about it
  states documented behaviour only.

  \<^bold>\<open>Memory map\<close> (\<open>Lmb\<close>; \<^verbatim>\<open>lib/lmb.c\<close>). The record \<open>lmb\<close> has both region tables as whole arrays with
  the stale entries behind the used ones. One definition per function, loops named after the function
  they belong to. The lemmas relate a table to the set of addresses it covers: adding and freeing change
  exactly the given range, the allocator returns free aligned memory, and three of its defects are
  proved (an empty table, the dummy entry of \<open>lmb_init\<close>, a full table on free).

  \<^bold>\<open>C library\<close> (\<open>Cstring\<close>, \<open>Strto\<close>, \<open>Qsort\<close>; \<^verbatim>\<open>lib/string.c\<close>, \<^verbatim>\<open>lib/strto.c\<close>, \<^verbatim>\<open>lib/qsort.c\<close>). Memory is a
  list of bytes and pointers are offsets. The word-wise copy, fill and search loops agree with their
  bytewise meaning whatever the alignment and overlap; number parsing inverts printing; the Shell sort
  sorts for every comparison that is a total preorder.

  \<^bold>\<open>Ring buffers\<close> (\<open>Byte_queue\<close>, \<open>Membuff\<close>, \<open>Circbuf\<close>; \<^verbatim>\<open>lib/membuff.c\<close>, \<^verbatim>\<open>lib/circbuf.c\<close>). The locale
  \<open>byte_queue\<close> is a first-in first-out queue of bounded size; both buffers interpret it, and its lemmas
  about whole sequences of puts and gets hold for both.

  \<^bold>\<open>Environment\<close> (\<open>Variable_store\<close>, \<open>Hashtable\<close>, \<open>Env_text\<close>; \<^verbatim>\<open>lib/hashtable.c\<close>). The locale
  \<open>variable_store\<close> is a finite map from names to values with room for so many new names. The hash
  table with double hashing and deleted slots interprets it; the text import is a client of the
  contract, and exporting and importing again gives the same variables. A table in which every
  slot has been used loses a variable, and an export with separator 0 overflows: both are proved.

  \<^bold>\<open>Power management\<close> (\<open>Psci\<close>, \<open>Psci_ops\<close>, \<open>Psci_main\<close>; \<^verbatim>\<open>lib/psci\<close>). The record \<open>psci\<close> has the node arrays,
  the requested states, the per-CPU data, the statistics and a trace of locks, hooks and cache
  operations. \<open>Psci_topo\<close> and \<open>Psci_coord\<close> say what the loops over the power domain tree compute,
  \<open>Psci_inv\<close> has the invariant, \<open>Psci_safe\<close> one lemma per operation, and \<open>Psci_sys\<close> the step relation of
  CPUs that call, wait, wake and boot in any order, with the contract of a platform as the locale
  \<open>psci_platform\<close>. \<open>A8k\<close> models the Armada 8K port and interprets the locale, and \<open>Psci_props\<close> states what
  follows: a running CPU's domains are never switched off, and no call from a reachable state fails an
  assertion.

  \<^bold>\<open>Bakery lock\<close> (\<open>Bakery\<close>; \<^verbatim>\<open>lib/locks/bakery\<close>). Each CPU is a program counter; a step is one access to the
  shared array. Mutual exclusion and freedom from deadlock hold for both builds as long as tickets fit
  in 15 bits; a run that overflows them breaks exclusion.

  \<^bold>\<open>Translation tables\<close> (\<open>Xlat\<close>; \<^verbatim>\<open>lib/xlat_tables_v2\<close>). The record \<open>xlat_ctx\<close> has the region array, the base
  table, the pool of subtables with their region counts and the invalidated addresses; a table descriptor
  holds the address of its subtable as in the code. The flag \<open>dyn\<close> is \<^verbatim>\<open>PLAT_XLAT_TABLES_DYNAMIC\<close>. The recursion into
  subtables has depth 4, which is enough because the last level is 3. \<open>Xlat_desc\<close> has the bits of descriptors,
  \<open>Xlat_tree\<close> reads tables as trees whose subtables are disjoint and out of the free pool, \<open>Xlat_map\<close> shows what
  mapping does to such a tree, \<open>Xlat_regions\<close> and \<open>Xlat_list\<close> the order of the region array under every sequence of calls,
  \<open>Xlat_build\<close> and \<open>Xlat_dyn\<close> the refinement: \<open>translate\<close>, the table walk of the code with its decoding, agrees with \<open>spec_translate\<close>, the
  first region of the list that holds the address. \<open>Xlat_unmap\<close> and \<open>Xlat_attr\<close> treat removal and changes of attributes, and
  \<open>Xlat_props\<close> states the properties, with a run in which a failed mapping corrupts a later one.

  \<^bold>\<open>Watchdog\<close> (\<open>Watchdog\<close>, \<open>Dw_wdt\<close>; \<^verbatim>\<open>watchdog_dev.c\<close>, \<^verbatim>\<open>watchdog_core.c\<close>, \<^verbatim>\<open>dw_wdt.c\<close>). One record holds the
  device, its core data and the clock; runs are lists of user calls, timer interrupts, worker runs
  and ticks. \<open>Watchdog_safe\<close> proves for every driver that meets the locale \<open>watchdog_driver\<close> that no run
  dereferences a null pointer or stops a device that may not be stopped. \<open>Dw_wdt_props\<close> interprets the
  locale for the DesignWare driver, \<open>Dw_wdt_feed\<close> shows that the kernel feeds the hardware from the
  probe on, and \<open>Watchdog_props\<close> states the properties and the defects (registration after a failed
  pretimeout, unbalanced references, a close that does not feed).

  \<^bold>\<open>Not modelled.\<close> Register-level drivers (USB, MMC, SPI, networking, DDR training, clocks, interrupt
  controllers), since their behaviour is that of hardware without a model; imported third-party code
  (compression, cryptography, libfdt, the allocator); the shell, the boot of images, file systems and
  the network stack of U-Boot, and the boot stages of the trusted firmware, which chain such parts
  together; cache maintenance and barriers other than as trace events; printing; enabling the
  MMU, and the tables of AArch32.
\<close>

end
